(* ===== verification/Loop_Prelude.thy ===== *)
theory Loop_Prelude
  imports
    Complex_Main
    "HOL-Library.AList"
    "HOL-Library.Char_ord"
    "HOL-Library.List_Lexorder"
    "HOL-Library.Product_Lexorder"
begin

text \<open>
  Shared vocabulary of the development.

  \<^item> Python dictionaries are association lists in insertion order (\<open>('k, 'v) dict\<close>):
    subscript assignment is \<open>AList.update\<close> (in place for a known key, at the end for a new
    one), \<open>pop\<close> is \<open>AList.delete\<close>, \<open>get\<close> is \<open>map_of\<close>.
  \<^item> Python integers are \<open>int\<close>, floats are \<open>rat\<close> (exact arithmetic; the code's floats are
    clocks, percentages and small multiples of one half), strings are \<open>char list\<close>, where a
    character is read as a code point below 256.
  \<^item> An exception is the left summand of a sum; the right summand is the value returned.
  \<^item> \<open>sorted(set(xs))\<close>, \<open>max(xs, key=...)\<close>, \<open>str.strip\<close> and \<open>str.lower\<close> are given by the
    functions below.
  The lemmas are the generic facts the component theories share.
\<close>

named_theorems acct_simps \<open>totals kept beside a dictionary of jobs or leases\<close>

section \<open>Dictionaries\<close>

type_synonym ('k, 'v) dict = "('k \<times> 'v) list"

abbreviation dict_get :: "('k, 'v) dict \<Rightarrow> 'k \<Rightarrow> 'v option" where
  "dict_get \<equiv> map_of"

abbreviation dict_set :: "('k, 'v) dict \<Rightarrow> 'k \<Rightarrow> 'v \<Rightarrow> ('k, 'v) dict" where
  "dict_set d k v \<equiv> AList.update k v d"

abbreviation dict_pop :: "('k, 'v) dict \<Rightarrow> 'k \<Rightarrow> ('k, 'v) dict" where
  "dict_pop d k \<equiv> AList.delete k d"

abbreviation dict_keys :: "('k, 'v) dict \<Rightarrow> 'k list" where
  "dict_keys d \<equiv> map fst d"

abbreviation dict_values :: "('k, 'v) dict \<Rightarrow> 'v list" where
  "dict_values d \<equiv> map snd d"

definition dict_get_or :: "('k, 'v) dict \<Rightarrow> 'k \<Rightarrow> 'v \<Rightarrow> 'v" where
  "dict_get_or d k x = (case map_of d k of None \<Rightarrow> x | Some v \<Rightarrow> v)"

definition in_dict :: "'k \<Rightarrow> ('k, 'v) dict \<Rightarrow> bool" where
  "in_dict k d \<longleftrightarrow> map_of d k \<noteq> None"

lemma dict_get_set [simp]: "map_of (AList.update k v d) = (map_of d)(k \<mapsto> v)"
  by (rule update_conv')

lemma dict_get_pop [simp]: "map_of (AList.delete k d) = (map_of d)(k := None)"
  by (rule delete_conv')

lemma in_dict_keys: "in_dict k d \<longleftrightarrow> k \<in> set (dict_keys d)"
  by (simp add: in_dict_def map_of_eq_None_iff)

lemma dict_get_or_set [simp]:
  "dict_get_or (AList.update k v d) k' x = (if k' = k then v else dict_get_or d k' x)"
  by (simp add: dict_get_or_def)

lemma dict_get_or_Nil [simp]: "dict_get_or [] k x = x"
  by (simp add: dict_get_or_def)

lemma dict_get_or_Some: "map_of d k = Some v \<Longrightarrow> dict_get_or d k x = v"
  by (simp add: dict_get_or_def)

lemma dict_keys_set_known:
  "k \<in> set (dict_keys d) \<Longrightarrow> dict_keys (AList.update k v d) = dict_keys d"
  by (induction d) auto

lemma dict_keys_set_new:
  "k \<notin> set (dict_keys d) \<Longrightarrow> dict_keys (AList.update k v d) = dict_keys d @ [k]"
  by (induction d) auto

lemma dict_set_new: "k \<notin> set (dict_keys d) \<Longrightarrow> AList.update k v d = d @ [(k, v)]"
  by (induction d) auto

lemma dict_get_in_values: "map_of d k = Some v \<Longrightarrow> v \<in> set (dict_values d)"
  by (force dest: map_of_SomeD)

lemma dict_get_key: "map_of d k = Some v \<Longrightarrow> k \<in> set (dict_keys d)"
  by (force dest: map_of_SomeD)

lemma dict_known_Some: "k \<in> set (dict_keys d) \<Longrightarrow> \<exists>v. map_of d k = Some v"
  by (metis map_of_eq_None_iff not_None_eq list.set_map)

lemma dict_values_get:
  "distinct (dict_keys d) \<Longrightarrow> v \<in> set (dict_values d) \<Longrightarrow> \<exists>k. map_of d k = Some v"
  by force

text \<open>Sums over the values of a dictionary follow every insertion and removal.\<close>

definition dict_sum :: "('v \<Rightarrow> 'n::comm_monoid_add) \<Rightarrow> ('k, 'v) dict \<Rightarrow> 'n" where
  "dict_sum f d = sum_list (map (\<lambda>p. f (snd p)) d)"

lemma dict_sum_simps [simp]:
  "dict_sum f [] = 0" "dict_sum f (p # d) = f (snd p) + dict_sum f d"
  "dict_sum f (d @ d') = dict_sum f d + dict_sum f d'"
  by (simp_all add: dict_sum_def)

lemma dict_sum_set_new [acct_simps]:
  "k \<notin> set (dict_keys d) \<Longrightarrow> dict_sum f (AList.update k v d) = dict_sum f d + f v"
  by (simp add: dict_set_new)

lemma delete_not_in: "k \<notin> set (dict_keys d) \<Longrightarrow> AList.delete k d = d"
  by (induction d) (auto simp: AList.delete_eq)

lemma pop_last: "k \<notin> fst ` set d \<Longrightarrow> AList.delete k (d @ [(k, v)]) = d"
  by (induction d) auto

lemma set_pop_subset: "set (AList.delete k d) \<subseteq> set d"
  by (auto simp: AList.delete_eq)

lemma dict_sum_pop [acct_simps]:
  fixes f :: "'v \<Rightarrow> 'n::ab_group_add"
  shows "distinct (dict_keys d) \<Longrightarrow> map_of d k = Some v \<Longrightarrow>
    dict_sum f (AList.delete k d) = dict_sum f d - f v"
proof (induction d)
  case Nil
  then show ?case by simp
next
  case (Cons p d)
  obtain k' v' where p: "p = (k', v')" by (cases p)
  show ?case
  proof (cases "k' = k")
    case True
    with Cons.prems p have "k \<notin> set (dict_keys d)" "v' = v" by auto
    with True p show ?thesis by (simp add: delete_not_in)
  next
    case False
    with Cons p show ?thesis by (auto simp: algebra_simps)
  qed
qed

lemma dict_sum_set_known [acct_simps]:
  fixes f :: "'v \<Rightarrow> 'n::ab_group_add"
  shows "distinct (dict_keys d) \<Longrightarrow> map_of d k = Some v \<Longrightarrow>
    dict_sum f (AList.update k v' d) = dict_sum f d - f v + f v'"
proof (induction d)
  case (Cons p d)
  then show ?case by (cases p) (auto simp: algebra_simps)
qed simp

lemma dict_sum_nonneg:
  fixes f :: "'v \<Rightarrow> 'n::ordered_comm_monoid_add"
  shows "(\<And>v. v \<in> set (dict_values d) \<Longrightarrow> 0 \<le> f v) \<Longrightarrow> 0 \<le> dict_sum f d"
  by (induction d) (auto intro!: add_nonneg_nonneg)

lemma dict_sum_one: "dict_sum (\<lambda>_. 1) d = of_nat (length d)"
  by (induction d) auto

lemma length_pop:
  "distinct (dict_keys d) \<Longrightarrow> map_of d k = Some v \<Longrightarrow> length d = Suc (length (AList.delete k d))"
proof (induction d)
  case (Cons p d)
  then show ?case by (cases p) (auto simp: delete_not_in split: if_splits)
qed simp

lemma distinct_keys_set [simp]:
  "distinct (dict_keys d) \<Longrightarrow> distinct (dict_keys (AList.update k v d))"
  by (rule distinct_update)

lemma distinct_keys_pop [simp]:
  "distinct (dict_keys d) \<Longrightarrow> distinct (dict_keys (AList.delete k d))"
  by (rule distinct_delete)

section \<open>Errors as values\<close>

definition ebind :: "'e + 'a \<Rightarrow> ('a \<Rightarrow> 'e + 'b) \<Rightarrow> 'e + 'b" where
  "ebind r f = (case r of Inl e \<Rightarrow> Inl e | Inr x \<Rightarrow> f x)"

lemma ebind_simps [simp]: "ebind (Inl e) f = Inl e" "ebind (Inr x) f = f x"
  by (simp_all add: ebind_def)

lemma ebind_Inr_conv: "ebind r f = Inr y \<longleftrightarrow> (\<exists>x. r = Inr x \<and> f x = Inr y)"
  by (cases r) auto

lemma guard_Inr_conv: "(if c then Inl e else r) = Inr y \<longleftrightarrow> \<not> c \<and> r = Inr y"
  by simp

definition subscript :: "('k \<Rightarrow> 'e) \<Rightarrow> ('k, 'v) dict \<Rightarrow> 'k \<Rightarrow> 'e + 'v" where
  \<comment> \<open>\<open>d[k]\<close>, which raises KeyError for an unknown key\<close>
  "subscript err d k = (case map_of d k of None \<Rightarrow> Inl (err k) | Some v \<Rightarrow> Inr v)"

lemma subscript_Some [simp]: "map_of d k = Some v \<Longrightarrow> subscript err d k = Inr v"
  by (simp add: subscript_def)

lemma subscript_Inr_conv: "subscript err d k = Inr v \<longleftrightarrow> map_of d k = Some v"
  by (simp add: subscript_def split: option.splits)

fun map_checked :: "('a \<Rightarrow> 'e + 'b) \<Rightarrow> 'a list \<Rightarrow> 'e + 'b list" where
  \<comment> \<open>a comprehension whose element expression may raise: the first error wins\<close>
  "map_checked f [] = Inr []"
| "map_checked f (x # xs) = ebind (f x) (\<lambda>y. ebind (map_checked f xs) (\<lambda>ys. Inr (y # ys)))"

lemma map_checked_id: "\<forall>x \<in> set xs. f x = Inr x \<Longrightarrow> map_checked f xs = Inr xs"
  by (induction xs) auto

lemma map_checked_elem: "map_checked f xs = Inr ys \<Longrightarrow> y \<in> set ys \<Longrightarrow> \<exists>x \<in> set xs. f x = Inr y"
  by (induction xs arbitrary: ys) (auto simp: ebind_Inr_conv)

lemma map_checked_cong: "(\<And>x. x \<in> set xs \<Longrightarrow> f x = g x) \<Longrightarrow> map_checked f xs = map_checked g xs"
  by (induction xs) auto

section \<open>Ordering, selection and text\<close>

definition sorted_set :: "'a::linorder list \<Rightarrow> 'a list" where
  \<comment> \<open>\<open>sorted(set(xs))\<close>\<close>
  "sorted_set xs = sort (remdups xs)"

lemma set_sorted_set [simp]: "set (sorted_set xs) = set xs"
  by (simp add: sorted_set_def)

lemma distinct_sorted_set [simp]: "distinct (sorted_set xs)"
  by (simp add: sorted_set_def)

lemma sorted_sorted_set [simp]: "sorted (sorted_set xs)"
  by (simp add: sorted_set_def)

lemma sorted_set_idem [simp]: "sorted_set (sorted_set xs) = sorted_set xs"
  by (rule sorted_distinct_set_unique) auto

lemma sorted_set_eqI: "set xs = set ys \<Longrightarrow> sorted_set xs = sorted_set ys"
  by (rule sorted_distinct_set_unique) auto

fun max_by :: "('a \<Rightarrow> 'k::linorder) \<Rightarrow> 'a \<Rightarrow> 'a list \<Rightarrow> 'a" where
  \<comment> \<open>\<open>max(x # xs, key=f)\<close>: the first element with the largest key\<close>
  "max_by f x [] = x"
| "max_by f x (y # ys) = max_by f (if f x < f y then y else x) ys"

lemma max_by_in: "max_by f x xs \<in> set (x # xs)"
proof (induction xs arbitrary: x)
  case (Cons y ys)
  show ?case using Cons.IH[of "if f x < f y then y else x"] by (auto split: if_splits)
qed simp

lemma max_by_ge: "y \<in> set (x # xs) \<Longrightarrow> f y \<le> f (max_by f x xs)"
proof (induction xs arbitrary: x y)
  case Nil
  then show ?case by simp
next
  case (Cons z zs)
  let ?b = "if f x < f z then z else x"
  have "f ?b \<le> f (max_by f ?b zs)" using Cons.IH[of ?b ?b] by simp
  moreover have "f x \<le> f ?b" "f z \<le> f ?b" by auto
  moreover have "y \<in> set zs \<Longrightarrow> f y \<le> f (max_by f ?b zs)" using Cons.IH[of y ?b] by simp
  ultimately show ?case using Cons.prems by fastforce
qed

definition min_by :: "('a \<Rightarrow> 'k::linorder) \<Rightarrow> 'a \<Rightarrow> 'a list \<Rightarrow> 'a" where
  \<comment> \<open>\<open>min(x # xs, key=f)\<close>: the first element with the smallest key\<close>
  "min_by f x xs = fold (\<lambda>y b. if f y < f b then y else b) xs x"

lemma min_by_in: "min_by f x xs \<in> set (x # xs)"
  unfolding min_by_def
proof (induction xs arbitrary: x)
  case (Cons y ys)
  show ?case using Cons.IH[of "if f y < f x then y else x"] by (auto split: if_splits)
qed simp

lemma min_by_le: "y \<in> set (x # xs) \<Longrightarrow> f (min_by f x xs) \<le> f y"
  unfolding min_by_def
proof (induction xs arbitrary: x y)
  case Nil
  then show ?case by simp
next
  case (Cons z zs)
  let ?b = "if f z < f x then z else x"
  let ?r = "fold (\<lambda>y b. if f y < f b then y else b) zs ?b"
  have "f ?r \<le> f ?b" using Cons.IH[of ?b ?b] by simp
  moreover have "f ?b \<le> f x" "f ?b \<le> f z" by auto
  moreover have "y \<in> set zs \<Longrightarrow> f ?r \<le> f y" using Cons.IH[of y ?b] by simp
  ultimately show ?case using Cons.prems by fastforce
qed

definition py_space :: "char \<Rightarrow> bool" where
  \<comment> \<open>\<open>str.isspace\<close> on code points below 256\<close>
  "py_space c \<longleftrightarrow> (of_char c :: nat) \<in> {9, 10, 11, 12, 13, 28, 29, 30, 31, 32, 133, 160}"

definition strip :: "string \<Rightarrow> string" where
  "strip s = rev (dropWhile py_space (rev (dropWhile py_space s)))"

lemma strip_strip [simp]: "strip (strip s) = strip s"
proof -
  let ?a = "dropWhile py_space s"
  let ?b = "dropWhile py_space (rev ?a)"
  have "dropWhile py_space (rev ?b) = rev ?b"
  proof (cases "rev ?b")
    case (Cons c cs)
    have "?a = rev ?b @ rev (takeWhile py_space (rev ?a))"
      by (metis rev_append rev_rev_ident takeWhile_dropWhile_id)
    then have "hd ?a = c" "?a \<noteq> []" using Cons by (metis append_Cons list.sel(1), metis append_Cons list.distinct(1))
    then have "\<not> py_space c" using hd_dropWhile by blast
    then show ?thesis using Cons by simp
  next
    case Nil
    then show ?thesis by (simp only: dropWhile.simps)
  qed
  then show ?thesis unfolding strip_def by (metis dropWhile_idem rev_rev_ident)
qed

lemma strip_no_space: "\<forall>c \<in> set s. \<not> py_space c \<Longrightarrow> strip s = s"
proof -
  have "dropWhile py_space t = t" if "\<forall>c \<in> set t. \<not> py_space c" for t using that by (cases t) auto
  from this [of s] this [of "rev s"]
  show "\<forall>c \<in> set s. \<not> py_space c \<Longrightarrow> strip s = s" by (simp add: strip_def)
qed

definition lower_char :: "char \<Rightarrow> char" where
  "lower_char c =
    (let n = (of_char c :: nat)
     in if (65 \<le> n \<and> n \<le> 90) \<or> (192 \<le> n \<and> n \<le> 222 \<and> n \<noteq> 215) then char_of (n + 32) else c)"

definition lower :: "string \<Rightarrow> string" where
  "lower s = map lower_char s"

definition hex_digits :: string where
  \<comment> \<open>the alphabet of a lowercase hexadecimal digest\<close>
  "hex_digits = ''0123456789abcdef''"

lemma hex_stable: "set r \<subseteq> set hex_digits \<Longrightarrow> lower (strip r) = r"
proof -
  assume r: "set r \<subseteq> set hex_digits"
  have "\<forall>c \<in> set hex_digits. \<not> py_space c" by code_simp
  with r have "strip r = r" by (intro strip_no_space) blast
  moreover have "\<forall>c \<in> set hex_digits. lower_char c = c" by code_simp
  with r have "lower r = r" by (auto simp: lower_def intro: map_idI)
  ultimately show ?thesis by simp
qed

fun show_nat :: "nat \<Rightarrow> string" where
  \<comment> \<open>decimal notation, as \<open>str\<close> writes it\<close>
  "show_nat n = (if n < 10 then [char_of (48 + n)] else show_nat (n div 10) @ [char_of (48 + n mod 10)])"

declare show_nat.simps [simp del]

definition show_int :: "int \<Rightarrow> string" where
  "show_int i = (if i < 0 then ''-'' @ show_nat (nat (- i)) else show_nat (nat i))"

fun contains_text :: "string \<Rightarrow> string \<Rightarrow> bool" where
  \<comment> \<open>\<open>needle in haystack\<close> for strings\<close>
  "contains_text needle [] \<longleftrightarrow> needle = []"
| "contains_text needle (c # cs) \<longleftrightarrow> take (length needle) (c # cs) = needle \<or> contains_text needle cs"

definition push_bounded :: "nat \<Rightarrow> 'a list \<Rightarrow> 'a \<Rightarrow> 'a list" where
  \<comment> \<open>\<open>append\<close> on a \<open>deque(maxlen=n)\<close>: the oldest entries fall off\<close>
  "push_bounded n xs x = (let ys = xs @ [x] in drop (length ys - n) ys)"

lemma length_push_bounded: "length (push_bounded n xs x) \<le> n"
  by (simp add: push_bounded_def Let_def)

section \<open>JSON-shaped values\<close>

datatype json = JNull | JBool bool | JNum rat | JStr string | JArr "json list" | JObj "(string \<times> json) list"

fun truthy :: "json \<Rightarrow> bool" where
  \<comment> \<open>Python truth value\<close>
  "truthy JNull = False"
| "truthy (JBool b) = b"
| "truthy (JNum r) = (r \<noteq> 0)"
| "truthy (JStr s) = (s \<noteq> [])"
| "truthy (JArr xs) = (xs \<noteq> [])"
| "truthy (JObj d) = (d \<noteq> [])"

definition jget :: "(string \<times> json) list \<Rightarrow> string \<Rightarrow> json" where
  \<comment> \<open>\<open>d.get(k)\<close>, where a missing key gives \<open>None\<close>\<close>
  "jget d k = (case map_of d k of None \<Rightarrow> JNull | Some v \<Rightarrow> v)"

definition jor :: "json \<Rightarrow> json \<Rightarrow> json" where
  \<comment> \<open>\<open>x or y\<close>\<close>
  "jor x y = (if truthy x then x else y)"

fun py_str :: "(json \<Rightarrow> string) \<Rightarrow> json \<Rightarrow> string" where
  \<comment> \<open>\<open>str(x)\<close>; the text of a value that is not a string is the parameter \<open>rep\<close>\<close>
  "py_str rep (JStr s) = s"
| "py_str rep v = rep v"

lemma map_of_sort_key: "map_of (sort_key fst d) k = map_of d k"
  \<comment> \<open>sorting the items of a dict keeps its lookups\<close>
proof -
  have "map_of (filter (\<lambda>p. fst p = k) x) k = map_of x k" for x by (induction x) auto
  then show ?thesis by (metis sort_key_stable)
qed

section \<open>Interfaces\<close>

text \<open>
  A validated value: construction normalises its fields or raises, and what it accepted it accepts again
  unchanged. Clients that store values and rebuild them from their fields rely on it.
\<close>

locale normalizer =
  fixes build :: "'a \<Rightarrow> 'e + 'a"
  assumes stable: "build x = Inr y \<Longrightarrow> build y = Inr y"
begin

lemma rebuild: "build x = Inr y \<Longrightarrow> build y = Inr y"
  by (rule stable)

lemma rebuild_all: "map_checked build xs = Inr ys \<Longrightarrow> map_checked build ys = Inr ys"
  by (intro map_checked_id) (blast dest: map_checked_elem stable)

lemma built_fixed: "map_checked build xs = Inr ys \<Longrightarrow> \<forall>y \<in> set ys. build y = Inr y"
  by (blast dest: map_checked_elem stable)

end

text \<open>
  A component as a transition system with an invariant: what holds initially and is kept by every step
  holds in every reachable state; a reflexive and transitive relation that every step from an invariant
  state respects relates the initial state to every reachable one.
\<close>

locale state_machine =
  fixes initial :: "'s \<Rightarrow> bool"
    and step :: "'s \<Rightarrow> 's \<Rightarrow> bool"
    and invariant :: "'s \<Rightarrow> bool"
  assumes initial_invariant: "initial s \<Longrightarrow> invariant s"
    and step_invariant: "step s s' \<Longrightarrow> invariant s \<Longrightarrow> invariant s'"
begin

lemma reach_invariant:
  assumes "initial s" and "step\<^sup>*\<^sup>* s t"
  shows "invariant t"
  using assms(2,1) by (induction rule: rtranclp_induct) (auto intro: initial_invariant step_invariant)

lemma reach_relates:
  assumes "initial s" and "step\<^sup>*\<^sup>* s t" and "\<And>u. R u u" and "\<And>u v w. R u v \<Longrightarrow> R v w \<Longrightarrow> R u w"
    and "\<And>u v. invariant u \<Longrightarrow> step u v \<Longrightarrow> R u v"
  shows "R s t"
  using assms(2)
proof (induction rule: rtranclp_induct)
  case base
  show ?case by (rule assms(3))
next
  case (step u v)
  then show ?case using assms(1,4,5) reach_invariant by blast
qed

end

end
