(* ===== verification/Usage_Ledger.thy ===== *)
theory Usage_Ledger
  imports Loop_Prelude
begin

text \<open>
  The contract several components rely on: a dictionary of live entries (jobs, leases, queue
  items) and, beside it, running totals per account (a client, a workspace, a resource, a byte
  count). The provider promises how an insertion and a removal change the dictionary and the
  totals; the client's facts are that the totals never drift from the entries, that they are
  never negative, and that a guard checked before an insertion bounds the total after it.
\<close>

locale usage_ledger =
  fixes entries :: "'s \<Rightarrow> ('k, 'v) dict"
    and total :: "'s \<Rightarrow> 'r \<Rightarrow> int"
    and weight :: "'r \<Rightarrow> 'v \<Rightarrow> int"
    and add :: "'k \<Rightarrow> 'v \<Rightarrow> 's \<Rightarrow> 's"
    and remove :: "'k \<Rightarrow> 'v \<Rightarrow> 's \<Rightarrow> 's"
    and ok :: "'v \<Rightarrow> bool"
  assumes entries_add: "entries (add k v s) = AList.update k v (entries s)"
    and total_add: "total (add k v s) r = total s r + weight r v"
    and entries_remove: "entries (remove k v s) = AList.delete k (entries s)"
    and total_remove: "0 \<le> total s r \<Longrightarrow> ok v \<Longrightarrow> total (remove k v s) r = max 0 (total s r - weight r v)"
    and weight_nonneg: "ok v \<Longrightarrow> 0 \<le> weight r v"
begin

definition balanced :: "'s \<Rightarrow> bool" where
  "balanced s \<longleftrightarrow> distinct (dict_keys (entries s))
     \<and> (\<forall>v \<in> set (dict_values (entries s)). ok v)
     \<and> (\<forall>r. total s r = dict_sum (weight r) (entries s))"

lemma balanced_cong:
  assumes "entries s' = entries s" and "\<And>r. total s' r = total s r"
  shows "balanced s' \<longleftrightarrow> balanced s"
  using assms by (simp add: balanced_def)

lemma balanced_nonneg: "balanced s \<Longrightarrow> 0 \<le> total s r"
  unfolding balanced_def by (metis dict_sum_nonneg weight_nonneg)

lemma balanced_add:
  assumes "balanced s" and "k \<notin> set (dict_keys (entries s))" and "ok v"
  shows "balanced (add k v s)"
  using assms unfolding balanced_def
  by (auto simp: entries_add total_add dict_set_new)

lemma entry_le_total:
  assumes "balanced s" and "map_of (entries s) k = Some v"
  shows "weight r v \<le> total s r"
proof -
  have d: "distinct (dict_keys (entries s))" using assms(1) by (simp add: balanced_def)
  have "dict_sum (weight r) (AList.delete k (entries s)) = dict_sum (weight r) (entries s) - weight r v"
    by (rule dict_sum_pop [OF d assms(2)])
  moreover have "0 \<le> dict_sum (weight r) (AList.delete k (entries s))"
    using assms(1) set_pop_subset[of k "entries s"]
    by (intro dict_sum_nonneg weight_nonneg) (auto simp: balanced_def)
  ultimately show ?thesis using assms(1) by (simp add: balanced_def)
qed

lemma total_remove_exact:
  assumes "balanced s" and "map_of (entries s) k = Some v"
  shows "total (remove k v s) r = total s r - weight r v"
proof -
  have "ok v" using assms by (auto simp: balanced_def dest: dict_get_in_values)
  then show ?thesis
    using entry_le_total [OF assms, of r] balanced_nonneg [OF assms(1), of r]
    by (simp add: total_remove)
qed

lemma balanced_remove:
  assumes "balanced s" and "map_of (entries s) k = Some v"
  shows "balanced (remove k v s)"
proof -
  have "total (remove k v s) r = total s r - weight r v" for r
    by (rule total_remove_exact [OF assms])
  moreover have "\<forall>x \<in> set (dict_values (AList.delete k (entries s))). ok x"
    using assms(1) set_pop_subset[of k "entries s"] by (auto simp: balanced_def)
  ultimately show ?thesis
    using assms(1) by (simp add: balanced_def entries_remove dict_sum_pop [OF _ assms(2)])
qed

lemma remove_le:
  assumes "balanced s" and "map_of (entries s) k = Some v"
  shows "total (remove k v s) r \<le> total s r"
proof -
  have "ok v" using assms by (auto simp: balanced_def dest: dict_get_in_values)
  then show ?thesis using total_remove_exact [OF assms, of r] weight_nonneg [of v r] by simp
qed

lemma add_remove_total:
  assumes "balanced s" and "k \<notin> set (dict_keys (entries s))" and "ok v"
  shows "total (remove k v (add k v s)) r = total s r"
    and "entries (remove k v (add k v s)) = entries s"
proof -
  have m: "map_of (entries (add k v s)) k = Some v" by (simp add: entries_add)
  show "total (remove k v (add k v s)) r = total s r"
    using total_remove_exact [OF balanced_add [OF assms] m, of r] by (simp add: total_add)
  show "entries (remove k v (add k v s)) = entries s"
    using assms(2) by (simp add: entries_add entries_remove dict_set_new pop_last)
qed

end

end
