(* ===== verification/Hub_Scheduler.thy ===== *)
theory Hub_Scheduler
  imports Usage_Ledger
begin

text \<open>
  The Hub's job scheduler, \<open>src/simplicio_loop/hub_scheduler.py\<close>: deficit round robin over
  clients with priority multipliers and aging, hierarchical admission quotas, a FIFO legacy
  authority for the modes \<open>off\<close> and \<open>shadow\<close>, and a policy record that pins a version to each
  job. \<open>FairScheduler\<close> is the object's state, one definition per method. The SHA-256 prefix
  that buckets a task in canary mode is the parameter \<open>h\<close> (\<open>int(hexdigest[:8], 16)\<close>).
  A method that raises returns \<open>Inl\<close> with one constructor per raise statement; a dictionary
  subscript that could miss is \<open>SchedulerKeyError\<close>, and the invariant shows that none does.
\<close>

section \<open>Data\<close>

datatype sched_error =
    PolicyModeInvalid | PolicyVersionsInvalid | CanaryPercentInvalid
  | LimitsNotPositive | AgingNotPositive | QuotaLimitNotPositive
  | JobIdentityInvalid | WorkspaceEmpty | UnknownPriority string
  | DuplicateTaskId | UnknownTask
  | QuotaExceededError string int int string string
  | SchedulerKeyError string

definition PRIORITY_GAIN_MULTIPLIER :: "(string, rat) dict" where
  "PRIORITY_GAIN_MULTIPLIER =
    [(''interactive'', 8), (''mapping'', 4), (''llm'', 2), (''test'', 3 / 2),
     (''build'', 1), (''background'', 1), (''maintenance'', 1 / 2)]"

definition SCHEDULER_MODES :: "string list" where
  "SCHEDULER_MODES = [''off'', ''shadow'', ''canary'', ''on'']"

definition FAIR_POLICY_VERSION :: string where
  "FAIR_POLICY_VERSION = ''fair-drr-v2''"

record ScheduledJob =
  sj_task_id :: string
  sj_client_id :: string
  sj_weight :: int
  sj_cost :: int
  sj_workspace_id :: string
  sj_priority :: string
  sj_scheduler_policy :: string

record SchedulerPolicy =
  sp_mode :: string
  sp_version :: string
  sp_previous_version :: string
  sp_canary_percent :: int

datatype sched_receipt =
    ShadowReceipt "string option" "string option" int
  | RolloutReceipt SchedulerPolicy SchedulerPolicy int int

record FairScheduler =
  fs_max_inflight :: int
  fs_quantum :: int
  fs_max_queue_per_client :: "int option"
  fs_max_queue_per_workspace :: "int option"
  fs_max_global_queue :: "int option"
  fs_aging_ticks :: int
  fs_aging_boost :: int
  fs_policy :: SchedulerPolicy
  fs_receipts :: "sched_receipt list"
  fs_queues :: "(string, ScheduledJob list) dict"
  fs_weights :: "(string, int) dict"
  fs_deficit :: "(string, rat) dict"
  fs_inflight :: "(string, int) dict"
  fs_order :: "string list"
  fs_cursor :: nat
  fs_jobs :: "(string, ScheduledJob) dict"
  fs_starvation :: int
  fs_client_total :: "(string, int) dict"
  fs_workspace_total :: "(string, int) dict"
  fs_global_total :: int
  fs_tick :: int
  fs_last_served :: "(string, int) dict"
  fs_served_total :: "(string, int) dict"

section \<open>Policy\<close>

definition SchedulerPolicy_post_init :: "SchedulerPolicy \<Rightarrow> sched_error + SchedulerPolicy" where
  "SchedulerPolicy_post_init p =
    (if sp_mode p \<notin> set SCHEDULER_MODES then Inl PolicyModeInvalid
     else if sp_version p = [] \<or> sp_previous_version p = []
          \<or> \<not> (0 \<le> sp_canary_percent p \<and> sp_canary_percent p \<le> 100)
     then Inl PolicyVersionsInvalid
     else if sp_mode p = ''canary'' \<and> sp_canary_percent p \<in> {0, 100}
     then Inl CanaryPercentInvalid
     else Inr p)"

definition SchedulerPolicy_policy_for ::
    "(string \<Rightarrow> nat) \<Rightarrow> SchedulerPolicy \<Rightarrow> string \<Rightarrow> string" where
  "SchedulerPolicy_policy_for h p tid =
    (if sp_mode p \<in> {''off'', ''shadow''} then sp_previous_version p
     else if sp_mode p = ''on'' then sp_version p
     else let bucket = int (h tid mod 100)
          in if bucket < sp_canary_percent p then sp_version p else sp_previous_version p)"

section \<open>Construction and admission\<close>

definition FairScheduler_init ::
    "int \<Rightarrow> int \<Rightarrow> int option \<Rightarrow> int option \<Rightarrow> int option \<Rightarrow> int \<Rightarrow> int \<Rightarrow> SchedulerPolicy
      \<Rightarrow> sched_error + FairScheduler" where
  "FairScheduler_init max_inflight quantum per_client per_workspace glob aging boost p =
    (if max_inflight < 1 \<or> quantum < 1 then Inl LimitsNotPositive
     else if aging < 1 \<or> boost < 1 then Inl AgingNotPositive
     else if \<exists>l \<in> set [per_client, per_workspace, glob]. case l of None \<Rightarrow> False | Some n \<Rightarrow> n < 1
     then Inl QuotaLimitNotPositive
     else Inr \<lparr>fs_max_inflight = max_inflight, fs_quantum = quantum,
       fs_max_queue_per_client = per_client, fs_max_queue_per_workspace = per_workspace,
       fs_max_global_queue = glob, fs_aging_ticks = aging, fs_aging_boost = boost,
       fs_policy = p, fs_receipts = [], fs_queues = [], fs_weights = [], fs_deficit = [],
       fs_inflight = [], fs_order = [], fs_cursor = 0, fs_jobs = [], fs_starvation = 0,
       fs_client_total = [], fs_workspace_total = [], fs_global_total = 0, fs_tick = 0,
       fs_last_served = [], fs_served_total = []\<rparr>)"

definition FairScheduler_check_quotas :: "FairScheduler \<Rightarrow> ScheduledJob \<Rightarrow> sched_error option" where
  "FairScheduler_check_quotas s job =
    (let c = sj_client_id job; w = sj_workspace_id job;
         wt = dict_get_or (fs_workspace_total s) w 0;
         ct = dict_get_or (fs_client_total s) c 0;
         global_check = (case fs_max_global_queue s of None \<Rightarrow> None
           | Some l \<Rightarrow> if fs_global_total s \<ge> l
                       then Some (QuotaExceededError ''global'' l (fs_global_total s) c w) else None);
         workspace_check = (case fs_max_queue_per_workspace s of None \<Rightarrow> None
           | Some l \<Rightarrow> if wt \<ge> l then Some (QuotaExceededError ''workspace'' l wt c w) else None);
         client_check = (case fs_max_queue_per_client s of None \<Rightarrow> None
           | Some l \<Rightarrow> if ct \<ge> l then Some (QuotaExceededError ''client'' l ct c w) else None)
     in case global_check of Some e \<Rightarrow> Some e
        | None \<Rightarrow> (case workspace_check of Some e \<Rightarrow> Some e | None \<Rightarrow> client_check))"

definition open_client :: "FairScheduler \<Rightarrow> string \<Rightarrow> FairScheduler" where
  \<comment> \<open>the first job of a client creates its queue and counters\<close>
  "open_client s c =
    (if in_dict c (fs_queues s) then s
     else s\<lparr>fs_queues := dict_set (fs_queues s) c [],
            fs_order := fs_order s @ [c],
            fs_deficit := dict_set (fs_deficit s) c 0,
            fs_inflight := dict_set (fs_inflight s) c 0,
            fs_last_served := dict_set (fs_last_served s) c (fs_tick s)\<rparr>)"

definition take_slot :: "string \<Rightarrow> ScheduledJob \<Rightarrow> FairScheduler \<Rightarrow> FairScheduler" where
  \<comment> \<open>the job table and the three totals an accepted job counts in\<close>
  "take_slot tid job s =
    s\<lparr>fs_jobs := dict_set (fs_jobs s) tid job,
      fs_client_total := dict_set (fs_client_total s) (sj_client_id job)
        (dict_get_or (fs_client_total s) (sj_client_id job) 0 + 1),
      fs_workspace_total := dict_set (fs_workspace_total s) (sj_workspace_id job)
        (dict_get_or (fs_workspace_total s) (sj_workspace_id job) 0 + 1),
      fs_global_total := fs_global_total s + 1\<rparr>"

definition queue_job :: "FairScheduler \<Rightarrow> ScheduledJob \<Rightarrow> FairScheduler" where
  "queue_job s job =
    (let c = sj_client_id job
     in s\<lparr>fs_weights := dict_set (fs_weights s) c
            (max (dict_get_or (fs_weights s) c 1) (sj_weight job)),
          fs_queues := dict_set (fs_queues s) c (dict_get_or (fs_queues s) c [] @ [job])\<rparr>)"

definition FairScheduler_enqueue ::
    "(string \<Rightarrow> nat) \<Rightarrow> FairScheduler \<Rightarrow> ScheduledJob \<Rightarrow> sched_error + FairScheduler" where
  "FairScheduler_enqueue h s job0 =
    (if sj_task_id job0 = [] \<or> sj_client_id job0 = [] \<or> sj_weight job0 < 1 \<or> sj_cost job0 < 1
     then Inl JobIdentityInvalid
     else if sj_workspace_id job0 = [] then Inl WorkspaceEmpty
     else if \<not> in_dict (sj_priority job0) PRIORITY_GAIN_MULTIPLIER
     then Inl (UnknownPriority (sj_priority job0))
     else let job = (if sj_scheduler_policy job0 = FAIR_POLICY_VERSION
                     then job0\<lparr>sj_scheduler_policy :=
                       SchedulerPolicy_policy_for h (fs_policy s) (sj_task_id job0)\<rparr>
                     else job0)
          in if in_dict (sj_task_id job) (fs_jobs s) then Inl DuplicateTaskId
             else case FairScheduler_check_quotas s job of
               Some e \<Rightarrow> Inl e
             | None \<Rightarrow> Inr (take_slot (sj_task_id job) job
                 (queue_job (open_client s (sj_client_id job)) job)))"

definition FairScheduler_release_slot :: "FairScheduler \<Rightarrow> ScheduledJob \<Rightarrow> FairScheduler" where
  "FairScheduler_release_slot s job =
    s\<lparr>fs_client_total := dict_set (fs_client_total s) (sj_client_id job)
        (max 0 (dict_get_or (fs_client_total s) (sj_client_id job) 0 - 1)),
      fs_workspace_total := dict_set (fs_workspace_total s) (sj_workspace_id job)
        (max 0 (dict_get_or (fs_workspace_total s) (sj_workspace_id job) 0 - 1)),
      fs_global_total := max 0 (fs_global_total s - 1)\<rparr>"

section \<open>Dispatch\<close>

definition base_gain :: "FairScheduler \<Rightarrow> string \<Rightarrow> rat \<Rightarrow> rat" where
  "base_gain s client mult = of_int (fs_quantum s * dict_get_or (fs_weights s) client 1) * mult"

definition served :: "FairScheduler \<Rightarrow> string \<Rightarrow> ScheduledJob list \<Rightarrow> int \<Rightarrow> FairScheduler" where
  \<comment> \<open>the bookkeeping both authorities do when a client's head job leaves\<close>
  "served s client rest infl =
    s\<lparr>fs_queues := dict_set (fs_queues s) client rest,
      fs_inflight := dict_set (fs_inflight s) client (infl + 1),
      fs_last_served := dict_set (fs_last_served s) client (fs_tick s),
      fs_served_total := dict_set (fs_served_total s) client
        (dict_get_or (fs_served_total s) client 0 + 1)\<rparr>"

definition next_attempt :: "FairScheduler \<Rightarrow> sched_error + FairScheduler \<times> ScheduledJob option" where
  "next_attempt s =
    (let n = length (fs_order s);
         client = fs_order s ! (fs_cursor s mod n);
         s1 = s\<lparr>fs_cursor := (fs_cursor s + 1) mod n\<rparr>
     in ebind (subscript SchedulerKeyError (fs_queues s1) client) (\<lambda>queue.
        case queue of
          [] \<Rightarrow> Inr (s1, None)
        | job # rest \<Rightarrow>
          ebind (subscript SchedulerKeyError PRIORITY_GAIN_MULTIPLIER (sj_priority job)) (\<lambda>mult.
          let waited = fs_tick s1 - dict_get_or (fs_last_served s1) client (fs_tick s1);
              aged = (waited > fs_aging_ticks s1);
              gain = (if aged then base_gain s1 client mult * of_int (fs_aging_boost s1)
                      else base_gain s1 client mult);
              s2 = (if aged then s1\<lparr>fs_starvation := fs_starvation s1 + 1\<rparr> else s1)
          in ebind (subscript SchedulerKeyError (fs_deficit s2) client) (\<lambda>d.
             let s3 = s2\<lparr>fs_deficit := dict_set (fs_deficit s2) client (d + gain)\<rparr>
             in ebind (subscript SchedulerKeyError (fs_inflight s3) client) (\<lambda>infl.
                if infl \<ge> fs_max_inflight s3 then Inr (s3, None)
                else if d + gain < of_int (sj_cost job) then Inr (s3, None)
                else Inr (served
                  (s3\<lparr>fs_deficit := dict_set (fs_deficit s3) client (d + gain - of_int (sj_cost job))\<rparr>)
                  client rest infl, Some job))))))"

fun next_loop :: "nat \<Rightarrow> FairScheduler \<Rightarrow> sched_error + FairScheduler \<times> ScheduledJob option" where
  "next_loop 0 s = Inr (s, None)"
| "next_loop (Suc k) s =
    (case next_attempt s of
       Inl e \<Rightarrow> Inl e
     | Inr (s', Some job) \<Rightarrow> Inr (s', Some job)
     | Inr (s', None) \<Rightarrow> next_loop k s')"

fun fifo_loop :: "FairScheduler \<Rightarrow> nat list \<Rightarrow> sched_error + FairScheduler \<times> ScheduledJob option" where
  "fifo_loop s [] = Inr (s, None)"
| "fifo_loop s (off # offs) =
    (let n = length (fs_order s);
         index = (fs_cursor s + off) mod n;
         client = fs_order s ! index
     in ebind (subscript SchedulerKeyError (fs_queues s) client) (\<lambda>queue.
        case queue of
          [] \<Rightarrow> fifo_loop s offs
        | job # rest \<Rightarrow>
          ebind (subscript SchedulerKeyError (fs_inflight s) client) (\<lambda>infl.
          if infl \<ge> fs_max_inflight s then fifo_loop s offs
          else Inr (served (s\<lparr>fs_cursor := (index + 1) mod n\<rparr>) client rest infl, Some job))))"

definition FairScheduler_next_fifo ::
    "FairScheduler \<Rightarrow> sched_error + FairScheduler \<times> ScheduledJob option" where
  "FairScheduler_next_fifo s =
    fifo_loop (s\<lparr>fs_tick := fs_tick s + 1\<rparr>) [0..<length (fs_order s)]"

fun fair_eligible ::
    "FairScheduler \<Rightarrow> nat \<Rightarrow> string list \<Rightarrow> sched_error + ((rat \<times> int) \<times> ScheduledJob) list" where
  "fair_eligible s i [] = Inr []"
| "fair_eligible s i (client # cs) =
    ebind (subscript SchedulerKeyError (fs_queues s) client) (\<lambda>queue.
      case queue of
        [] \<Rightarrow> fair_eligible s (Suc i) cs
      | job # rest \<Rightarrow>
        ebind (subscript SchedulerKeyError (fs_inflight s) client) (\<lambda>infl.
        if infl \<ge> fs_max_inflight s then fair_eligible s (Suc i) cs
        else ebind (subscript SchedulerKeyError PRIORITY_GAIN_MULTIPLIER (sj_priority job)) (\<lambda>mult.
             ebind (fair_eligible s (Suc i) cs) (\<lambda>more.
               Inr (((dict_get_or (fs_deficit s) client 0 + base_gain s client mult
                       - of_int (sj_cost job), - int i), job) # more)))))"

definition FairScheduler_fair_candidate :: "FairScheduler \<Rightarrow> sched_error + ScheduledJob option" where
  "FairScheduler_fair_candidate s =
    ebind (fair_eligible s 0 (fs_order s)) (\<lambda>eligible.
      Inr (case eligible of [] \<Rightarrow> None | x # xs \<Rightarrow> Some (snd (max_by fst x xs))))"

definition FairScheduler_next :: "FairScheduler \<Rightarrow> sched_error + FairScheduler \<times> ScheduledJob option" where
  "FairScheduler_next s =
    (if fs_order s = [] then Inr (s, None)
     else if sp_mode (fs_policy s) \<in> {''off'', ''shadow''} then
       ebind (if sp_mode (fs_policy s) = ''shadow'' then FairScheduler_fair_candidate s else Inr None)
         (\<lambda>candidate. ebind (FairScheduler_next_fifo s) (\<lambda>(s', authority).
           if sp_mode (fs_policy s) = ''shadow''
           then Inr (s'\<lparr>fs_receipts := push_bounded 100 (fs_receipts s')
                  (ShadowReceipt (map_option sj_task_id authority) (map_option sj_task_id candidate)
                    (if authority = None then 0 else 1))\<rparr>, authority)
           else Inr (s', authority)))
     else next_loop (length (fs_order s) * 4) (s\<lparr>fs_tick := fs_tick s + 1\<rparr>))"

definition FairScheduler_preview_next ::
    "FairScheduler \<Rightarrow> sched_error + FairScheduler \<times> ScheduledJob option" where
  "FairScheduler_preview_next s =
    ebind (FairScheduler_next s) (\<lambda>(s', job).
      Inr (s'\<lparr>fs_queues := fs_queues s, fs_deficit := fs_deficit s, fs_inflight := fs_inflight s,
              fs_cursor := fs_cursor s, fs_tick := fs_tick s, fs_last_served := fs_last_served s,
              fs_served_total := fs_served_total s, fs_starvation := fs_starvation s\<rparr>, job))"

section \<open>Completion, cancellation and rollout\<close>

definition drop_slot :: "string \<Rightarrow> ScheduledJob \<Rightarrow> FairScheduler \<Rightarrow> FairScheduler" where
  \<comment> \<open>\<open>_release_slot\<close> followed by \<open>_jobs.pop\<close>, as both \<open>complete\<close> and \<open>cancel\<close> do\<close>
  "drop_slot tid job s =
    (let s1 = FairScheduler_release_slot s job in s1\<lparr>fs_jobs := dict_pop (fs_jobs s1) tid\<rparr>)"

definition FairScheduler_complete :: "FairScheduler \<Rightarrow> string \<Rightarrow> sched_error + FairScheduler" where
  "FairScheduler_complete s tid =
    (case dict_get (fs_jobs s) tid of
       None \<Rightarrow> Inl UnknownTask
     | Some job \<Rightarrow>
       ebind (subscript SchedulerKeyError (fs_inflight s) (sj_client_id job)) (\<lambda>infl.
         Inr (drop_slot tid job
           (s\<lparr>fs_inflight := dict_set (fs_inflight s) (sj_client_id job) (max 0 (infl - 1))\<rparr>))))"

definition FairScheduler_cancel :: "FairScheduler \<Rightarrow> string \<Rightarrow> sched_error + FairScheduler \<times> bool" where
  "FairScheduler_cancel s tid =
    (case dict_get (fs_jobs s) tid of
       None \<Rightarrow> Inr (s, False)
     | Some job \<Rightarrow>
       ebind (subscript SchedulerKeyError (fs_queues s) (sj_client_id job)) (\<lambda>queue.
         Inr (drop_slot tid job
           (s\<lparr>fs_queues := dict_set (fs_queues s) (sj_client_id job)
                (filter (\<lambda>item. sj_task_id item \<noteq> tid) queue)\<rparr>), True)))"

definition FairScheduler_configure_policy ::
    "FairScheduler \<Rightarrow> SchedulerPolicy \<Rightarrow> FairScheduler \<times> sched_receipt" where
  "FairScheduler_configure_policy s p =
    (let receipt = RolloutReceipt (fs_policy s) p 0 1
     in (s\<lparr>fs_policy := p, fs_receipts := push_bounded 100 (fs_receipts s) receipt\<rparr>, receipt))"

definition FairScheduler_jains_fairness_index :: "FairScheduler \<Rightarrow> rat" where
  "FairScheduler_jains_fairness_index s =
    (let xs = map (\<lambda>c. dict_get_or (fs_served_total s) c 0) (fs_order s);
         total = sum_list xs;
         total_sq = sum_list (map (\<lambda>v. v * v) xs)
     in if xs = [] then 1
        else if total_sq = 0 then 1
        else of_int (total * total) / of_int (int (length xs) * total_sq))"

section \<open>Totals: the ledger contract\<close>

datatype sched_account = GlobalAcct | ClientAcct string | WorkspaceAcct string

fun sched_total :: "FairScheduler \<Rightarrow> sched_account \<Rightarrow> int" where
  "sched_total s GlobalAcct = fs_global_total s"
| "sched_total s (ClientAcct c) = dict_get_or (fs_client_total s) c 0"
| "sched_total s (WorkspaceAcct w) = dict_get_or (fs_workspace_total s) w 0"

fun sched_weight :: "sched_account \<Rightarrow> ScheduledJob \<Rightarrow> int" where
  "sched_weight GlobalAcct j = 1"
| "sched_weight (ClientAcct c) j = (if sj_client_id j = c then 1 else 0)"
| "sched_weight (WorkspaceAcct w) j = (if sj_workspace_id j = w then 1 else 0)"

lemma drop_slot_fields:
  "fs_jobs (drop_slot tid job s) = dict_pop (fs_jobs s) tid"
  by (simp add: drop_slot_def FairScheduler_release_slot_def Let_def)

interpretation fsl: usage_ledger fs_jobs sched_total sched_weight take_slot drop_slot "\<lambda>_. True"
proof (unfold_locales, goal_cases)
  case (2 k v s r)
  then show ?case by (cases r) (auto simp: take_slot_def)
next
  case (3 k v s)
  then show ?case by (rule drop_slot_fields)
next
  case (5 v r)
  then show ?case by (cases r) auto
next
  case (4 s r k v)
  then show ?case
    by (cases r) (auto simp: drop_slot_def FairScheduler_release_slot_def Let_def)
qed (simp_all add: take_slot_def)

section \<open>The invariant\<close>

definition job_ok :: "string \<Rightarrow> ScheduledJob \<Rightarrow> bool" where
  "job_ok c j \<longleftrightarrow> sj_client_id j = c \<and> 1 \<le> sj_cost j \<and> in_dict (sj_priority j) PRIORITY_GAIN_MULTIPLIER"

definition fs_config_ok :: "FairScheduler \<Rightarrow> bool" where
  "fs_config_ok s \<longleftrightarrow> 1 \<le> fs_max_inflight s \<and> 1 \<le> fs_quantum s \<and> 1 \<le> fs_aging_boost s"

definition fs_clients_ok :: "FairScheduler \<Rightarrow> bool" where
  "fs_clients_ok s \<longleftrightarrow> distinct (fs_order s) \<and> dict_keys (fs_queues s) = fs_order s
     \<and> dict_keys (fs_deficit s) = fs_order s \<and> dict_keys (fs_inflight s) = fs_order s"

definition fs_values_ok :: "FairScheduler \<Rightarrow> bool" where
  "fs_values_ok s \<longleftrightarrow>
     (\<forall>c w. map_of (fs_weights s) c = Some w \<longrightarrow> 1 \<le> w)
   \<and> (\<forall>c q. map_of (fs_queues s) c = Some q \<longrightarrow> (\<forall>j \<in> set q. job_ok c j))
   \<and> (\<forall>c d. map_of (fs_deficit s) c = Some d \<longrightarrow> 0 \<le> d)
   \<and> (\<forall>c i. map_of (fs_inflight s) c = Some i \<longrightarrow> 0 \<le> i \<and> i \<le> fs_max_inflight s)"

definition fs_struct :: "FairScheduler \<Rightarrow> bool" where
  "fs_struct s \<longleftrightarrow> fs_config_ok s \<and> fs_clients_ok s \<and> fs_values_ok s"

definition fs_table_ok :: "FairScheduler \<Rightarrow> bool" where
  "fs_table_ok s \<longleftrightarrow> (\<forall>t j. map_of (fs_jobs s) t = Some j \<longrightarrow>
     sj_task_id j = t \<and> sj_client_id j \<in> set (fs_order s))"

definition under_limit :: "int option \<Rightarrow> int \<Rightarrow> bool" where
  "under_limit l n \<longleftrightarrow> (case l of None \<Rightarrow> True | Some m \<Rightarrow> n \<le> m)"

definition fs_quota_ok :: "FairScheduler \<Rightarrow> bool" where
  "fs_quota_ok s \<longleftrightarrow> under_limit (fs_max_global_queue s) (sched_total s GlobalAcct)
     \<and> (\<forall>c. under_limit (fs_max_queue_per_client s) (sched_total s (ClientAcct c)))
     \<and> (\<forall>w. under_limit (fs_max_queue_per_workspace s) (sched_total s (WorkspaceAcct w)))"

definition sched_inv :: "FairScheduler \<Rightarrow> bool" where
  "sched_inv s \<longleftrightarrow> fs_struct s \<and> fsl.balanced s \<and> fs_table_ok s \<and> fs_quota_ok s"

lemma multiplier_pos: "map_of PRIORITY_GAIN_MULTIPLIER p = Some m \<Longrightarrow> 0 < m"
  by (auto simp: PRIORITY_GAIN_MULTIPLIER_def split: if_splits)

lemma fs_clients_okD:
  assumes "fs_clients_ok s" and "c \<in> set (fs_order s)"
  shows "\<exists>q d i. map_of (fs_queues s) c = Some q \<and> map_of (fs_deficit s) c = Some d
     \<and> map_of (fs_inflight s) c = Some i"
  using assms dict_known_Some[of c "fs_queues s"] dict_known_Some[of c "fs_deficit s"]
    dict_known_Some[of c "fs_inflight s"]
  unfolding fs_clients_ok_def by auto

lemma fs_queues_order: "fs_clients_ok s \<Longrightarrow> map_of (fs_queues s) c = Some q \<Longrightarrow> c \<in> set (fs_order s)"
  unfolding fs_clients_ok_def by (metis dict_get_key)

lemma weight_ge_1: "fs_values_ok s \<Longrightarrow> 1 \<le> dict_get_or (fs_weights s) c 1"
  by (auto simp: fs_values_ok_def dict_get_or_def split: option.splits)

lemma base_gain_pos:
  assumes "fs_struct s" and "map_of PRIORITY_GAIN_MULTIPLIER p = Some m"
  shows "0 < base_gain s c m"
proof -
  have "0 < fs_quantum s * dict_get_or (fs_weights s) c 1"
    using assms(1) weight_ge_1[of s c]
    by (intro mult_pos_pos) (auto simp: fs_struct_def fs_config_ok_def)
  then have "0 < (of_int (fs_quantum s * dict_get_or (fs_weights s) c 1) :: rat)"
    by (simp only: of_int_0_less_iff)
  then show ?thesis unfolding base_gain_def by (intro mult_pos_pos multiplier_pos [OF assms(2)])
qed

section \<open>One attempt of the fair loop\<close>

definition attempt_client :: "FairScheduler \<Rightarrow> string" where
  "attempt_client s = fs_order s ! (fs_cursor s mod length (fs_order s))"

definition advance :: "FairScheduler \<Rightarrow> FairScheduler" where
  "advance s = s\<lparr>fs_cursor := (fs_cursor s + 1) mod length (fs_order s)\<rparr>"

definition credited :: "FairScheduler \<Rightarrow> int \<Rightarrow> rat \<Rightarrow> FairScheduler" where
  "credited s st x = (advance s)\<lparr>fs_starvation := st,
     fs_deficit := dict_set (fs_deficit s) (attempt_client s) x\<rparr>"

lemma attempt_client_in: "fs_order s \<noteq> [] \<Longrightarrow> attempt_client s \<in> set (fs_order s)"
  by (simp add: attempt_client_def)

lemma next_attempt_cases:
  assumes "fs_struct s" and "fs_order s \<noteq> []"
  obtains
    (idle) "map_of (fs_queues s) (attempt_client s) = Some []"
      "next_attempt s = Inr (advance s, None)"
  | (hold) job rest d i gain st mult where
      "map_of (fs_queues s) (attempt_client s) = Some (job # rest)"
      "map_of (fs_deficit s) (attempt_client s) = Some d"
      "map_of (fs_inflight s) (attempt_client s) = Some i"
      "map_of PRIORITY_GAIN_MULTIPLIER (sj_priority job) = Some mult"
      "base_gain s (attempt_client s) mult \<le> gain"
      "fs_max_inflight s \<le> i \<or> d + gain < of_int (sj_cost job)"
      "next_attempt s = Inr (credited s st (d + gain), None)"
  | (dispatch) job rest d i gain st mult where
      "map_of (fs_queues s) (attempt_client s) = Some (job # rest)"
      "map_of (fs_deficit s) (attempt_client s) = Some d"
      "map_of (fs_inflight s) (attempt_client s) = Some i"
      "map_of PRIORITY_GAIN_MULTIPLIER (sj_priority job) = Some mult"
      "base_gain s (attempt_client s) mult \<le> gain"
      "i < fs_max_inflight s" "of_int (sj_cost job) \<le> d + gain"
      "next_attempt s = Inr (served ((credited s st (d + gain))\<lparr>fs_deficit :=
         dict_set (dict_set (fs_deficit s) (attempt_client s) (d + gain)) (attempt_client s)
           (d + gain - of_int (sj_cost job))\<rparr>) (attempt_client s) rest i, Some job)"
proof -
  let ?c = "attempt_client s"
  have cl: "fs_clients_ok s" and val: "fs_values_ok s" and boost: "1 \<le> fs_aging_boost s"
    using assms(1) by (auto simp: fs_struct_def fs_config_ok_def)
  obtain q d i where q: "map_of (fs_queues s) ?c = Some q"
    and d: "map_of (fs_deficit s) ?c = Some d" and i: "map_of (fs_inflight s) ?c = Some i"
    using fs_clients_okD [OF cl attempt_client_in [OF assms(2)]] by blast
  show thesis
  proof (cases q)
    case Nil
    with q show ?thesis
      by (intro idle) (simp_all add: next_attempt_def Let_def advance_def attempt_client_def)
  next
    case (Cons job rest)
    from q Cons val have "job_ok ?c job" by (auto simp: fs_values_ok_def)
    then obtain mult where m: "map_of PRIORITY_GAIN_MULTIPLIER (sj_priority job) = Some mult"
      by (auto simp: job_ok_def in_dict_def)
    let ?aged = "fs_tick s - dict_get_or (fs_last_served s) ?c (fs_tick s) > fs_aging_ticks s"
    define gain where "gain = (if ?aged then base_gain s ?c mult * of_int (fs_aging_boost s)
                               else base_gain s ?c mult)"
    define st where "st = (if ?aged then fs_starvation s + 1 else fs_starvation s)"
    have pos: "0 < base_gain s ?c mult" by (rule base_gain_pos [OF assms(1) m])
    have ge: "base_gain s ?c mult \<le> gain"
      using pos boost by (auto simp: gain_def mult_le_cancel_left1)
    have eq: "next_attempt s =
      (if fs_max_inflight s \<le> i then Inr (credited s st (d + gain), None)
       else if d + gain < of_int (sj_cost job) then Inr (credited s st (d + gain), None)
       else Inr (served ((credited s st (d + gain))\<lparr>fs_deficit :=
         dict_set (dict_set (fs_deficit s) ?c (d + gain)) ?c
           (d + gain - of_int (sj_cost job))\<rparr>) ?c rest i, Some job))"
      using q d i m Cons
      by (simp add: next_attempt_def Let_def credited_def advance_def attempt_client_def
          gain_def st_def base_gain_def)
    show ?thesis
    proof (cases "fs_max_inflight s \<le> i \<or> d + gain < of_int (sj_cost job)")
      case True
      with eq show ?thesis
        using hold [OF q [unfolded Cons] d i m ge True, of st] by (auto split: if_splits)
    next
      case False
      with eq show ?thesis
        using dispatch [OF q [unfolded Cons] d i m ge, of st] by simp
    qed
  qed
qed

section \<open>Dispatch keeps the structure and the accounts\<close>

definition fs_frame :: "FairScheduler \<Rightarrow> FairScheduler \<Rightarrow> bool" where
  \<comment> \<open>what no dispatch touches\<close>
  "fs_frame s s' \<longleftrightarrow> fs_jobs s' = fs_jobs s \<and> fs_client_total s' = fs_client_total s
     \<and> fs_workspace_total s' = fs_workspace_total s \<and> fs_global_total s' = fs_global_total s
     \<and> fs_weights s' = fs_weights s \<and> fs_order s' = fs_order s \<and> fs_policy s' = fs_policy s
     \<and> fs_max_inflight s' = fs_max_inflight s \<and> fs_quantum s' = fs_quantum s
     \<and> fs_max_queue_per_client s' = fs_max_queue_per_client s
     \<and> fs_max_queue_per_workspace s' = fs_max_queue_per_workspace s
     \<and> fs_max_global_queue s' = fs_max_global_queue s
     \<and> fs_aging_ticks s' = fs_aging_ticks s \<and> fs_aging_boost s' = fs_aging_boost s"

lemma fs_frame_refl [simp]: "fs_frame s s"
  by (simp add: fs_frame_def)

lemma fs_frame_trans: "fs_frame s s' \<Longrightarrow> fs_frame s' s'' \<Longrightarrow> fs_frame s s''"
  by (simp add: fs_frame_def)

lemma fs_frame_total: "fs_frame s s' \<Longrightarrow> sched_total s' r = sched_total s r"
  by (cases r) (simp_all add: fs_frame_def)

lemma sched_inv_frame:
  assumes "sched_inv s" and "fs_frame s s'" and "fs_struct s'"
  shows "sched_inv s'"
proof -
  have "fsl.balanced s' \<longleftrightarrow> fsl.balanced s"
    using assms(2) by (intro fsl.balanced_cong fs_frame_total) (simp_all add: fs_frame_def)
  moreover have "fs_quota_ok s' \<longleftrightarrow> fs_quota_ok s"
    unfolding fs_quota_ok_def fs_frame_total [OF assms(2)] using assms(2) by (simp add: fs_frame_def)
  moreover have "fs_table_ok s' \<longleftrightarrow> fs_table_ok s"
    using assms(2) by (simp add: fs_table_ok_def fs_frame_def)
  ultimately show ?thesis using assms(1,3) by (simp add: sched_inv_def)
qed

lemma fs_struct_credited:
  assumes "fs_struct s" and "fs_order s \<noteq> []" and "0 \<le> x"
  shows "fs_struct (credited s st x)"
proof -
  have k: "attempt_client s \<in> set (dict_keys (fs_deficit s))"
    using assms(1) attempt_client_in [OF assms(2)] by (simp add: fs_struct_def fs_clients_ok_def)
  then show ?thesis
    using assms(1,3) dict_keys_set_known [OF k, of x]
    by (simp add: fs_struct_def fs_config_ok_def fs_clients_ok_def fs_values_ok_def
        credited_def advance_def)
qed

lemma fs_struct_served:
  assumes "fs_struct s" and "map_of (fs_queues s) c = Some (j # rest)"
    and "map_of (fs_inflight s) c = Some i" and "i < fs_max_inflight s"
  shows "fs_struct (served s c rest i)"
proof -
  have "c \<in> set (dict_keys (fs_queues s))" "c \<in> set (dict_keys (fs_inflight s))"
    using assms(2,3) dict_get_key by metis+
  note keys = dict_keys_set_known [OF this(1), of rest] dict_keys_set_known [OF this(2), of "i + 1"]
  have old: "\<forall>x \<in> set (j # rest). job_ok c x" "0 \<le> i"
    using assms(1-3) by (force simp: fs_struct_def fs_values_ok_def)+
  show ?thesis
    using assms(1,4) old keys
    by (simp add: fs_struct_def fs_config_ok_def fs_clients_ok_def fs_values_ok_def served_def)
qed

lemma fs_struct_deficit:
  assumes "fs_struct s" and "c \<in> set (dict_keys (fs_deficit s))" and "0 \<le> x"
  shows "fs_struct (s\<lparr>fs_deficit := dict_set (fs_deficit s) c x\<rparr>)"
  using assms dict_keys_set_known [OF assms(2), of x]
  by (simp add: fs_struct_def fs_config_ok_def fs_clients_ok_def fs_values_ok_def)

lemma next_attempt_ok:
  assumes "fs_struct s" and "fs_order s \<noteq> []"
  shows "\<exists>s' r. next_attempt s = Inr (s', r) \<and> fs_struct s' \<and> fs_frame s s'"
  using assms
proof (cases rule: next_attempt_cases)
  case idle
  then show ?thesis
    using assms(1) by (simp add: advance_def fs_frame_def fs_struct_def fs_config_ok_def
        fs_clients_ok_def fs_values_ok_def)
next
  case (hold job rest d i gain st mult)
  have "0 \<le> d + gain"
    using assms(1) hold(2,5) base_gain_pos [OF assms(1) hold(4), of "attempt_client s"]
    by (force simp: fs_struct_def fs_values_ok_def)
  then show ?thesis
    using hold(7) fs_struct_credited [OF assms]
    by (simp add: fs_frame_def credited_def advance_def)
next
  case (dispatch job rest d i gain st mult)
  let ?c = "attempt_client s"
  have ge: "0 \<le> d + gain"
    using assms(1) dispatch(2,5) base_gain_pos [OF assms(1) dispatch(4), of ?c]
    by (force simp: fs_struct_def fs_values_ok_def)
  let ?s1 = "credited s st (d + gain)"
  let ?s2 = "?s1\<lparr>fs_deficit := dict_set (fs_deficit ?s1) ?c (d + gain - of_int (sj_cost job))\<rparr>"
  have c1: "?c \<in> set (dict_keys (fs_deficit ?s1))"
    by (simp add: credited_def dom_update)
  have "fs_struct ?s2"
    using fs_struct_deficit [OF fs_struct_credited [OF assms ge] c1] dispatch(7) by simp
  then have "fs_struct (served ?s2 ?c rest i)"
    by (rule fs_struct_served)
      (use dispatch in \<open>simp_all add: credited_def advance_def\<close>)
  then show ?thesis
    using dispatch(8) by (simp add: fs_frame_def credited_def advance_def served_def)
qed

lemma next_loop_ok:
  assumes "fs_struct s" and "fs_order s \<noteq> []"
  shows "\<exists>s' r. next_loop k s = Inr (s', r) \<and> fs_struct s' \<and> fs_frame s s'"
  using assms
proof (induction k arbitrary: s)
  case (Suc k)
  obtain s1 r where a: "next_attempt s = Inr (s1, r)" "fs_struct s1" "fs_frame s s1"
    using next_attempt_ok [OF Suc.prems] by blast
  show ?case
  proof (cases r)
    case None
    have "fs_order s1 \<noteq> []" using a(3) Suc.prems(2) by (simp add: fs_frame_def)
    then obtain s2 r2 where "next_loop k s1 = Inr (s2, r2)" "fs_struct s2" "fs_frame s1 s2"
      using Suc.IH [OF a(2)] by blast
    then show ?thesis using a None fs_frame_trans [OF a(3)] by auto
  next
    case (Some j)
    with a show ?thesis by auto
  qed
qed simp

lemma fifo_loop_ok:
  assumes "fs_struct s" and "fs_order s \<noteq> []"
  shows "\<exists>s' r. fifo_loop s offs = Inr (s', r) \<and> fs_struct s' \<and> fs_frame s s'"
proof (induction offs)
  case (Cons off offs)
  let ?index = "(fs_cursor s + off) mod length (fs_order s)"
  let ?c = "fs_order s ! ?index"
  have cl: "fs_clients_ok s" using assms(1) by (simp add: fs_struct_def)
  have c_in: "?c \<in> set (fs_order s)" using assms(2) by (intro nth_mem) simp
  obtain q d i where q: "map_of (fs_queues s) ?c = Some q" and i: "map_of (fs_inflight s) ?c = Some i"
    using fs_clients_okD [OF cl c_in] by blast
  show ?case
  proof (cases "q = [] \<or> fs_max_inflight s \<le> i")
    case True
    with q i Cons.IH show ?thesis by (auto simp: Let_def split: list.splits)
  next
    case False
    then obtain job rest where qc: "q = job # rest" by (auto simp: neq_Nil_conv)
    let ?s1 = "s\<lparr>fs_cursor := (?index + 1) mod length (fs_order s)\<rparr>"
    have "fs_struct ?s1"
      using assms(1) by (simp add: fs_struct_def fs_config_ok_def fs_clients_ok_def fs_values_ok_def)
    then have "fs_struct (served ?s1 ?c rest i)"
      by (rule fs_struct_served) (use q qc i False in simp_all)
    with False qc q i show ?thesis
      by (simp add: Let_def) (simp add: served_def fs_frame_def)
  qed
qed (use assms in simp)

lemma fair_eligible_ok:
  assumes "fs_struct s" and "set cs \<subseteq> set (fs_order s)"
  shows "\<exists>xs. fair_eligible s k cs = Inr xs"
  using assms(2)
proof (induction cs arbitrary: k)
  case (Cons c cs)
  have cl: "fs_clients_ok s" using assms(1) by (simp add: fs_struct_def)
  obtain q d i where q: "map_of (fs_queues s) c = Some q" and i: "map_of (fs_inflight s) c = Some i"
    using fs_clients_okD [OF cl, of c] Cons.prems by auto
  obtain xs where xs: "fair_eligible s (Suc k) cs = Inr xs" using Cons by auto
  show ?case
  proof (cases q)
    case (Cons job rest)
    with q assms(1) have "job_ok c job" by (auto simp: fs_struct_def fs_values_ok_def)
    then obtain m where "map_of PRIORITY_GAIN_MULTIPLIER (sj_priority job) = Some m"
      by (auto simp: job_ok_def in_dict_def)
    with Cons q i xs show ?thesis by simp
  qed (use q xs in simp)
qed simp

lemma fair_candidate_ok: "fs_struct s \<Longrightarrow> \<exists>r. FairScheduler_fair_candidate s = Inr r"
  using fair_eligible_ok [of s "fs_order s" 0] by (auto simp: FairScheduler_fair_candidate_def)

lemma fs_struct_tick: "fs_struct (s\<lparr>fs_tick := t\<rparr>) \<longleftrightarrow> fs_struct s"
  and fs_struct_receipts: "fs_struct (s\<lparr>fs_receipts := rs\<rparr>) \<longleftrightarrow> fs_struct s"
  and fs_struct_policy: "fs_struct (s\<lparr>fs_policy := p\<rparr>) \<longleftrightarrow> fs_struct s"
  by (simp_all add: fs_struct_def fs_config_ok_def fs_clients_ok_def fs_values_ok_def)

lemma next_fifo_ok:
  assumes "fs_struct s" and "fs_order s \<noteq> []"
  shows "\<exists>s' r. FairScheduler_next_fifo s = Inr (s', r) \<and> fs_struct s' \<and> fs_frame s s'"
proof -
  let ?s = "s\<lparr>fs_tick := fs_tick s + 1\<rparr>"
  have st: "fs_struct ?s" "fs_order ?s \<noteq> []" using assms by (simp_all add: fs_struct_tick)
  obtain s' r where "FairScheduler_next_fifo s = Inr (s', r)" "fs_struct s'" "fs_frame ?s s'"
    using fifo_loop_ok [OF st, of "[0..<length (fs_order s)]"] by (auto simp: FairScheduler_next_fifo_def)
  then show ?thesis by (auto simp: fs_frame_def)
qed

lemma next_ok:
  assumes "fs_struct s"
  shows "\<exists>s' r. FairScheduler_next s = Inr (s', r) \<and> fs_struct s' \<and> fs_frame s s'"
proof (cases "fs_order s = []")
  case True
  with assms show ?thesis by (simp add: FairScheduler_next_def)
next
  case ne: False
  show ?thesis
  proof (cases "sp_mode (fs_policy s) \<in> {''off'', ''shadow''}")
    case True
    obtain cand where c: "FairScheduler_fair_candidate s = Inr cand"
      using fair_candidate_ok [OF assms] by blast
    obtain s' r where "FairScheduler_next_fifo s = Inr (s', r)" "fs_struct s'" "fs_frame s s'"
      using next_fifo_ok [OF assms ne] by blast
    with True ne c show ?thesis
      by (auto simp: FairScheduler_next_def fs_struct_receipts) (auto simp: fs_frame_def)
  next
    case False
    let ?s = "s\<lparr>fs_tick := fs_tick s + 1\<rparr>"
    have st: "fs_struct ?s" "fs_order ?s \<noteq> []" using assms ne by (simp_all add: fs_struct_tick)
    obtain s' r where n: "next_loop (length (fs_order s) * 4) ?s = Inr (s', r)"
      "fs_struct s'" "fs_frame ?s s'"
      using next_loop_ok [OF st] by blast
    have "FairScheduler_next s = Inr (s', r)" using n(1) False ne by (simp add: FairScheduler_next_def)
    moreover have "fs_frame s s'" using n(3) by (simp add: fs_frame_def)
    ultimately show ?thesis using n(2) by blast
  qed
qed

section \<open>Every operation keeps the invariant\<close>

lemma open_client_struct:
  assumes "fs_struct s"
  shows "fs_struct (open_client s c)" and "c \<in> set (fs_order (open_client s c))"
    and "set (fs_order s) \<subseteq> set (fs_order (open_client s c))"
proof -
  have ord: "dict_keys (fs_queues s) = fs_order s" "dict_keys (fs_deficit s) = fs_order s"
    "dict_keys (fs_inflight s) = fs_order s"
    using assms by (auto simp: fs_struct_def fs_clients_ok_def)
  have known: "in_dict c (fs_queues s) \<longleftrightarrow> c \<in> set (fs_order s)"
    using ord(1) by (simp add: in_dict_keys)
  have m: "0 \<le> fs_max_inflight s" using assms by (simp add: fs_struct_def fs_config_ok_def)
  show "fs_struct (open_client s c)"
  proof (cases "c \<in> set (fs_order s)")
    case False
    then have n: "c \<notin> set (dict_keys (fs_queues s))" "c \<notin> set (dict_keys (fs_deficit s))"
      "c \<notin> set (dict_keys (fs_inflight s))" using ord by auto
    show ?thesis
      using False assms known ord m dict_keys_set_new [OF n(1), of "[]"]
        dict_keys_set_new [OF n(2), of 0] dict_keys_set_new [OF n(3), of 0]
      by (simp add: open_client_def fs_struct_def fs_config_ok_def fs_clients_ok_def fs_values_ok_def)
  qed (use assms known in \<open>simp add: open_client_def\<close>)
  show "c \<in> set (fs_order (open_client s c))" "set (fs_order s) \<subseteq> set (fs_order (open_client s c))"
    using known by (auto simp: open_client_def)
qed

lemma queue_job_struct:
  assumes "fs_struct s" and "sj_client_id j \<in> set (fs_order s)" and "job_ok (sj_client_id j) j"
  shows "fs_struct (queue_job s j)"
proof -
  let ?c = "sj_client_id j"
  have cl: "fs_clients_ok s" using assms(1) by (simp add: fs_struct_def)
  obtain q where q: "map_of (fs_queues s) ?c = Some q" using fs_clients_okD [OF cl assms(2)] by blast
  have k: "?c \<in> set (dict_keys (fs_queues s))" using dict_get_key [OF q] .
  have "\<forall>x \<in> set (q @ [j]). job_ok ?c x"
    using q assms(1,3) by (auto simp: fs_struct_def fs_values_ok_def)
  moreover have "1 \<le> max (dict_get_or (fs_weights s) ?c 1) (sj_weight j)"
    using weight_ge_1 [of s ?c] assms(1) by (simp add: fs_struct_def)
  ultimately show ?thesis
    using assms(1) dict_keys_set_known [OF k] dict_get_or_Some [OF q, of "[]"]
    by (simp add: queue_job_def Let_def fs_struct_def fs_config_ok_def fs_clients_ok_def fs_values_ok_def)
qed

lemma quota_check_passed:
  assumes "FairScheduler_check_quotas s job = None" and "fs_quota_ok s"
  shows "under_limit (fs_max_global_queue s) (fs_global_total s + 1)"
    and "under_limit (fs_max_queue_per_client s) (sched_total s (ClientAcct c) + sched_weight (ClientAcct c) job)"
    and "under_limit (fs_max_queue_per_workspace s) (sched_total s (WorkspaceAcct w) + sched_weight (WorkspaceAcct w) job)"
  using assms
  by (auto simp: FairScheduler_check_quotas_def Let_def fs_quota_ok_def under_limit_def
      split: option.splits if_splits)

lemma enqueue_frame:
  "fs_jobs (queue_job (open_client s c) j) = fs_jobs s"
  "sched_total (queue_job (open_client s c) j) r = sched_total s r"
  "fs_max_global_queue (queue_job (open_client s c) j) = fs_max_global_queue s"
  "fs_max_queue_per_client (queue_job (open_client s c) j) = fs_max_queue_per_client s"
  "fs_max_queue_per_workspace (queue_job (open_client s c) j) = fs_max_queue_per_workspace s"
  "fs_order (queue_job s' j) = fs_order s'"
  by (cases r; simp add: queue_job_def open_client_def Let_def)+

lemma take_slot_frame:
  "fs_struct (take_slot t j s) \<longleftrightarrow> fs_struct s" "fs_order (take_slot t j s) = fs_order s"
  "fs_jobs (take_slot t j s) = dict_set (fs_jobs s) t j"
  "fs_max_global_queue (take_slot t j s) = fs_max_global_queue s"
  "fs_max_queue_per_client (take_slot t j s) = fs_max_queue_per_client s"
  "fs_max_queue_per_workspace (take_slot t j s) = fs_max_queue_per_workspace s"
  by (simp_all add: take_slot_def fs_struct_def fs_config_ok_def fs_clients_ok_def fs_values_ok_def)

lemma enqueue_inv:
  assumes "sched_inv s" and "FairScheduler_enqueue h s job0 = Inr s'"
  shows "sched_inv s'"
proof -
  define job where "job = (if sj_scheduler_policy job0 = FAIR_POLICY_VERSION
    then job0\<lparr>sj_scheduler_policy := SchedulerPolicy_policy_for h (fs_policy s) (sj_task_id job0)\<rparr> else job0)"
  let ?c = "sj_client_id job" and ?t = "sj_task_id job"
  let ?s1 = "queue_job (open_client s ?c) job"
  have new: "\<not> in_dict ?t (fs_jobs s)" and chk: "FairScheduler_check_quotas s job = None"
    and s': "s' = take_slot ?t job ?s1" and jok: "job_ok ?c job"
    using assms(2) unfolding FairScheduler_enqueue_def Let_def job_def [symmetric]
    by (auto simp: job_ok_def job_def split: if_splits option.splits)
  have inv: "fs_struct s" "fsl.balanced s" "fs_table_ok s" "fs_quota_ok s"
    using assms(1) by (auto simp: sched_inv_def)
  note oc = open_client_struct [OF inv(1), of ?c]
  have st: "fs_struct ?s1" using queue_job_struct [OF oc(1,2) jok] .
  have "fsl.balanced ?s1" using inv(2) fsl.balanced_cong [of ?s1 s] by (simp add: enqueue_frame)
  then have bal: "fsl.balanced s'"
    unfolding s' using new by (intro fsl.balanced_add) (simp_all add: enqueue_frame in_dict_keys)
  have "fs_table_ok s'"
    using inv(3) oc(2,3) by (fastforce simp: fs_table_ok_def s' take_slot_frame enqueue_frame split: if_splits)
  moreover have "fs_quota_ok s'"
    using quota_check_passed [OF chk inv(4)]
    unfolding fs_quota_ok_def s' fsl.total_add enqueue_frame take_slot_frame by simp
  ultimately show ?thesis using bal st by (simp add: sched_inv_def s' take_slot_frame)
qed

lemma drop_slot_inv:
  assumes "sched_inv s" and "map_of (fs_jobs s) t = Some j"
  shows "sched_inv (drop_slot t j s)"
proof -
  have inv: "fs_struct s" "fsl.balanced s" "fs_table_ok s" "fs_quota_ok s"
    using assms(1) by (auto simp: sched_inv_def)
  have le: "sched_total (drop_slot t j s) r \<le> sched_total s r" for r
    by (rule fsl.remove_le [OF inv(2) assms(2)])
  have fr: "fs_struct (drop_slot t j s) \<longleftrightarrow> fs_struct s" "fs_order (drop_slot t j s) = fs_order s"
    "fs_max_global_queue (drop_slot t j s) = fs_max_global_queue s"
    "fs_max_queue_per_client (drop_slot t j s) = fs_max_queue_per_client s"
    "fs_max_queue_per_workspace (drop_slot t j s) = fs_max_queue_per_workspace s"
    by (simp_all add: drop_slot_def FairScheduler_release_slot_def Let_def fs_struct_def
        fs_config_ok_def fs_clients_ok_def fs_values_ok_def)
  have mono: "under_limit l n \<Longrightarrow> m \<le> n \<Longrightarrow> under_limit l m" for l n m
    by (auto simp: under_limit_def split: option.splits)
  have "fs_quota_ok (drop_slot t j s)"
    using inv(4) unfolding fs_quota_ok_def fr by (blast intro: mono le)
  moreover have "fs_table_ok (drop_slot t j s)"
    using inv(3) by (auto simp: fs_table_ok_def drop_slot_fields fr split: if_splits)
  ultimately show ?thesis
    using inv(1) fsl.balanced_remove [OF inv(2) assms(2)] by (simp add: sched_inv_def fr)
qed

lemma complete_inv:
  assumes "sched_inv s" and "FairScheduler_complete s t = Inr s'"
  shows "sched_inv s'"
proof -
  obtain j i where j: "map_of (fs_jobs s) t = Some j"
    and i: "map_of (fs_inflight s) (sj_client_id j) = Some i"
    and s': "s' = drop_slot t j (s\<lparr>fs_inflight := dict_set (fs_inflight s) (sj_client_id j) (max 0 (i - 1))\<rparr>)"
    using assms(2)
    by (auto simp: FairScheduler_complete_def ebind_Inr_conv subscript_Inr_conv split: option.splits)
  let ?s1 = "s\<lparr>fs_inflight := dict_set (fs_inflight s) (sj_client_id j) (max 0 (i - 1))\<rparr>"
  have st: "fs_struct s" using assms(1) by (simp add: sched_inv_def)
  have "0 \<le> i" "i \<le> fs_max_inflight s"
    using st i by (auto simp: fs_struct_def fs_values_ok_def)
  then have "fs_struct ?s1"
    using st dict_keys_set_known [OF dict_get_key [OF i], of "max 0 (i - 1)"]
    by (simp add: fs_struct_def fs_config_ok_def fs_clients_ok_def fs_values_ok_def)
  then have "sched_inv ?s1"
    by (rule sched_inv_frame [OF assms(1), rotated]) (simp add: fs_frame_def)
  then show ?thesis unfolding s' by (rule drop_slot_inv) (simp add: j)
qed

lemma cancel_inv:
  assumes "sched_inv s" and "FairScheduler_cancel s t = Inr (s', b)"
  shows "sched_inv s'"
proof (cases "map_of (fs_jobs s) t")
  case None
  with assms show ?thesis by (simp add: FairScheduler_cancel_def)
next
  case (Some j)
  then obtain q where q: "map_of (fs_queues s) (sj_client_id j) = Some q"
    and s': "s' = drop_slot t j (s\<lparr>fs_queues := dict_set (fs_queues s) (sj_client_id j)
       (filter (\<lambda>item. sj_task_id item \<noteq> t) q)\<rparr>)"
    using assms(2) by (auto simp: FairScheduler_cancel_def ebind_Inr_conv subscript_Inr_conv)
  let ?q = "filter (\<lambda>item. sj_task_id item \<noteq> t) q"
  let ?s1 = "s\<lparr>fs_queues := dict_set (fs_queues s) (sj_client_id j) ?q\<rparr>"
  have st: "fs_struct s" using assms(1) by (simp add: sched_inv_def)
  then have "fs_struct ?s1"
    using q dict_keys_set_known [OF dict_get_key [OF q], of ?q]
    by (simp add: fs_struct_def fs_config_ok_def fs_clients_ok_def fs_values_ok_def)
  then have "sched_inv ?s1"
    by (rule sched_inv_frame [OF assms(1), rotated]) (simp add: fs_frame_def)
  then show ?thesis unfolding s' by (rule drop_slot_inv) (simp add: Some)
qed

lemma next_inv:
  assumes "sched_inv s" and "FairScheduler_next s = Inr (s', r)"
  shows "sched_inv s'"
  using next_ok [of s] assms sched_inv_frame [OF assms(1), of s'] by (auto simp: sched_inv_def)

lemma preview_inv:
  assumes "sched_inv s" and "FairScheduler_preview_next s = Inr (s', r)"
  shows "sched_inv s'"
proof -
  have st: "fs_struct s" using assms(1) by (simp add: sched_inv_def)
  obtain s1 where n: "FairScheduler_next s = Inr (s1, r)" "fs_frame s s1"
    and s': "s' = s1\<lparr>fs_queues := fs_queues s, fs_deficit := fs_deficit s,
      fs_inflight := fs_inflight s, fs_cursor := fs_cursor s, fs_tick := fs_tick s,
      fs_last_served := fs_last_served s, fs_served_total := fs_served_total s,
      fs_starvation := fs_starvation s\<rparr>"
    using assms(2) next_ok [OF st] by (auto simp: FairScheduler_preview_next_def)
  have "fs_frame s s'" using n(2) by (simp add: s' fs_frame_def)
  moreover have "fs_struct s'"
    using st n(2) by (simp add: s' fs_frame_def fs_struct_def fs_config_ok_def fs_clients_ok_def fs_values_ok_def)
  ultimately show ?thesis by (rule sched_inv_frame [OF assms(1)])
qed

lemma configure_inv:
  assumes "sched_inv s"
  shows "sched_inv (fst (FairScheduler_configure_policy s p))"
proof -
  let ?s' = "s\<lparr>fs_policy := p, fs_receipts := push_bounded 100 (fs_receipts s) (RolloutReceipt (fs_policy s) p 0 1)\<rparr>"
  have "sched_total ?s' r = sched_total s r" for r by (cases r) simp_all
  then have "fsl.balanced ?s'" "fs_quota_ok ?s'"
    using assms fsl.balanced_cong [of ?s' s] by (simp_all add: sched_inv_def fs_quota_ok_def)
  then show ?thesis
    using assms by (simp add: sched_inv_def FairScheduler_configure_policy_def Let_def
        fs_struct_receipts fs_struct_policy fs_table_ok_def)
qed

lemma init_inv:
  assumes "FairScheduler_init m q pc pw g a b p = Inr s"
  shows "sched_inv s"
proof -
  have lim: "1 \<le> m" "1 \<le> q" "1 \<le> b"
    "\<And>l n. l \<in> {pc, pw, g} \<Longrightarrow> l = Some n \<Longrightarrow> 1 \<le> n"
    using assms by (auto simp: FairScheduler_init_def split: if_splits)
  have s: "s = \<lparr>fs_max_inflight = m, fs_quantum = q, fs_max_queue_per_client = pc,
    fs_max_queue_per_workspace = pw, fs_max_global_queue = g, fs_aging_ticks = a,
    fs_aging_boost = b, fs_policy = p, fs_receipts = [], fs_queues = [], fs_weights = [],
    fs_deficit = [], fs_inflight = [], fs_order = [], fs_cursor = 0, fs_jobs = [],
    fs_starvation = 0, fs_client_total = [], fs_workspace_total = [], fs_global_total = 0,
    fs_tick = 0, fs_last_served = [], fs_served_total = []\<rparr>"
    using assms by (simp add: FairScheduler_init_def split: if_splits)
  have tot: "sched_total s r = 0" for r by (cases r) (simp_all add: s)
  have "under_limit l 0" if "l \<in> {pc, pw, g}" for l
    using lim(4) [OF that] by (force simp: under_limit_def split: option.splits)
  then have "fs_quota_ok s" by (simp add: fs_quota_ok_def tot) (simp add: s)
  moreover have "fsl.balanced s" by (simp add: fsl.balanced_def tot) (simp add: s)
  ultimately show ?thesis
    using lim(1-3) by (simp add: sched_inv_def s fs_struct_def fs_config_ok_def fs_clients_ok_def
        fs_values_ok_def fs_table_ok_def)
qed

section \<open>Reachable schedulers\<close>

inductive sched_step :: "(string \<Rightarrow> nat) \<Rightarrow> FairScheduler \<Rightarrow> FairScheduler \<Rightarrow> bool" for h where
  step_enqueue: "FairScheduler_enqueue h s j = Inr s' \<Longrightarrow> sched_step h s s'"
| step_next: "FairScheduler_next s = Inr (s', r) \<Longrightarrow> sched_step h s s'"
| step_preview: "FairScheduler_preview_next s = Inr (s', r) \<Longrightarrow> sched_step h s s'"
| step_complete: "FairScheduler_complete s t = Inr s' \<Longrightarrow> sched_step h s s'"
| step_cancel: "FairScheduler_cancel s t = Inr (s', b) \<Longrightarrow> sched_step h s s'"
| step_configure: "FairScheduler_configure_policy s p = (s', r) \<Longrightarrow> sched_step h s s'"

inductive sched_reachable :: "(string \<Rightarrow> nat) \<Rightarrow> FairScheduler \<Rightarrow> bool" for h where
  reach_init: "FairScheduler_init m q pc pw g a b p = Inr s \<Longrightarrow> sched_reachable h s"
| reach_step: "sched_reachable h s \<Longrightarrow> sched_step h s s' \<Longrightarrow> sched_reachable h s'"

inductive_cases sched_stepE: "sched_step h s s'"

lemma sched_step_inv: "sched_step h s s' \<Longrightarrow> sched_inv s \<Longrightarrow> sched_inv s'"
  by (auto elim!: sched_stepE intro: enqueue_inv next_inv preview_inv complete_inv cancel_inv)
    (metis configure_inv fst_conv)

lemma reachable_inv: "sched_reachable h s \<Longrightarrow> sched_inv s"
  by (induction rule: sched_reachable.induct) (auto intro: init_inv sched_step_inv)

section \<open>A backlogged client is served within a bounded number of calls\<close>

text \<open>
  The argument is a potential: between two services of a client \<open>c\<close>, every attempt of the loop
  either moves the cursor one client closer to \<open>c\<close> or visits \<open>c\<close> and credits its deficit.
\<close>

definition pos :: "FairScheduler \<Rightarrow> string \<Rightarrow> nat" where
  "pos s c = length (takeWhile (\<lambda>x. x \<noteq> c) (fs_order s))"

definition dist_to :: "FairScheduler \<Rightarrow> string \<Rightarrow> nat" where
  "dist_to s c = (let n = length (fs_order s); a = fs_cursor s mod n
                  in if a \<le> pos s c then pos s c - a else pos s c + n - a)"

definition deficit_of :: "FairScheduler \<Rightarrow> string \<Rightarrow> rat" where
  "deficit_of s c = dict_get_or (fs_deficit s) c 0"

definition potential :: "FairScheduler \<Rightarrow> string \<Rightarrow> rat \<Rightarrow> rat" where
  "potential s c g = deficit_of s c * of_nat (length (fs_order s))
     + g * of_nat (length (fs_order s) - 1 - dist_to s c)"

fun skips :: "string \<Rightarrow> ScheduledJob option \<Rightarrow> bool" where
  "skips c None = True"
| "skips c (Some j) = (sj_client_id j \<noteq> c)"

fun calls_skip :: "string \<Rightarrow> nat \<Rightarrow> FairScheduler \<Rightarrow> bool" where
  \<comment> \<open>\<open>k\<close> consecutive calls of \<open>next\<close> serve nothing of client \<open>c\<close>\<close>
  "calls_skip c 0 s = True"
| "calls_skip c (Suc k) s =
    (case FairScheduler_next s of Inl e \<Rightarrow> False | Inr (s', r) \<Rightarrow> skips c r \<and> calls_skip c k s')"

lemma takeWhile_length_less: "c \<in> set xs \<Longrightarrow> length (takeWhile (\<lambda>x. x \<noteq> c) xs) < length xs"
  by (induction xs) auto

lemma pos_less: "c \<in> set (fs_order s) \<Longrightarrow> pos s c < length (fs_order s)"
  by (simp add: pos_def takeWhile_length_less)

lemma nth_pos: "c \<in> set (fs_order s) \<Longrightarrow> fs_order s ! pos s c = c"
  using pos_less [of c s] nth_length_takeWhile [of "\<lambda>x. x \<noteq> c" "fs_order s"] by (simp add: pos_def)

lemma attempt_client_pos:
  assumes "fs_struct s" and "c \<in> set (fs_order s)"
  shows "attempt_client s = c \<longleftrightarrow> fs_cursor s mod length (fs_order s) = pos s c"
proof -
  have "distinct (fs_order s)" "fs_cursor s mod length (fs_order s) < length (fs_order s)"
    using assms(1) length_pos_if_in_set [OF assms(2)] by (simp_all add: fs_struct_def fs_clients_ok_def)
  then show ?thesis
    using nth_pos [OF assms(2)] pos_less [OF assms(2)] unfolding attempt_client_def
    by (metis nth_eq_iff_index_eq)
qed

lemma dist_step:
  assumes "c \<in> set (fs_order s)" and "fs_order s' = fs_order s"
    and "fs_cursor s' = (fs_cursor s + 1) mod length (fs_order s)"
  shows "fs_cursor s mod length (fs_order s) \<noteq> pos s c \<Longrightarrow> dist_to s c = dist_to s' c + 1"
    and "fs_cursor s mod length (fs_order s) = pos s c \<Longrightarrow>
      dist_to s c = 0 \<and> dist_to s' c = length (fs_order s) - 1"
    and "dist_to s c < length (fs_order s)"
proof -
  let ?n = "length (fs_order s)" and ?a = "fs_cursor s mod length (fs_order s)"
  have p: "pos s' c = pos s c" using assms(2) by (simp add: pos_def)
  have c': "fs_cursor s' mod ?n = (if Suc ?a = ?n then 0 else Suc ?a)"
    using assms(3) by (simp add: mod_Suc)
  have lt: "pos s c < ?n" "?a < ?n"
    using pos_less [OF assms(1)] by (auto intro: mod_less_divisor)
  show "?a \<noteq> pos s c \<Longrightarrow> dist_to s c = dist_to s' c + 1"
    using lt c' p assms(2) by (auto simp: dist_to_def Let_def split: if_splits)
  show "?a = pos s c \<Longrightarrow> dist_to s c = 0 \<and> dist_to s' c = ?n - 1"
    using lt c' p assms(2) by (simp add: dist_to_def Let_def split: if_splits)
  show "dist_to s c < ?n"
    using lt by (auto simp: dist_to_def Let_def)
qed

definition backlogged :: "FairScheduler \<Rightarrow> string \<Rightarrow> ScheduledJob \<Rightarrow> rat \<Rightarrow> bool" where
  \<comment> \<open>\<open>c\<close>'s head job is \<open>j\<close>, with multiplier \<open>m\<close>, and \<open>c\<close> has a free in-flight slot\<close>
  "backlogged s c j m \<longleftrightarrow> fs_struct s \<and> (\<exists>rest. map_of (fs_queues s) c = Some (j # rest))
     \<and> map_of PRIORITY_GAIN_MULTIPLIER (sj_priority j) = Some m
     \<and> (\<exists>i. map_of (fs_inflight s) c = Some i \<and> i < fs_max_inflight s)"

definition advanced :: "nat \<Rightarrow> FairScheduler \<Rightarrow> FairScheduler \<Rightarrow> string \<Rightarrow> ScheduledJob \<Rightarrow> rat \<Rightarrow> bool" where
  "advanced k s s' c j g \<longleftrightarrow> potential s c g + of_nat k * g \<le> potential s' c g
     \<and> (deficit_of s' c < of_int (sj_cost j)
        \<or> (deficit_of s' c = deficit_of s c \<and> dist_to s' c + k \<le> dist_to s c))"

lemma advanced_trans:
  "advanced k s s1 c j g \<Longrightarrow> advanced l s1 s2 c j g \<Longrightarrow> advanced (k + l) s s2 c j g"
  unfolding advanced_def by (auto simp: algebra_simps)

lemma advanced_weaken: "advanced k s s' c j g \<Longrightarrow> l \<le> k \<Longrightarrow> 0 \<le> g \<Longrightarrow> advanced l s s' c j g"
  unfolding advanced_def
  by (auto intro: order_trans [OF add_left_mono [OF mult_right_mono [OF of_nat_mono]]])

lemma backlogged_in_order: "backlogged s c j m \<Longrightarrow> c \<in> set (fs_order s)"
  by (auto simp: backlogged_def fs_struct_def dest: fs_queues_order)

lemma potential_step:
  assumes c: "c \<in> set (fs_order s)" and o: "fs_order s' = fs_order s" and g: "0 \<le> g"
    and cur: "fs_cursor s' = (fs_cursor s + 1) mod length (fs_order s)"
  shows "fs_cursor s mod length (fs_order s) \<noteq> pos s c \<Longrightarrow> deficit_of s' c = deficit_of s c \<Longrightarrow>
           potential s c g + g \<le> potential s' c g"
    and "fs_cursor s mod length (fs_order s) = pos s c \<Longrightarrow> deficit_of s c + g \<le> deficit_of s' c \<Longrightarrow>
           potential s c g + g \<le> potential s' c g"
proof -
  let ?n = "length (fs_order s)"
  note d = dist_step [OF c o cur]
  show "potential s c g + g \<le> potential s' c g"
    if "fs_cursor s mod ?n \<noteq> pos s c" "deficit_of s' c = deficit_of s c"
  proof -
    have "?n - 1 - dist_to s' c = Suc (?n - 1 - dist_to s c)" using d(1) [OF that(1)] d(3) by linarith
    then show ?thesis using that(2) o by (simp add: potential_def algebra_simps)
  qed
  show "potential s c g + g \<le> potential s' c g"
    if "fs_cursor s mod ?n = pos s c" "deficit_of s c + g \<le> deficit_of s' c"
  proof -
    have n: "(of_nat ?n :: rat) = of_nat (?n - 1) + 1"
      using d(3) by (simp flip: of_nat_Suc)
    have "(deficit_of s c + g) * of_nat ?n \<le> deficit_of s' c * of_nat ?n"
      using that(2) by (intro mult_right_mono) simp_all
    then show ?thesis
      using d(2) [OF that(1)] o by (simp add: potential_def algebra_simps n)
  qed
qed

lemma attempt_skip:
  assumes b: "backlogged s c j m" and run: "next_attempt s = Inr (s', r)" and sk: "skips c r"
  shows "backlogged s' c j m \<and> fs_frame s s' \<and> advanced 1 s s' c j (base_gain s c m)"
proof -
  have st: "fs_struct s" and c: "c \<in> set (fs_order s)"
    using b backlogged_in_order [OF b] by (auto simp: backlogged_def)
  have ne: "fs_order s \<noteq> []" using c by auto
  obtain rest0 i0 where q0: "map_of (fs_queues s) c = Some (j # rest0)"
    and m0: "map_of PRIORITY_GAIN_MULTIPLIER (sj_priority j) = Some m"
    and i0: "map_of (fs_inflight s) c = Some i0" "i0 < fs_max_inflight s"
    using b by (auto simp: backlogged_def)
  have g: "0 \<le> base_gain s c m" using base_gain_pos [OF st m0, of c] by simp
  have ok: "fs_struct s'" "fs_frame s s'" using next_attempt_ok [OF st ne] run by auto
  then have o: "fs_order s' = fs_order s" by (simp add: fs_frame_def)
  note client = attempt_client_pos [OF st c]
  have step: "backlogged s' c j m \<and> advanced 1 s s' c j (base_gain s c m)"
    if cur: "fs_cursor s' = (fs_cursor s + 1) mod length (fs_order s)"
      and q: "map_of (fs_queues s') c = map_of (fs_queues s) c"
      and i: "map_of (fs_inflight s') c = map_of (fs_inflight s) c"
      and far: "attempt_client s \<noteq> c \<Longrightarrow> deficit_of s' c = deficit_of s c"
      and near: "attempt_client s = c \<Longrightarrow> deficit_of s c + base_gain s c m \<le> deficit_of s' c
                   \<and> deficit_of s' c < of_int (sj_cost j)"
  proof -
    have "backlogged s' c j m"
      using ok q0 m0 i0 q i by (simp add: backlogged_def fs_frame_def)
    moreover have "advanced 1 s s' c j (base_gain s c m)"
      using potential_step [OF c o g cur] dist_step(1) [OF c o cur] client far near
      unfolding advanced_def by fastforce
    ultimately show ?thesis by blast
  qed
  from st ne show ?thesis
  proof (cases rule: next_attempt_cases)
    case idle
    with run have s': "s' = advance s" by simp
    have "attempt_client s \<noteq> c" using idle(1) q0 by auto
    then show ?thesis using step ok(2) s' by (simp add: advance_def deficit_of_def)
  next
    case (hold job rest d i gain st' mult)
    with run have s': "s' = credited s st' (d + gain)" by simp
    have "backlogged s' c j m \<and> advanced 1 s s' c j (base_gain s c m)"
    proof (rule step)
      show "fs_cursor s' = (fs_cursor s + 1) mod length (fs_order s)"
        "map_of (fs_queues s') c = map_of (fs_queues s) c"
        "map_of (fs_inflight s') c = map_of (fs_inflight s) c"
        by (simp_all add: s' credited_def advance_def)
      show "deficit_of s' c = deficit_of s c" if "attempt_client s \<noteq> c"
        using that by (simp add: s' credited_def deficit_of_def)
      show "deficit_of s c + base_gain s c m \<le> deficit_of s' c
          \<and> deficit_of s' c < of_int (sj_cost j)" if ac: "attempt_client s = c"
      proof -
        have "job = j" "i = i0" "mult = m" using hold(1,3,4) q0 i0 m0 ac by auto
        then show ?thesis
          using hold(2,5,6) ac i0(2) by (simp add: s' credited_def deficit_of_def dict_get_or_Some)
      qed
    qed
    then show ?thesis using ok(2) by blast
  next
    case (dispatch job rest d i gain st' mult)
    have "job_ok (attempt_client s) job"
      using st dispatch(1) by (auto simp: fs_struct_def fs_values_ok_def)
    then have "attempt_client s \<noteq> c" using run dispatch(8) sk by (auto simp: job_ok_def)
    moreover have "s' = served ((credited s st' (d + gain))\<lparr>fs_deficit :=
         dict_set (dict_set (fs_deficit s) (attempt_client s) (d + gain)) (attempt_client s)
           (d + gain - of_int (sj_cost job))\<rparr>) (attempt_client s) rest i"
      using run dispatch(8) by simp
    ultimately show ?thesis
      using step ok(2) by (simp add: credited_def advance_def served_def deficit_of_def)
  qed
qed

lemma base_gain_frame: "fs_frame s s' \<Longrightarrow> base_gain s' c m = base_gain s c m"
  by (simp add: fs_frame_def base_gain_def)

lemma loop_skip:
  assumes "backlogged s c j m" and "next_loop (Suc k) s = Inr (s', r)" and "skips c r"
  shows "backlogged s' c j m \<and> fs_frame s s' \<and> advanced 1 s s' c j (base_gain s c m)"
  using assms
proof (induction k arbitrary: s)
  case 0
  then show ?case
    using attempt_skip [of s c j m s' r] by (auto split: sum.splits option.splits prod.splits)
next
  case (Suc k)
  have st: "fs_struct s" "fs_order s \<noteq> []"
    using Suc.prems(1) backlogged_in_order [OF Suc.prems(1)] by (auto simp: backlogged_def)
  obtain s1 r1 where a: "next_attempt s = Inr (s1, r1)" using next_attempt_ok [OF st] by blast
  show ?case
  proof (cases r1)
    case None
    have one: "backlogged s1 c j m" "fs_frame s s1" "advanced 1 s s1 c j (base_gain s c m)"
      using attempt_skip [OF Suc.prems(1) a] None by auto
    have "next_loop (Suc k) s1 = Inr (s', r)" using Suc.prems(2) a None by simp
    note IH = Suc.IH [OF one(1) this Suc.prems(3)]
    have "0 \<le> base_gain s c m"
      using base_gain_pos [OF st(1), of "sj_priority j" m c] Suc.prems(1) by (simp add: backlogged_def)
    moreover have "advanced (1 + 1) s s' c j (base_gain s c m)"
      using IH base_gain_frame [OF one(2), of c m] by (intro advanced_trans [OF one(3)]) simp
    ultimately have "advanced 1 s s' c j (base_gain s c m)"
      using advanced_weaken [of "1 + 1" s s' c j "base_gain s c m" 1] by simp
    then show ?thesis using IH fs_frame_trans [OF one(2)] by simp
  next
    case (Some x)
    with a Suc.prems show ?thesis using attempt_skip [OF Suc.prems(1) a] by auto
  qed
qed

lemma next_skip:
  assumes "backlogged s c j m" and "sp_mode (fs_policy s) \<notin> {''off'', ''shadow''}"
    and "FairScheduler_next s = Inr (s', r)" and "skips c r"
  shows "backlogged s' c j m \<and> fs_frame s s' \<and> advanced 1 s s' c j (base_gain s c m)"
proof -
  let ?s = "s\<lparr>fs_tick := fs_tick s + 1\<rparr>"
  have ne: "fs_order s \<noteq> []" using backlogged_in_order [OF assms(1)] by auto
  then obtain k where k: "length (fs_order s) * 4 = Suc k" by (cases "length (fs_order s) * 4") auto
  have "next_loop (Suc k) ?s = Inr (s', r)"
    using assms(2,3) ne k by (simp add: FairScheduler_next_def)
  moreover have "backlogged ?s c j m" using assms(1) by (simp add: backlogged_def fs_struct_tick)
  ultimately have "backlogged s' c j m \<and> fs_frame ?s s' \<and> advanced 1 ?s s' c j (base_gain ?s c m)"
    using loop_skip assms(4) by blast
  moreover have "base_gain ?s c m = base_gain s c m" by (simp add: base_gain_def)
  moreover have df: "deficit_of ?s c = deficit_of s c" by (simp add: deficit_of_def)
  moreover have "pos ?s c = pos s c" by (simp add: pos_def)
  then have ds: "dist_to ?s c = dist_to s c" by (simp add: dist_to_def Let_def)
  moreover have "potential ?s c g = potential s c g" for g by (simp add: potential_def df ds)
  ultimately show ?thesis by (simp add: advanced_def fs_frame_def)
qed

lemma calls_skip_advanced:
  assumes "backlogged s c j m" and "sp_mode (fs_policy s) \<notin> {''off'', ''shadow''}"
    and "calls_skip c k s"
  shows "\<exists>s'. backlogged s' c j m \<and> fs_frame s s' \<and> advanced k s s' c j (base_gain s c m)"
  using assms
proof (induction k arbitrary: s)
  case 0
  then show ?case by (intro exI[of _ s]) (simp add: advanced_def)
next
  case (Suc k)
  obtain s1 r where n: "FairScheduler_next s = Inr (s1, r)" "skips c r" "calls_skip c k s1"
    using Suc.prems(3) by (auto split: sum.splits prod.splits)
  have one: "backlogged s1 c j m" "fs_frame s s1" "advanced 1 s s1 c j (base_gain s c m)"
    using next_skip [OF Suc.prems(1,2) n(1,2)] by auto
  have "sp_mode (fs_policy s1) \<notin> {''off'', ''shadow''}"
    using one(2) Suc.prems(2) by (simp add: fs_frame_def)
  then obtain s2 where "backlogged s2 c j m" "fs_frame s1 s2" "advanced k s1 s2 c j (base_gain s1 c m)"
    using Suc.IH [OF one(1) _ n(3)] by blast
  then show ?case
    using advanced_trans [OF one(3), of k s2] fs_frame_trans [OF one(2)] base_gain_frame [OF one(2), of c m]
    by auto
qed


lemma potential_bound:
  assumes "backlogged s c j m" and "deficit_of s c < of_int (sj_cost j)" and "0 \<le> g"
  shows "potential s c g \<le> of_nat (length (fs_order s)) * (of_int (sj_cost j) + g)"
proof -
  have "deficit_of s c * of_nat (length (fs_order s)) \<le> of_int (sj_cost j) * of_nat (length (fs_order s))"
    using assms(2) by (intro mult_right_mono) simp_all
  moreover have "g * of_nat (length (fs_order s) - 1 - dist_to s c) \<le> g * of_nat (length (fs_order s))"
    using assms(3) by (intro mult_left_mono) simp_all
  ultimately show ?thesis by (simp add: potential_def algebra_simps)
qed

lemma potential_nonneg: "fs_struct s \<Longrightarrow> 0 \<le> g \<Longrightarrow> 0 \<le> potential s c g"
  by (auto simp: potential_def deficit_of_def dict_get_or_def fs_struct_def fs_values_ok_def
      split: option.splits)

lemma skipped_calls_bounded:
  assumes b: "backlogged s c j m" and mode: "sp_mode (fs_policy s) \<notin> {''off'', ''shadow''}"
    and sk: "calls_skip c k s"
  shows "of_nat k * base_gain s c m
    \<le> of_nat (length (fs_order s)) * (of_int (sj_cost j) + base_gain s c m)"
proof -
  let ?g = "base_gain s c m" and ?n = "length (fs_order s)"
  have st: "fs_struct s" and m: "map_of PRIORITY_GAIN_MULTIPLIER (sj_priority j) = Some m"
    and c: "c \<in> set (fs_order s)"
    using b backlogged_in_order [OF b] by (auto simp: backlogged_def)
  have g: "0 \<le> ?g" using base_gain_pos [OF st m, of c] by simp
  obtain q where "map_of (fs_queues s) c = Some (j # q)" using b by (auto simp: backlogged_def)
  then have cost: "1 \<le> sj_cost j" using st by (auto simp: fs_struct_def fs_values_ok_def job_ok_def)
  obtain s' where s': "backlogged s' c j m" "fs_frame s s'" "advanced k s s' c j ?g"
    using calls_skip_advanced [OF assms] by blast
  have n: "length (fs_order s') = ?n" using s'(2) by (simp add: fs_frame_def)
  show ?thesis
  proof (cases "deficit_of s' c < of_int (sj_cost j)")
    case True
    have "of_nat k * ?g \<le> potential s' c ?g"
      using s'(3) potential_nonneg [OF st g, of c] by (simp add: advanced_def)
    then show ?thesis using potential_bound [OF s'(1) True g] n by simp
  next
    case False
    then have "dist_to s' c + k \<le> dist_to s c" using s'(3) by (simp add: advanced_def)
    moreover have "dist_to s c < ?n"
      using dist_step(3) [OF c, of "advance s"] by (simp add: advance_def)
    ultimately have "of_nat k * ?g \<le> of_nat ?n * ?g" using g by (intro mult_right_mono) simp_all
    moreover have "0 \<le> of_nat ?n * (of_int (sj_cost j) :: rat)" using cost by simp
    ultimately show ?thesis by (simp add: algebra_simps)
  qed
qed

section \<open>What a dispatch does\<close>

definition dispatch_of :: "FairScheduler \<Rightarrow> FairScheduler \<Rightarrow> ScheduledJob option \<Rightarrow> bool" where
  "dispatch_of s s' r \<longleftrightarrow> (case r of
     None \<Rightarrow> fs_queues s' = fs_queues s \<and> fs_inflight s' = fs_inflight s
           \<and> fs_served_total s' = fs_served_total s
   | Some j \<Rightarrow> (\<exists>rest i. map_of (fs_queues s) (sj_client_id j) = Some (j # rest)
       \<and> map_of (fs_inflight s) (sj_client_id j) = Some i \<and> i < fs_max_inflight s
       \<and> fs_queues s' = dict_set (fs_queues s) (sj_client_id j) rest
       \<and> fs_inflight s' = dict_set (fs_inflight s) (sj_client_id j) (i + 1)
       \<and> fs_served_total s' = dict_set (fs_served_total s) (sj_client_id j)
           (dict_get_or (fs_served_total s) (sj_client_id j) 0 + 1)))"

lemma head_client:
  "fs_struct s \<Longrightarrow> map_of (fs_queues s) c = Some (j # rest) \<Longrightarrow> sj_client_id j = c"
  by (auto simp: fs_struct_def fs_values_ok_def job_ok_def)

lemma attempt_dispatch:
  assumes "fs_struct s" and "fs_order s \<noteq> []" and "next_attempt s = Inr (s', r)"
  shows "dispatch_of s s' r"
  using assms(1,2)
proof (cases rule: next_attempt_cases)
  case (dispatch job rest d i gain st mult)
  then show ?thesis
    using assms(3) head_client [OF assms(1) dispatch(1)]
    by (auto simp: dispatch_of_def served_def credited_def advance_def)
qed (use assms(3) in \<open>auto simp: dispatch_of_def credited_def advance_def\<close>)

lemma dispatch_of_trans:
  assumes "dispatch_of s s1 None" and "fs_max_inflight s1 = fs_max_inflight s" and "dispatch_of s1 s2 r"
  shows "dispatch_of s s2 r"
  using assms by (auto simp: dispatch_of_def split: option.splits)

lemma loop_dispatch:
  assumes "fs_struct s" and "fs_order s \<noteq> []" and "next_loop k s = Inr (s', r)"
  shows "dispatch_of s s' r"
  using assms
proof (induction k arbitrary: s)
  case 0
  then show ?case by (auto simp: dispatch_of_def)
next
  case (Suc k)
  obtain s1 r1 where a: "next_attempt s = Inr (s1, r1)" "fs_struct s1" "fs_frame s s1"
    using next_attempt_ok [OF Suc.prems(1,2)] by blast
  note d = attempt_dispatch [OF Suc.prems(1,2) a(1)]
  show ?case
  proof (cases r1)
    case None
    with a Suc.prems Suc.IH [of s1] d show ?thesis
      by (intro dispatch_of_trans [of s s1 s' r]) (auto simp: fs_frame_def)
  next
    case (Some x)
    with d a(1) Suc.prems(3) show ?thesis by simp
  qed
qed

lemma fifo_dispatch:
  assumes "fs_struct s" and "fifo_loop s offs = Inr (s', r)"
  shows "dispatch_of s s' r"
  using assms(2)
proof (induction offs)
  case (Cons off offs)
  let ?c = "fs_order s ! ((fs_cursor s + off) mod length (fs_order s))"
  obtain q where q: "map_of (fs_queues s) ?c = Some q"
    using Cons.prems by (auto simp: Let_def ebind_Inr_conv subscript_Inr_conv)
  show ?case
  proof (cases q)
    case Nil
    with q Cons show ?thesis by (simp add: Let_def)
  next
    case qc: (Cons job rest)
    have "sj_client_id job = ?c" using head_client [OF assms(1)] q qc by simp
    with q qc Cons show ?thesis
      by (auto simp: Let_def ebind_Inr_conv subscript_Inr_conv dispatch_of_def served_def
          split: if_splits)
  qed
qed (simp add: dispatch_of_def)

lemma dispatch_of_cong:
  assumes "dispatch_of s1 s2 r"
    and "fs_queues s1 = fs_queues s" "fs_inflight s1 = fs_inflight s"
      "fs_served_total s1 = fs_served_total s" "fs_max_inflight s1 = fs_max_inflight s"
    and "fs_queues s' = fs_queues s2" "fs_inflight s' = fs_inflight s2"
      "fs_served_total s' = fs_served_total s2"
  shows "dispatch_of s s' r"
  using assms by (auto simp: dispatch_of_def split: option.splits)

lemma next_dispatch:
  assumes "fs_struct s" and "FairScheduler_next s = Inr (s', r)"
  shows "dispatch_of s s' r"
proof -
  let ?s = "s\<lparr>fs_tick := fs_tick s + 1\<rparr>"
  have st: "fs_struct ?s" using assms(1) by (simp add: fs_struct_tick)
  consider (empty) "fs_order s = []"
    | (fifo) "fs_order s \<noteq> []" "sp_mode (fs_policy s) \<in> {''off'', ''shadow''}"
    | (fair) "fs_order s \<noteq> []" "sp_mode (fs_policy s) \<notin> {''off'', ''shadow''}" by blast
  then show ?thesis
  proof cases
    case empty
    with assms(2) show ?thesis by (simp add: FairScheduler_next_def dispatch_of_def)
  next
    case fifo
    then obtain s1 where n: "FairScheduler_next_fifo s = Inr (s1, r)"
      "fs_queues s' = fs_queues s1" "fs_inflight s' = fs_inflight s1"
      "fs_served_total s' = fs_served_total s1"
      using assms(2)
      by (auto simp: FairScheduler_next_def ebind_Inr_conv split: if_splits)
    from n(1) have "dispatch_of ?s s1 r"
      by (intro fifo_dispatch [OF st]) (simp add: FairScheduler_next_fifo_def)
    then show ?thesis by (rule dispatch_of_cong) (simp_all add: n)
  next
    case fair
    then have "dispatch_of ?s s' r"
      using assms(2) loop_dispatch [OF st, of "length (fs_order s) * 4"]
      by (simp add: FairScheduler_next_def)
    then show ?thesis by (rule dispatch_of_cong) simp_all
  qed
qed

fun run_next :: "nat \<Rightarrow> FairScheduler \<Rightarrow> sched_error + FairScheduler \<times> ScheduledJob option list" where
  \<comment> \<open>\<open>k\<close> consecutive calls of \<open>next\<close> and what they returned\<close>
  "run_next 0 s = Inr (s, [])"
| "run_next (Suc k) s = ebind (FairScheduler_next s) (\<lambda>(s1, r).
     ebind (run_next k s1) (\<lambda>(s2, rs). Inr (s2, r # rs)))"

lemma run_next_ok: "fs_struct s \<Longrightarrow> \<exists>s' rs. run_next k s = Inr (s', rs)"
proof (induction k arbitrary: s)
  case (Suc k)
  then obtain s1 r where "FairScheduler_next s = Inr (s1, r)" "fs_struct s1" using next_ok by blast
  with Suc.IH [of s1] show ?case by auto
qed simp

lemma run_next_serves:
  assumes "backlogged s c j m" and "sp_mode (fs_policy s) \<notin> {''off'', ''shadow''}"
  shows "\<exists>s' rs. run_next k s = Inr (s', rs) \<and> (calls_skip c k s \<or> Some j \<in> set rs)"
  using assms
proof (induction k arbitrary: s)
  case (Suc k)
  have st: "fs_struct s" using Suc.prems(1) by (simp add: backlogged_def)
  obtain s1 r where n: "FairScheduler_next s = Inr (s1, r)" "fs_struct s1" using next_ok [OF st] by blast
  show ?case
  proof (cases "skips c r")
    case True
    note one = next_skip [OF Suc.prems n(1) True]
    then have "sp_mode (fs_policy s1) \<notin> {''off'', ''shadow''}"
      using Suc.prems(2) by (simp add: fs_frame_def)
    then show ?thesis using Suc.IH [of s1] one n(1) True by auto
  next
    case False
    then obtain x where x: "r = Some x" "sj_client_id x = c" by (cases r) auto
    have "x = j" using next_dispatch [OF st n(1)] x Suc.prems(1)
      by (auto simp: dispatch_of_def backlogged_def)
    then show ?thesis using run_next_ok [OF n(2), of k] n(1) x by auto
  qed
qed simp

section \<open>Shadow mode, previews and the job table\<close>

lemma fifo_loop_policy:
  "fifo_loop (s\<lparr>fs_policy := p\<rparr>) offs =
    (case fifo_loop s offs of Inl e \<Rightarrow> Inl e | Inr (s', r) \<Rightarrow> Inr (s'\<lparr>fs_policy := p\<rparr>, r))"
proof (induction offs)
  case (Cons off offs)
  then show ?case
    by (simp add: Let_def ebind_def served_def split: sum.splits list.splits)
qed simp

lemma fifo_loop_receipts: "fifo_loop s offs = Inr (s', r) \<Longrightarrow> fs_receipts s' = fs_receipts s"
proof (induction offs)
  case (Cons off offs)
  let ?c = "fs_order s ! ((fs_cursor s + off) mod length (fs_order s))"
  obtain q where q: "map_of (fs_queues s) ?c = Some q"
    using Cons.prems by (auto simp: Let_def ebind_Inr_conv subscript_Inr_conv)
  with Cons show ?case
    by (cases q) (auto simp: Let_def ebind_Inr_conv served_def split: if_splits)
qed simp

lemma next_attempt_receipts:
  assumes "fs_struct s" and "fs_order s \<noteq> []" and "next_attempt s = Inr (s', r)"
  shows "fs_receipts s' = fs_receipts s"
  using assms(1,2)
  by (cases rule: next_attempt_cases)
    (use assms(3) in \<open>auto simp: served_def credited_def advance_def\<close>)

lemma next_loop_receipts:
  assumes "fs_struct s" and "fs_order s \<noteq> []" and "next_loop k s = Inr (s', r)"
  shows "fs_receipts s' = fs_receipts s"
  using assms
proof (induction k arbitrary: s)
  case (Suc k)
  obtain s1 r1 where a: "next_attempt s = Inr (s1, r1)" "fs_struct s1" "fs_frame s s1"
    using next_attempt_ok [OF Suc.prems(1,2)] by blast
  have "fs_order s1 \<noteq> []" using a(3) Suc.prems(2) by (simp add: fs_frame_def)
  with Suc a next_attempt_receipts [OF Suc.prems(1,2) a(1)] show ?case
    by (auto split: option.splits)
qed simp

lemma next_receipts:
  assumes "fs_struct s" and "sp_mode (fs_policy s) \<noteq> ''shadow''" and "FairScheduler_next s = Inr (s', r)"
  shows "fs_receipts s' = fs_receipts s"
proof (cases "fs_order s = [] \<or> sp_mode (fs_policy s) = ''off''")
  case True
  with assms(2,3) show ?thesis
    by (auto simp: FairScheduler_next_def FairScheduler_next_fifo_def ebind_Inr_conv
        dest: fifo_loop_receipts split: if_splits)
next
  case False
  let ?s = "s\<lparr>fs_tick := fs_tick s + 1\<rparr>"
  have "fs_struct ?s" using assms(1) by (simp add: fs_struct_tick)
  from next_loop_receipts [OF this, of "length (fs_order s) * 4" s' r] False assms(2,3)
  show ?thesis by (simp add: FairScheduler_next_def)
qed

lemma preview_restores:
  assumes "fs_struct s" and "sp_mode (fs_policy s) \<noteq> ''shadow''" and "FairScheduler_next s = Inr (s', r)"
  shows "FairScheduler_preview_next s = Inr (s, r)"
proof -
  have "fs_frame s s'" using next_ok [OF assms(1)] assms(3) by auto
  then show ?thesis
    using assms(3) next_receipts [OF assms]
    by (simp add: FairScheduler_preview_next_def fs_frame_def)
qed

section \<open>Properties\<close>

definition demo_job :: "string \<Rightarrow> string \<Rightarrow> int \<Rightarrow> ScheduledJob" where
  "demo_job t c k = \<lparr>sj_task_id = t, sj_client_id = c, sj_weight = 1, sj_cost = k,
     sj_workspace_id = ''w'', sj_priority = ''build'', sj_scheduler_policy = ''fair-drr-v2''\<rparr>"

definition demo_policy :: "string \<Rightarrow> SchedulerPolicy" where
  "demo_policy m = \<lparr>sp_mode = m, sp_version = ''fair-drr-v2'', sp_previous_version = ''fifo-v1'',
     sp_canary_percent = 0\<rparr>"

definition demo_empty :: "string \<Rightarrow> FairScheduler" where
  "demo_empty m = projr (FairScheduler_init 2 1 (Some 2) None (Some 3) 20 4 (demo_policy m))"

definition demo_one :: "string \<Rightarrow> FairScheduler" where
  "demo_one m = projr (FairScheduler_enqueue (\<lambda>_. 0) (demo_empty m) (demo_job ''t1'' ''a'' 1))"

definition demo_two :: "string \<Rightarrow> FairScheduler" where
  "demo_two m = projr (FairScheduler_enqueue (\<lambda>_. 0) (demo_one m) (demo_job ''t2'' ''b'' 3))"

lemma demo_steps:
  "\<not> isl (FairScheduler_init 2 1 (Some 2) None (Some 3) 20 4 (demo_policy m))"
  "m \<in> {''on'', ''off'', ''shadow''} \<Longrightarrow>
     \<not> isl (FairScheduler_enqueue (\<lambda>_. 0) (demo_empty m) (demo_job ''t1'' ''a'' 1))"
  "m \<in> {''on'', ''off'', ''shadow''} \<Longrightarrow>
     \<not> isl (FairScheduler_enqueue (\<lambda>_. 0) (demo_one m) (demo_job ''t2'' ''b'' 3))"
  subgoal by (simp add: FairScheduler_init_def)
  subgoal by (elim insertE emptyE; hypsubst; code_simp)
  subgoal by (elim insertE emptyE; hypsubst; code_simp)
  done

lemma demo_reachable:
  assumes "m \<in> {''on'', ''off'', ''shadow''}"
  shows "sched_reachable (\<lambda>_. 0) (demo_empty m)" "sched_reachable (\<lambda>_. 0) (demo_one m)"
    "sched_reachable (\<lambda>_. 0) (demo_two m)"
proof -
  show 0: "sched_reachable (\<lambda>_. 0) (demo_empty m)"
    unfolding demo_empty_def using demo_steps(1) [of m] by (intro reach_init) (simp add: sum.collapse(2))
  show 1: "sched_reachable (\<lambda>_. 0) (demo_one m)"
    unfolding demo_one_def
    by (rule reach_step [OF 0], rule step_enqueue, rule sum.collapse(2) [symmetric], rule demo_steps(2) [OF assms])
  show "sched_reachable (\<lambda>_. 0) (demo_two m)"
    unfolding demo_two_def
    by (rule reach_step [OF 1], rule step_enqueue, rule sum.collapse(2) [symmetric], rule demo_steps(3) [OF assms])
qed

text \<open>C1: on every scheduler that any sequence of calls can build, the three running totals are
  exact: the global total is the number of jobs in the job table, and each client's and each
  workspace's total is the number of its jobs there; task ids in the table are distinct.\<close>

theorem scheduler_accounts_exact:
  assumes "sched_reachable h s"
  shows "distinct (map fst (fs_jobs s))
     \<and> fs_global_total s = int (length (fs_jobs s))
     \<and> dict_get_or (fs_client_total s) c 0
         = int (length (filter (\<lambda>(t, j). sj_client_id j = c) (fs_jobs s)))
     \<and> dict_get_or (fs_workspace_total s) w 0
         = int (length (filter (\<lambda>(t, j). sj_workspace_id j = w) (fs_jobs s)))"
proof -
  have bal: "fsl.balanced s" using reachable_inv [OF assms] by (simp add: sched_inv_def)
  have cnt: "dict_sum (\<lambda>j. if P j then 1 else 0) d = int (length (filter (\<lambda>(t, j). P j) d))"
    for P :: "ScheduledJob \<Rightarrow> bool" and d :: "(string, ScheduledJob) dict"
    by (induction d) auto
  have "sched_total s GlobalAcct = dict_sum (sched_weight GlobalAcct) (fs_jobs s)"
    "sched_total s (ClientAcct c) = dict_sum (sched_weight (ClientAcct c)) (fs_jobs s)"
    "sched_total s (WorkspaceAcct w) = dict_sum (sched_weight (WorkspaceAcct w)) (fs_jobs s)"
    "distinct (map fst (fs_jobs s))"
    using bal unfolding fsl.balanced_def by blast+
  moreover have "sched_weight GlobalAcct = (\<lambda>j. 1)"
    "sched_weight (ClientAcct c) = (\<lambda>j. if sj_client_id j = c then 1 else 0)"
    "sched_weight (WorkspaceAcct w) = (\<lambda>j. if sj_workspace_id j = w then 1 else 0)" by auto
  ultimately show ?thesis by (simp add: cnt dict_sum_one)
qed

theorem scheduler_accounts_exact_witness:
  "fs_global_total (demo_two ''on'') = 2
     \<and> dict_get_or (fs_client_total (demo_two ''on'')) ''a'' 0 = 1"
proof -
  have "fs_jobs (demo_two ''on'') = [(''t1'', demo_job ''t1'' ''a'' 1), (''t2'', demo_job ''t2'' ''b'' 3)]"
    by code_simp
  then show ?thesis
    using scheduler_accounts_exact [OF demo_reachable(3) [of "''on''"], of "''a''" "''w''"]
    by (simp add: demo_job_def)
qed

text \<open>C2: no sequence of calls ever exceeds a configured quota: the global total, every
  client's total and every workspace's total stay within their limits, and every client's
  in-flight count stays between zero and the in-flight limit.\<close>

theorem scheduler_limits_respected:
  assumes "sched_reachable h s"
  shows "(case fs_max_global_queue s of None \<Rightarrow> True | Some l \<Rightarrow> fs_global_total s \<le> l)
     \<and> (case fs_max_queue_per_client s of None \<Rightarrow> True
         | Some l \<Rightarrow> dict_get_or (fs_client_total s) c 0 \<le> l)
     \<and> (case fs_max_queue_per_workspace s of None \<Rightarrow> True
         | Some l \<Rightarrow> dict_get_or (fs_workspace_total s) w 0 \<le> l)
     \<and> 0 \<le> dict_get_or (fs_inflight s) c 0 \<and> dict_get_or (fs_inflight s) c 0 \<le> fs_max_inflight s"
proof -
  have inv: "fs_quota_ok s" "fs_struct s" using reachable_inv [OF assms] by (auto simp: sched_inv_def)
  have "0 \<le> fs_max_inflight s" using inv(2) by (simp add: fs_struct_def fs_config_ok_def)
  then have "0 \<le> dict_get_or (fs_inflight s) c 0 \<and> dict_get_or (fs_inflight s) c 0 \<le> fs_max_inflight s"
    using inv(2) by (auto simp: fs_struct_def fs_values_ok_def dict_get_or_def split: option.splits)
  then show ?thesis using inv(1) by (simp add: fs_quota_ok_def under_limit_def)
qed

theorem scheduler_limits_respected_witness:
  "fs_max_global_queue (demo_two ''off'') = Some 3 \<and> fs_global_total (demo_two ''off'') \<le> 3"
proof -
  have "fs_max_global_queue (demo_two ''off'') = Some 3" by code_simp
  then show ?thesis using scheduler_limits_respected [OF demo_reachable(3) [of "''off''"]] by simp
qed

text \<open>A call of \<open>next\<close> never fails on a reachable scheduler. If it returns a job, that job
  was the head of its client's queue, the client was below its in-flight limit, exactly that
  queue loses exactly its head and exactly that client's in-flight count and service count grow
  by one; if it returns nothing, no queue and no count has changed. In both cases the job table,
  the totals and the client order are untouched.\<close>

lemma scheduler_next_dispatches_head:
  assumes "sched_reachable h s"
  shows "\<exists>s' r. FairScheduler_next s = Inr (s', r)
     \<and> fs_jobs s' = fs_jobs s \<and> fs_global_total s' = fs_global_total s \<and> fs_order s' = fs_order s
     \<and> (case r of
          None \<Rightarrow> fs_queues s' = fs_queues s \<and> fs_inflight s' = fs_inflight s
                \<and> fs_served_total s' = fs_served_total s
        | Some j \<Rightarrow> \<exists>rest i. map_of (fs_queues s) (sj_client_id j) = Some (j # rest)
            \<and> map_of (fs_inflight s) (sj_client_id j) = Some i \<and> i < fs_max_inflight s
            \<and> fs_queues s' = dict_set (fs_queues s) (sj_client_id j) rest
            \<and> fs_inflight s' = dict_set (fs_inflight s) (sj_client_id j) (i + 1)
            \<and> fs_served_total s' = dict_set (fs_served_total s) (sj_client_id j)
                (dict_get_or (fs_served_total s) (sj_client_id j) 0 + 1))"
proof -
  have st: "fs_struct s" using reachable_inv [OF assms] by (simp add: sched_inv_def)
  obtain s' r where n: "FairScheduler_next s = Inr (s', r)" "fs_frame s s'" using next_ok [OF st] by blast
  show ?thesis
    using n next_dispatch [OF st n(1)] unfolding dispatch_of_def fs_frame_def by blast
qed

lemma scheduler_next_dispatches_head_example:
  "\<exists>s' r. FairScheduler_next (demo_two ''on'') = Inr (s', r) \<and> fs_order s' = [''a'', ''b'']"
proof -
  have "fs_order (demo_two ''on'') = [''a'', ''b'']" by code_simp
  then show ?thesis using scheduler_next_dispatches_head [OF demo_reachable(3) [of "''on''"]] by auto
qed

text \<open>C3: under the fair policy no client starves. If a client's head job costs \<open>k\<close>, its gain
  per visit is \<open>g\<close> and \<open>n\<close> clients are known, then among any \<open>N\<close> consecutive calls of \<open>next\<close> with
  \<open>N * g > n * (cost + g)\<close> one returns that job, whatever the other clients have queued, provided
  the client has a free in-flight slot.\<close>

theorem scheduler_no_starvation:
  assumes "sched_reachable h s" and "sp_mode (fs_policy s) \<notin> {''off'', ''shadow''}"
    and "map_of (fs_queues s) c = Some (j # rest)"
    and "map_of PRIORITY_GAIN_MULTIPLIER (sj_priority j) = Some m"
    and "dict_get_or (fs_inflight s) c 0 < fs_max_inflight s"
    and "of_nat (length (fs_order s)) * (of_int (sj_cost j) + base_gain s c m)
           < of_nat N * base_gain s c m"
  shows "\<exists>s' rs. run_next N s = Inr (s', rs) \<and> Some j \<in> set rs"
proof -
  have st: "fs_struct s" using reachable_inv [OF assms(1)] by (simp add: sched_inv_def)
  then have cl: "fs_clients_ok s" by (simp add: fs_struct_def)
  obtain i where "map_of (fs_inflight s) c = Some i"
    using fs_clients_okD [OF cl fs_queues_order [OF cl assms(3)]] by blast
  then have b: "backlogged s c j m"
    using assms(3-5) st by (simp add: backlogged_def dict_get_or_Some)
  have "\<not> calls_skip c N s" using skipped_calls_bounded [OF b assms(2)] assms(6) by fastforce
  then show ?thesis using run_next_serves [OF b assms(2), of N] by blast
qed

theorem scheduler_no_starvation_witness:
  "\<exists>s' rs. run_next 9 (demo_two ''on'') = Inr (s', rs) \<and> Some (demo_job ''t2'' ''b'' 3) \<in> set rs"
  by (rule scheduler_no_starvation [OF demo_reachable(3) [of "''on''"], where c = "''b''" and m = 1
        and rest = "[]"]) (simp, code_simp+)

text \<open>Shadow mode never changes what is dispatched. On a reachable scheduler in shadow mode,
  \<open>next\<close> returns the same job and leaves the same state as the same scheduler in mode \<open>off\<close>, apart
  from the policy record itself and the decision receipts.\<close>

lemma scheduler_shadow_matches_off:
  assumes "sched_reachable h s" and "sp_mode (fs_policy s) = ''shadow''" and "sp_mode p = ''off''"
  shows "\<exists>s' r recs. FairScheduler_next (s\<lparr>fs_policy := p\<rparr>) = Inr (s', r)
    \<and> FairScheduler_next s = Inr (s'\<lparr>fs_policy := fs_policy s, fs_receipts := recs\<rparr>, r)"
proof (cases "fs_order s = []")
  case True
  then show ?thesis by (auto simp: FairScheduler_next_def intro!: exI [of _ "fs_receipts s"])
next
  case False
  have st: "fs_struct s" using reachable_inv [OF assms(1)] by (simp add: sched_inv_def)
  obtain cand where c: "FairScheduler_fair_candidate s = Inr cand" using fair_candidate_ok [OF st] by blast
  obtain s1 r where n: "FairScheduler_next_fifo s = Inr (s1, r)" "fs_frame s s1"
    using next_fifo_ok [OF st False] by blast
  have swap: "s\<lparr>fs_policy := p, fs_tick := fs_tick s + 1\<rparr> = s\<lparr>fs_tick := fs_tick s + 1, fs_policy := p\<rparr>"
    by simp
  have "FairScheduler_next_fifo (s\<lparr>fs_policy := p\<rparr>) = Inr (s1\<lparr>fs_policy := p\<rparr>, r)"
    using n(1) fifo_loop_policy [of p "s\<lparr>fs_tick := fs_tick s + 1\<rparr>"]
    by (simp add: FairScheduler_next_fifo_def swap [symmetric])
  then have "FairScheduler_next (s\<lparr>fs_policy := p\<rparr>) = Inr (s1\<lparr>fs_policy := p\<rparr>, r)"
    using False assms(3) by (simp add: FairScheduler_next_def)
  moreover have "s1\<lparr>fs_policy := fs_policy s\<rparr> = s1" using n(2) by (simp add: fs_frame_def)
  ultimately show ?thesis
    using False assms(2) c n(1) by (auto simp: FairScheduler_next_def)
qed

lemma scheduler_shadow_matches_off_example:
  "\<exists>s' r recs. FairScheduler_next ((demo_two ''shadow'')\<lparr>fs_policy := demo_policy ''off''\<rparr>) = Inr (s', r)
    \<and> FairScheduler_next (demo_two ''shadow'')
        = Inr (s'\<lparr>fs_policy := fs_policy (demo_two ''shadow''), fs_receipts := recs\<rparr>, r)"
  by (rule scheduler_shadow_matches_off [OF demo_reachable(3) [of "''shadow''"]])
    (simp, code_simp, simp add: demo_policy_def)

text \<open>Outside shadow mode \<open>preview_next\<close> answers what \<open>next\<close> would return and leaves every
  field of the scheduler as it was.\<close>

lemma scheduler_preview_is_pure:
  assumes "sched_reachable h s" and "sp_mode (fs_policy s) \<noteq> ''shadow''"
  shows "\<exists>s' r. FairScheduler_next s = Inr (s', r) \<and> FairScheduler_preview_next s = Inr (s, r)"
proof -
  have st: "fs_struct s" using reachable_inv [OF assms(1)] by (simp add: sched_inv_def)
  then show ?thesis using next_ok [OF st] preview_restores [OF st assms(2)] by blast
qed

lemma scheduler_preview_is_pure_example:
  "\<exists>s' r. FairScheduler_next (demo_two ''on'') = Inr (s', r)
     \<and> FairScheduler_preview_next (demo_two ''on'') = Inr (demo_two ''on'', r)"
  by (rule scheduler_preview_is_pure [OF demo_reachable(3) [of "''on''"]]) (simp, code_simp)

text \<open>\<open>cancel\<close> never gives an in-flight slot back. It succeeds on every job of the table,
  dispatched ones included, and leaves all in-flight counts as they were, while the job leaves
  the table and a later \<open>complete\<close> of it is refused as an unknown task; so the slot of a
  dispatched job that is cancelled is leaked.\<close>

lemma scheduler_cancel_leaks_slot:
  assumes "sched_reachable h s" and "map_of (fs_jobs s) t = Some j"
  shows "\<exists>s'. FairScheduler_cancel s t = Inr (s', True)
    \<and> fs_inflight s' = fs_inflight s \<and> FairScheduler_complete s' t = Inl UnknownTask"
proof -
  have inv: "fs_struct s" "fs_table_ok s" using reachable_inv [OF assms(1)] by (auto simp: sched_inv_def)
  have "sj_client_id j \<in> set (fs_order s)" using inv(2) assms(2) by (simp add: fs_table_ok_def)
  then obtain q where "map_of (fs_queues s) (sj_client_id j) = Some q"
    using inv(1) fs_clients_okD [of s "sj_client_id j"] by (auto simp: fs_struct_def)
  then show ?thesis
    using assms(2)
    by (simp add: FairScheduler_cancel_def FairScheduler_complete_def drop_slot_def
        FairScheduler_release_slot_def Let_def)
qed

lemma scheduler_cancel_leaks_slot_example:
  "\<exists>s1 j s2. FairScheduler_next (demo_two ''off'') = Inr (s1, Some j) \<and> sj_task_id j = ''t1''
     \<and> FairScheduler_cancel s1 ''t1'' = Inr (s2, True)
     \<and> fs_inflight s2 = fs_inflight s1 \<and> FairScheduler_complete s2 ''t1'' = Inl UnknownTask"
proof -
  let ?s1 = "fst (projr (FairScheduler_next (demo_two ''off'')))"
    and ?j = "the (snd (projr (FairScheduler_next (demo_two ''off''))))"
  have "\<not> isl (FairScheduler_next (demo_two ''off''))"
    and "snd (projr (FairScheduler_next (demo_two ''off''))) \<noteq> None"
    and m: "map_of (fs_jobs ?s1) ''t1'' = Some ?j" and t: "sj_task_id ?j = ''t1''"
    by code_simp+
  then have n: "FairScheduler_next (demo_two ''off'') = Inr (?s1, Some ?j)"
    by (metis option.collapse prod.collapse sum.collapse(2))
  have "sched_reachable (\<lambda>_. 0) ?s1"
    by (rule reach_step [OF demo_reachable(3) [of "''off''"] step_next [OF n]]) simp
  from scheduler_cancel_leaks_slot [OF this m] n t show ?thesis by blast
qed

end
