(* ===== verification/Hub_Governor.thy ===== *)
theory Hub_Governor
  imports Usage_Ledger
begin

text \<open>
  Resource admission of the Hub, \<open>src/simplicio_loop/hub_governor.py\<close>: limits and requests over
  seven resources, a ledger of leases with a global and a per-client usage, a circuit breaker
  fed by pressure readings, drain and shutdown. The clock \<open>time.monotonic()\<close> is the parameter
  \<open>now\<close>. A call that raises after it changed the governor returns the changed governor with
  the error. The probes that take readings from the host (cgroups, psutil, nvidia-smi) are
  parameters: a probe that fails is \<open>None\<close>.
\<close>

section \<open>Limits, requests and leases\<close>

definition RESOURCE_NAMES :: "string list" where
  "RESOURCE_NAMES = [''cpu'', ''memory_bytes'', ''disk_bytes'', ''gpu'', ''processes'',
     ''connections'', ''tokens'']"

record ResourceLimits =
  rl_cpu :: int
  rl_memory_bytes :: int
  rl_disk_bytes :: int
  rl_gpu :: int
  rl_processes :: int
  rl_connections :: int
  rl_tokens :: int

definition ResourceLimits_as_dict :: "ResourceLimits \<Rightarrow> (string, int) dict" where
  "ResourceLimits_as_dict l = zip RESOURCE_NAMES
     [rl_cpu l, rl_memory_bytes l, rl_disk_bytes l, rl_gpu l, rl_processes l, rl_connections l,
      rl_tokens l]"

record ResourceRequest =
  rr_cpu :: int
  rr_memory_bytes :: int
  rr_disk_bytes :: int
  rr_gpu :: int
  rr_processes :: int
  rr_connections :: int
  rr_tokens :: int

definition ResourceRequest_as_dict :: "ResourceRequest \<Rightarrow> (string, int) dict" where
  "ResourceRequest_as_dict r = zip RESOURCE_NAMES
     [rr_cpu r, rr_memory_bytes r, rr_disk_bytes r, rr_gpu r, rr_processes r, rr_connections r,
      rr_tokens r]"

record ResourceLease =
  le_lease_id :: string
  le_client_id :: string
  le_task_id :: string
  le_request :: ResourceRequest
  le_admitted_at :: rat
  le_queue :: string

record throttle_receipt =
  tr_client_id :: string
  tr_task_id :: string
  tr_resource :: string
  tr_requested :: int
  tr_available :: int
  tr_queue :: string
  tr_reason :: string

datatype gov_error =
    LimitsNegative | RequestNegative | CircuitSettingsInvalid | IdentityRequired
  | UnsupportedPressureReason string
  | ResourceThrottled throttle_receipt

definition ResourceLimits_post_init :: "ResourceLimits \<Rightarrow> gov_error + ResourceLimits" where
  "ResourceLimits_post_init l =
    (if \<exists>v \<in> set (dict_values (ResourceLimits_as_dict l)). v < 0 then Inl LimitsNegative else Inr l)"

definition ResourceRequest_post_init :: "ResourceRequest \<Rightarrow> gov_error + ResourceRequest" where
  "ResourceRequest_post_init r =
    (if \<exists>v \<in> set (dict_values (ResourceRequest_as_dict r)). v < 0 then Inl RequestNegative else Inr r)"

section \<open>The circuit breaker\<close>

record CircuitBreaker =
  cb_threshold :: int
  cb_cooldown_seconds :: rat
  cb_failures :: int
  cb_state :: string
  cb_reason :: string
  cb_tripped_at :: rat

definition CircuitBreaker_init :: "int \<Rightarrow> rat \<Rightarrow> gov_error + CircuitBreaker" where
  "CircuitBreaker_init threshold cooldown =
    (if threshold < 1 \<or> cooldown < 0 then Inl CircuitSettingsInvalid
     else Inr \<lparr>cb_threshold = threshold, cb_cooldown_seconds = cooldown, cb_failures = 0,
       cb_state = ''closed'', cb_reason = [], cb_tripped_at = 0\<rparr>)"

definition CircuitBreaker_allow :: "rat \<Rightarrow> CircuitBreaker \<Rightarrow> CircuitBreaker \<times> bool" where
  "CircuitBreaker_allow now cb =
    (let cb1 = (if cb_state cb = ''open'' \<and> now - cb_tripped_at cb \<ge> cb_cooldown_seconds cb
                then cb\<lparr>cb_state := ''half_open''\<rparr> else cb)
     in (cb1, cb_state cb1 \<noteq> ''open''))"

definition CircuitBreaker_record_failure ::
    "rat \<Rightarrow> string \<Rightarrow> CircuitBreaker \<Rightarrow> CircuitBreaker \<times> bool" where
  "CircuitBreaker_record_failure now reason cb =
    (let cb1 = cb\<lparr>cb_failures := cb_failures cb + 1, cb_reason := reason\<rparr>;
         cb2 = (if cb_failures cb1 \<ge> cb_threshold cb1
                then cb1\<lparr>cb_state := ''open'', cb_tripped_at := now\<rparr> else cb1)
     in (cb2, cb_state cb2 = ''open''))"

definition CircuitBreaker_recover :: "CircuitBreaker \<Rightarrow> CircuitBreaker" where
  "CircuitBreaker_recover cb =
    cb\<lparr>cb_failures := 0, cb_state := ''closed'', cb_reason := [], cb_tripped_at := 0\<rparr>"

section \<open>The governor\<close>

type_synonym Usage = "(string, int) dict"

definition Usage_init :: Usage where
  "Usage_init = map (\<lambda>name. (name, 0)) RESOURCE_NAMES"

definition Usage_add :: "Usage \<Rightarrow> ResourceRequest \<Rightarrow> Usage" where
  \<comment> \<open>every usage holds all seven names from \<open>Usage_init\<close> on, so the subscript never misses\<close>
  "Usage_add u r = fold (\<lambda>(name, value) vals. dict_set vals name (dict_get_or vals name 0 + value))
     (ResourceRequest_as_dict r) u"

definition Usage_subtract :: "Usage \<Rightarrow> ResourceRequest \<Rightarrow> Usage" where
  "Usage_subtract u r = fold (\<lambda>(name, value) vals.
       dict_set vals name (max 0 (dict_get_or vals name 0 - value))) (ResourceRequest_as_dict r) u"

record ResourceGovernor =
  rg_limits :: ResourceLimits
  rg_client_limits :: "(string, ResourceLimits) dict"
  rg_usage :: Usage
  rg_client_usage :: "(string, Usage) dict"
  rg_leases :: "(string, ResourceLease) dict"
  rg_receipts :: "throttle_receipt list"
  rg_draining :: bool
  rg_circuit :: CircuitBreaker

definition ResourceGovernor_init ::
    "ResourceLimits \<Rightarrow> (string, ResourceLimits) dict \<Rightarrow> int \<Rightarrow> rat \<Rightarrow> gov_error + ResourceGovernor" where
  "ResourceGovernor_init limits client_limits threshold cooldown =
    ebind (CircuitBreaker_init threshold cooldown) (\<lambda>cb.
      Inr \<lparr>rg_limits = limits, rg_client_limits = client_limits, rg_usage = Usage_init,
        rg_client_usage = [], rg_leases = [], rg_receipts = [], rg_draining = False,
        rg_circuit = cb\<rparr>)"

fun over_budget_in :: "Usage \<Rightarrow> (string, int) dict \<Rightarrow> (string, int) dict \<Rightarrow> string option" where
  "over_budget_in used [] limits = None"
| "over_budget_in used ((name, value) # items) limits =
    (let limit = dict_get_or limits name 0
     in if limit \<noteq> 0 \<and> dict_get_or used name 0 + value > limit then Some name
        else over_budget_in used items limits)"

definition ResourceGovernor_over_budget ::
    "Usage \<Rightarrow> ResourceRequest \<Rightarrow> ResourceLimits \<Rightarrow> string option" where
  "ResourceGovernor_over_budget used r limits =
    over_budget_in used (ResourceRequest_as_dict r) (ResourceLimits_as_dict limits)"

definition ResourceGovernor_receipt ::
    "throttle_receipt \<Rightarrow> ResourceGovernor \<Rightarrow> ResourceGovernor \<times> throttle_receipt" where
  "ResourceGovernor_receipt t g =
    (let receipt = t\<lparr>tr_available := max 0 (tr_available t)\<rparr>
     in (g\<lparr>rg_receipts := rg_receipts g @ [receipt]\<rparr>, receipt))"

definition throttle :: "throttle_receipt \<Rightarrow> ResourceGovernor \<Rightarrow> ResourceGovernor \<times> (gov_error + 'a)" where
  \<comment> \<open>\<open>raise ResourceThrottled(self._receipt(...))\<close>\<close>
  "throttle t g = (let (g', receipt) = ResourceGovernor_receipt t g in (g', Inl (ResourceThrottled receipt)))"

definition plain_receipt :: "string \<Rightarrow> string \<Rightarrow> string \<Rightarrow> string \<Rightarrow> throttle_receipt" where
  "plain_receipt client task reason queue =
    \<lparr>tr_client_id = client, tr_task_id = task, tr_resource = [], tr_requested = 0,
     tr_available = 0, tr_queue = queue, tr_reason = reason\<rparr>"

definition budget_receipt ::
    "string \<Rightarrow> string \<Rightarrow> string \<Rightarrow> string \<Rightarrow> string \<Rightarrow> ResourceRequest \<Rightarrow> ResourceLimits \<Rightarrow> Usage \<Rightarrow> throttle_receipt" where
  "budget_receipt client task reason queue resource r limits used =
    \<lparr>tr_client_id = client, tr_task_id = task, tr_resource = resource,
     tr_requested = dict_get_or (ResourceRequest_as_dict r) resource 0,
     tr_available = max 0 (dict_get_or (ResourceLimits_as_dict limits) resource 0
       - dict_get_or used resource 0),
     tr_queue = queue, tr_reason = reason\<rparr>"

definition grant_lease :: "string \<Rightarrow> ResourceLease \<Rightarrow> ResourceGovernor \<Rightarrow> ResourceGovernor" where
  \<comment> \<open>the lease table, the global usage and the client's usage (created by \<open>setdefault\<close>)\<close>
  "grant_lease key lease g =
    g\<lparr>rg_leases := dict_set (rg_leases g) key lease,
      rg_usage := Usage_add (rg_usage g) (le_request lease),
      rg_client_usage := dict_set (rg_client_usage g) (le_client_id lease)
        (Usage_add (dict_get_or (rg_client_usage g) (le_client_id lease) Usage_init) (le_request lease))\<rparr>"

definition ensure_client :: "string \<Rightarrow> ResourceGovernor \<Rightarrow> ResourceGovernor" where
  "ensure_client c g = (if in_dict c (rg_client_usage g) then g
     else g\<lparr>rg_client_usage := dict_set (rg_client_usage g) c Usage_init\<rparr>)"

definition ResourceGovernor_admit ::
    "rat \<Rightarrow> ResourceGovernor \<Rightarrow> string \<Rightarrow> string \<Rightarrow> ResourceRequest \<Rightarrow> string \<Rightarrow> string option
      \<Rightarrow> ResourceGovernor \<times> (gov_error + ResourceLease)" where
  "ResourceGovernor_admit now g client task r queue lease_id =
    (if client = [] \<or> task = [] then (g, Inl IdentityRequired)
     else let key = (case lease_id of None \<Rightarrow> task | Some l \<Rightarrow> if l = [] then task else l)
          in case dict_get (rg_leases g) key of
        Some lease \<Rightarrow> (g, Inr lease)
      | None \<Rightarrow>
        if rg_draining g then throttle (plain_receipt client task ''draining'' queue) g
        else let (cb, ok) = CircuitBreaker_allow now (rg_circuit g); g1 = g\<lparr>rg_circuit := cb\<rparr>
        in if \<not> ok then throttle (plain_receipt client task ''circuit_open'' queue) g1
        else case ResourceGovernor_over_budget (rg_usage g1) r (rg_limits g1) of
          Some res \<Rightarrow> throttle (budget_receipt client task ''global_budget'' queue res r
                        (rg_limits g1) (rg_usage g1)) g1
        | None \<Rightarrow>
          let g2 = ensure_client client g1;
              used = dict_get_or (rg_client_usage g2) client Usage_init;
              lease = \<lparr>le_lease_id = key, le_client_id = client, le_task_id = task,
                le_request = r, le_admitted_at = now, le_queue = queue\<rparr>
          in case dict_get (rg_client_limits g2) client of
            None \<Rightarrow> (grant_lease key lease g2, Inr lease)
          | Some limit \<Rightarrow>
            (case ResourceGovernor_over_budget used r limit of
               Some res \<Rightarrow> throttle (budget_receipt client task ''client_budget'' queue res r limit used) g2
             | None \<Rightarrow> (grant_lease key lease g2, Inr lease)))"

definition drop_lease :: "string \<Rightarrow> ResourceLease \<Rightarrow> ResourceGovernor \<Rightarrow> ResourceGovernor" where
  "drop_lease key current g =
    (let g1 = g\<lparr>rg_leases := dict_pop (rg_leases g) key,
                rg_usage := Usage_subtract (rg_usage g) (le_request current)\<rparr>
     in case dict_get (rg_client_usage g1) (le_client_id current) of
          None \<Rightarrow> g1
        | Some u \<Rightarrow> g1\<lparr>rg_client_usage := dict_set (rg_client_usage g1) (le_client_id current)
                         (Usage_subtract u (le_request current))\<rparr>)"

definition ResourceGovernor_release :: "ResourceGovernor \<Rightarrow> ResourceLease \<Rightarrow> ResourceGovernor \<times> bool" where
  "ResourceGovernor_release g lease =
    (case dict_get (rg_leases g) (le_lease_id lease) of
       None \<Rightarrow> (g, False)
     | Some current \<Rightarrow> (drop_lease (le_lease_id lease) current g, True))"

section \<open>Pressure, drain and shutdown\<close>

definition PRESSURE_REASONS :: "string list" where
  "PRESSURE_REASONS = [''oom'', ''thrashing'', ''disk_full'', ''gpu_pressure'', ''cpu_pressure'']"

definition ResourceGovernor_record_failure ::
    "rat \<Rightarrow> ResourceGovernor \<Rightarrow> string \<Rightarrow> gov_error + ResourceGovernor \<times> bool" where
  "ResourceGovernor_record_failure now g reason =
    (if reason \<notin> set PRESSURE_REASONS then Inl (UnsupportedPressureReason reason)
     else let (cb, tripped) = CircuitBreaker_record_failure now reason (rg_circuit g)
          in Inr (g\<lparr>rg_circuit := cb\<rparr>, tripped))"

record PressureReading =
  pr_cpu_percent :: rat
  pr_memory_bytes :: int
  pr_disk_percent :: rat
  pr_gpu_percent :: rat
  pr_source :: string

record GPUReading =
  gr_memory_used_bytes :: int
  gr_memory_total_bytes :: int
  gr_source :: string

definition ResourceProbe_read_disk_percent :: "(int \<times> int) option \<Rightarrow> rat" where
  \<comment> \<open>the parameter is \<open>shutil.disk_usage\<close>: total and used, \<open>None\<close> on OSError\<close>
  "ResourceProbe_read_disk_percent usage =
    (case usage of None \<Rightarrow> 0
     | Some (disk_total, used) \<Rightarrow> if disk_total \<le> 0 then 0 else of_int used / of_int disk_total * 100)"

definition ResourceProbe_read ::
    "PressureReading option list \<Rightarrow> (int \<times> int) option \<Rightarrow> rat \<Rightarrow> PressureReading" where
  \<comment> \<open>the readers in the order of the ladder, the disk usage and the GPU percentage\<close>
  "ResourceProbe_read readers usage gpu =
    (let base = (case [r \<leftarrow> readers. r \<noteq> None] of
           Some b # _ \<Rightarrow> b
         | _ \<Rightarrow> \<lparr>pr_cpu_percent = 0, pr_memory_bytes = 0, pr_disk_percent = 0, pr_gpu_percent = 0,
                pr_source = ''unavailable''\<rparr>)
     in \<lparr>pr_cpu_percent = pr_cpu_percent base, pr_memory_bytes = pr_memory_bytes base,
         pr_disk_percent = ResourceProbe_read_disk_percent usage, pr_gpu_percent = gpu,
         pr_source = pr_source base\<rparr>)"

definition under_pressure_reading :: "rat \<Rightarrow> ResourceGovernor \<Rightarrow> ResourceGovernor" where
  \<comment> \<open>the tail shared by both evaluations: \<open>allow()\<close>, then recover from half-open\<close>
  "under_pressure_reading now g =
    (let (cb, ok) = CircuitBreaker_allow now (rg_circuit g)
     in g\<lparr>rg_circuit := (if cb_state cb = ''half_open'' then CircuitBreaker_recover cb else cb)\<rparr>)"

definition pressure_reason :: "PressureReading \<Rightarrow> int \<Rightarrow> rat \<Rightarrow> rat \<Rightarrow> rat \<Rightarrow> string option" where
  "pressure_reason p mem cpu disk gpu =
    (let over_memory = (mem \<noteq> 0 \<and> pr_memory_bytes p > mem);
         over_disk = (disk \<noteq> 0 \<and> pr_disk_percent p > disk);
         over_gpu = (gpu \<noteq> 0 \<and> pr_gpu_percent p > gpu);
         over_cpu = (cpu \<noteq> 0 \<and> pr_cpu_percent p > cpu)
     in if over_memory then Some ''thrashing''
        else if over_disk then Some ''disk_full''
        else if over_gpu then Some ''gpu_pressure''
        else if over_cpu then Some ''cpu_pressure'' else None)"

definition ResourceGovernor_evaluate_pressure ::
    "rat \<Rightarrow> ResourceGovernor \<Rightarrow> PressureReading \<Rightarrow> int \<Rightarrow> rat \<Rightarrow> rat \<Rightarrow> rat
      \<Rightarrow> ResourceGovernor \<times> bool \<times> bool" where
  \<comment> \<open>returns \<open>over_budget\<close> and \<open>tripped\<close>\<close>
  "ResourceGovernor_evaluate_pressure now g p mem cpu disk gpu =
    (case pressure_reason p mem cpu disk gpu of
       Some reason \<Rightarrow>
         let (cb, tripped) = CircuitBreaker_record_failure now reason (rg_circuit g)
         in (g\<lparr>rg_circuit := cb\<rparr>, True, tripped)
     | None \<Rightarrow> (under_pressure_reading now g, False, False))"

definition ResourceGovernor_evaluate_gpu_pressure ::
    "rat \<Rightarrow> ResourceGovernor \<Rightarrow> GPUReading \<Rightarrow> int \<Rightarrow> ResourceGovernor \<times> bool \<times> bool" where
  "ResourceGovernor_evaluate_gpu_pressure now g p limit =
    (if limit \<noteq> 0 \<and> gr_source p \<noteq> ''unavailable'' \<and> gr_memory_used_bytes p > limit
     then let (cb, tripped) = CircuitBreaker_record_failure now ''gpu_pressure'' (rg_circuit g)
          in (g\<lparr>rg_circuit := cb\<rparr>, True, tripped)
     else (under_pressure_reading now g, False, False))"

definition ResourceGovernor_recover :: "ResourceGovernor \<Rightarrow> ResourceGovernor" where
  "ResourceGovernor_recover g = g\<lparr>rg_circuit := CircuitBreaker_recover (rg_circuit g)\<rparr>"

definition ResourceGovernor_drain :: "ResourceGovernor \<Rightarrow> ResourceGovernor" where
  "ResourceGovernor_drain g = g\<lparr>rg_draining := True\<rparr>"

definition ResourceGovernor_shutdown :: "ResourceGovernor \<Rightarrow> ResourceGovernor" where
  "ResourceGovernor_shutdown g =
    (let g1 = g\<lparr>rg_draining := True\<rparr>
     in fold (\<lambda>lease g. fst (ResourceGovernor_release g lease)) (dict_values (rg_leases g1)) g1)"

section \<open>Usage arithmetic\<close>

lemma as_dict_keys:
  "dict_keys (ResourceRequest_as_dict r) = RESOURCE_NAMES"
  "dict_keys (ResourceLimits_as_dict l) = RESOURCE_NAMES"
  by (simp_all add: ResourceRequest_as_dict_def ResourceLimits_as_dict_def RESOURCE_NAMES_def)

lemma distinct_resource_names: "distinct RESOURCE_NAMES"
  by (simp add: RESOURCE_NAMES_def)

lemma fold_dict_get_or:
  assumes "distinct (dict_keys items)"
  shows "dict_get_or (fold (\<lambda>(name, value) vals. dict_set vals name (f (dict_get_or vals name 0) value)) items u) n 0
    = (case map_of items n of None \<Rightarrow> dict_get_or u n 0 | Some v \<Rightarrow> f (dict_get_or u n 0) v)"
  using assms
proof (induction items arbitrary: u)
  case (Cons p items)
  obtain k v where p: "p = (k, v)" by (cases p)
  have "map_of items k = None" using Cons.prems p by (simp add: map_of_eq_None_iff)
  then show ?case
    using Cons.IH [of "dict_set u k (f (dict_get_or u k 0) v)"] Cons.prems p
    by (auto split: option.splits)
qed simp

lemma Usage_add_get:
  "dict_get_or (Usage_add u r) n 0 = dict_get_or u n 0 + dict_get_or (ResourceRequest_as_dict r) n 0"
proof -
  have d: "distinct (dict_keys (ResourceRequest_as_dict r))"
    by (simp only: as_dict_keys distinct_resource_names)
  show ?thesis unfolding Usage_add_def fold_dict_get_or [where f = "(+)", OF d]
    by (simp add: dict_get_or_def split: option.splits)
qed

lemma Usage_subtract_get:
  assumes "0 \<le> dict_get_or u n 0"
  shows "dict_get_or (Usage_subtract u r) n 0
    = max 0 (dict_get_or u n 0 - dict_get_or (ResourceRequest_as_dict r) n 0)"
proof -
  have d: "distinct (dict_keys (ResourceRequest_as_dict r))"
    by (simp only: as_dict_keys distinct_resource_names)
  show ?thesis
    using assms unfolding Usage_subtract_def fold_dict_get_or [where f = "\<lambda>a b. max 0 (a - b)", OF d]
    by (simp add: dict_get_or_def split: option.splits)
qed

lemma Usage_init_get [simp]: "dict_get_or Usage_init n 0 = 0"
  by (simp add: Usage_init_def RESOURCE_NAMES_def dict_get_or_def)

section \<open>The lease ledger\<close>

datatype gov_account = GlobalRes string | ClientRes string string

fun gov_total :: "ResourceGovernor \<Rightarrow> gov_account \<Rightarrow> int" where
  "gov_total g (GlobalRes n) = dict_get_or (rg_usage g) n 0"
| "gov_total g (ClientRes c n) = dict_get_or (dict_get_or (rg_client_usage g) c Usage_init) n 0"

fun gov_weight :: "gov_account \<Rightarrow> ResourceLease \<Rightarrow> int" where
  "gov_weight (GlobalRes n) l = dict_get_or (ResourceRequest_as_dict (le_request l)) n 0"
| "gov_weight (ClientRes c n) l =
    (if le_client_id l = c then dict_get_or (ResourceRequest_as_dict (le_request l)) n 0 else 0)"

definition request_ok :: "ResourceRequest \<Rightarrow> bool" where
  "request_ok r \<longleftrightarrow> (\<forall>v \<in> set (dict_values (ResourceRequest_as_dict r)). 0 \<le> v)"

lemma request_ok_get: "request_ok r \<Longrightarrow> 0 \<le> dict_get_or (ResourceRequest_as_dict r) n 0"
  unfolding request_ok_def dict_get_or_def by (metis dict_get_in_values option.case_eq_if option.collapse order_refl)

lemma post_init_request_ok: "ResourceRequest_post_init r = Inr r' \<Longrightarrow> r' = r \<and> request_ok r"
  by (auto simp: ResourceRequest_post_init_def request_ok_def not_less split: if_splits)

interpretation gov: usage_ledger rg_leases gov_total gov_weight grant_lease drop_lease
  "\<lambda>l. request_ok (le_request l)"
proof (unfold_locales, goal_cases)
  case (2 k v s r)
  then show ?case
    by (cases r) (auto simp: grant_lease_def Usage_add_get)
next
  case (3 k v s)
  then show ?case by (simp add: drop_lease_def Let_def split: option.splits)
next
  case (4 s r v k)
  show ?case
  proof (cases r)
    case (GlobalRes n)
    with 4 show ?thesis by (simp add: drop_lease_def Let_def Usage_subtract_get split: option.splits)
  next
    case (ClientRes c n)
    show ?thesis
    proof (cases "map_of (rg_client_usage s) (le_client_id v)")
      case None
      then show ?thesis
        using 4 ClientRes request_ok_get [OF 4(2), of n]
        by (auto simp: drop_lease_def dict_get_or_def [of "rg_client_usage s"])
    next
      case (Some u)
      then show ?thesis
        using 4 ClientRes by (auto simp: drop_lease_def Usage_subtract_get dict_get_or_Some)
    qed
  qed
next
  case (5 v r)
  then show ?case by (cases r) (auto intro: request_ok_get)
qed (simp add: grant_lease_def)

section \<open>The invariant and the reachable governors\<close>

definition limit_ok :: "ResourceLimits \<Rightarrow> string \<Rightarrow> int \<Rightarrow> bool" where
  \<comment> \<open>a limit of zero means unlimited\<close>
  "limit_ok l n x \<longleftrightarrow> dict_get_or (ResourceLimits_as_dict l) n 0 = 0
     \<or> x \<le> dict_get_or (ResourceLimits_as_dict l) n 0"

definition limits_nonneg :: "ResourceLimits \<Rightarrow> bool" where
  "limits_nonneg l \<longleftrightarrow> (\<forall>v \<in> set (dict_values (ResourceLimits_as_dict l)). 0 \<le> v)"

definition circuit_ok :: "CircuitBreaker \<Rightarrow> bool" where
  "circuit_ok cb \<longleftrightarrow> 1 \<le> cb_threshold cb \<and> 0 \<le> cb_cooldown_seconds cb
     \<and> cb_state cb \<in> {''closed'', ''open'', ''half_open''}
     \<and> (cb_state cb = ''closed'' \<longleftrightarrow> cb_failures cb < cb_threshold cb)"

definition gov_limits_ok :: "ResourceGovernor \<Rightarrow> bool" where
  "gov_limits_ok g \<longleftrightarrow> limits_nonneg (rg_limits g)
     \<and> (\<forall>l \<in> set (dict_values (rg_client_limits g)). limits_nonneg l)
     \<and> (\<forall>n. limit_ok (rg_limits g) n (gov_total g (GlobalRes n)))
     \<and> (\<forall>c l n. map_of (rg_client_limits g) c = Some l \<longrightarrow> limit_ok l n (gov_total g (ClientRes c n)))"

definition gov_inv :: "ResourceGovernor \<Rightarrow> bool" where
  "gov_inv g \<longleftrightarrow> gov.balanced g \<and> gov_limits_ok g \<and> circuit_ok (rg_circuit g)
     \<and> (\<forall>k l. map_of (rg_leases g) k = Some l \<longrightarrow> le_lease_id l = k)"

inductive gov_step :: "ResourceGovernor \<Rightarrow> ResourceGovernor \<Rightarrow> bool" where
  gs_admit: "ResourceRequest_post_init r = Inr r' \<Longrightarrow>
    ResourceGovernor_admit now g client task r' queue lid = (g', res) \<Longrightarrow> gov_step g g'"
| gs_release: "ResourceGovernor_release g lease = (g', b) \<Longrightarrow> gov_step g g'"
| gs_failure: "ResourceGovernor_record_failure now g reason = Inr (g', b) \<Longrightarrow> gov_step g g'"
| gs_pressure: "ResourceGovernor_evaluate_pressure now g p mem cpu disk gpu = (g', b) \<Longrightarrow> gov_step g g'"
| gs_gpu: "ResourceGovernor_evaluate_gpu_pressure now g q gpu_limit = (g', b) \<Longrightarrow> gov_step g g'"
| gs_recover: "gov_step g (ResourceGovernor_recover g)"
| gs_drain: "gov_step g (ResourceGovernor_drain g)"
| gs_shutdown: "gov_step g (ResourceGovernor_shutdown g)"

inductive gov_reachable :: "ResourceGovernor \<Rightarrow> bool" where
  gr_init: "ResourceLimits_post_init limits = Inr limits \<Longrightarrow>
    (\<forall>l \<in> set (dict_values climits). ResourceLimits_post_init l = Inr l) \<Longrightarrow>
    ResourceGovernor_init limits climits threshold cooldown = Inr g \<Longrightarrow> gov_reachable g"
| gr_step: "gov_reachable g \<Longrightarrow> gov_step g g' \<Longrightarrow> gov_reachable g'"

inductive_cases gov_stepE: "gov_step g g'"

section \<open>Every operation keeps the invariant\<close>

lemma post_init_limits: "ResourceLimits_post_init l = Inr l \<Longrightarrow> limits_nonneg l"
  by (auto simp: ResourceLimits_post_init_def limits_nonneg_def not_less split: if_splits)

lemma over_budget_None:
  "over_budget_in used items limits = None \<longleftrightarrow>
    (\<forall>(name, value) \<in> set items. dict_get_or limits name 0 = 0
       \<or> dict_get_or used name 0 + value \<le> dict_get_or limits name 0)"
  by (induction items) (auto simp: Let_def split: if_splits)

lemma within_budget:
  assumes "ResourceGovernor_over_budget used r l = None" and "limit_ok l n (dict_get_or used n 0)"
  shows "limit_ok l n (dict_get_or used n 0 + dict_get_or (ResourceRequest_as_dict r) n 0)"
proof (cases "map_of (ResourceRequest_as_dict r) n")
  case None
  with assms(2) show ?thesis by (simp add: dict_get_or_def)
next
  case (Some v)
  have "(n, v) \<in> set (ResourceRequest_as_dict r)" by (rule map_of_SomeD [OF Some])
  with assms(1) show ?thesis
    by (auto simp: ResourceGovernor_over_budget_def over_budget_None limit_ok_def dict_get_or_Some [OF Some])
qed

lemma allow_ok: "circuit_ok cb \<Longrightarrow> circuit_ok (fst (CircuitBreaker_allow now cb))"
  and failure_ok: "circuit_ok cb \<Longrightarrow> circuit_ok (fst (CircuitBreaker_record_failure now reason cb))"
  and recover_ok: "circuit_ok cb \<Longrightarrow> circuit_ok (CircuitBreaker_recover cb)"
  by (auto simp: circuit_ok_def CircuitBreaker_allow_def CircuitBreaker_record_failure_def
      CircuitBreaker_recover_def Let_def)

definition gov_core :: "ResourceGovernor \<Rightarrow> ResourceGovernor \<Rightarrow> bool" where
  \<comment> \<open>the same leases, usages and limits\<close>
  "gov_core g g' \<longleftrightarrow> rg_leases g' = rg_leases g \<and> (\<forall>a. gov_total g' a = gov_total g a)
     \<and> rg_limits g' = rg_limits g \<and> rg_client_limits g' = rg_client_limits g"

lemma gov_core_trans: "gov_core g g' \<Longrightarrow> gov_core g' g'' \<Longrightarrow> gov_core g g''"
  by (simp add: gov_core_def)

lemma gov_inv_core:
  assumes "gov_inv g" and "gov_core g g'" and "circuit_ok (rg_circuit g')"
  shows "gov_inv g'"
proof -
  have "gov.balanced g' \<longleftrightarrow> gov.balanced g"
    using assms(2) by (intro gov.balanced_cong) (simp_all add: gov_core_def)
  moreover have "gov_limits_ok g' \<longleftrightarrow> gov_limits_ok g"
    using assms(2) unfolding gov_core_def gov_limits_ok_def by metis
  ultimately show ?thesis using assms by (simp add: gov_inv_def gov_core_def)
qed

lemma core_circuit: "gov_core g (g\<lparr>rg_circuit := cb\<rparr>)"
  and core_receipts: "gov_core g (g\<lparr>rg_receipts := rs\<rparr>)"
  and core_draining: "gov_core g (g\<lparr>rg_draining := d\<rparr>)"
  unfolding gov_core_def by (intro conjI allI; (simp | (case_tac a; simp)))+

lemma core_ensure: "gov_core g (ensure_client c g)"
proof -
  have "gov_total (ensure_client c g) a = gov_total g a" for a
    by (cases a) (auto simp: ensure_client_def in_dict_def dict_get_or_def)
  then show ?thesis by (simp add: gov_core_def) (simp add: ensure_client_def)
qed

lemma throttle_core: "throttle t g = (g', res) \<Longrightarrow>
    gov_core g g' \<and> rg_circuit g' = rg_circuit g \<and> rg_draining g' = rg_draining g \<and> isl res"
  using core_receipts [of g] by (auto simp: throttle_def ResourceGovernor_receipt_def Let_def)

lemma grant_lease_inv:
  assumes "gov_inv g" and "request_ok (le_request l)" and "le_lease_id l = k"
    and "map_of (rg_leases g) k = None"
    and "ResourceGovernor_over_budget (rg_usage g) (le_request l) (rg_limits g) = None"
    and "\<And>lim. map_of (rg_client_limits g) (le_client_id l) = Some lim \<Longrightarrow>
      ResourceGovernor_over_budget (dict_get_or (rg_client_usage g) (le_client_id l) Usage_init)
        (le_request l) lim = None"
  shows "gov_inv (grant_lease k l g)"
proof -
  have inv: "gov.balanced g" "gov_limits_ok g" using assms(1) by (auto simp: gov_inv_def)
  have "k \<notin> set (dict_keys (rg_leases g))" using assms(4) by (metis in_dict_def in_dict_keys)
  then have "gov.balanced (grant_lease k l g)" using inv(1) assms(2) by (intro gov.balanced_add) simp_all
  moreover have "gov_limits_ok (grant_lease k l g)"
  proof -
    have fr: "rg_limits (grant_lease k l g) = rg_limits g"
      "rg_client_limits (grant_lease k l g) = rg_client_limits g" by (simp_all add: grant_lease_def)
    have "limit_ok (rg_limits g) n (gov_total g (GlobalRes n) + gov_weight (GlobalRes n) l)" for n
      using within_budget [OF assms(5), of n] inv(2) by (simp add: gov_limits_ok_def)
    moreover have "limit_ok lim n (gov_total g (ClientRes c n) + gov_weight (ClientRes c n) l)"
      if "map_of (rg_client_limits g) c = Some lim" for c lim n
      using within_budget [OF assms(6), of lim n] inv(2) that
      by (cases "c = le_client_id l") (simp_all add: gov_limits_ok_def)
    ultimately show ?thesis using inv(2) unfolding gov_limits_ok_def fr gov.total_add by simp
  qed
  moreover have "circuit_ok (rg_circuit (grant_lease k l g))"
    using assms(1) by (simp add: gov_inv_def grant_lease_def)
  moreover have "map_of (rg_leases (grant_lease k l g)) k' = Some l' \<Longrightarrow> le_lease_id l' = k'" for k' l'
    using assms(1,3) by (auto simp: gov_inv_def gov.entries_add split: if_splits)
  ultimately show ?thesis by (simp add: gov_inv_def)
qed

lemma drop_lease_inv:
  assumes "gov_inv g" and "map_of (rg_leases g) k = Some l"
  shows "gov_inv (drop_lease k l g)"
proof -
  have inv: "gov.balanced g" "gov_limits_ok g" using assms(1) by (auto simp: gov_inv_def)
  have fr: "rg_limits (drop_lease k l g) = rg_limits g"
    "rg_client_limits (drop_lease k l g) = rg_client_limits g"
    "rg_circuit (drop_lease k l g) = rg_circuit g"
    by (simp_all add: drop_lease_def Let_def split: option.splits)
  have mono: "limit_ok lim n x \<Longrightarrow> y \<le> x \<Longrightarrow> limit_ok lim n y" for lim n x y
    by (auto simp: limit_ok_def)
  have "gov_limits_ok (drop_lease k l g)"
    using inv(2) unfolding gov_limits_ok_def fr
    by (blast intro: mono gov.remove_le [OF inv(1) assms(2)])
  then show ?thesis
    using assms gov.balanced_remove [OF inv(1) assms(2)]
    by (auto simp: gov_inv_def fr gov.entries_remove split: if_splits)
qed

lemma release_inv: "gov_inv g \<Longrightarrow> gov_inv (fst (ResourceGovernor_release g lease))"
  by (auto simp: ResourceGovernor_release_def intro: drop_lease_inv split: option.splits)

section \<open>What an admission does\<close>

definition admissible :: "rat \<Rightarrow> ResourceGovernor \<Rightarrow> string \<Rightarrow> ResourceRequest \<Rightarrow> bool" where
  \<comment> \<open>the admission contract, stated over the totals\<close>
  "admissible now g client r \<longleftrightarrow> \<not> rg_draining g
     \<and> \<not> (cb_state (rg_circuit g) = ''open''
          \<and> now < cb_tripped_at (rg_circuit g) + cb_cooldown_seconds (rg_circuit g))
     \<and> (\<forall>n \<in> set RESOURCE_NAMES. limit_ok (rg_limits g) n
          (gov_total g (GlobalRes n) + dict_get_or (ResourceRequest_as_dict r) n 0))
     \<and> (\<forall>l. map_of (rg_client_limits g) client = Some l \<longrightarrow>
          (\<forall>n \<in> set RESOURCE_NAMES. limit_ok l n
            (gov_total g (ClientRes client n) + dict_get_or (ResourceRequest_as_dict r) n 0)))"

lemma over_budget_iff:
  "ResourceGovernor_over_budget used r l = None \<longleftrightarrow>
    (\<forall>n \<in> set RESOURCE_NAMES. limit_ok l n (dict_get_or used n 0 + dict_get_or (ResourceRequest_as_dict r) n 0))"
proof -
  have d: "distinct (dict_keys (ResourceRequest_as_dict r))"
    by (simp only: as_dict_keys distinct_resource_names)
  have items: "ResourceRequest_as_dict r
      = map (\<lambda>n. (n, dict_get_or (ResourceRequest_as_dict r) n 0)) RESOURCE_NAMES"
    by (simp add: ResourceRequest_as_dict_def RESOURCE_NAMES_def dict_get_or_def)
  show ?thesis
    unfolding ResourceGovernor_over_budget_def over_budget_None
    by (subst items) (auto simp: limit_ok_def)
qed

definition lease_key :: "string \<Rightarrow> string option \<Rightarrow> string" where
  "lease_key task lid = (case lid of None \<Rightarrow> task | Some l \<Rightarrow> if l = [] then task else l)"

definition new_lease :: "rat \<Rightarrow> string \<Rightarrow> string \<Rightarrow> ResourceRequest \<Rightarrow> string \<Rightarrow> string option \<Rightarrow> ResourceLease" where
  "new_lease now client task r queue lid = \<lparr>le_lease_id = lease_key task lid, le_client_id = client,
     le_task_id = task, le_request = r, le_admitted_at = now, le_queue = queue\<rparr>"

lemma allow_iff: "snd (CircuitBreaker_allow now cb) \<longleftrightarrow>
    \<not> (cb_state cb = ''open'' \<and> now < cb_tripped_at cb + cb_cooldown_seconds cb)"
  by (auto simp: CircuitBreaker_allow_def Let_def)

lemma admit_cases:
  assumes "ResourceGovernor_admit now g client task r queue lid = (g', res)"
  obtains
    (invalid) "client = [] \<or> task = []" "g' = g" "res = Inl IdentityRequired"
  | (known) l where "map_of (rg_leases g) (lease_key task lid) = Some l" "g' = g" "res = Inr l"
  | (refused) t where "map_of (rg_leases g) (lease_key task lid) = None" "\<not> admissible now g client r"
      "gov_core g g'" "rg_circuit g' \<in> {rg_circuit g, fst (CircuitBreaker_allow now (rg_circuit g))}"
      "rg_draining g' = rg_draining g" "res = Inl (ResourceThrottled t)"
      "rg_receipts g' = rg_receipts g @ [t]" "tr_client_id t = client \<and> tr_task_id t = task"
  | (granted) g1 where "map_of (rg_leases g) (lease_key task lid) = None" "admissible now g client r"
      "gov_core g g1" "rg_circuit g1 = fst (CircuitBreaker_allow now (rg_circuit g))"
      "rg_draining g1 = rg_draining g" "rg_receipts g1 = rg_receipts g"
      "res = Inr (new_lease now client task r queue lid)"
      "g' = grant_lease (lease_key task lid) (new_lease now client task r queue lid) g1"
proof (cases "client = [] \<or> task = []")
  case True
  with assms invalid show ?thesis by (auto simp: ResourceGovernor_admit_def)
next
  case ids: False
  let ?key = "lease_key task lid"
  show ?thesis
  proof (cases "map_of (rg_leases g) ?key")
    case (Some l)
    have "ResourceGovernor_admit now g client task r queue lid = (g, Inr l)"
      unfolding ResourceGovernor_admit_def Let_def lease_key_def [symmetric]
      by (simp only: ids Some if_False option.case)
    with assms known [OF Some] show ?thesis by simp
  next
    case key: None
    let ?cb = "fst (CircuitBreaker_allow now (rg_circuit g))"
      and ?ok = "snd (CircuitBreaker_allow now (rg_circuit g))"
    let ?g1 = "g\<lparr>rg_circuit := ?cb\<rparr>" and ?g2 = "ensure_client client (g\<lparr>rg_circuit := ?cb\<rparr>)"
    let ?used = "dict_get_or (rg_client_usage ?g2) client Usage_init"
    have core: "gov_core g ?g1" "gov_core g ?g2"
      using core_circuit [of g ?cb] core_ensure [of ?g1 client] by (auto intro: gov_core_trans)
    have used: "dict_get_or ?used n 0 = gov_total g (ClientRes client n)" for n
      using core(2) by (simp add: gov_core_def) (metis gov_total.simps(2))
    have g2: "rg_draining ?g2 = rg_draining g" "rg_receipts ?g2 = rg_receipts g"
      "rg_circuit ?g2 = ?cb" "rg_client_limits ?g2 = rg_client_limits g"
      by (simp_all add: ensure_client_def)
    have adm: "admissible now g client r \<longleftrightarrow> \<not> rg_draining g \<and> ?ok
        \<and> ResourceGovernor_over_budget (rg_usage g) r (rg_limits g) = None
        \<and> (\<forall>l. map_of (rg_client_limits g) client = Some l \<longrightarrow> ResourceGovernor_over_budget ?used r l = None)"
      unfolding admissible_def allow_iff over_budget_iff used by auto
    have eq: "(g', res) =
      (if rg_draining g then throttle (plain_receipt client task ''draining'' queue) g
       else if \<not> ?ok then throttle (plain_receipt client task ''circuit_open'' queue) ?g1
       else case ResourceGovernor_over_budget (rg_usage g) r (rg_limits g) of
          Some x \<Rightarrow> throttle (budget_receipt client task ''global_budget'' queue x r
                        (rg_limits g) (rg_usage g)) ?g1
        | None \<Rightarrow> (case map_of (rg_client_limits g) client of
            None \<Rightarrow> (grant_lease ?key (new_lease now client task r queue lid) ?g2,
                      Inr (new_lease now client task r queue lid))
          | Some limit \<Rightarrow> (case ResourceGovernor_over_budget ?used r limit of
               Some x \<Rightarrow> throttle (budget_receipt client task ''client_budget'' queue x r limit ?used) ?g2
             | None \<Rightarrow> (grant_lease ?key (new_lease now client task r queue lid) ?g2,
                      Inr (new_lease now client task r queue lid)))))"
      unfolding assms [symmetric] ResourceGovernor_admit_def Let_def lease_key_def [symmetric]
        new_lease_def case_prod_beta
      using ids by (simp add: key g2(4) cong: option.case_cong)
    have deny: thesis
      if "\<not> admissible now g client r" "(g', res) = throttle t h" "gov_core g h"
        "rg_circuit h \<in> {rg_circuit g, ?cb}" "rg_draining h = rg_draining g" "rg_receipts h = rg_receipts g"
        "tr_client_id t = client \<and> tr_task_id t = task" for t h
    proof -
      let ?t = "t\<lparr>tr_available := max 0 (tr_available t)\<rparr>"
      have r: "g' = h\<lparr>rg_receipts := rg_receipts h @ [?t]\<rparr>" "res = Inl (ResourceThrottled ?t)"
        using that(2) by (simp_all add: throttle_def ResourceGovernor_receipt_def Let_def)
      have "gov_core g g'" using gov_core_trans [OF that(3) core_receipts] r(1) by simp
      then show thesis using refused [of ?t, OF key that(1)] that(4-7) r by simp
    qed
    have budget_id: "tr_client_id (budget_receipt client task a b c r d e) = client \<and>
        tr_task_id (budget_receipt client task a b c r d e) = task"
      "tr_client_id (plain_receipt client task a b) = client \<and>
        tr_task_id (plain_receipt client task a b) = task" for a b c d e
      by (simp_all add: budget_receipt_def plain_receipt_def)
    show ?thesis
    proof (cases "admissible now g client r")
      case True
      with eq adm show ?thesis
        using granted [OF key True core(2)] g2 by (auto split: option.splits)
    next
      case False
      have self: "gov_core g g" by (simp add: gov_core_def)
      consider "rg_draining g" | "\<not> rg_draining g" "\<not> ?ok"
        | x where "\<not> rg_draining g" "?ok" "ResourceGovernor_over_budget (rg_usage g) r (rg_limits g) = Some x"
        | l x where "\<not> rg_draining g" "?ok" "ResourceGovernor_over_budget (rg_usage g) r (rg_limits g) = None"
            "map_of (rg_client_limits g) client = Some l" "ResourceGovernor_over_budget ?used r l = Some x"
        using False adm by fastforce
      then show ?thesis
      proof cases
        case 1
        with eq show ?thesis using deny [OF False _ self] budget_id by simp
      next
        case 2
        with eq show ?thesis using deny [OF False _ core(1)] budget_id by simp
      next
        case (3 x)
        with eq show ?thesis using deny [OF False _ core(1)] budget_id by simp
      next
        case (4 l x)
        with eq show ?thesis using deny [OF False _ core(2)] budget_id g2 by simp
      qed
    qed
  qed
qed

lemma core_budget:
  assumes "gov_core g g1"
  shows "admissible now g client r \<Longrightarrow> ResourceGovernor_over_budget (rg_usage g1) r (rg_limits g1) = None"
    and "admissible now g client r \<Longrightarrow> map_of (rg_client_limits g1) client = Some l \<Longrightarrow>
      ResourceGovernor_over_budget (dict_get_or (rg_client_usage g1) client Usage_init) r l = None"
proof -
  have t: "dict_get_or (rg_usage g1) n 0 = gov_total g (GlobalRes n)"
    "dict_get_or (dict_get_or (rg_client_usage g1) c Usage_init) n 0 = gov_total g (ClientRes c n)" for n c
    using assms unfolding gov_core_def by (metis gov_total.simps)+
  show "admissible now g client r \<Longrightarrow> ResourceGovernor_over_budget (rg_usage g1) r (rg_limits g1) = None"
    "admissible now g client r \<Longrightarrow> map_of (rg_client_limits g1) client = Some l \<Longrightarrow>
      ResourceGovernor_over_budget (dict_get_or (rg_client_usage g1) client Usage_init) r l = None"
    using assms unfolding over_budget_iff t admissible_def gov_core_def by metis+
qed

lemma admit_inv:
  assumes "gov_inv g" and "request_ok r"
    and "ResourceGovernor_admit now g client task r queue lid = (g', res)"
  shows "gov_inv g'"
proof -
  have cb: "circuit_ok (rg_circuit g)" "circuit_ok (fst (CircuitBreaker_allow now (rg_circuit g)))"
    using assms(1) allow_ok by (auto simp: gov_inv_def)
  from assms(3) show ?thesis
  proof (cases rule: admit_cases)
    case (refused t)
    then show ?thesis using gov_inv_core [OF assms(1), of g'] cb by auto
  next
    case (granted g1)
    let ?l = "new_lease now client task r queue lid"
    have "gov_inv g1" using gov_inv_core [OF assms(1) granted(3)] granted(4) cb by simp
    moreover have "map_of (rg_leases g1) (lease_key task lid) = None"
      using granted(1,3) by (simp add: gov_core_def)
    ultimately show ?thesis
      unfolding granted(8) using core_budget [OF granted(3,2)] assms(2)
      by (intro grant_lease_inv) (simp_all add: new_lease_def)
  qed (use assms(1) in simp_all)
qed

lemma shutdown_fold_inv:
  "gov_inv g \<Longrightarrow> gov_inv (fold (\<lambda>lease g. fst (ResourceGovernor_release g lease)) ls g)"
  by (induction ls arbitrary: g) (auto intro: release_inv)

lemma gov_inv_circuit: "gov_inv g \<Longrightarrow> circuit_ok cb \<Longrightarrow> gov_inv (g\<lparr>rg_circuit := cb\<rparr>)"
  by (rule gov_inv_core [OF _ core_circuit]) simp_all

lemma gov_inv_draining: "gov_inv g \<Longrightarrow> gov_inv (g\<lparr>rg_draining := d\<rparr>)"
  by (rule gov_inv_core [OF _ core_draining]) (simp_all add: gov_inv_def)

lemma reading_inv:
  assumes "gov_inv g"
  shows "gov_inv (under_pressure_reading now g)"
    and "gov_inv (g\<lparr>rg_circuit := fst (CircuitBreaker_record_failure now reason (rg_circuit g))\<rparr>)"
proof -
  have cb: "circuit_ok (rg_circuit g)" using assms by (simp add: gov_inv_def)
  show "gov_inv (under_pressure_reading now g)"
    unfolding under_pressure_reading_def Let_def case_prod_beta
    using allow_ok [OF cb] by (intro gov_inv_circuit [OF assms]) (simp add: recover_ok)
  show "gov_inv (g\<lparr>rg_circuit := fst (CircuitBreaker_record_failure now reason (rg_circuit g))\<rparr>)"
    by (intro gov_inv_circuit [OF assms] failure_ok cb)
qed

lemma gov_step_inv:
  assumes "gov_step g g'" and "gov_inv g"
  shows "gov_inv g'"
  using assms(1)
proof (cases rule: gov_step.cases)
  case (gs_admit r r' now client task queue lid res)
  then show ?thesis using admit_inv [OF assms(2)] post_init_request_ok by metis
next
  case (gs_release lease b)
  then show ?thesis using release_inv [OF assms(2), of lease] by simp
next
  case (gs_failure now reason b)
  then have "g' = g\<lparr>rg_circuit := fst (CircuitBreaker_record_failure now reason (rg_circuit g))\<rparr>"
    by (simp add: ResourceGovernor_record_failure_def case_prod_beta split: if_splits)
  then show ?thesis using reading_inv(2) [OF assms(2)] by simp
next
  case (gs_pressure now p mem cpu disk gpu b)
  then show ?thesis
    using reading_inv [OF assms(2)]
    by (auto simp: ResourceGovernor_evaluate_pressure_def case_prod_beta split: option.splits)
next
  case (gs_gpu now q gpu_limit b)
  then show ?thesis
    using reading_inv [OF assms(2)]
    by (auto simp: ResourceGovernor_evaluate_gpu_pressure_def case_prod_beta split: if_splits)
next
  case gs_recover
  then show ?thesis
    using assms(2) gov_inv_circuit [OF assms(2) recover_ok]
    by (simp add: ResourceGovernor_recover_def gov_inv_def)
next
  case gs_drain
  then show ?thesis using gov_inv_draining [OF assms(2)] by (simp add: ResourceGovernor_drain_def)
next
  case gs_shutdown
  then show ?thesis
    using shutdown_fold_inv [OF gov_inv_draining [OF assms(2)]] by (simp add: ResourceGovernor_shutdown_def)
qed

lemma gov_init_inv:
  assumes "ResourceLimits_post_init limits = Inr limits"
    and "\<forall>l \<in> set (dict_values climits). ResourceLimits_post_init l = Inr l"
    and "ResourceGovernor_init limits climits threshold cooldown = Inr g"
  shows "gov_inv g"
proof -
  obtain cb where cb: "CircuitBreaker_init threshold cooldown = Inr cb"
    and g: "g = \<lparr>rg_limits = limits, rg_client_limits = climits, rg_usage = Usage_init,
        rg_client_usage = [], rg_leases = [], rg_receipts = [], rg_draining = False, rg_circuit = cb\<rparr>"
    using assms(3) by (auto simp: ResourceGovernor_init_def ebind_Inr_conv)
  have tot: "gov_total g a = 0" for a by (cases a) (simp_all add: g)
  have nn: "limits_nonneg limits" "\<forall>l \<in> set (dict_values climits). limits_nonneg l"
    using assms(1,2) by (auto intro: post_init_limits)
  have zero: "limits_nonneg l \<Longrightarrow> limit_ok l n 0" for l n
    unfolding limits_nonneg_def limit_ok_def dict_get_or_def
    by (cases "map_of (ResourceLimits_as_dict l) n") (auto dest!: map_of_SomeD)
  have "gov_limits_ok g"
    unfolding gov_limits_ok_def tot using nn zero by (auto simp: g dest!: map_of_SomeD)
  moreover have "gov.balanced g" unfolding gov.balanced_def tot by (simp add: g)
  moreover have "circuit_ok cb" using cb by (auto simp: CircuitBreaker_init_def circuit_ok_def split: if_splits)
  ultimately show ?thesis by (simp add: gov_inv_def g)
qed

lemma gov_reachable_inv: "gov_reachable g \<Longrightarrow> gov_inv g"
  by (induction rule: gov_reachable.induct) (blast intro: gov_init_inv, blast intro: gov_step_inv)

lemma shutdown_empties:
  assumes "gov_inv g" and "set (dict_values (rg_leases g)) \<subseteq> set ls"
  shows "rg_leases (fold (\<lambda>lease g. fst (ResourceGovernor_release g lease)) ls g) = []"
  using assms(1,2)
proof (induction ls arbitrary: g)
  case (Cons l ls)
  let ?g = "fst (ResourceGovernor_release g l)"
  have inv: "gov_inv ?g" using Cons.prems(1) by (rule release_inv)
  have ids: "map_of (rg_leases g) k = Some x \<Longrightarrow> le_lease_id x = k" for k x
    using Cons.prems(1) by (simp add: gov_inv_def)
  have d: "distinct (dict_keys (rg_leases ?g))" using inv by (simp add: gov_inv_def gov.balanced_def)
  have gone: "map_of (rg_leases ?g) = (map_of (rg_leases g))(le_lease_id l := None)"
    by (auto simp: ResourceGovernor_release_def gov.entries_remove split: option.splits)
  have "x \<in> set ls" if x: "x \<in> set (dict_values (rg_leases ?g))" for x
  proof -
    obtain k where "map_of (rg_leases ?g) k = Some x" using dict_values_get [OF d x] by blast
    then have k: "map_of (rg_leases g) k = Some x" "k \<noteq> le_lease_id l"
      unfolding gone by (auto split: if_splits)
    then have "x \<noteq> l" "x \<in> set (l # ls)"
      using ids Cons.prems(2) dict_get_in_values by (metis, metis subsetD)
    then show ?thesis by simp
  qed
  then show ?case using Cons.IH [OF inv] by auto
qed simp

section \<open>Properties\<close>

definition lease_sum :: "string \<Rightarrow> (string, ResourceLease) dict \<Rightarrow> int" where
  \<comment> \<open>what the given leases hold of a resource\<close>
  "lease_sum n d = sum_list (map (\<lambda>(k, l). dict_get_or (ResourceRequest_as_dict (le_request l)) n 0) d)"

lemma lease_sum_weight:
  "dict_sum (gov_weight (GlobalRes n)) d = lease_sum n d"
  "dict_sum (gov_weight (ClientRes c n)) d = lease_sum n (filter (\<lambda>(k, l). le_client_id l = c) d)"
  by (induction d) (auto simp: lease_sum_def)

definition demo_limits :: "int \<Rightarrow> ResourceLimits" where
  "demo_limits c = \<lparr>rl_cpu = c, rl_memory_bytes = 0, rl_disk_bytes = 0, rl_gpu = 0,
     rl_processes = 0, rl_connections = 0, rl_tokens = 100\<rparr>"

definition demo_request :: "int \<Rightarrow> ResourceRequest" where
  "demo_request c = \<lparr>rr_cpu = c, rr_memory_bytes = 0, rr_disk_bytes = 0, rr_gpu = 0,
     rr_processes = 1, rr_connections = 0, rr_tokens = 10\<rparr>"

definition demo_gov0 :: ResourceGovernor where
  "demo_gov0 = projr (ResourceGovernor_init (demo_limits 4) [(''a'', demo_limits 2)] 2 30)"

definition demo_gov :: ResourceGovernor where
  "demo_gov = fst (ResourceGovernor_admit 5 demo_gov0 ''a'' ''t'' (demo_request 2) ''q'' None)"

lemma demo_gov_reachable: "gov_reachable demo_gov0" "gov_reachable demo_gov"
proof -
  show 0: "gov_reachable demo_gov0"
  proof (rule gr_init)
    show "ResourceLimits_post_init (demo_limits 4) = Inr (demo_limits 4)"
      "\<forall>l \<in> set (dict_values [(''a'', demo_limits 2)]). ResourceLimits_post_init l = Inr l"
      by code_simp+
    have "\<not> isl (ResourceGovernor_init (demo_limits 4) [(''a'', demo_limits 2)] 2 30)" by code_simp
    then show "ResourceGovernor_init (demo_limits 4) [(''a'', demo_limits 2)] 2 30 = Inr demo_gov0"
      unfolding demo_gov0_def by (rule sum.collapse(2) [symmetric])
  qed
  show "gov_reachable demo_gov"
  proof (rule gr_step [OF 0], rule gs_admit)
    show "ResourceRequest_post_init (demo_request 2) = Inr (demo_request 2)" by code_simp
    show "ResourceGovernor_admit 5 demo_gov0 ''a'' ''t'' (demo_request 2) ''q'' None
      = (demo_gov, snd (ResourceGovernor_admit 5 demo_gov0 ''a'' ''t'' (demo_request 2) ''q'' None))"
      by (simp add: demo_gov_def)
  qed
qed

text \<open>C4: after any sequence of operations the usage the governor reports is exactly what its
  active leases hold: for every resource the global usage is the sum over all leases and a
  client's usage is the sum over that client's leases, so no lease is counted twice or leaked.\<close>

theorem governor_usage_exact:
  assumes "gov_reachable g"
  shows "dict_get_or (rg_usage g) n 0
      = lease_sum n (rg_leases g)
    \<and> dict_get_or (dict_get_or (rg_client_usage g) c Usage_init) n 0
      = lease_sum n (filter (\<lambda>(k, l). le_client_id l = c) (rg_leases g))"
proof -
  have "gov.balanced g" using gov_reachable_inv [OF assms] by (simp add: gov_inv_def)
  then have t: "gov_total g a = dict_sum (gov_weight a) (rg_leases g)" for a
    unfolding gov.balanced_def by blast
  then show ?thesis
    using t [of "GlobalRes n"] t [of "ClientRes c n"] unfolding lease_sum_weight by simp
qed

theorem governor_usage_exact_witness: "dict_get_or (rg_usage demo_gov) ''cpu'' 0 = 2"
proof -
  have "lease_sum ''cpu'' (rg_leases demo_gov) = 2"
    by code_simp
  then show ?thesis using governor_usage_exact [OF demo_gov_reachable(2), of "''cpu''" "''a''"] by simp
qed

text \<open>C5: admitted work never exceeds a configured budget. On every reachable governor, for each
  resource with a non-zero limit, the leases held together, and the leases of any client that
  has limits of its own, stay within the limit.\<close>

theorem governor_budget_respected:
  assumes "gov_reachable g"
  shows "(dict_get_or (ResourceLimits_as_dict (rg_limits g)) n 0 \<noteq> 0 \<longrightarrow>
        lease_sum n (rg_leases g)
          \<le> dict_get_or (ResourceLimits_as_dict (rg_limits g)) n 0)
    \<and> (\<forall>lims. map_of (rg_client_limits g) c = Some lims
        \<and> dict_get_or (ResourceLimits_as_dict lims) n 0 \<noteq> 0 \<longrightarrow>
        lease_sum n (filter (\<lambda>(k, l). le_client_id l = c) (rg_leases g))
          \<le> dict_get_or (ResourceLimits_as_dict lims) n 0)"
proof -
  have bal: "gov.balanced g" and lims: "gov_limits_ok g"
    using gov_reachable_inv [OF assms] by (auto simp: gov_inv_def)
  have t: "gov_total g a = dict_sum (gov_weight a) (rg_leases g)" for a
    using bal unfolding gov.balanced_def by blast
  show ?thesis
    using lims unfolding gov_limits_ok_def limit_ok_def t lease_sum_weight by metis
qed

theorem governor_budget_respected_witness:
  "lease_sum ''cpu'' (rg_leases demo_gov) \<le> 4"
proof -
  have "dict_get_or (ResourceLimits_as_dict (rg_limits demo_gov)) ''cpu'' 0 = 4" by code_simp
  then show ?thesis using governor_budget_respected [OF demo_gov_reachable(2), of "''cpu''" "''a''"] by simp
qed

text \<open>Admission is decided by the contract and fails closed. For a request with identities
  and a fresh lease key: when the governor is not draining, the circuit lets work through and
  the request fits the global limits and the client's own limits, the lease is granted, recorded
  under its key and added to the usage; in every other case the call raises a throttle receipt,
  which is logged, and no lease and no usage changes.\<close>

lemma governor_admit_decides:
  assumes "client \<noteq> []" and "task \<noteq> []" and "map_of (rg_leases g) (lease_key task lid) = None"
  shows "\<exists>g' res. ResourceGovernor_admit now g client task r queue lid = (g', res)
    \<and> (if admissible now g client r
       then res = Inr (new_lease now client task r queue lid)
          \<and> rg_leases g' = rg_leases g @ [(lease_key task lid, new_lease now client task r queue lid)]
          \<and> (\<forall>n. gov_total g' (GlobalRes n)
                = gov_total g (GlobalRes n) + dict_get_or (ResourceRequest_as_dict r) n 0)
       else (\<exists>t. res = Inl (ResourceThrottled t) \<and> rg_receipts g' = rg_receipts g @ [t])
          \<and> rg_leases g' = rg_leases g \<and> (\<forall>a. gov_total g' a = gov_total g a))"
proof -
  obtain g' res where r: "ResourceGovernor_admit now g client task r queue lid = (g', res)"
    by (cases "ResourceGovernor_admit now g client task r queue lid")
  from r show ?thesis
  proof (cases rule: admit_cases)
    case (granted g1)
    have k: "lease_key task lid \<notin> set (dict_keys (rg_leases g))"
      using assms(3) by (metis in_dict_def in_dict_keys)
    have "gov_total g' (GlobalRes n) = gov_total g (GlobalRes n) + dict_get_or (ResourceRequest_as_dict r) n 0" for n
      using granted(3) unfolding granted(8) gov.total_add gov_core_def by (metis gov_weight.simps(1) new_lease_def ResourceLease.select_convs(4))
    moreover have "rg_leases g' = rg_leases g @ [(lease_key task lid, new_lease now client task r queue lid)]"
      using granted(3) dict_set_new [OF k] unfolding granted(8) gov.entries_add by (simp add: gov_core_def)
    ultimately show ?thesis using granted(2,7) r by simp
  next
    case (refused t)
    then show ?thesis using r by (simp add: gov_core_def)
  qed (use assms in auto)
qed

lemma governor_admit_decides_example:
  "\<exists>g' res t. ResourceGovernor_admit 6 demo_gov ''a'' ''u'' (demo_request 1) ''q'' None = (g', res)
     \<and> res = Inl (ResourceThrottled t) \<and> rg_leases g' = rg_leases demo_gov"
proof -
  have n: "map_of (rg_leases demo_gov) (lease_key ''u'' None) = None" by code_simp
  have "ResourceGovernor_over_budget (dict_get_or (rg_client_usage demo_gov) ''a'' Usage_init)
      (demo_request 1) (demo_limits 2) \<noteq> None"
    and "map_of (rg_client_limits demo_gov) ''a'' = Some (demo_limits 2)" by code_simp+
  then have "\<not> admissible 6 demo_gov ''a'' (demo_request 1)"
    by (auto simp: admissible_def over_budget_iff)
  with governor_admit_decides [of "''a''" "''u''" demo_gov None 6 "demo_request 1" "''q''", OF _ _ n]
  show ?thesis by auto
qed

text \<open>Shutdown drains completely. On every reachable governor it leaves no lease and no usage
  of any resource, for any client, and every later request under a fresh key is throttled.\<close>

lemma governor_shutdown_releases_all:
  assumes "gov_reachable g"
  shows "rg_leases (ResourceGovernor_shutdown g) = []
    \<and> (\<forall>a. gov_total (ResourceGovernor_shutdown g) a = 0)
    \<and> rg_draining (ResourceGovernor_shutdown g)
    \<and> (client \<noteq> [] \<and> task \<noteq> [] \<longrightarrow>
        (\<exists>t. snd (ResourceGovernor_admit now (ResourceGovernor_shutdown g) client task r queue lid)
          = Inl (ResourceThrottled t)))"
proof -
  let ?g0 = "g\<lparr>rg_draining := True\<rparr>" and ?s = "ResourceGovernor_shutdown g"
  have inv0: "gov_inv ?g0" by (rule gov_inv_draining [OF gov_reachable_inv [OF assms]])
  have s: "?s = fold (\<lambda>lease g. fst (ResourceGovernor_release g lease)) (dict_values (rg_leases ?g0)) ?g0"
    by (simp add: ResourceGovernor_shutdown_def)
  have e: "rg_leases ?s = []" unfolding s by (rule shutdown_empties [OF inv0]) simp
  have "gov_inv ?s" unfolding s by (rule shutdown_fold_inv [OF inv0])
  then have z: "gov_total ?s a = 0" for a
    unfolding gov_inv_def gov.balanced_def by (simp add: e)
  have keep: "rg_draining (fst (ResourceGovernor_release h l)) = rg_draining h" for h l
    by (simp add: ResourceGovernor_release_def drop_lease_def Let_def split: option.splits)
  have "rg_draining (fold (\<lambda>lease g. fst (ResourceGovernor_release g lease)) ls h) = rg_draining h" for ls h
    by (induction ls arbitrary: h) (simp_all add: keep)
  then have d: "rg_draining ?s" unfolding s by simp
  have "\<exists>t. snd (ResourceGovernor_admit now ?s client task r queue lid) = Inl (ResourceThrottled t)"
    if "client \<noteq> []" "task \<noteq> []"
    using e d that by (simp add: ResourceGovernor_admit_def throttle_def Let_def case_prod_beta)
  then show ?thesis using e z d by blast
qed

lemma governor_shutdown_releases_all_example:
  "length (rg_leases demo_gov) = 1 \<and> rg_leases (ResourceGovernor_shutdown demo_gov) = []"
proof -
  have "length (rg_leases demo_gov) = 1" by code_simp
  then show ?thesis
    using governor_shutdown_releases_all [OF demo_gov_reachable(2), of "''a''" "''t''"] by simp
qed

text \<open>The circuit breaker of a reachable governor is closed exactly while fewer than
  \<open>threshold\<close> failures are recorded; a failure recorded in any other state (half-open included)
  opens it at once, and from then on it refuses until the cooldown has passed and lets the
  first request after it through half-open.\<close>

lemma circuit_protocol:
  assumes "gov_reachable g" and "cb = rg_circuit g"
    and "CircuitBreaker_record_failure now reason cb = (cb', tripped)"
  shows "(cb_state cb = ''closed'' \<longleftrightarrow> cb_failures cb < cb_threshold cb)
    \<and> (tripped \<longleftrightarrow> cb_threshold cb \<le> cb_failures cb + 1)
    \<and> (cb_state cb \<noteq> ''closed'' \<longrightarrow> tripped)
    \<and> (tripped \<longrightarrow> (\<forall>later. snd (CircuitBreaker_allow later cb') \<longleftrightarrow> now + cb_cooldown_seconds cb \<le> later)
        \<and> (\<forall>later. now + cb_cooldown_seconds cb \<le> later \<longrightarrow>
             cb_state (fst (CircuitBreaker_allow later cb')) = ''half_open''))"
proof -
  have "circuit_ok cb" using gov_reachable_inv [OF assms(1)] assms(2) by (simp add: gov_inv_def)
  moreover have "cb' = fst (CircuitBreaker_record_failure now reason cb)"
    "tripped = snd (CircuitBreaker_record_failure now reason cb)" using assms(3) by simp_all
  ultimately show ?thesis
    by (auto simp: circuit_ok_def CircuitBreaker_record_failure_def CircuitBreaker_allow_def Let_def)
qed

lemma circuit_protocol_example:
  "snd (CircuitBreaker_record_failure 7 ''oom'' (rg_circuit demo_gov)) \<longleftrightarrow>
     cb_threshold (rg_circuit demo_gov) \<le> cb_failures (rg_circuit demo_gov) + 1"
  using circuit_protocol [OF demo_gov_reachable(2) refl, of 7 "''oom''"
      "fst (CircuitBreaker_record_failure 7 ''oom'' (rg_circuit demo_gov))"
      "snd (CircuitBreaker_record_failure 7 ''oom'' (rg_circuit demo_gov))"] by simp

text \<open>A reading within budget resets the breaker only from half-open. In the closed state it
  leaves the failure count as it is, so \<open>threshold\<close> isolated over-budget readings trip the
  breaker however many healthy readings lie between them.\<close>

lemma circuit_failures_accumulate:
  assumes "cb_state (rg_circuit g) = ''closed''" and "pressure_reason p mem cpu disk gpu = None"
  shows "fst (ResourceGovernor_evaluate_pressure now g p mem cpu disk gpu) = g"
  using assms
  by (simp add: ResourceGovernor_evaluate_pressure_def under_pressure_reading_def CircuitBreaker_allow_def Let_def)

lemma circuit_failures_accumulate_example:
  "fst (ResourceGovernor_evaluate_pressure 9
      (fst (projr (ResourceGovernor_record_failure 8 demo_gov ''oom'')))
      \<lparr>pr_cpu_percent = 1, pr_memory_bytes = 1, pr_disk_percent = 1, pr_gpu_percent = 1, pr_source = ''x''\<rparr>
      2 0 0 0) = fst (projr (ResourceGovernor_record_failure 8 demo_gov ''oom''))"
  by (rule circuit_failures_accumulate) code_simp+

end
