(* ===== verification/Hub_Service.thy ===== *)
theory Hub_Service
  imports Hub_Scheduler Hub_Governor
begin

text \<open>
  The composition of the Hub's durable queue, fair scheduler and resource governor,
  \<open>src/simplicio_loop/hub_service.py\<close>. The durable queue (\<open>HubRetryQueue\<close>, a facade over an
  external store) is a parameter: a record of its operations over an arbitrary state, where a
  raised error is \<open>Inl\<close> with its message. The clock read by each admission is the parameter
  \<open>clock\<close>, indexed by the number of candidates still to try. Every call returns the service it
  leaves behind together with its result, because the code changes the three parts before some
  of its errors.
\<close>

section \<open>The service\<close>

record ('q, 'p, 'l) queue_ops =
  qo_submit :: "'q \<Rightarrow> 'p \<Rightarrow> string \<Rightarrow> int \<Rightarrow> string \<Rightarrow> string \<Rightarrow> int \<Rightarrow> int \<Rightarrow> string \<Rightarrow> 'q \<times> (string + string)"
  qo_claim_specific :: "'q \<Rightarrow> string \<Rightarrow> string \<Rightarrow> rat \<Rightarrow> 'q \<times> (string + 'l option)"
  qo_get_payload :: "'q \<Rightarrow> string \<Rightarrow> string + 'p"
  qo_complete :: "'q \<Rightarrow> 'l \<Rightarrow> 'q \<times> (string + unit)"
  qo_fail :: "'q \<Rightarrow> 'l \<Rightarrow> string \<Rightarrow> rat \<Rightarrow> 'q \<times> (string + string)"
  qo_list_queued :: "'q \<Rightarrow> ScheduledJob list"
  qo_set_manifest :: "'q \<Rightarrow> SchedulerPolicy \<Rightarrow> 'q \<times> (string + unit)"

record 'q HubService =
  hs_queue :: 'q
  hs_scheduler :: FairScheduler
  hs_governor :: ResourceGovernor

record ('p, 'l) ClaimedJob =
  cj_task_id :: string
  cj_client_id :: string
  cj_workspace_id :: string
  cj_weight :: int
  cj_cost :: int
  cj_scheduler_policy :: string
  cj_payload :: 'p
  cj_retry_lease :: 'l
  cj_resource_lease :: ResourceLease

datatype svc_error = QueueRaised string | SchedulerRaised sched_error | GovernorRaised gov_error

definition DEFAULT_PRIORITY :: string where
  "DEFAULT_PRIORITY = ''background''"

section \<open>Submission\<close>

definition sched_message :: "sched_error \<Rightarrow> string" where
  \<comment> \<open>\<open>str(exc)\<close> for the errors \<open>enqueue\<close> can raise\<close>
  "sched_message e = (case e of
     DuplicateTaskId \<Rightarrow> ''duplicate task_id''
   | JobIdentityInvalid \<Rightarrow> ''job identity, weight and cost must be positive''
   | WorkspaceEmpty \<Rightarrow> ''workspace_id must be non-empty''
   | QuotaExceededError scope limit current client workspace \<Rightarrow>
       ''quota exceeded at scope='' @ scope @ '' limit='' @ show_int limit @ '' current='' @
       show_int current @ '' client='' @ client @ '' workspace='' @ workspace
   | _ \<Rightarrow> [])"

definition HubService_submit ::
    "('q, 'p, 'l) queue_ops \<Rightarrow> (string \<Rightarrow> nat) \<Rightarrow> 'q HubService \<Rightarrow> 'p \<Rightarrow> string \<Rightarrow> string \<Rightarrow> string
      \<Rightarrow> int \<Rightarrow> int \<Rightarrow> int \<Rightarrow> 'q HubService \<times> (svc_error + string)" where
  "HubService_submit ops h sv payload key client workspace weight cost max_attempts =
    (let scheduler_policy = SchedulerPolicy_policy_for h (fs_policy (hs_scheduler sv)) key;
         (q1, sub) = qo_submit ops (hs_queue sv) payload key max_attempts client workspace weight cost
            scheduler_policy;
         sv1 = sv\<lparr>hs_queue := q1\<rparr>
     in case sub of
          Inl m \<Rightarrow> (sv1, Inl (QueueRaised m))
        | Inr task_id \<Rightarrow>
          (case FairScheduler_enqueue h (hs_scheduler sv1)
             \<lparr>sj_task_id = task_id, sj_client_id = client, sj_weight = weight, sj_cost = cost,
              sj_workspace_id = workspace, sj_priority = DEFAULT_PRIORITY,
              sj_scheduler_policy = scheduler_policy\<rparr> of
             Inl e \<Rightarrow> if \<not> contains_text ''duplicate task_id'' (sched_message e)
                       then (sv1, Inl (SchedulerRaised e)) else (sv1, Inr task_id)
           | Inr s1 \<Rightarrow> (sv1\<lparr>hs_scheduler := s1\<rparr>, Inr task_id)))"

section \<open>Claiming\<close>

fun claim_loop ::
    "('q, 'p, 'l) queue_ops \<Rightarrow> (string \<Rightarrow> nat) \<Rightarrow> (nat \<Rightarrow> rat) \<Rightarrow> string \<Rightarrow> ResourceRequest \<Rightarrow> rat
      \<Rightarrow> nat \<Rightarrow> 'q HubService \<Rightarrow> 'q HubService \<times> (svc_error + ('p, 'l) ClaimedJob option)" where
  "claim_loop ops h clock worker r ttl 0 sv = (sv, Inr None)"
| "claim_loop ops h clock worker r ttl (Suc left) sv =
    (case FairScheduler_next (hs_scheduler sv) of
       Inl e \<Rightarrow> (sv, Inl (SchedulerRaised e))
     | Inr (s1, None) \<Rightarrow> (sv\<lparr>hs_scheduler := s1\<rparr>, Inr None)
     | Inr (s1, Some job) \<Rightarrow>
       (case ResourceGovernor_admit (clock left) (hs_governor sv) (sj_client_id job) (sj_task_id job) r
               (sj_workspace_id job) None of
          (g1, Inl (ResourceThrottled t)) \<Rightarrow>
            let sv1 = sv\<lparr>hs_scheduler := s1, hs_governor := g1\<rparr>
            in (case FairScheduler_complete s1 (sj_task_id job) of
                  Inl e \<Rightarrow> (sv1, Inl (SchedulerRaised e))
                | Inr s2 \<Rightarrow>
                  (case FairScheduler_enqueue h s2 job of
                     Inl e \<Rightarrow> (sv1\<lparr>hs_scheduler := s2\<rparr>, Inl (SchedulerRaised e))
                   | Inr s3 \<Rightarrow> claim_loop ops h clock worker r ttl left (sv1\<lparr>hs_scheduler := s3\<rparr>)))
        | (g1, Inl e) \<Rightarrow> (sv\<lparr>hs_scheduler := s1, hs_governor := g1\<rparr>, Inl (GovernorRaised e))
        | (g1, Inr lease) \<Rightarrow>
            let (q1, cl) = qo_claim_specific ops (hs_queue sv) (sj_task_id job) worker ttl;
                sv1 = sv\<lparr>hs_queue := q1, hs_scheduler := s1, hs_governor := g1\<rparr>
            in (case cl of
                  Inl m \<Rightarrow> (sv1, Inl (QueueRaised m))
                | Inr None \<Rightarrow>
                  (let g2 = fst (ResourceGovernor_release g1 lease); sv2 = sv1\<lparr>hs_governor := g2\<rparr>
                   in case FairScheduler_complete s1 (sj_task_id job) of
                        Inl e \<Rightarrow> (sv2, Inl (SchedulerRaised e))
                      | Inr s2 \<Rightarrow> claim_loop ops h clock worker r ttl left (sv2\<lparr>hs_scheduler := s2\<rparr>))
                | Inr (Some retry_lease) \<Rightarrow>
                  (case qo_get_payload ops q1 (sj_task_id job) of
                     Inl m \<Rightarrow> (sv1, Inl (QueueRaised m))
                   | Inr payload \<Rightarrow> (sv1, Inr (Some
                       \<lparr>cj_task_id = sj_task_id job, cj_client_id = sj_client_id job,
                        cj_workspace_id = sj_workspace_id job, cj_weight = sj_weight job,
                        cj_cost = sj_cost job, cj_scheduler_policy = sj_scheduler_policy job,
                        cj_payload = payload, cj_retry_lease = retry_lease,
                        cj_resource_lease = lease\<rparr>))))))"

definition HubService_claim ::
    "('q, 'p, 'l) queue_ops \<Rightarrow> (string \<Rightarrow> nat) \<Rightarrow> (nat \<Rightarrow> rat) \<Rightarrow> 'q HubService \<Rightarrow> string \<Rightarrow> ResourceRequest
      \<Rightarrow> rat \<Rightarrow> int \<Rightarrow> 'q HubService \<times> (svc_error + ('p, 'l) ClaimedJob option)" where
  "HubService_claim ops h clock sv worker r ttl max_candidates =
    claim_loop ops h clock worker r ttl (nat max_candidates) sv"

section \<open>Completion, failure, rollout and restart\<close>

definition HubService_complete ::
    "('q, 'p, 'l) queue_ops \<Rightarrow> 'q HubService \<Rightarrow> ('p, 'l) ClaimedJob \<Rightarrow> 'q HubService \<times> (svc_error + unit)" where
  "HubService_complete ops sv c =
    (let (q1, res) = qo_complete ops (hs_queue sv) (cj_retry_lease c); sv1 = sv\<lparr>hs_queue := q1\<rparr>
     in case res of
          Inl m \<Rightarrow> (sv1, Inl (QueueRaised m))
        | Inr _ \<Rightarrow>
          (let sv2 = sv1\<lparr>hs_governor := fst (ResourceGovernor_release (hs_governor sv1) (cj_resource_lease c))\<rparr>
           in case FairScheduler_complete (hs_scheduler sv2) (cj_task_id c) of
                Inl e \<Rightarrow> (sv2, Inl (SchedulerRaised e))
              | Inr s1 \<Rightarrow> (sv2\<lparr>hs_scheduler := s1\<rparr>, Inr ())))"

definition HubService_fail ::
    "('q, 'p, 'l) queue_ops \<Rightarrow> (string \<Rightarrow> nat) \<Rightarrow> 'q HubService \<Rightarrow> ('p, 'l) ClaimedJob \<Rightarrow> string \<Rightarrow> rat
      \<Rightarrow> 'q HubService \<times> (svc_error + string)" where
  "HubService_fail ops h sv c error_code backoff =
    (let (q1, res) = qo_fail ops (hs_queue sv) (cj_retry_lease c) error_code backoff;
         sv1 = sv\<lparr>hs_queue := q1\<rparr>
     in case res of
          Inl m \<Rightarrow> (sv1, Inl (QueueRaised m))
        | Inr outcome \<Rightarrow>
          (let sv2 = sv1\<lparr>hs_governor := fst (ResourceGovernor_release (hs_governor sv1) (cj_resource_lease c))\<rparr>
           in case FairScheduler_complete (hs_scheduler sv2) (cj_task_id c) of
                Inl e \<Rightarrow> (sv2, Inl (SchedulerRaised e))
              | Inr s1 \<Rightarrow>
                if outcome = ''retry'' then
                  (case FairScheduler_enqueue h s1
                     \<lparr>sj_task_id = cj_task_id c, sj_client_id = cj_client_id c, sj_weight = cj_weight c,
                      sj_cost = cj_cost c, sj_workspace_id = cj_workspace_id c,
                      sj_priority = DEFAULT_PRIORITY, sj_scheduler_policy = cj_scheduler_policy c\<rparr> of
                     Inl e \<Rightarrow> (sv2\<lparr>hs_scheduler := s1\<rparr>, Inl (SchedulerRaised e))
                   | Inr s2 \<Rightarrow> (sv2\<lparr>hs_scheduler := s2\<rparr>, Inr outcome))
                else (sv2\<lparr>hs_scheduler := s1\<rparr>, Inr outcome)))"

definition HubService_configure_scheduler ::
    "('q, 'p, 'l) queue_ops \<Rightarrow> 'q HubService \<Rightarrow> SchedulerPolicy \<Rightarrow> 'q HubService \<times> (svc_error + sched_receipt)" where
  "HubService_configure_scheduler ops sv p =
    (let (q1, res) = qo_set_manifest ops (hs_queue sv) p; sv1 = sv\<lparr>hs_queue := q1\<rparr>
     in case res of
          Inl m \<Rightarrow> (sv1, Inl (QueueRaised m))
        | Inr _ \<Rightarrow> let (s1, receipt) = FairScheduler_configure_policy (hs_scheduler sv1) p
                   in (sv1\<lparr>hs_scheduler := s1\<rparr>, Inr receipt))"

definition rehydrated_job :: "ScheduledJob \<Rightarrow> ScheduledJob" where
  \<comment> \<open>from the persisted entry; the priority is not persisted\<close>
  "rehydrated_job entry =
     \<lparr>sj_task_id = sj_task_id entry,
      sj_client_id = (if sj_client_id entry = [] then ''unknown'' else sj_client_id entry),
      sj_weight = sj_weight entry, sj_cost = sj_cost entry,
      sj_workspace_id = sj_workspace_id entry, sj_priority = DEFAULT_PRIORITY,
      sj_scheduler_policy = sj_scheduler_policy entry\<rparr>"

fun rehydrate_loop :: "(string \<Rightarrow> nat) \<Rightarrow> FairScheduler \<Rightarrow> int \<Rightarrow> ScheduledJob list \<Rightarrow> sched_error + FairScheduler \<times> int" where
  "rehydrate_loop h s n [] = Inr (s, n)"
| "rehydrate_loop h s n (entry # entries) =
    (case FairScheduler_enqueue h s (rehydrated_job entry) of
       Inr s1 \<Rightarrow> rehydrate_loop h s1 (n + 1) entries
     | Inl (SchedulerKeyError k) \<Rightarrow> Inl (SchedulerKeyError k)
     | Inl e \<Rightarrow> rehydrate_loop h s n entries)"

definition HubService_rehydrate_scheduler ::
    "('q, 'p, 'l) queue_ops \<Rightarrow> (string \<Rightarrow> nat) \<Rightarrow> 'q HubService \<Rightarrow> svc_error + 'q HubService \<times> int" where
  "HubService_rehydrate_scheduler ops h sv =
    (case rehydrate_loop h (hs_scheduler sv) 0 (qo_list_queued ops (hs_queue sv)) of
       Inl e \<Rightarrow> Inl (SchedulerRaised e)
     | Inr (s1, n) \<Rightarrow> Inr (sv\<lparr>hs_scheduler := s1\<rparr>, n))"

section \<open>Queued jobs and the job table\<close>

definition job_valid :: "ScheduledJob \<Rightarrow> bool" where
  "job_valid j \<longleftrightarrow> sj_task_id j \<noteq> [] \<and> sj_client_id j \<noteq> [] \<and> 1 \<le> sj_weight j \<and> 1 \<le> sj_cost j
     \<and> sj_workspace_id j \<noteq> [] \<and> in_dict (sj_priority j) PRIORITY_GAIN_MULTIPLIER"

definition repin :: "(string \<Rightarrow> nat) \<Rightarrow> FairScheduler \<Rightarrow> ScheduledJob \<Rightarrow> ScheduledJob" where
  "repin h s j = (if sj_scheduler_policy j = FAIR_POLICY_VERSION
     then j\<lparr>sj_scheduler_policy := SchedulerPolicy_policy_for h (fs_policy s) (sj_task_id j)\<rparr> else j)"

lemma repin_simps [simp]:
  "sj_task_id (repin h s j) = sj_task_id j" "sj_client_id (repin h s j) = sj_client_id j"
  "sj_workspace_id (repin h s j) = sj_workspace_id j" "job_valid (repin h s j) = job_valid j"
  by (simp_all add: repin_def job_valid_def)

lemma enqueue_char:
  "FairScheduler_enqueue h s j = Inr s' \<longleftrightarrow> job_valid j \<and> \<not> in_dict (sj_task_id j) (fs_jobs s)
     \<and> FairScheduler_check_quotas s j = None
     \<and> s' = take_slot (sj_task_id j) (repin h s j) (queue_job (open_client s (sj_client_id j)) (repin h s j))"
proof -
  have q: "FairScheduler_check_quotas s (repin h s j) = FairScheduler_check_quotas s j"
    by (simp add: FairScheduler_check_quotas_def Let_def)
  show ?thesis
    using q unfolding FairScheduler_enqueue_def Let_def repin_def [symmetric]
    by (auto simp: job_valid_def not_less split: option.splits if_splits)
qed

definition queue_ok :: "FairScheduler \<Rightarrow> bool" where
  \<comment> \<open>every queued job is the job table's entry for its task, and is queued once\<close>
  "queue_ok s \<longleftrightarrow> (\<forall>c q. map_of (fs_queues s) c = Some q \<longrightarrow> distinct (map sj_task_id q)
     \<and> (\<forall>j \<in> set q. map_of (fs_jobs s) (sj_task_id j) = Some j \<and> job_valid j))"

definition queued :: "FairScheduler \<Rightarrow> string set" where
  "queued s = {sj_task_id j | j c q. map_of (fs_queues s) c = Some q \<and> j \<in> set q}"

lemma queuedI: "map_of (fs_queues s) c = Some q \<Longrightarrow> j \<in> set q \<Longrightarrow> sj_task_id j \<in> queued s"
  by (auto simp: queued_def)

lemma dispatched_not_queued:
  assumes st: "fs_struct s" and qo: "queue_ok s" and n: "FairScheduler_next s = Inr (s1, Some j)"
  shows "queue_ok s1" "sj_task_id j \<notin> queued s1" "queued s1 \<subseteq> queued s" "sj_task_id j \<in> queued s"
    "map_of (fs_jobs s1) (sj_task_id j) = Some j" "job_valid j" "queued s1 = queued s - {sj_task_id j}"
proof -
  let ?c = "sj_client_id j" and ?t = "sj_task_id j"
  obtain rest where q: "map_of (fs_queues s) ?c = Some (j # rest)"
    and s1: "fs_queues s1 = dict_set (fs_queues s) ?c rest"
    using next_dispatch [OF st n] by (auto simp: dispatch_of_def)
  have fr: "fs_jobs s1 = fs_jobs s" using next_ok [OF st] n by (auto simp: fs_frame_def)
  have j: "map_of (fs_jobs s) ?t = Some j" "job_valid j" "?t \<notin> sj_task_id ` set rest"
    using qo q by (fastforce simp: queue_ok_def)+
  have "distinct (map sj_task_id rest)" "\<forall>x \<in> set rest. map_of (fs_jobs s) (sj_task_id x) = Some x \<and> job_valid x"
    using qo q by (fastforce simp: queue_ok_def)+
  then show "queue_ok s1" using qo by (simp add: queue_ok_def s1 fr)
  show "?t \<in> queued s" using queuedI [OF q] by simp
  show sub: "queued s1 \<subseteq> queued s"
    unfolding queued_def s1 using q by (fastforce split: if_splits)
  have sup: "queued s \<subseteq> insert ?t (queued s1)"
  proof
    fix t assume "t \<in> queued s"
    then obtain c' q' x where x: "map_of (fs_queues s) c' = Some q'" "x \<in> set q'" "sj_task_id x = t" by (auto simp: queued_def)
    show "t \<in> insert ?t (queued s1)"
    proof (cases "c' = ?c")
      case True
      then have "x = j \<or> x \<in> set rest" using x(1,2) q by auto
      then show ?thesis using x(3) queuedI [of s1 ?c rest x] by (auto simp: s1)
    next
      case False
      then show ?thesis using x queuedI [of s1 c' q' x] by (simp add: s1)
    qed
  qed
  show "map_of (fs_jobs s1) ?t = Some j" "job_valid j" using j fr by simp_all
  show gone: "?t \<notin> queued s1"
  proof
    assume "?t \<in> queued s1"
    then obtain c' q' x where x: "map_of (fs_queues s1) c' = Some q'" "x \<in> set q'" "sj_task_id x = ?t"
      by (auto simp: queued_def)
    show False
    proof (cases "c' = ?c")
      case True
      then have "x \<in> set rest" using x(1,2) by (simp add: s1)
      then show False using x(3) j(3) by (metis imageI)
    next
      case False
      then have qs: "map_of (fs_queues s) c' = Some q'" using x(1) by (simp add: s1)
      then have "x = j" using qo x(2,3) j(1) by (fastforce simp: queue_ok_def)
      moreover have "sj_client_id x = c'"
        using st qs x(2) by (auto simp: fs_struct_def fs_values_ok_def job_ok_def)
      ultimately show False using False by simp
    qed
  qed
  show "queued s1 = queued s - {?t}" using sub sup gone by blast
qed

lemma complete_effect:
  assumes inv: "sched_inv s" and j: "map_of (fs_jobs s) t = Some j"
  shows "\<exists>s' i. FairScheduler_complete s t = Inr s' \<and> sched_inv s'
     \<and> map_of (fs_inflight s) (sj_client_id j) = Some i
     \<and> fs_inflight s' = dict_set (fs_inflight s) (sj_client_id j) (max 0 (i - 1))
     \<and> fs_jobs s' = dict_pop (fs_jobs s) t \<and> fs_queues s' = fs_queues s
     \<and> (\<forall>r. sched_total s' r = sched_total s r - sched_weight r j)
     \<and> fs_max_global_queue s' = fs_max_global_queue s
     \<and> fs_max_queue_per_client s' = fs_max_queue_per_client s
     \<and> fs_max_queue_per_workspace s' = fs_max_queue_per_workspace s \<and> fs_policy s' = fs_policy s"
proof -
  have st: "fs_clients_ok s" "sj_client_id j \<in> set (fs_order s)"
    using inv j by (auto simp: sched_inv_def fs_struct_def fs_table_ok_def)
  obtain i where i: "map_of (fs_inflight s) (sj_client_id j) = Some i" using fs_clients_okD [OF st] by blast
  let ?s1 = "s\<lparr>fs_inflight := dict_set (fs_inflight s) (sj_client_id j) (max 0 (i - 1))\<rparr>"
  have c: "FairScheduler_complete s t = Inr (drop_slot t j ?s1)"
    using i j by (simp add: FairScheduler_complete_def)
  have same: "sched_total ?s1 r = sched_total s r" for r by (cases r) simp_all
  have "fsl.balanced ?s1"
    using inv fsl.balanced_cong [of ?s1 s] same by (simp add: sched_inv_def)
  then have tot: "sched_total (drop_slot t j ?s1) r = sched_total s r - sched_weight r j" for r
    using fsl.total_remove_exact [of ?s1 t j r] j same by simp
  show ?thesis
    using c i tot complete_inv [OF inv c]
    by (intro exI [of _ "drop_slot t j ?s1"] exI [of _ i])
      (simp add: drop_slot_def FairScheduler_release_slot_def Let_def)
qed

lemma quota_free:
  assumes "fs_quota_ok s" and "\<And>r. sched_total s' r = sched_total s r - sched_weight r j"
    and "fs_max_global_queue s' = fs_max_global_queue s"
    and "fs_max_queue_per_client s' = fs_max_queue_per_client s"
    and "fs_max_queue_per_workspace s' = fs_max_queue_per_workspace s"
  shows "FairScheduler_check_quotas s' j = None"
proof -
  have t: "fs_global_total s' = sched_total s GlobalAcct - 1"
    "dict_get_or (fs_client_total s') (sj_client_id j) 0 = sched_total s (ClientAcct (sj_client_id j)) - 1"
    "dict_get_or (fs_workspace_total s') (sj_workspace_id j) 0 = sched_total s (WorkspaceAcct (sj_workspace_id j)) - 1"
    using assms(2) [of GlobalAcct] assms(2) [of "ClientAcct (sj_client_id j)"]
      assms(2) [of "WorkspaceAcct (sj_workspace_id j)"] by simp_all
  have "under_limit (fs_max_global_queue s) (sched_total s GlobalAcct)"
    "under_limit (fs_max_queue_per_client s) (sched_total s (ClientAcct (sj_client_id j)))"
    "under_limit (fs_max_queue_per_workspace s) (sched_total s (WorkspaceAcct (sj_workspace_id j)))"
    using assms(1) unfolding fs_quota_ok_def by blast+
  then show ?thesis
    unfolding FairScheduler_check_quotas_def Let_def t assms(3-5)
    by (simp add: under_limit_def split: option.splits)
qed

section \<open>A throttled candidate goes back to its queue\<close>

lemma enqueue_effect:
  assumes "FairScheduler_enqueue h s j = Inr s'" and "fs_struct s" and "queue_ok s"
  shows "queue_ok s'" "queued s' = insert (sj_task_id j) (queued s)"
    "fs_jobs s' = fs_jobs s @ [(sj_task_id j, repin h s j)]"
    "in_dict (sj_client_id j) (fs_queues s) \<Longrightarrow> fs_inflight s' = fs_inflight s"
proof -
  let ?c = "sj_client_id j" and ?t = "sj_task_id j" and ?j = "repin h s j"
  let ?o = "open_client s ?c"
  have e: "job_valid j" "\<not> in_dict ?t (fs_jobs s)" and s': "s' = take_slot ?t ?j (queue_job ?o ?j)"
    using assms(1) unfolding enqueue_char by auto
  have new: "map_of (fs_jobs s) ?t = None" using e(2) by (simp add: in_dict_def)
  have o: "fs_jobs ?o = fs_jobs s" "fs_inflight s' = fs_inflight ?o"
    "\<And>c. map_of (fs_queues ?o) c = (if c = ?c \<and> map_of (fs_queues s) c = None then Some [] else map_of (fs_queues s) c)"
    by (auto simp: open_client_def in_dict_def s' take_slot_def queue_job_def Let_def)
  obtain q where q: "map_of (fs_queues ?o) ?c = Some q" using o(3) [of ?c] by (cases "map_of (fs_queues s) ?c") auto
  have qs: "fs_queues s' = dict_set (fs_queues ?o) ?c (q @ [?j])" "fs_jobs s' = dict_set (fs_jobs s) ?t ?j"
    by (simp_all add: s' take_slot_def queue_job_def Let_def dict_get_or_Some [OF q] o(1))
  have old: "x \<in> set q' \<Longrightarrow> map_of (fs_queues ?o) c = Some q' \<Longrightarrow>
      map_of (fs_jobs s) (sj_task_id x) = Some x \<and> job_valid x \<and> sj_task_id x \<noteq> ?t" for x c q'
    using assms(3) new o(3) [of c] by (fastforce simp: queue_ok_def split: if_splits)
  have dist: "map_of (fs_queues ?o) c = Some q' \<Longrightarrow> distinct (map sj_task_id q')" for c q'
    using assms(3) o(3) [of c] by (auto simp: queue_ok_def split: if_splits)
  show "queue_ok s'"
    using old dist q e(1) by (fastforce simp: queue_ok_def qs)
  have "t \<in> queued s' \<longleftrightarrow> t = ?t \<or> t \<in> queued ?o" for t
  proof
    assume "t \<in> queued s'"
    then obtain c q' x where "map_of (fs_queues s') c = Some q'" "x \<in> set q'" "t = sj_task_id x"
      by (auto simp: queued_def)
    then show "t = ?t \<or> t \<in> queued ?o"
      using q by (cases "c = ?c") (auto simp: qs intro: queuedI)
  next
    assume "t = ?t \<or> t \<in> queued ?o"
    moreover have "?t \<in> queued s'" using queuedI [of s' ?c "q @ [?j]" ?j] by (simp add: qs)
    moreover have "t \<in> queued s'" if t: "t \<in> queued ?o"
    proof -
      obtain c q' x where x: "map_of (fs_queues ?o) c = Some q'" "x \<in> set q'" "t = sj_task_id x"
        using t by (auto simp: queued_def)
      then show ?thesis
        using queuedI [of s' c "if c = ?c then q @ [?j] else q'" x] q by (cases "c = ?c") (auto simp: qs)
    qed
    ultimately show "t \<in> queued s'" by blast
  qed
  moreover have "queued ?o = queued s"
    unfolding queued_def o(3) by (rule Collect_cong) (metis empty_iff empty_set option.distinct(1) option.inject)
  ultimately show "queued s' = insert ?t (queued s)" by blast
  have "?t \<notin> set (dict_keys (fs_jobs s))" using e(2) by (simp add: in_dict_keys)
  then show "fs_jobs s' = fs_jobs s @ [(?t, ?j)]" unfolding qs(2) by (rule dict_set_new)
  show "in_dict ?c (fs_queues s) \<Longrightarrow> fs_inflight s' = fs_inflight s"
    unfolding o(2) by (simp add: open_client_def)
qed

lemma complete_queue_ok:
  assumes "queue_ok s" and "t \<notin> queued s" and "fs_queues s' = fs_queues s" and "fs_jobs s' = dict_pop (fs_jobs s) t"
  shows "queue_ok s'" "queued s' = queued s"
proof -
  have "map_of (fs_queues s) c = Some q \<Longrightarrow> x \<in> set q \<Longrightarrow> sj_task_id x \<noteq> t" for c q x
    using assms(2) queuedI by blast
  then show "queue_ok s'" using assms(1) by (simp add: queue_ok_def assms(3,4))
  show "queued s' = queued s" by (simp add: queued_def assms(3))
qed

lemma requeue:
  assumes inv: "sched_inv s" and qo: "queue_ok s" and n: "FairScheduler_next s = Inr (s1, Some j)"
  shows "\<exists>s2 s3. FairScheduler_complete s1 (sj_task_id j) = Inr s2
    \<and> FairScheduler_enqueue h s2 j = Inr s3 \<and> sched_inv s3 \<and> queue_ok s3
    \<and> queued s3 = insert (sj_task_id j) (queued s1)
    \<and> set (dict_keys (fs_jobs s3)) = set (dict_keys (fs_jobs s))
    \<and> map_of (fs_inflight s3) = map_of (fs_inflight s)"
proof -
  let ?c = "sj_client_id j" and ?t = "sj_task_id j"
  have st: "fs_struct s" using inv by (simp add: sched_inv_def)
  note d = dispatched_not_queued [OF st qo n]
  have inv1: "sched_inv s1" by (rule next_inv [OF inv n])
  obtain rest i where disp: "map_of (fs_queues s) ?c = Some (j # rest)" "map_of (fs_inflight s) ?c = Some i"
    "fs_queues s1 = dict_set (fs_queues s) ?c rest" "fs_inflight s1 = dict_set (fs_inflight s) ?c (i + 1)"
    using next_dispatch [OF st n] by (auto simp: dispatch_of_def)
  have i0: "0 \<le> i" using st disp(2) by (auto simp: fs_struct_def fs_values_ok_def)
  have jobs1: "fs_jobs s1 = fs_jobs s" using next_ok [OF st] n by (auto simp: fs_frame_def)
  obtain s2 where c: "FairScheduler_complete s1 ?t = Inr s2" "sched_inv s2"
    "fs_inflight s2 = dict_set (fs_inflight s1) ?c i" "fs_jobs s2 = dict_pop (fs_jobs s1) ?t"
    "fs_queues s2 = fs_queues s1" "\<And>r. sched_total s2 r = sched_total s1 r - sched_weight r j"
    "fs_max_global_queue s2 = fs_max_global_queue s1"
    "fs_max_queue_per_client s2 = fs_max_queue_per_client s1"
    "fs_max_queue_per_workspace s2 = fs_max_queue_per_workspace s1"
    using complete_effect [OF inv1 d(5)] disp(4) i0 by auto
  have qo2: "queue_ok s2" "queued s2 = queued s1" using complete_queue_ok [OF d(1,2) c(5,4)] by blast+
  have "fs_quota_ok s1" using inv1 by (simp add: sched_inv_def)
  then have "FairScheduler_check_quotas s2 j = None" using c(6-9) by (rule quota_free)
  moreover have "\<not> in_dict ?t (fs_jobs s2)" by (simp add: in_dict_def c(4))
  ultimately obtain s3 where e: "FairScheduler_enqueue h s2 j = Inr s3" using d(6) by (auto simp: enqueue_char)
  have st2: "fs_struct s2" using c(2) by (simp add: sched_inv_def)
  note ef = enqueue_effect [OF e st2 qo2(1)]
  have "in_dict ?c (fs_queues s2)" by (simp add: in_dict_def c(5) disp(3))
  then have "map_of (fs_inflight s3) = map_of (fs_inflight s)"
    using ef(4) disp(2,4) c(3) by (auto simp: fun_eq_iff)
  moreover have "set (dict_keys (fs_jobs s3)) = set (dict_keys (fs_jobs s))"
  proof -
    have "set (dict_keys (dict_pop (fs_jobs s) ?t)) = set (dict_keys (fs_jobs s)) - {?t}"
      by (auto simp: delete_keys)
    moreover have "?t \<in> set (dict_keys (fs_jobs s))" using d(5) jobs1 dict_get_key by metis
    ultimately show ?thesis unfolding ef(3) c(4) jobs1 by auto
  qed
  ultimately show ?thesis
    using c(1) e enqueue_inv [OF c(2) e] ef(1,2) qo2(2) by blast
qed

section \<open>Claiming keeps the three parts in step\<close>

definition svc_inv :: "'q HubService \<Rightarrow> bool" where
  "svc_inv sv \<longleftrightarrow> sched_inv (hs_scheduler sv) \<and> queue_ok (hs_scheduler sv) \<and> gov_inv (hs_governor sv)
     \<and> (\<forall>t \<in> queued (hs_scheduler sv). map_of (rg_leases (hs_governor sv)) t = None)"

lemma admit_fresh:
  assumes "gov_inv g" and "request_ok r" and "map_of (rg_leases g) t = None" and "c \<noteq> []" "t \<noteq> []"
    and "ResourceGovernor_admit now g c t r w None = (g1, res)"
  shows "gov_inv g1 \<and> ((\<exists>tr. res = Inl (ResourceThrottled tr) \<and> rg_leases g1 = rg_leases g)
     \<or> (\<exists>l. res = Inr l \<and> le_lease_id l = t \<and> rg_leases g1 = rg_leases g @ [(t, l)]))"
proof -
  have inv: "gov_inv g1" by (rule admit_inv [OF assms(1,2,6)])
  have key: "lease_key t None = t" by (simp add: lease_key_def)
  have new: "t \<notin> set (dict_keys (rg_leases g))" using assms(3) by (metis in_dict_def in_dict_keys)
  from assms(6) show ?thesis
  proof (cases rule: admit_cases)
    case (granted g0)
    then have "rg_leases g1 = rg_leases g @ [(t, new_lease now c t r w None)]"
      using dict_set_new [OF new] by (simp add: gov.entries_add gov_core_def key)
    then show ?thesis using inv granted(7) by (simp add: new_lease_def key)
  next
    case (refused tr)
    then show ?thesis using inv by (simp add: gov_core_def)
  qed (use assms key in auto)
qed

lemma release_last:
  assumes "gov_inv g1" and "rg_leases g1 = ls @ [(t, l)]" and "le_lease_id l = t"
  shows "rg_leases (fst (ResourceGovernor_release g1 l)) = ls"
proof -
  have "distinct (dict_keys (rg_leases g1))" using assms(1) by (simp add: gov_inv_def gov.balanced_def)
  then have new: "t \<notin> fst ` set ls" using assms(2) by auto
  then have "map_of ls t = None" by (simp add: map_of_eq_None_iff)
  then have "map_of (rg_leases g1) t = Some l" by (simp add: assms(2) map_add_def)
  then show ?thesis
    using new by (simp add: ResourceGovernor_release_def gov.entries_remove assms(2,3) pop_last)
qed

fun queue_refuses :: "('q, 'p, 'l) queue_ops \<Rightarrow> string \<Rightarrow> rat \<Rightarrow> 'q \<Rightarrow> string list \<Rightarrow> 'q option" where
  \<comment> \<open>the queue after it refused to lease these tasks, one after the other\<close>
  "queue_refuses ops worker ttl q [] = Some q"
| "queue_refuses ops worker ttl q (t # ts) =
    (case qo_claim_specific ops q t worker ttl of (q1, Inr None) \<Rightarrow> queue_refuses ops worker ttl q1 ts | _ \<Rightarrow> None)"

definition claim_effect :: "'q HubService \<Rightarrow> 'q HubService \<Rightarrow> string list \<Rightarrow> (string \<times> ResourceLease) list \<Rightarrow> bool" where
  \<comment> \<open>the scheduler and the governor after tasks \<open>refused\<close> left them and tasks \<open>taken\<close> were leased\<close>
  "claim_effect sv sv' refused taken \<longleftrightarrow> svc_inv sv'
     \<and> (\<forall>t. in_dict t (fs_jobs (hs_scheduler sv')) \<longleftrightarrow> in_dict t (fs_jobs (hs_scheduler sv)) \<and> t \<notin> set refused)
     \<and> queued (hs_scheduler sv') = queued (hs_scheduler sv) - set refused - fst ` set taken
     \<and> rg_leases (hs_governor sv') = rg_leases (hs_governor sv) @ taken
     \<and> (\<forall>p \<in> set taken. in_dict (fst p) (fs_jobs (hs_scheduler sv')))"

definition claim_ends ::
    "('q, 'p, 'l) queue_ops \<Rightarrow> string \<Rightarrow> rat \<Rightarrow> 'q \<Rightarrow> 'q \<Rightarrow> (string \<times> ResourceLease) list \<Rightarrow> svc_error + ('p, 'l) ClaimedJob option \<Rightarrow> bool" where
  \<comment> \<open>how the call ends when the queue is in state \<open>q\<close> after its refusals\<close>
  "claim_ends ops worker ttl q q' taken res \<longleftrightarrow> (case res of
     Inr None \<Rightarrow> taken = [] \<and> q' = q
   | Inr (Some c) \<Rightarrow> taken = [(cj_task_id c, cj_resource_lease c)]
       \<and> qo_claim_specific ops q (cj_task_id c) worker ttl = (q', Inr (Some (cj_retry_lease c)))
       \<and> qo_get_payload ops q' (cj_task_id c) = Inr (cj_payload c)
   | Inl e \<Rightarrow> \<exists>m t l. e = QueueRaised m \<and> taken = [(t, l)]
       \<and> (qo_claim_specific ops q t worker ttl = (q', Inl m)
          \<or> (\<exists>rl. qo_claim_specific ops q t worker ttl = (q', Inr (Some rl)) \<and> qo_get_payload ops q' t = Inl m)))"

lemma claim_effect_requeued:
  assumes "claim_effect sv1 sv' refused taken" and "rg_leases (hs_governor sv1) = rg_leases (hs_governor sv)"
    and "queued (hs_scheduler sv1) = queued (hs_scheduler sv)"
    and "\<And>t. in_dict t (fs_jobs (hs_scheduler sv1)) \<longleftrightarrow> in_dict t (fs_jobs (hs_scheduler sv))"
  shows "claim_effect sv sv' refused taken"
  using assms(1) unfolding claim_effect_def assms(2-4) .

lemma claim_effect_refused:
  assumes "claim_effect sv1 sv' refused taken" and "rg_leases (hs_governor sv1) = rg_leases (hs_governor sv)"
    and "queued (hs_scheduler sv1) = queued (hs_scheduler sv) - {t}"
    and "\<And>t'. in_dict t' (fs_jobs (hs_scheduler sv1)) \<longleftrightarrow> in_dict t' (fs_jobs (hs_scheduler sv)) \<and> t' \<noteq> t"
  shows "claim_effect sv sv' (t # refused) taken"
  using assms by (auto simp: claim_effect_def)

lemma claim_loop_ok:
  assumes "svc_inv sv" and "request_ok r"
    and "claim_loop ops h clock worker r ttl n sv = (sv', res)"
  shows "\<exists>refused q taken. queue_refuses ops worker ttl (hs_queue sv) refused = Some q
    \<and> claim_effect sv sv' refused taken \<and> claim_ends ops worker ttl q (hs_queue sv') taken res"
  using assms(1,3)
proof (induction n arbitrary: sv)
  case 0
  then show ?case by (intro exI [of _ "[]"] exI [of _ "hs_queue sv"]) (auto simp: claim_effect_def claim_ends_def)
next
  case (Suc n)
  let ?s = "hs_scheduler sv" and ?g = "hs_governor sv"
  have inv: "sched_inv ?s" "queue_ok ?s" "gov_inv ?g" "\<And>t. t \<in> queued ?s \<Longrightarrow> map_of (rg_leases ?g) t = None"
    using Suc.prems(1) by (auto simp: svc_inv_def)
  have st: "fs_struct ?s" using inv(1) by (simp add: sched_inv_def)
  obtain s1 x where nx: "FairScheduler_next ?s = Inr (s1, x)" using next_ok [OF st] by blast
  have inv1: "sched_inv s1" by (rule next_inv [OF inv(1) nx])
  have jobs1: "fs_jobs s1 = fs_jobs ?s" using next_ok [OF st] nx by (auto simp: fs_frame_def)
  show ?case
  proof (cases x)
    case None
    have qs: "fs_queues s1 = fs_queues ?s" using next_dispatch [OF st nx] None by (simp add: dispatch_of_def)
    then have "queue_ok s1" "queued s1 = queued ?s" using inv(2) by (simp_all add: queue_ok_def queued_def jobs1)
    then have "claim_effect sv sv' [] [] \<and> claim_ends ops worker ttl (hs_queue sv) (hs_queue sv') [] res"
      using Suc.prems(2) nx None inv inv1 jobs1 by (auto simp: claim_effect_def claim_ends_def svc_inv_def)
    then show ?thesis by (intro exI [of _ "[]"] exI [of _ "hs_queue sv"]) auto
  next
    case (Some j)
    let ?t = "sj_task_id j"
    note d = dispatched_not_queued [OF st inv(2) nx [unfolded Some]]
    have ids: "sj_client_id j \<noteq> []" "?t \<noteq> []" using d(6) by (auto simp: job_valid_def)
    obtain g1 ad where ad: "ResourceGovernor_admit (clock n) ?g (sj_client_id j) ?t r (sj_workspace_id j) None = (g1, ad)"
      by (cases "ResourceGovernor_admit (clock n) ?g (sj_client_id j) ?t r (sj_workspace_id j) None")
    have adm: "gov_inv g1" "(\<exists>tr. ad = Inl (ResourceThrottled tr) \<and> rg_leases g1 = rg_leases ?g)
        \<or> (\<exists>l. ad = Inr l \<and> le_lease_id l = ?t \<and> rg_leases g1 = rg_leases ?g @ [(?t, l)])"
      using admit_fresh [OF inv(3) assms(2) inv(4) [OF d(4)] ids ad] by auto
    from adm(2) show ?thesis
    proof (elim disjE exE conjE)
      fix tr assume thr: "ad = Inl (ResourceThrottled tr)" "rg_leases g1 = rg_leases ?g"
      obtain s2 s3 where rq: "FairScheduler_complete s1 ?t = Inr s2" "FairScheduler_enqueue h s2 j = Inr s3"
        "sched_inv s3" "queue_ok s3" "queued s3 = insert ?t (queued s1)"
        "set (dict_keys (fs_jobs s3)) = set (dict_keys (fs_jobs ?s))"
        using requeue [OF inv(1,2) nx [unfolded Some]] by blast
      let ?sv = "sv\<lparr>hs_governor := g1, hs_scheduler := s3\<rparr>"
      have sv: "svc_inv ?sv" using rq(3-5) adm(1) thr(2) inv(4) d(3,4) by (auto simp: svc_inv_def)
      have "claim_loop ops h clock worker r ttl n ?sv = (sv', res)" using Suc.prems(2) nx Some ad thr(1) rq(1,2) by simp
      from Suc.IH [OF sv this] obtain refused q taken where ih: "queue_refuses ops worker ttl (hs_queue sv) refused = Some q"
        "claim_effect ?sv sv' refused taken" "claim_ends ops worker ttl q (hs_queue sv') taken res" by auto
      have "queued s3 = queued ?s" using rq(5) d(4,7) by auto
      then have "claim_effect sv sv' refused taken"
        using rq(6) by (intro claim_effect_requeued [OF ih(2)]) (simp_all add: thr(2) in_dict_keys)
      then show ?thesis using ih(1,3) by blast
    next
      fix l assume gr: "ad = Inr l" "le_lease_id l = ?t" "rg_leases g1 = rg_leases ?g @ [(?t, l)]"
      obtain q1 cl where cl: "qo_claim_specific ops (hs_queue sv) ?t worker ttl = (q1, cl)"
        by (cases "qo_claim_specific ops (hs_queue sv) ?t worker ttl")
      let ?taken = "sv\<lparr>hs_queue := q1, hs_scheduler := s1, hs_governor := g1\<rparr>"
      have "svc_inv ?taken" using inv1 d(1-3) adm(1) gr(3) inv(4)
        by (auto simp: svc_inv_def map_add_def split: option.splits if_splits)
      then have taken: "claim_effect sv ?taken [] [(?t, l)]"
        using gr(3) d(5,7) jobs1 by (auto simp: claim_effect_def in_dict_def)
      consider (err) m where "cl = Inl m" | (gone) "cl = Inr None" | (got) rl where "cl = Inr (Some rl)"
        by (metis not_Some_eq sum.exhaust)
      then show ?thesis
      proof cases
        case err
        then have "sv' = ?taken" "res = Inl (QueueRaised m)" using Suc.prems(2) nx Some ad gr(1) cl by auto
        then show ?thesis using taken cl err
          by (intro exI [of _ "[]"] exI [of _ "hs_queue sv"] exI [of _ "[(?t, l)]"]) (simp add: claim_ends_def)
      next
        case gone
        obtain s2 where c: "FairScheduler_complete s1 ?t = Inr s2" "sched_inv s2"
          "fs_jobs s2 = dict_pop (fs_jobs s1) ?t" "fs_queues s2 = fs_queues s1"
          using complete_effect [OF inv1 d(5)] by blast
        let ?g2 = "fst (ResourceGovernor_release g1 l)"
        let ?sv = "sv\<lparr>hs_queue := q1, hs_governor := ?g2, hs_scheduler := s2\<rparr>"
        have g2: "rg_leases ?g2 = rg_leases ?g" by (rule release_last [OF adm(1) gr(3,2)])
        note qk = complete_queue_ok [OF d(1,2) c(4,3)]
        have sv: "svc_inv ?sv" using c(2) qk release_inv [OF adm(1)] g2 inv(4) d(3) by (auto simp: svc_inv_def)
        have "claim_loop ops h clock worker r ttl n ?sv = (sv', res)"
          using Suc.prems(2) nx Some ad gr(1) cl gone c(1) by (simp add: Let_def)
        from Suc.IH [OF sv this] obtain refused q taken where ih: "queue_refuses ops worker ttl q1 refused = Some q"
          "claim_effect ?sv sv' refused taken" "claim_ends ops worker ttl q (hs_queue sv') taken res" by auto
        have "claim_effect sv sv' (?t # refused) taken"
          using c(3) jobs1 qk(2) d(7) by (intro claim_effect_refused [OF ih(2)]) (auto simp: g2 in_dict_def)
        moreover have "queue_refuses ops worker ttl (hs_queue sv) (?t # refused) = Some q" using ih(1) cl gone by simp
        ultimately show ?thesis using ih(3) by blast
      next
        case (got rl)
        have "sv' = ?taken \<and> claim_ends ops worker ttl (hs_queue sv) q1 [(?t, l)] res"
        proof (cases "qo_get_payload ops q1 ?t")
          case (Inl m)
          then show ?thesis using Suc.prems(2) nx Some ad gr(1) cl got by (auto simp: claim_ends_def)
        next
          case (Inr payload)
          then show ?thesis using Suc.prems(2) nx Some ad gr(1) cl got by (auto simp: claim_ends_def)
        qed
        then show ?thesis using taken by (intro exI [of _ "[]"] exI [of _ "hs_queue sv"] exI [of _ "[(?t, l)]"]) auto
      qed
    qed
  qed
qed

section \<open>Restart\<close>

definition grows :: "FairScheduler \<Rightarrow> FairScheduler \<Rightarrow> bool" where
  "grows s s' \<longleftrightarrow> set (dict_keys (fs_jobs s)) \<subseteq> set (dict_keys (fs_jobs s'))
     \<and> (\<forall>r. sched_total s r \<le> sched_total s' r)
     \<and> fs_max_global_queue s' = fs_max_global_queue s
     \<and> fs_max_queue_per_client s' = fs_max_queue_per_client s
     \<and> fs_max_queue_per_workspace s' = fs_max_queue_per_workspace s"

lemma grows_refl: "grows s s"
  by (simp add: grows_def)

lemma grows_trans: "grows s s' \<Longrightarrow> grows s' s'' \<Longrightarrow> grows s s''"
  by (force simp: grows_def intro: order_trans)

lemma enqueue_grows:
  assumes "FairScheduler_enqueue h s j = Inr s'"
  shows "grows s s'" and "in_dict (sj_task_id j) (fs_jobs s')"
proof -
  have s': "s' = take_slot (sj_task_id j) (repin h s j) (queue_job (open_client s (sj_client_id j)) (repin h s j))"
    using assms by (simp add: enqueue_char)
  have "0 \<le> sched_weight r (repin h s j)" for r by (cases r) simp_all
  then show "grows s s'"
    unfolding grows_def s' fsl.total_add enqueue_frame take_slot_frame by (auto simp: dom_update)
  show "in_dict (sj_task_id j) (fs_jobs s')" by (simp add: s' take_slot_frame in_dict_def)
qed

lemma quota_mono:
  assumes "grows s s'" and "FairScheduler_check_quotas s' j = None"
  shows "FairScheduler_check_quotas s j = None"
proof -
  have "fs_global_total s \<le> fs_global_total s'"
    "dict_get_or (fs_client_total s) (sj_client_id j) 0 \<le> dict_get_or (fs_client_total s') (sj_client_id j) 0"
    "dict_get_or (fs_workspace_total s) (sj_workspace_id j) 0 \<le> dict_get_or (fs_workspace_total s') (sj_workspace_id j) 0"
    using assms(1) unfolding grows_def by (metis sched_total.simps)+
  then show ?thesis
    using assms unfolding FairScheduler_check_quotas_def grows_def Let_def
    by (auto split: option.splits if_splits)
qed

lemma refused_stays:
  assumes "grows s s'" and "FairScheduler_enqueue h s' j = Inr x"
  shows "\<exists>y. FairScheduler_enqueue h s j = Inr y"
  using assms quota_mono [OF assms(1)] unfolding enqueue_char grows_def by (auto simp: in_dict_keys)

lemma enqueue_no_key_error: "FairScheduler_enqueue h s j \<noteq> Inl (SchedulerKeyError k)"
  by (auto simp: FairScheduler_enqueue_def FairScheduler_check_quotas_def Let_def
      split: option.splits if_splits)

lemma rehydrate_loop_total:
  "\<exists>s' n'. rehydrate_loop h s n es = Inr (s', n') \<and> grows s s'
     \<and> (\<forall>e \<in> set es. isl (FairScheduler_enqueue h s' (rehydrated_job e)))"
proof (induction es arbitrary: s n)
  case Nil
  then show ?case by (simp add: grows_refl)
next
  case (Cons e es)
  show ?case
  proof (cases "FairScheduler_enqueue h s (rehydrated_job e)")
    case (Inr s1)
    obtain s' n' where l: "rehydrate_loop h s1 (n + 1) es = Inr (s', n')" "grows s1 s'"
      "\<forall>e \<in> set es. isl (FairScheduler_enqueue h s' (rehydrated_job e))" using Cons.IH by blast
    have "in_dict (sj_task_id (rehydrated_job e)) (fs_jobs s')"
      using enqueue_grows(2) [OF Inr] l(2) by (auto simp: grows_def in_dict_keys)
    then have "isl (FairScheduler_enqueue h s' (rehydrated_job e))"
      by (cases "FairScheduler_enqueue h s' (rehydrated_job e)") (auto simp: enqueue_char)
    then show ?thesis using l Inr grows_trans [OF enqueue_grows(1) [OF Inr]] by auto
  next
    case (Inl err)
    obtain s' n' where l: "rehydrate_loop h s n es = Inr (s', n')" "grows s s'"
      "\<forall>e \<in> set es. isl (FairScheduler_enqueue h s' (rehydrated_job e))" using Cons.IH by blast
    have "rehydrate_loop h s n (e # es) = Inr (s', n')"
      using Inl l(1) enqueue_no_key_error [of h s "rehydrated_job e"] by (cases err) auto
    moreover have "isl (FairScheduler_enqueue h s' (rehydrated_job e))"
      using refused_stays [OF l(2), of h "rehydrated_job e"] Inl
      by (cases "FairScheduler_enqueue h s' (rehydrated_job e)") auto
    ultimately show ?thesis using l by auto
  qed
qed

lemma rehydrate_loop_refused:
  "\<forall>e \<in> set es. isl (FairScheduler_enqueue h s (rehydrated_job e)) \<Longrightarrow> rehydrate_loop h s n es = Inr (s, n)"
proof (induction es)
  case (Cons e es)
  then obtain err where "FairScheduler_enqueue h s (rehydrated_job e) = Inl err" by (auto simp: isl_def)
  then show ?case
    using Cons enqueue_no_key_error [of h s "rehydrated_job e"] by (cases err) auto
qed simp

section \<open>Properties\<close>

definition demo_ops :: "(string list, string, string) queue_ops" where
  \<comment> \<open>a queue that holds the submitted keys and leases every task it holds\<close>
  "demo_ops = \<lparr>qo_submit = (\<lambda>q p k m c w wt cost pol. (q @ [k], Inr k)),
     qo_claim_specific = (\<lambda>q t w ttl. (q, Inr (if t \<in> set q then Some t else None))),
     qo_get_payload = (\<lambda>q t. Inr ''payload''), qo_complete = (\<lambda>q l. (q, Inr ())),
     qo_fail = (\<lambda>q l e b. (q, Inr ''retry'')),
     qo_list_queued = (\<lambda>q. map (\<lambda>t. demo_job t ''a'' 1) q),
     qo_set_manifest = (\<lambda>q p. (q, Inr ()))\<rparr>"

definition demo_svc :: "string \<Rightarrow> string list HubService" where
  "demo_svc m = \<lparr>hs_queue = [''t1'', ''t2''], hs_scheduler = demo_two m, hs_governor = demo_gov\<rparr>"

lemma demo_svc_inv: "svc_inv (demo_svc ''on'')"
proof -
  have "sched_inv (demo_two ''on'')" by (rule reachable_inv [OF demo_reachable(3)]) simp
  moreover have "gov_inv demo_gov" by (rule gov_reachable_inv [OF demo_gov_reachable(2)])
  moreover have q: "fs_queues (demo_two ''on'')
      = [(''a'', [demo_job ''t1'' ''a'' 1]), (''b'', [demo_job ''t2'' ''b'' 3])]" by code_simp
  moreover have "fs_jobs (demo_two ''on'')
      = [(''t1'', demo_job ''t1'' ''a'' 1), (''t2'', demo_job ''t2'' ''b'' 3)]" by code_simp
  moreover have "job_valid (demo_job ''t1'' ''a'' 1)" "job_valid (demo_job ''t2'' ''b'' 3)" by code_simp+
  ultimately have "queue_ok (demo_two ''on'')"
    by (auto simp: queue_ok_def demo_job_def split: if_splits)
  moreover have "queued (demo_two ''on'') \<subseteq> {''t1'', ''t2''}"
    unfolding queued_def q by (auto simp: demo_job_def split: if_splits)
  moreover have "map_of (rg_leases demo_gov) ''t1'' = None" "map_of (rg_leases demo_gov) ''t2'' = None"
    by code_simp+
  ultimately show ?thesis
    using \<open>sched_inv _\<close> \<open>gov_inv _\<close> by (auto simp: svc_inv_def demo_svc_def)
qed

text \<open>C6: what a claim does to the three parts, for every way it ends. From a consistent service there are the tasks that the durable queue refused to lease, one
  after the other from the queue as it was, and a state the queue reached by that. Exactly these left the job table; all other jobs are still in it, and queued as before but for the
  task that was taken; the service is consistent, and the governor's leases grew by exactly the lease of the task taken. When the call returns nothing, nothing was taken; when it
  returns a job, that job was taken, with the lease and the payload that the queue gave for it; the only error is one that the queue raised, and then exactly one task is
  stranded: it holds a resource lease and is in the job table, but nobody was given it. In particular re-queueing a throttled candidate can never be refused by a quota.\<close>

theorem service_claim_conserves:
  assumes "svc_inv sv" and "ResourceRequest_post_init r0 = Inr r"
    and "HubService_claim ops h clock sv worker r ttl max_candidates = (sv', res)"
  shows "\<exists>refused q taken. queue_refuses ops worker ttl (hs_queue sv) refused = Some q \<and> svc_inv sv'
    \<and> (\<forall>t. in_dict t (fs_jobs (hs_scheduler sv')) \<longleftrightarrow> in_dict t (fs_jobs (hs_scheduler sv)) \<and> t \<notin> set refused)
    \<and> queued (hs_scheduler sv') = queued (hs_scheduler sv) - set refused - fst ` set taken
    \<and> rg_leases (hs_governor sv') = rg_leases (hs_governor sv) @ taken
    \<and> (\<forall>p \<in> set taken. in_dict (fst p) (fs_jobs (hs_scheduler sv')))
    \<and> (case res of
         Inr None \<Rightarrow> taken = [] \<and> hs_queue sv' = q
       | Inr (Some c) \<Rightarrow> taken = [(cj_task_id c, cj_resource_lease c)]
           \<and> qo_claim_specific ops q (cj_task_id c) worker ttl = (hs_queue sv', Inr (Some (cj_retry_lease c)))
           \<and> qo_get_payload ops (hs_queue sv') (cj_task_id c) = Inr (cj_payload c)
       | Inl e \<Rightarrow> \<exists>m t l. e = QueueRaised m \<and> taken = [(t, l)]
           \<and> (qo_claim_specific ops q t worker ttl = (hs_queue sv', Inl m)
              \<or> (\<exists>rl. qo_claim_specific ops q t worker ttl = (hs_queue sv', Inr (Some rl)) \<and> qo_get_payload ops (hs_queue sv') t = Inl m)))"
  using claim_loop_ok [OF assms(1) _ assms(3) [unfolded HubService_claim_def]] post_init_request_ok [OF assms(2)]
  unfolding claim_effect_def claim_ends_def by blast

definition raising_ops :: "(string list, string, string) queue_ops" where
  \<comment> \<open>a queue that raises for every lease\<close>
  "raising_ops = demo_ops\<lparr>qo_claim_specific := (\<lambda>q t w ttl. (q, Inl ''locked''))\<rparr>"

theorem service_claim_conserves_witness:
  "\<exists>l. rg_leases (hs_governor (fst (HubService_claim raising_ops (\<lambda>_. 0) (\<lambda>_. 9) (demo_svc ''on'') ''w'' (demo_request 1) 30 8)))
     = rg_leases demo_gov @ [(''t2'', l)]"
proof -
  let ?r = "HubService_claim raising_ops (\<lambda>_. 0) (\<lambda>_. 9) (demo_svc ''on'') ''w'' (demo_request 1) 30 8"
  have p: "ResourceRequest_post_init (demo_request 1) = Inr (demo_request 1)" by code_simp
  have res: "snd ?r = Inl (QueueRaised ''locked'')" by code_simp
  have gov: "hs_governor (demo_svc ''on'') = demo_gov" by (simp add: demo_svc_def)
  have keys: "dict_keys (rg_leases (hs_governor (fst ?r))) = dict_keys (rg_leases demo_gov) @ [''t2'']" by code_simp
  have run: "HubService_claim raising_ops (\<lambda>_. 0) (\<lambda>_. 9) (demo_svc ''on'') ''w'' (demo_request 1) 30 8 = (fst ?r, Inl (QueueRaised ''locked''))"
    using res by (metis prod.collapse)
  obtain t l where l: "rg_leases (hs_governor (fst ?r)) = rg_leases demo_gov @ [(t, l)]"
    using service_claim_conserves [OF demo_svc_inv p run] unfolding gov sum.case by blast
  then have "t = ''t2''" using keys by simp
  then show ?thesis using l by blast
qed

text \<open>Restarting is idempotent. Rehydrating the scheduler from the durable queue always
  returns; running it again at once rehydrates nothing and leaves the service as it is, also
  when quotas refused some of the jobs the first time.\<close>

lemma service_rehydrate_idempotent:
  "\<exists>sv1 n. HubService_rehydrate_scheduler ops h sv = Inr (sv1, n)
     \<and> HubService_rehydrate_scheduler ops h sv1 = Inr (sv1, 0)"
proof -
  obtain s1 n where "rehydrate_loop h (hs_scheduler sv) 0 (qo_list_queued ops (hs_queue sv)) = Inr (s1, n)"
    "\<forall>e \<in> set (qo_list_queued ops (hs_queue sv)). isl (FairScheduler_enqueue h s1 (rehydrated_job e))"
    using rehydrate_loop_total by blast
  then show ?thesis
    using rehydrate_loop_refused by (simp add: HubService_rehydrate_scheduler_def)
qed

text \<open>What a submission registers. When the durable queue accepts a job and the scheduler
  enqueues it, the task is in the scheduler's queues and in its job table; the policy version
  pinned to it there is the one persisted with the job unless that one is the fair version, in
  which case it is recomputed from the task id, while the persisted pin was computed from the
  idempotency key: in canary mode the two pins can differ.\<close>

lemma service_submit_registers:
  assumes "sched_inv (hs_scheduler sv)" and "queue_ok (hs_scheduler sv)"
    and "pol = SchedulerPolicy_policy_for h (fs_policy (hs_scheduler sv)) key"
    and "qo_submit ops (hs_queue sv) p key m client ws weight cost pol = (q1, Inr t)"
    and "HubService_submit ops h sv p key client ws weight cost m = (sv', Inr t')"
    and "\<not> in_dict t (fs_jobs (hs_scheduler sv))" and "in_dict t (fs_jobs (hs_scheduler sv'))"
  shows "t' = t \<and> hs_queue sv' = q1 \<and> t \<in> queued (hs_scheduler sv')
    \<and> (\<exists>j. map_of (fs_jobs (hs_scheduler sv')) t = Some j \<and> sj_client_id j = client
        \<and> sj_scheduler_policy j = (if pol = FAIR_POLICY_VERSION
            then SchedulerPolicy_policy_for h (fs_policy (hs_scheduler sv)) t else pol))"
proof -
  let ?j = "\<lparr>sj_task_id = t, sj_client_id = client, sj_weight = weight, sj_cost = cost,
              sj_workspace_id = ws, sj_priority = DEFAULT_PRIORITY, sj_scheduler_policy = pol\<rparr>"
  have st: "fs_struct (hs_scheduler sv)" using assms(1) by (simp add: sched_inv_def)
  obtain s1 where e: "FairScheduler_enqueue h (hs_scheduler sv) ?j = Inr s1"
    and r: "sv' = sv\<lparr>hs_queue := q1, hs_scheduler := s1\<rparr>" "t' = t"
    using assms(4-7) by (auto simp: HubService_submit_def Let_def assms(3) split: sum.splits if_splits)
  note ef = enqueue_effect [OF e st assms(2)]
  have "map_of (fs_jobs (hs_scheduler sv)) t = None" using assms(6) by (simp add: in_dict_def)
  then have "map_of (fs_jobs s1) t = Some (repin h (hs_scheduler sv) ?j)" using ef(3) by (simp add: map_add_def)
  then show ?thesis using r ef(2) by (simp add: repin_def)
qed

lemma service_submit_registers_example:
  "''t3'' \<in> queued (hs_scheduler (fst (HubService_submit demo_ops (\<lambda>_. 0) (demo_svc ''on'')
     ''p'' ''t3'' ''c'' ''w'' 1 1 3)))"
proof -
  let ?r = "HubService_submit demo_ops (\<lambda>_. 0) (demo_svc ''on'') ''p'' ''t3'' ''c'' ''w'' 1 1 3"
  have "sched_inv (hs_scheduler (demo_svc ''on''))" "queue_ok (hs_scheduler (demo_svc ''on''))"
    using demo_svc_inv by (auto simp: svc_inv_def)
  moreover have "qo_submit demo_ops (hs_queue (demo_svc ''on'')) ''p'' ''t3'' 3 ''c'' ''w'' 1 1
      (SchedulerPolicy_policy_for (\<lambda>_. 0) (fs_policy (hs_scheduler (demo_svc ''on''))) ''t3'')
      = ([''t1'', ''t2'', ''t3''], Inr ''t3'')" by code_simp
  moreover have "?r = (fst ?r, Inr ''t3'')" by (rule prod_eqI) (simp, code_simp)
  moreover have "\<not> in_dict ''t3'' (fs_jobs (hs_scheduler (demo_svc ''on'')))"
    "in_dict ''t3'' (fs_jobs (hs_scheduler (fst ?r)))" by code_simp+
  ultimately show ?thesis
    using service_submit_registers [of "demo_svc ''on''" _ "\<lambda>_. 0" "''t3''" demo_ops "''p''" 3 "''c''" "''w''" 1 1
        "[''t1'', ''t2'', ''t3'']" "''t3''" "fst ?r" "''t3''", OF _ _ refl] by simp
qed

end
