(* ===== verification/Inference_Admission.thy ===== *)
theory Inference_Admission
  imports Loop_Prelude
begin

text \<open>
  Bounded admission and single-flight inference, \<open>src/simplicio_loop/inference_admission.py\<close>: a
  controller with independent capacity caps, a bounded pending set, priorities and aging; a
  coordinator that coalesces equivalent side-effect-free requests onto one execution; and a
  bounded retry loop with reproducible jitter. The coroutine \<open>run\<close> is split at its await points
  into the transitions of a step relation (arrival under the lock, the first step of
  the execution's task, its end, its cleanup under the lock, cancellation of a waiter); a task that
  is cancelled before its first step is lost with its admission, as in the code. The digest of a request's identity fields
  is the parameter \<open>H\<close>, the first digest byte that drives the jitter is \<open>jit\<close>.
\<close>

section \<open>The admission controller\<close>

datatype adm_error = LimitsInvalid | JobIdentityRequired | JobCostInvalid | AgingTicksInvalid
  | RetryLimitsInvalid | RetryDelaysInvalid | AttemptNotPositive

definition PRIORITY_WEIGHT :: "(string, rat) dict" where
  "PRIORITY_WEIGHT = [(''interactive'', 8), (''mapping'', 4), (''inference'', 2), (''background'', 1)]"

record CapacityLimits =
  cl_max_runnable :: int
  cl_max_active_workers :: int
  cl_max_inference_requests :: int
  cl_max_backend_slots :: int
  cl_max_memory_bytes :: int
  cl_max_queue :: int

definition CapacityLimits_post_init :: "CapacityLimits \<Rightarrow> adm_error + CapacityLimits" where
  "CapacityLimits_post_init l =
    (if (\<exists>v \<in> set [cl_max_runnable l, cl_max_active_workers l, cl_max_inference_requests l,
                     cl_max_backend_slots l, cl_max_queue l]. v < 1) \<or> cl_max_memory_bytes l < 0
     then Inl LimitsInvalid else Inr l)"

record AdmissionJob =
  aj_job_id :: string
  aj_client_id :: string
  aj_session_id :: string
  aj_priority :: string
  aj_repository_id :: string
  aj_runnable :: int
  aj_active_workers :: int
  aj_inference_requests :: int
  aj_backend_slots :: int
  aj_memory_bytes :: int
  aj_enqueued_at :: int

definition AdmissionJob_post_init :: "AdmissionJob \<Rightarrow> adm_error + AdmissionJob" where
  "AdmissionJob_post_init j =
    (if aj_job_id j = [] \<or> aj_client_id j = [] \<or> aj_session_id j = [] \<or> aj_repository_id j = []
        \<or> \<not> in_dict (aj_priority j) PRIORITY_WEIGHT
     then Inl JobIdentityRequired
     else if (\<exists>v \<in> set [aj_runnable j, aj_active_workers j, aj_inference_requests j, aj_backend_slots j]. v < 1)
             \<or> aj_memory_bytes j < 0
     then Inl JobCostInvalid else Inr j)"

type_synonym fair_key = "string \<times> string \<times> string"

record FairAdmissionController =
  fa_limits :: CapacityLimits
  fa_aging_ticks :: int
  fa_pending :: "(fair_key, AdmissionJob list) dict"
  fa_pending_by_id :: "(string, AdmissionJob) dict"
  fa_active :: "(string, AdmissionJob) dict"
  fa_served :: "(fair_key, int) dict"
  fa_decisions :: "(string, int) dict"
  fa_wait_ticks_total :: int
  fa_tick :: int
  fa_starvation_preventions :: int

definition FairAdmissionController_init :: "CapacityLimits \<Rightarrow> int \<Rightarrow> adm_error + FairAdmissionController" where
  "FairAdmissionController_init limits aging =
    (if aging < 1 then Inl AgingTicksInvalid
     else Inr \<lparr>fa_limits = limits, fa_aging_ticks = aging, fa_pending = [], fa_pending_by_id = [],
       fa_active = [], fa_served = [], fa_decisions = [], fa_wait_ticks_total = 0, fa_tick = 0,
       fa_starvation_preventions = 0\<rparr>)"

definition FairAdmissionController_queued :: "FairAdmissionController \<Rightarrow> int" where
  "FairAdmissionController_queued a = int (length (fa_pending_by_id a))"

definition CAPPED :: "((AdmissionJob \<Rightarrow> int) \<times> (CapacityLimits \<Rightarrow> int)) list" where
  \<comment> \<open>the four resources that always have a cap, with \<open>getattr(limits, "max_" + name)\<close>\<close>
  "CAPPED = [(aj_runnable, cl_max_runnable), (aj_active_workers, cl_max_active_workers),
     (aj_inference_requests, cl_max_inference_requests), (aj_backend_slots, cl_max_backend_slots)]"

definition usage_of :: "(AdmissionJob \<Rightarrow> int) \<Rightarrow> FairAdmissionController \<Rightarrow> int" where
  "usage_of f a = sum_list (map f (dict_values (fa_active a)))"

definition FairAdmissionController_fits :: "FairAdmissionController \<Rightarrow> AdmissionJob \<Rightarrow> bool" where
  "FairAdmissionController_fits a j \<longleftrightarrow>
     (\<forall>(f, cap) \<in> set CAPPED. usage_of f a + f j \<le> cap (fa_limits a))
   \<and> (cl_max_memory_bytes (fa_limits a) = 0
      \<or> usage_of aj_memory_bytes a + aj_memory_bytes j \<le> cl_max_memory_bytes (fa_limits a))"

definition FairAdmissionController_too_large :: "FairAdmissionController \<Rightarrow> AdmissionJob \<Rightarrow> bool" where
  "FairAdmissionController_too_large a j \<longleftrightarrow>
     (\<exists>(f, cap) \<in> set CAPPED. f j > cap (fa_limits a))
   \<or> (cl_max_memory_bytes (fa_limits a) \<noteq> 0 \<and> aj_memory_bytes j > cl_max_memory_bytes (fa_limits a))"

definition FairAdmissionController_fairness_key :: "AdmissionJob \<Rightarrow> fair_key" where
  "FairAdmissionController_fairness_key j = (aj_repository_id j, aj_session_id j, aj_client_id j)"

record AdmissionDecision =
  ad_state :: string
  ad_reason :: string
  ad_job_id :: string

definition count_decision :: "string \<Rightarrow> FairAdmissionController \<Rightarrow> FairAdmissionController" where
  "count_decision name a = a\<lparr>fa_decisions :=
     dict_set (fa_decisions a) name (dict_get_or (fa_decisions a) name 0 + 1)\<rparr>"

definition defer_job :: "AdmissionJob \<Rightarrow> FairAdmissionController \<Rightarrow> FairAdmissionController" where
  "defer_job q a =
    (let key = FairAdmissionController_fairness_key q
     in a\<lparr>fa_pending := dict_set (fa_pending a) key (dict_get_or (fa_pending a) key [] @ [q]),
          fa_pending_by_id := dict_set (fa_pending_by_id a) (aj_job_id q) q\<rparr>)"

definition FairAdmissionController_submit ::
    "FairAdmissionController \<Rightarrow> AdmissionJob \<Rightarrow> FairAdmissionController \<times> AdmissionDecision" where
  "FairAdmissionController_submit a j =
    (let decide = (\<lambda>state reason. \<lparr>ad_state = state, ad_reason = reason, ad_job_id = aj_job_id j\<rparr>)
     in if in_dict (aj_job_id j) (fa_active a) \<or> in_dict (aj_job_id j) (fa_pending_by_id a)
        then (count_decision ''rejected'' a, decide ''rejected'' ''duplicate_job'')
        else if FairAdmissionController_too_large a j
        then (count_decision ''rejected'' a, decide ''rejected'' ''job_exceeds_limit'')
        else let a1 = a\<lparr>fa_tick := fa_tick a + 1\<rparr>
        in if FairAdmissionController_fits a1 j
           then (count_decision ''admitted'' (a1\<lparr>fa_active := dict_set (fa_active a1) (aj_job_id j) j\<rparr>),
                 decide ''admitted'' ''capacity_available'')
           else if FairAdmissionController_queued a1 \<ge> cl_max_queue (fa_limits a1)
           then (count_decision ''saturated'' (count_decision ''rejected'' a1),
                 decide ''rejected'' ''queue_saturated'')
           else (count_decision ''deferred'' (defer_job (j\<lparr>aj_enqueued_at := fa_tick a1\<rparr>) a1),
                 decide ''deferred'' ''capacity_unavailable''))"

type_synonym score = "rat \<times> rat \<times> int"

definition FairAdmissionController_score ::
    "FairAdmissionController \<Rightarrow> AdmissionJob \<Rightarrow> FairAdmissionController \<times> score" where
  \<comment> \<open>counts a starvation prevention and, through the default dictionary, creates the served entry;
     an unknown priority is excluded by the job's constructor\<close>
  "FairAdmissionController_score a j =
    (let waited = fa_tick a - aj_enqueued_at j;
         key = FairAdmissionController_fairness_key j;
         a1 = (if waited \<ge> fa_aging_ticks a
               then a\<lparr>fa_starvation_preventions := fa_starvation_preventions a + 1\<rparr> else a);
         a2 = (if in_dict key (fa_served a1) then a1
               else a1\<lparr>fa_served := dict_set (fa_served a1) key 0\<rparr>)
     in (a2, dict_get_or PRIORITY_WEIGHT (aj_priority j) 0
               + of_int (max 0 waited) * 4 / of_int (fa_aging_ticks a),
             - of_int (dict_get_or (fa_served a2) key 0), - aj_enqueued_at j))"

fun collect_choices ::
    "FairAdmissionController \<Rightarrow> (fair_key, AdmissionJob list) dict
      \<Rightarrow> FairAdmissionController \<times> (score \<times> fair_key \<times> AdmissionJob) list" where
  "collect_choices a [] = (a, [])"
| "collect_choices a ((client, queue) # others) =
    (case queue of
       [] \<Rightarrow> collect_choices a others
     | j # _ \<Rightarrow>
       if FairAdmissionController_fits a j
       then let (a1, sc) = FairAdmissionController_score a j; (a2, cs) = collect_choices a1 others
            in (a2, (sc, client, j) # cs)
       else collect_choices a others)"

definition activate :: "fair_key \<Rightarrow> AdmissionJob \<Rightarrow> FairAdmissionController \<Rightarrow> FairAdmissionController" where
  "activate key j a =
    a\<lparr>fa_pending := dict_set (fa_pending a) key (tl (dict_get_or (fa_pending a) key [])),
      fa_pending_by_id := dict_pop (fa_pending_by_id a) (aj_job_id j),
      fa_active := dict_set (fa_active a) (aj_job_id j) j,
      fa_served := dict_set (fa_served a) key (dict_get_or (fa_served a) key 0 + 1),
      fa_wait_ticks_total := fa_wait_ticks_total a + max 0 (fa_tick a - aj_enqueued_at j)\<rparr>"

definition FairAdmissionController_next ::
    "FairAdmissionController \<Rightarrow> FairAdmissionController \<times> AdmissionJob option" where
  "FairAdmissionController_next a =
    (let a1 = a\<lparr>fa_tick := fa_tick a + 1\<rparr>; (a2, choices) = collect_choices a1 (fa_pending a1)
     in case choices of
          [] \<Rightarrow> (a2, None)
        | c # cs \<Rightarrow> (case max_by fst c cs of (_, key, j) \<Rightarrow> (activate key j a2, Some j)))"

definition FairAdmissionController_release :: "FairAdmissionController \<Rightarrow> string \<Rightarrow> FairAdmissionController \<times> bool" where
  "FairAdmissionController_release a jid =
    (a\<lparr>fa_active := dict_pop (fa_active a) jid\<rparr>, in_dict jid (fa_active a))"

definition FairAdmissionController_cancel :: "FairAdmissionController \<Rightarrow> string \<Rightarrow> FairAdmissionController \<times> bool" where
  "FairAdmissionController_cancel a jid =
    (if in_dict jid (fa_active a) then FairAdmissionController_release a jid
     else case dict_get (fa_pending_by_id a) jid of
       None \<Rightarrow> (a, False)
     | Some j \<Rightarrow>
       (let key = FairAdmissionController_fairness_key j
        in (a\<lparr>fa_pending_by_id := dict_pop (fa_pending_by_id a) jid,
              fa_pending := dict_set (fa_pending a) key
                (filter (\<lambda>item. aj_job_id item \<noteq> jid) (dict_get_or (fa_pending a) key []))\<rparr>, True)))"

section \<open>The coordinator\<close>

record InferenceRequest =
  ir_model_identity :: string
  ir_backend_identity :: string
  ir_stable_prefix_generation :: string
  ir_canonical_request_hash :: string
  ir_tool_registry_generation :: string
  ir_authority_scope :: string
  ir_privacy_scope :: string
  ir_side_effect_free :: bool
  ir_operation_kind :: string

definition identity_fields :: "InferenceRequest \<Rightarrow> string list" where
  "identity_fields r = [ir_model_identity r, ir_backend_identity r, ir_stable_prefix_generation r,
     ir_canonical_request_hash r, ir_tool_registry_generation r, ir_authority_scope r, ir_privacy_scope r]"

definition InferenceRequest_equivalence_key ::
    "(string list \<Rightarrow> string) \<Rightarrow> InferenceRequest \<Rightarrow> string option" where
  "InferenceRequest_equivalence_key H r =
    (if \<not> ir_side_effect_free r \<or> ir_operation_kind r \<noteq> ''inference'' \<or> ir_authority_scope r = []
        \<or> ir_privacy_scope r = []
     then None else Some (H (identity_fields r)))"

datatype exec_phase = Exec_created | Exec_started | Exec_settled | Exec_lost
  \<comment> \<open>the task of an execution before its first step, inside the body, past the settling of its future, and cancelled before its first step\<close>

record SharedExecution =
  se_key :: "string option"
  se_waiters :: "string list"
  se_admission_job_id :: string
  se_request :: InferenceRequest
  se_phase :: exec_phase
  se_cancel_requested :: bool

abbreviation se_future_done :: "SharedExecution \<Rightarrow> bool" where
  "se_future_done e \<equiv> se_phase e = Exec_settled"

record InferenceCoordinator =
  ic_admission :: FairAdmissionController
  ic_inflight :: "(string, string) dict"
  ic_shared :: "(string, SharedExecution) dict"
  ic_dedup_hits :: int
  ic_dedup_misses :: int

definition admission_job :: "string \<Rightarrow> string \<Rightarrow> string \<Rightarrow> string \<Rightarrow> AdmissionJob" where
  "admission_job jid client session priority =
    \<lparr>aj_job_id = jid, aj_client_id = client, aj_session_id = session, aj_priority = priority,
     aj_repository_id = ''default'', aj_runnable = 1, aj_active_workers = 1,
     aj_inference_requests = 1, aj_backend_slots = 1, aj_memory_bytes = 0, aj_enqueued_at = 0\<rparr>"

datatype coord_error = InvalidJob adm_error | AdmissionRejected AdmissionDecision

definition InferenceCoordinator_start ::
    "InferenceCoordinator \<Rightarrow> string option \<Rightarrow> InferenceRequest \<Rightarrow> string \<Rightarrow> string \<Rightarrow> string \<Rightarrow> string \<Rightarrow> string
      \<Rightarrow> InferenceCoordinator \<times> (coord_error + string \<times> bool)" where
  \<comment> \<open>the branch of the locked section that starts a new execution\<close>
  "InferenceCoordinator_start c key r eid client session priority corr =
    (let c1 = c\<lparr>ic_dedup_misses := ic_dedup_misses c + 1\<rparr>; aid = ''inference:'' @ eid
     in case AdmissionJob_post_init (admission_job aid client session priority) of
          Inl e \<Rightarrow> (c1, Inl (InvalidJob e))
        | Inr job \<Rightarrow>
          (let (a1, d) = FairAdmissionController_submit (ic_admission c1) job;
               c2 = c1\<lparr>ic_admission := a1\<rparr>
           in if ad_state d \<noteq> ''admitted'' then (c2, Inl (AdmissionRejected d))
              else let shared = \<lparr>se_key = key, se_waiters = [corr], se_admission_job_id = aid,
                         se_request = r, se_phase = Exec_created, se_cancel_requested = False\<rparr>;
                       c3 = c2\<lparr>ic_shared := dict_set (ic_shared c2) eid shared\<rparr>
                   in (case key of None \<Rightarrow> c3
                       | Some k \<Rightarrow> c3\<lparr>ic_inflight := dict_set (ic_inflight c3) k eid\<rparr>,
                       Inr (eid, False))))"

definition add_waiter :: "string \<Rightarrow> SharedExecution \<Rightarrow> SharedExecution" where
  "add_waiter corr e = e\<lparr>se_waiters := (if corr \<in> set (se_waiters e) then se_waiters e
     else se_waiters e @ [corr])\<rparr>"

definition InferenceCoordinator_arrive ::
    "(string list \<Rightarrow> string) \<Rightarrow> InferenceCoordinator \<Rightarrow> InferenceRequest \<Rightarrow> string \<Rightarrow> string \<Rightarrow> string \<Rightarrow> string \<Rightarrow> string
      \<Rightarrow> InferenceCoordinator \<times> (coord_error + string \<times> bool)" where
  \<comment> \<open>\<open>run\<close> up to its first await; \<open>eid\<close> is the fresh execution id, the result names the
     execution the caller waits on and whether it was deduplicated\<close>
  "InferenceCoordinator_arrive H c r eid client session priority corr =
    (let key = InferenceRequest_equivalence_key H r
     in case (case key of None \<Rightarrow> None | Some k \<Rightarrow> dict_get (ic_inflight c) k) of
          None \<Rightarrow> InferenceCoordinator_start c key r eid client session priority corr
        | Some x \<Rightarrow>
          (c\<lparr>ic_dedup_hits := ic_dedup_hits c + 1,
             ic_shared := map (\<lambda>(i, e). (i, if i = x then add_waiter corr e else e)) (ic_shared c)\<rparr>,
           Inr (x, True)))"

definition InferenceCoordinator_waiter_cancelled ::
    "InferenceCoordinator \<Rightarrow> string \<Rightarrow> string \<Rightarrow> InferenceCoordinator" where
  \<comment> \<open>the CancelledError branch of \<open>run\<close>\<close>
  "InferenceCoordinator_waiter_cancelled c eid corr =
    c\<lparr>ic_shared := map (\<lambda>(i, e). (i, if i \<noteq> eid then e
        else let e1 = e\<lparr>se_waiters := removeAll corr (se_waiters e)\<rparr>
             in if se_waiters e1 = [] \<and> \<not> se_future_done e1 then e1\<lparr>se_cancel_requested := True\<rparr> else e1))
      (ic_shared c)\<rparr>"

definition InferenceCoordinator_execution_begins :: "InferenceCoordinator \<Rightarrow> string \<Rightarrow> InferenceCoordinator" where
  \<comment> \<open>the first step of the task; when the task was cancelled before, the event loop closes the coroutine
     without entering its body, so that neither its handlers nor its \<open>finally\<close> block run\<close>
  "InferenceCoordinator_execution_begins c eid =
    c\<lparr>ic_shared := map (\<lambda>(i, e). (i, if i \<noteq> eid then e
        else e\<lparr>se_phase := (if se_cancel_requested e then Exec_lost else Exec_started)\<rparr>)) (ic_shared c)\<rparr>"

definition InferenceCoordinator_execution_ended :: "InferenceCoordinator \<Rightarrow> string \<Rightarrow> InferenceCoordinator" where
  \<comment> \<open>\<open>_execute\<close> from the settling of the future to the release of the admission (no await between)\<close>
  "InferenceCoordinator_execution_ended c eid =
    (case dict_get (ic_shared c) eid of
       None \<Rightarrow> c
     | Some e \<Rightarrow> c\<lparr>ic_shared := dict_set (ic_shared c) eid (e\<lparr>se_phase := Exec_settled\<rparr>),
                   ic_admission := fst (FairAdmissionController_release (ic_admission c) (se_admission_job_id e))\<rparr>)"

definition InferenceCoordinator_cleanup :: "InferenceCoordinator \<Rightarrow> string \<Rightarrow> InferenceCoordinator" where
  \<comment> \<open>the locked tail of \<open>_execute\<close>; two executions are the same object when they have one id\<close>
  "InferenceCoordinator_cleanup c eid =
    (case dict_get (ic_shared c) eid of
       None \<Rightarrow> c
     | Some e \<Rightarrow>
       (let c1 = (case se_key e of
                    Some k \<Rightarrow> if dict_get (ic_inflight c) k = Some eid
                              then c\<lparr>ic_inflight := dict_pop (ic_inflight c) k\<rparr> else c
                  | None \<Rightarrow> c)
        in c1\<lparr>ic_shared := dict_pop (ic_shared c1) eid\<rparr>))"

section \<open>Bounded retry\<close>

record RetryPolicy =
  rp_max_attempts :: int
  rp_base_delay_seconds :: rat
  rp_max_delay_seconds :: rat
  rp_jitter_ratio :: rat
  rp_circuit_failure_threshold :: int
  rp_circuit_cooldown_seconds :: rat

definition RetryPolicy_post_init :: "RetryPolicy \<Rightarrow> adm_error + RetryPolicy" where
  "RetryPolicy_post_init p =
    (if rp_max_attempts p < 1 \<or> rp_circuit_failure_threshold p < 1 then Inl RetryLimitsInvalid
     else if rp_base_delay_seconds p < 0 \<or> rp_max_delay_seconds p < 0
             \<or> \<not> (0 \<le> rp_jitter_ratio p \<and> rp_jitter_ratio p \<le> 1)
     then Inl RetryDelaysInvalid else Inr p)"

definition RetryPolicy_delay :: "(string \<Rightarrow> int \<Rightarrow> nat) \<Rightarrow> RetryPolicy \<Rightarrow> string \<Rightarrow> int \<Rightarrow> adm_error + rat" where
  \<comment> \<open>\<open>jit\<close> is the first byte of the digest of \<open>job_key:attempt\<close>\<close>
  "RetryPolicy_delay jit p job_key attempt =
    (if attempt < 1 then Inl AttemptNotPositive
     else let raw = of_nat (jit job_key attempt) / 255;
              jitter = 1 + (raw * 2 - 1) * rp_jitter_ratio p
          in Inr (min (rp_max_delay_seconds p)
                (rp_base_delay_seconds p * 2 ^ nat (attempt - 1) * jitter)))"

datatype 'r attempt_outcome = AttemptCancelled | AttemptFailed string | AttemptOk 'r

record retry_decision =
  rd_attempt :: int
  rd_retry :: bool
  rd_delay_seconds :: rat
  rd_reason :: string

datatype 'r retry_result =
    RetryReceipt 'r | RetryCancelled | InferenceRetryExhausted "retry_decision list" | RetryDelayError

fun retry_loop ::
    "(string \<Rightarrow> int \<Rightarrow> nat) \<Rightarrow> RetryPolicy \<Rightarrow> string \<Rightarrow> (nat \<Rightarrow> rat \<times> rat \<times> rat) \<Rightarrow> (nat \<Rightarrow> 'r attempt_outcome)
      \<Rightarrow> nat \<Rightarrow> nat \<Rightarrow> int \<Rightarrow> rat \<Rightarrow> retry_decision list \<Rightarrow> nat \<times> 'r retry_result" where
  \<comment> \<open>\<open>left\<close> attempts remain; \<open>clock\<close> gives the three readings of an attempt (at its start, when a
     failure opens the circuit, when the retry is decided), \<open>run\<close> what \<open>coordinator.run\<close> does on it;
     the first component counts the calls of \<open>coordinator.run\<close>\<close>
  "retry_loop jit p job_key clock run 0 attempt failures opened_until decisions =
     (0, InferenceRetryExhausted decisions)"
| "retry_loop jit p job_key clock run (Suc left) attempt failures opened_until decisions =
    (case clock attempt of (now, opening, deciding) \<Rightarrow>
     if now < opened_until
     then (0, InferenceRetryExhausted (decisions @
        [\<lparr>rd_attempt = int attempt, rd_retry = False, rd_delay_seconds = 0, rd_reason = ''circuit_open''\<rparr>]))
     else case run attempt of
       AttemptOk r \<Rightarrow> (1, RetryReceipt r)
     | AttemptCancelled \<Rightarrow> (1, RetryCancelled)
     | AttemptFailed name \<Rightarrow>
       (let failures1 = failures + 1;
            opened1 = (if failures1 \<ge> rp_circuit_failure_threshold p
                       then opening + rp_circuit_cooldown_seconds p else opened_until);
            retry = (int attempt < rp_max_attempts p \<and> opened1 \<le> deciding);
            reason = (if \<not> retry \<and> failures1 \<ge> rp_circuit_failure_threshold p
                      then ''circuit_open'' else ''retryable_failure'')
        in case (if retry then RetryPolicy_delay jit p job_key (int attempt) else Inr 0) of
             Inl e \<Rightarrow> (1, RetryDelayError)
           | Inr delay \<Rightarrow>
             (let decisions1 = decisions @ [\<lparr>rd_attempt = int attempt, rd_retry = retry,
                                             rd_delay_seconds = delay, rd_reason = reason\<rparr>]
              in if \<not> retry then (1, InferenceRetryExhausted decisions1)
                 else case retry_loop jit p job_key clock run left (Suc attempt) failures1 opened1 decisions1 of
                        (n, res) \<Rightarrow> (Suc n, res))))"

definition run_with_retry ::
    "(string \<Rightarrow> int \<Rightarrow> nat) \<Rightarrow> RetryPolicy \<Rightarrow> string \<Rightarrow> (nat \<Rightarrow> rat \<times> rat \<times> rat) \<Rightarrow> (nat \<Rightarrow> 'r attempt_outcome)
      \<Rightarrow> nat \<times> 'r retry_result" where
  "run_with_retry jit p job_key clock run =
     retry_loop jit p job_key clock run (nat (rp_max_attempts p)) 1 0 0 []"

section \<open>The controller's invariant\<close>

declare split_paired_All [simp del] split_paired_Ex [simp del]

definition adm_caps_ok :: "FairAdmissionController \<Rightarrow> bool" where
  "adm_caps_ok a \<longleftrightarrow> (\<forall>(f, cap) \<in> set CAPPED. usage_of f a \<le> cap (fa_limits a))
     \<and> (cl_max_memory_bytes (fa_limits a) = 0
        \<or> usage_of aj_memory_bytes a \<le> cl_max_memory_bytes (fa_limits a))"

definition pending_jobs :: "FairAdmissionController \<Rightarrow> AdmissionJob list" where
  "pending_jobs a = concat (dict_values (fa_pending a))"

definition adm_queue_ok :: "FairAdmissionController \<Rightarrow> bool" where
  \<comment> \<open>the per-key queues and the index by id hold the same jobs, each once\<close>
  "adm_queue_ok a \<longleftrightarrow> distinct (dict_keys (fa_pending a)) \<and> distinct (dict_keys (fa_pending_by_id a))
     \<and> (\<forall>key q. map_of (fa_pending a) key = Some q \<longrightarrow> distinct (map aj_job_id q)
          \<and> (\<forall>j \<in> set q. FairAdmissionController_fairness_key j = key
               \<and> map_of (fa_pending_by_id a) (aj_job_id j) = Some j))
     \<and> (\<forall>i j. map_of (fa_pending_by_id a) i = Some j \<longrightarrow> aj_job_id j = i \<and> map_of (fa_active a) i = None
          \<and> (\<exists>q. map_of (fa_pending a) (FairAdmissionController_fairness_key j) = Some q \<and> j \<in> set q))"

definition job_costs_ok :: "AdmissionJob \<Rightarrow> bool" where
  "job_costs_ok j \<longleftrightarrow> 1 \<le> aj_runnable j \<and> 1 \<le> aj_active_workers j \<and> 1 \<le> aj_inference_requests j
     \<and> 1 \<le> aj_backend_slots j \<and> 0 \<le> aj_memory_bytes j \<and> in_dict (aj_priority j) PRIORITY_WEIGHT"

definition adm_jobs_ok :: "FairAdmissionController \<Rightarrow> bool" where
  "adm_jobs_ok a \<longleftrightarrow> distinct (dict_keys (fa_active a))
     \<and> (\<forall>i j. map_of (fa_active a) i = Some j \<longrightarrow> aj_job_id j = i \<and> job_costs_ok j)
     \<and> (\<forall>i j. map_of (fa_pending_by_id a) i = Some j \<longrightarrow> job_costs_ok j)
     \<and> 1 \<le> fa_aging_ticks a \<and> FairAdmissionController_queued a \<le> cl_max_queue (fa_limits a)"

definition adm_inv :: "FairAdmissionController \<Rightarrow> bool" where
  "adm_inv a \<longleftrightarrow> adm_caps_ok a \<and> adm_queue_ok a \<and> adm_jobs_ok a"

lemma post_init_costs: "AdmissionJob_post_init j = Inr j' \<Longrightarrow> j' = j \<and> job_costs_ok j"
  by (auto simp: AdmissionJob_post_init_def job_costs_ok_def not_less split: if_splits)

lemma usage_set_new:
  "i \<notin> set (dict_keys (fa_active a)) \<Longrightarrow>
     usage_of f (a\<lparr>fa_active := dict_set (fa_active a) i j\<rparr>) = usage_of f a + f j"
  by (simp add: usage_of_def dict_set_new)

lemma usage_pop_le:
  fixes f :: "AdmissionJob \<Rightarrow> int"
  assumes "distinct (dict_keys (fa_active a))" and "\<And>j. j \<in> set (dict_values (fa_active a)) \<Longrightarrow> 0 \<le> f j"
  shows "sum_list (map f (dict_values (dict_pop (fa_active a) i))) \<le> sum_list (map f (dict_values (fa_active a)))"
proof (cases "map_of (fa_active a) i")
  case None
  then have "i \<notin> set (dict_keys (fa_active a))" by (metis in_dict_def in_dict_keys)
  then show ?thesis by (simp add: delete_not_in)
next
  case (Some j)
  have "dict_sum f (dict_pop (fa_active a) i) = dict_sum f (fa_active a) - f j"
    by (rule dict_sum_pop [OF assms(1) Some])
  moreover have "0 \<le> f j" using assms(2) dict_get_in_values [OF Some] by simp
  ultimately show ?thesis by (simp add: dict_sum_def comp_def)
qed

definition adm_frame :: "FairAdmissionController \<Rightarrow> FairAdmissionController \<Rightarrow> bool" where
  \<comment> \<open>the same limits and jobs; only counters differ\<close>
  "adm_frame a a' \<longleftrightarrow> fa_limits a' = fa_limits a \<and> fa_aging_ticks a' = fa_aging_ticks a
     \<and> fa_pending a' = fa_pending a \<and> fa_pending_by_id a' = fa_pending_by_id a \<and> fa_active a' = fa_active a"

lemma adm_frame_refl [simp]: "adm_frame a a"
  by (simp add: adm_frame_def)

lemma adm_frame_trans: "adm_frame a a' \<Longrightarrow> adm_frame a' a'' \<Longrightarrow> adm_frame a a''"
  by (simp add: adm_frame_def)

lemma adm_inv_frame: "adm_frame a a' \<Longrightarrow> adm_inv a' \<longleftrightarrow> adm_inv a"
  by (simp add: adm_frame_def adm_inv_def adm_caps_ok_def adm_queue_ok_def adm_jobs_ok_def
      usage_of_def FairAdmissionController_queued_def)

lemma fits_frame: "adm_frame a a' \<Longrightarrow> FairAdmissionController_fits a' j = FairAdmissionController_fits a j"
  by (simp add: adm_frame_def FairAdmissionController_fits_def usage_of_def)

lemma frame_counters:
  "adm_frame a (count_decision n a)" "adm_frame a (a\<lparr>fa_tick := t\<rparr>)"
  "adm_frame a (fst (FairAdmissionController_score a j))"
  by (simp_all add: adm_frame_def count_decision_def FairAdmissionController_score_def Let_def)

lemma fits_caps:
  assumes "FairAdmissionController_fits a j" and "i \<notin> set (dict_keys (fa_active a))"
  shows "adm_caps_ok (a\<lparr>fa_active := dict_set (fa_active a) i j\<rparr>)"
  using assms usage_set_new [OF assms(2)] by (auto simp: adm_caps_ok_def FairAdmissionController_fits_def)

lemma capped_nonneg: "(f, cap) \<in> set CAPPED \<Longrightarrow> job_costs_ok j \<Longrightarrow> 0 \<le> f j"
  by (auto simp: CAPPED_def job_costs_ok_def)

lemma release_adm_inv:
  assumes "adm_inv a"
  shows "adm_inv (fst (FairAdmissionController_release a i))"
proof -
  let ?a = "a\<lparr>fa_active := dict_pop (fa_active a) i\<rparr>"
  have d: "distinct (dict_keys (fa_active a))" using assms by (simp add: adm_inv_def adm_jobs_ok_def)
  have ok: "\<And>j. j \<in> set (dict_values (fa_active a)) \<Longrightarrow> job_costs_ok j"
    using assms dict_values_get [OF d] by (fastforce simp: adm_inv_def adm_jobs_ok_def)
  have le: "usage_of f ?a \<le> usage_of f a" if "\<And>j. job_costs_ok j \<Longrightarrow> 0 \<le> f j" for f
    using usage_pop_le [OF d, of f i] ok that by (simp add: usage_of_def)
  have "usage_of f ?a \<le> cap (fa_limits ?a)" if "(f, cap) \<in> set CAPPED" for f cap
    using le [OF capped_nonneg [OF that]] assms that by (fastforce simp: adm_inv_def adm_caps_ok_def)
  moreover have "usage_of aj_memory_bytes ?a \<le> usage_of aj_memory_bytes a"
    by (rule le) (simp add: job_costs_ok_def)
  ultimately have "adm_caps_ok ?a" using assms by (auto simp: adm_inv_def adm_caps_ok_def)
  moreover have "adm_queue_ok ?a" using assms by (auto simp: adm_inv_def adm_queue_ok_def)
  moreover have "adm_jobs_ok ?a"
    using assms by (auto simp: adm_inv_def adm_jobs_ok_def FairAdmissionController_queued_def split: if_splits)
  ultimately show ?thesis by (simp add: adm_inv_def FairAdmissionController_release_def)
qed

lemma adm_queue_okD:
  assumes "adm_queue_ok a" and "map_of (fa_pending a) key = Some q" and "x \<in> set q"
  shows "FairAdmissionController_fairness_key x = key" "map_of (fa_pending_by_id a) (aj_job_id x) = Some x"
    "map_of (fa_active a) (aj_job_id x) = None"
  using assms unfolding adm_queue_ok_def by blast+

lemma adm_queue_ok_distinct:
  "adm_queue_ok a \<Longrightarrow> map_of (fa_pending a) key = Some q \<Longrightarrow> distinct (map aj_job_id q)"
  unfolding adm_queue_ok_def by blast

lemma adm_queue_ok_index:
  assumes "adm_queue_ok a" and "map_of (fa_pending_by_id a) i = Some j"
  shows "aj_job_id j = i" "map_of (fa_active a) i = None"
    "\<exists>q. map_of (fa_pending a) (FairAdmissionController_fairness_key j) = Some q \<and> j \<in> set q"
  using assms unfolding adm_queue_ok_def by blast+

lemma cancel_adm_inv:
  assumes "adm_inv a"
  shows "adm_inv (fst (FairAdmissionController_cancel a i))"
proof (cases "in_dict i (fa_active a)")
  case True
  then show ?thesis using release_adm_inv [OF assms] by (simp add: FairAdmissionController_cancel_def)
next
  case False
  show ?thesis
  proof (cases "map_of (fa_pending_by_id a) i")
    case None
    with False assms show ?thesis by (simp add: FairAdmissionController_cancel_def)
  next
    case (Some j)
    let ?key = "FairAdmissionController_fairness_key j"
    have qo: "adm_queue_ok a" using assms by (simp add: adm_inv_def)
    obtain q where q: "map_of (fa_pending a) ?key = Some q" "aj_job_id j = i"
      using adm_queue_ok_index [OF qo Some] by blast
    let ?q = "filter (\<lambda>x. aj_job_id x \<noteq> i) q"
    let ?a = "a\<lparr>fa_pending_by_id := dict_pop (fa_pending_by_id a) i, fa_pending := dict_set (fa_pending a) ?key ?q\<rparr>"
    have r: "fst (FairAdmissionController_cancel a i) = ?a"
      using False Some by (simp add: FairAdmissionController_cancel_def Let_def dict_get_or_Some [OF q(1)])
    have elsewhere: "x \<in> set q' \<Longrightarrow> map_of (fa_pending a) key = Some q' \<Longrightarrow> aj_job_id x = i \<Longrightarrow> key = ?key" for x key q'
      using adm_queue_okD(1,2) [OF qo] Some by (metis option.inject)
    have "adm_queue_ok ?a"
      unfolding adm_queue_ok_def
    proof (intro conjI allI impI)
      show "distinct (dict_keys (fa_pending ?a))" "distinct (dict_keys (fa_pending_by_id ?a))"
        using qo by (simp_all add: adm_queue_ok_def)
    next
      fix key q' assume "map_of (fa_pending ?a) key = Some q'"
      then have c: "key = ?key \<and> q' = ?q \<or> key \<noteq> ?key \<and> map_of (fa_pending a) key = Some q'"
        by (auto split: if_splits)
      then show "distinct (map aj_job_id q')"
        using adm_queue_ok_distinct [OF qo q(1)] adm_queue_ok_distinct [OF qo, of key q']
        by (auto intro: distinct_map_filter)
      have "FairAdmissionController_fairness_key x = key \<and> map_of (fa_pending_by_id ?a) (aj_job_id x) = Some x"
        if x: "x \<in> set q'" for x
        using c
      proof (elim disjE conjE)
        assume "key = ?key" "q' = ?q"
        then show ?thesis using x adm_queue_okD [OF qo q(1), of x] by simp
      next
        assume k: "key \<noteq> ?key" "map_of (fa_pending a) key = Some q'"
        then have "aj_job_id x \<noteq> i" using elsewhere x by blast
        then show ?thesis using adm_queue_okD [OF qo k(2) x] by simp
      qed
      then show "\<forall>x \<in> set q'. FairAdmissionController_fairness_key x = key
          \<and> map_of (fa_pending_by_id ?a) (aj_job_id x) = Some x" by blast
    next
      fix i' j' assume "map_of (fa_pending_by_id ?a) i' = Some j'"
      then have i': "i' \<noteq> i" "map_of (fa_pending_by_id a) i' = Some j'" by (auto split: if_splits)
      then obtain q' where j': "aj_job_id j' = i'" "map_of (fa_active a) i' = None"
        "map_of (fa_pending a) (FairAdmissionController_fairness_key j') = Some q'" "j' \<in> set q'"
        using adm_queue_ok_index [OF qo] by blast
      then show "aj_job_id j' = i'" "map_of (fa_active ?a) i' = None" by simp_all
      show "\<exists>q. map_of (fa_pending ?a) (FairAdmissionController_fairness_key j') = Some q \<and> j' \<in> set q"
        using j' i'(1) q(1) by auto
    qed
    moreover have "adm_caps_ok ?a" using assms by (simp add: adm_inv_def adm_caps_ok_def usage_of_def)
    moreover have "adm_jobs_ok ?a"
    proof -
      have "length (dict_pop (fa_pending_by_id a) i) \<le> length (fa_pending_by_id a)"
        by (simp add: AList.delete_eq)
      then show ?thesis
        using assms by (auto simp: adm_inv_def adm_jobs_ok_def FairAdmissionController_queued_def split: if_splits)
    qed
    ultimately show ?thesis unfolding r by (simp add: adm_inv_def)
  qed
qed

lemma admit_now_inv:
  assumes "adm_inv a" and "job_costs_ok j" and "FairAdmissionController_fits a j"
    and "map_of (fa_active a) (aj_job_id j) = None" and "map_of (fa_pending_by_id a) (aj_job_id j) = None"
  shows "adm_inv (a\<lparr>fa_active := dict_set (fa_active a) (aj_job_id j) j\<rparr>)"
proof -
  let ?a = "a\<lparr>fa_active := dict_set (fa_active a) (aj_job_id j) j\<rparr>"
  have k: "aj_job_id j \<notin> set (dict_keys (fa_active a))" using assms(4) by (metis in_dict_def in_dict_keys)
  have "adm_caps_ok ?a" by (rule fits_caps [OF assms(3) k])
  moreover have "adm_queue_ok ?a" using assms(1,5) by (auto simp: adm_inv_def adm_queue_ok_def)
  moreover have "adm_jobs_ok ?a"
    using assms(1,2) by (auto simp: adm_inv_def adm_jobs_ok_def FairAdmissionController_queued_def split: if_splits)
  ultimately show ?thesis by (simp add: adm_inv_def)
qed

lemma defer_inv:
  assumes "adm_inv a" and "job_costs_ok j" and "FairAdmissionController_queued a < cl_max_queue (fa_limits a)"
    and "map_of (fa_active a) (aj_job_id j) = None" and "map_of (fa_pending_by_id a) (aj_job_id j) = None"
  shows "adm_inv (defer_job j a)"
proof -
  let ?key = "FairAdmissionController_fairness_key j" and ?i = "aj_job_id j" and ?a = "defer_job j a"
  define q where "q = dict_get_or (fa_pending a) ?key []"
  have qo: "adm_queue_ok a" using assms(1) by (simp add: adm_inv_def)
  have a: "fa_pending ?a = dict_set (fa_pending a) ?key (q @ [j])"
    "fa_pending_by_id ?a = dict_set (fa_pending_by_id a) ?i j" "fa_active ?a = fa_active a"
    "fa_limits ?a = fa_limits a" "fa_aging_ticks ?a = fa_aging_ticks a"
    by (simp_all add: defer_job_def Let_def q_def)
  have q: "distinct (map aj_job_id q)" "\<And>x. x \<in> set q \<Longrightarrow> FairAdmissionController_fairness_key x = ?key
      \<and> map_of (fa_pending_by_id a) (aj_job_id x) = Some x"
    unfolding q_def dict_get_or_def
    by (cases "map_of (fa_pending a) ?key",
        simp_all add: adm_queue_ok_distinct [OF qo] adm_queue_okD(1,2) [OF qo])+
  have fresh: "x \<in> set q' \<Longrightarrow> map_of (fa_pending a) key = Some q' \<Longrightarrow> aj_job_id x \<noteq> ?i" for x key q'
    using adm_queue_okD(2) [OF qo] assms(5) by (metis option.distinct(1))
  have fresh': "x \<in> set q \<Longrightarrow> aj_job_id x \<noteq> ?i" for x using q(2) assms(5) by fastforce
  have "adm_queue_ok ?a"
    unfolding adm_queue_ok_def
  proof (intro conjI allI impI)
    show "distinct (dict_keys (fa_pending ?a))" "distinct (dict_keys (fa_pending_by_id ?a))"
      using qo by (simp_all add: adm_queue_ok_def a)
  next
    fix key q' assume "map_of (fa_pending ?a) key = Some q'"
    then have c: "key = ?key \<and> q' = q @ [j] \<or> map_of (fa_pending a) key = Some q'"
      by (auto simp: a split: if_splits)
    then show "distinct (map aj_job_id q')"
      using adm_queue_ok_distinct [OF qo, of key] q(1) fresh' by (elim disjE conjE) (simp_all, metis imageE)
    show "\<forall>x \<in> set q'. FairAdmissionController_fairness_key x = key
        \<and> map_of (fa_pending_by_id ?a) (aj_job_id x) = Some x"
      using c
    proof (elim disjE conjE)
      assume "key = ?key" "q' = q @ [j]"
      then show ?thesis using q(2) fresh' by (simp add: a)
    next
      assume k: "map_of (fa_pending a) key = Some q'"
      then show ?thesis using adm_queue_okD(1,2) [OF qo k] fresh [of _ q' key] by (simp add: a)
    qed
  next
    fix i' j' assume "map_of (fa_pending_by_id ?a) i' = Some j'"
    then consider "i' = ?i" "j' = j" | "i' \<noteq> ?i" "map_of (fa_pending_by_id a) i' = Some j'"
      by (auto simp: a split: if_splits)
    then have "aj_job_id j' = i' \<and> map_of (fa_active ?a) i' = None
      \<and> (\<exists>q. map_of (fa_pending ?a) (FairAdmissionController_fairness_key j') = Some q \<and> j' \<in> set q)"
    proof cases
      case 1
      then show ?thesis using assms(4) by (simp add: a)
    next
      case 2
      then obtain q' where "aj_job_id j' = i'" "map_of (fa_active a) i' = None"
        "map_of (fa_pending a) (FairAdmissionController_fairness_key j') = Some q'" "j' \<in> set q'"
        using adm_queue_ok_index [OF qo] by blast
      then show ?thesis by (auto simp: a q_def dict_get_or_Some)
    qed
    then show "aj_job_id j' = i'" "map_of (fa_active ?a) i' = None"
      "\<exists>q. map_of (fa_pending ?a) (FairAdmissionController_fairness_key j') = Some q \<and> j' \<in> set q" by blast+
  qed
  moreover have "adm_caps_ok ?a" using assms(1) by (simp add: adm_inv_def adm_caps_ok_def usage_of_def a)
  moreover have "adm_jobs_ok ?a"
  proof -
    have "?i \<notin> set (dict_keys (fa_pending_by_id a))" using assms(5) by (metis in_dict_def in_dict_keys)
    then have "FairAdmissionController_queued ?a \<le> cl_max_queue (fa_limits ?a)"
      using assms(3) by (simp add: FairAdmissionController_queued_def a dict_set_new)
    then show ?thesis using assms(1,2) by (simp add: adm_inv_def adm_jobs_ok_def a)
  qed
  ultimately show ?thesis by (simp add: adm_inv_def)
qed

lemma submit_adm_inv:
  assumes "adm_inv a" and "job_costs_ok j"
  shows "adm_inv (fst (FairAdmissionController_submit a j))"
proof -
  let ?a1 = "a\<lparr>fa_tick := fa_tick a + 1\<rparr>" and ?j = "j\<lparr>aj_enqueued_at := fa_tick a + 1\<rparr>"
  have inv1: "adm_inv ?a1" using assms(1) adm_inv_frame [OF frame_counters(2)] by blast
  have cnt: "adm_inv (count_decision n x) \<longleftrightarrow> adm_inv x" for n x by (rule adm_inv_frame [OF frame_counters(1)])
  have jok: "job_costs_ok ?j" using assms(2) by (simp add: job_costs_ok_def)
  show ?thesis
  proof (cases "in_dict (aj_job_id j) (fa_active a) \<or> in_dict (aj_job_id j) (fa_pending_by_id a)
      \<or> FairAdmissionController_too_large a j")
    case True
    then show ?thesis using assms(1) by (auto simp: FairAdmissionController_submit_def Let_def cnt)
  next
    case False
    then have none: "map_of (fa_active ?a1) (aj_job_id j) = None" "map_of (fa_pending_by_id ?a1) (aj_job_id j) = None"
      by (auto simp: in_dict_def)
    show ?thesis
      using False admit_now_inv [OF inv1 assms(2) _ none] defer_inv [OF inv1 jok] none inv1
      by (simp add: FairAdmissionController_submit_def Let_def cnt)
  qed
qed

section \<open>Selection\<close>

definition score_value :: "FairAdmissionController \<Rightarrow> AdmissionJob \<Rightarrow> score" where
  "score_value a j = snd (FairAdmissionController_score a j)"

definition sel_frame :: "FairAdmissionController \<Rightarrow> FairAdmissionController \<Rightarrow> bool" where
  "sel_frame a a' \<longleftrightarrow> adm_frame a a' \<and> fa_tick a' = fa_tick a
     \<and> (\<forall>k. dict_get_or (fa_served a') k 0 = dict_get_or (fa_served a) k 0)"

lemma score_frame: "sel_frame a (fst (FairAdmissionController_score a j))"
  by (auto simp: sel_frame_def adm_frame_def FairAdmissionController_score_def Let_def in_dict_def dict_get_or_def)

lemma sel_frame_trans: "sel_frame a a' \<Longrightarrow> sel_frame a' a'' \<Longrightarrow> sel_frame a a''"
  by (auto simp: sel_frame_def intro: adm_frame_trans)

lemma score_value_eq:
  "score_value a j = (dict_get_or PRIORITY_WEIGHT (aj_priority j) 0
       + of_int (max 0 (fa_tick a - aj_enqueued_at j)) * 4 / of_int (fa_aging_ticks a),
     - of_int (dict_get_or (fa_served a) (FairAdmissionController_fairness_key j) 0), - aj_enqueued_at j)"
  by (auto simp: score_value_def FairAdmissionController_score_def Let_def in_dict_def dict_get_or_def)

lemma score_value_frame: "sel_frame a a' \<Longrightarrow> score_value a' j = score_value a j"
  by (simp add: score_value_eq sel_frame_def adm_frame_def)

lemma collect_choices_spec:
  "collect_choices a d = (a', cs) \<Longrightarrow> sel_frame a a'
     \<and> (\<forall>sc key j. (sc, key, j) \<in> set cs \<longleftrightarrow>
          (\<exists>q. (key, j # q) \<in> set d) \<and> FairAdmissionController_fits a j \<and> sc = score_value a j)"
proof (induction d arbitrary: a a' cs)
  case Nil
  then show ?case by (simp add: sel_frame_def)
next
  case (Cons p others)
  obtain client queue where p: "p = (client, queue)" by (cases p)
  show ?case
  proof (cases "\<exists>j q. queue = j # q \<and> FairAdmissionController_fits a j")
    case True
    then obtain j q where q: "queue = j # q" "FairAdmissionController_fits a j" by blast
    let ?a1 = "fst (FairAdmissionController_score a j)"
    obtain a2 cs2 where rec: "collect_choices ?a1 others = (a2, cs2)"
      by (cases "collect_choices ?a1 others")
    have r: "a' = a2" "cs = (score_value a j, client, j) # cs2"
      using Cons.prems p q rec by (auto simp: Let_def score_value_def case_prod_beta)
    have f: "sel_frame a ?a1" by (rule score_frame)
    then have "FairAdmissionController_fits ?a1 x = FairAdmissionController_fits a x" for x
      using fits_frame by (simp add: sel_frame_def)
    then show ?thesis
      using Cons.IH [OF rec] sel_frame_trans [OF f] score_value_frame [OF f] q p unfolding r by auto
  next
    case False
    then have "collect_choices a others = (a', cs)" using Cons.prems p by (cases queue) auto
    then show ?thesis using Cons.IH [of a a' cs] False p by auto
  qed
qed

lemma activate_inv:
  assumes "adm_inv a" and "map_of (fa_pending a) key = Some (j # q)" and "FairAdmissionController_fits a j"
  shows "adm_inv (activate key j a)"
proof -
  let ?a1 = "a\<lparr>fa_pending := dict_set (fa_pending a) key q,
      fa_pending_by_id := dict_pop (fa_pending_by_id a) (aj_job_id j)\<rparr>"
  have qo: "adm_queue_ok a" using assms(1) by (simp add: adm_inv_def)
  note j = adm_queue_okD [OF qo assms(2), of j, simplified]
  have free: "\<not> in_dict (aj_job_id j) (fa_active a)" using j(3) by (simp add: in_dict_def)
  have "distinct (map aj_job_id (j # q))" by (rule adm_queue_ok_distinct [OF qo assms(2)])
  then have q: "filter (\<lambda>x. aj_job_id x \<noteq> aj_job_id j) (j # q) = q"
    by (simp add: filter_id_conv) (metis image_eqI)
  have "fst (FairAdmissionController_cancel a (aj_job_id j)) = ?a1"
    using free j(1,2) assms(2) q
    by (simp add: FairAdmissionController_cancel_def Let_def dict_get_or_Some [OF assms(2)])
  then have inv1: "adm_inv ?a1" using cancel_adm_inv [OF assms(1), of "aj_job_id j"] by simp
  have "job_costs_ok j" using assms(1) j(2) by (auto simp: adm_inv_def adm_jobs_ok_def)
  moreover have "FairAdmissionController_fits ?a1 j"
    using assms(3) by (simp add: FairAdmissionController_fits_def usage_of_def)
  ultimately have "adm_inv (?a1\<lparr>fa_active := dict_set (fa_active ?a1) (aj_job_id j) j\<rparr>)"
    using inv1 j(3) by (intro admit_now_inv) simp_all
  then show ?thesis
    by (subst adm_inv_frame [symmetric, of "activate key j a"])
      (simp_all add: adm_frame_def activate_def dict_get_or_Some [OF assms(2)])
qed

lemma pending_mem:
  "adm_inv a \<Longrightarrow> (key, q) \<in> set (fa_pending a) \<longleftrightarrow> map_of (fa_pending a) key = Some q"
  by (auto simp: adm_inv_def adm_queue_ok_def dest: map_of_SomeD)

lemma next_cases:
  assumes "adm_inv a" and "FairAdmissionController_next a = (a', r)"
  obtains
    (none) "r = None" "adm_frame a a'"
      "\<forall>key j q. map_of (fa_pending a) key = Some (j # q) \<longrightarrow> \<not> FairAdmissionController_fits a j"
  | (some) key j q a2 where "r = Some j" "map_of (fa_pending a) key = Some (j # q)"
      "FairAdmissionController_fits a j" "sel_frame (a\<lparr>fa_tick := fa_tick a + 1\<rparr>) a2" "a' = activate key j a2"
      "\<forall>key' j' q'. map_of (fa_pending a) key' = Some (j' # q') \<longrightarrow> FairAdmissionController_fits a j' \<longrightarrow>
         score_value (a\<lparr>fa_tick := fa_tick a + 1\<rparr>) j' \<le> score_value (a\<lparr>fa_tick := fa_tick a + 1\<rparr>) j"
proof -
  let ?a1 = "a\<lparr>fa_tick := fa_tick a + 1\<rparr>"
  obtain a2 cs where c: "collect_choices ?a1 (fa_pending a) = (a2, cs)" by (cases "collect_choices ?a1 (fa_pending a)")
  have fit: "FairAdmissionController_fits ?a1 x = FairAdmissionController_fits a x" for x
    by (rule fits_frame [OF frame_counters(2)])
  have f: "sel_frame ?a1 a2" and mem: "(sc, key, j) \<in> set cs \<longleftrightarrow> (\<exists>q. map_of (fa_pending a) key = Some (j # q))
      \<and> FairAdmissionController_fits a j \<and> sc = score_value ?a1 j" for sc key j
    using collect_choices_spec [OF c] pending_mem [OF assms(1)] fit by auto
  show thesis
  proof (cases cs)
    case Nil
    have "adm_frame a a2" using f adm_frame_trans [OF frame_counters(2)] by (auto simp: sel_frame_def)
    moreover have "a' = a2" "r = None" using assms(2) c Nil by (simp_all add: FairAdmissionController_next_def)
    moreover have "\<not> FairAdmissionController_fits a j" if "map_of (fa_pending a) key = Some (j # q)" for key j q
      using mem [of "score_value ?a1 j" key j] Nil that by auto
    ultimately show thesis using none by blast
  next
    case (Cons x xs)
    obtain sc key j where m: "max_by fst x xs = (sc, key, j)" by (cases "max_by fst x xs")
    have in_cs: "(sc, key, j) \<in> set cs" using max_by_in [of fst x xs] m Cons by simp
    have best: "fst y \<le> sc" if "y \<in> set cs" for y using max_by_ge [of y x xs fst] m Cons that by simp
    have r: "a' = activate key j a2" "r = Some j"
      using assms(2) c Cons m by (auto simp: FairAdmissionController_next_def)
    obtain q where "map_of (fa_pending a) key = Some (j # q)" "FairAdmissionController_fits a j"
      and sc: "sc = score_value ?a1 j" using in_cs mem by blast
    moreover have "score_value ?a1 j' \<le> score_value ?a1 j"
      if "map_of (fa_pending a) key' = Some (j' # q')" "FairAdmissionController_fits a j'" for key' j' q'
      using best [of "(score_value ?a1 j', key', j')"] mem [of "score_value ?a1 j'" key' j'] that sc by auto
    ultimately show thesis using some [of j key q a2] r f by blast
  qed
qed

lemma next_adm_inv:
  assumes "adm_inv a" and "FairAdmissionController_next a = (a', r)"
  shows "adm_inv a'"
  using assms
proof (cases rule: next_cases)
  case none
  then show ?thesis using assms(1) adm_inv_frame by blast
next
  case (some key j q a2)
  have f: "adm_frame a a2" using some(4) adm_frame_trans [OF frame_counters(2)] by (auto simp: sel_frame_def)
  then have "adm_inv a2" "FairAdmissionController_fits a2 j" "map_of (fa_pending a2) key = Some (j # q)"
    using adm_inv_frame [OF f] fits_frame [OF f] assms(1) some(2,3) by (auto simp: adm_frame_def)
  then show ?thesis unfolding some(5) by (intro activate_inv)
qed

definition adm_ticks_ok :: "FairAdmissionController \<Rightarrow> bool" where
  "adm_ticks_ok a \<longleftrightarrow> (\<forall>i j. map_of (fa_pending_by_id a) i = Some j \<longrightarrow> aj_enqueued_at j \<le> fa_tick a)"

inductive adm_step :: "FairAdmissionController \<Rightarrow> FairAdmissionController \<Rightarrow> bool" where
  as_submit: "AdmissionJob_post_init j0 = Inr j \<Longrightarrow> FairAdmissionController_submit a j = (a', d) \<Longrightarrow> adm_step a a'"
| as_next: "FairAdmissionController_next a = (a', r) \<Longrightarrow> adm_step a a'"
| as_release: "FairAdmissionController_release a i = (a', b) \<Longrightarrow> adm_step a a'"
| as_cancel: "FairAdmissionController_cancel a i = (a', b) \<Longrightarrow> adm_step a a'"

inductive adm_reachable :: "FairAdmissionController \<Rightarrow> bool" where
  ar_init: "CapacityLimits_post_init limits = Inr l \<Longrightarrow> FairAdmissionController_init l aging = Inr a \<Longrightarrow> adm_reachable a"
| ar_step: "adm_reachable a \<Longrightarrow> adm_step a a' \<Longrightarrow> adm_reachable a'"

lemma adm_init_inv:
  assumes "CapacityLimits_post_init limits = Inr l" and "FairAdmissionController_init l aging = Inr a"
  shows "adm_inv a \<and> adm_ticks_ok a"
proof -
  have "1 \<le> cl_max_runnable l" "1 \<le> cl_max_active_workers l" "1 \<le> cl_max_inference_requests l"
    "1 \<le> cl_max_backend_slots l" "1 \<le> cl_max_queue l" "0 \<le> cl_max_memory_bytes l"
    using assms(1) by (auto simp: CapacityLimits_post_init_def split: if_splits)
  then show ?thesis
    using assms(2)
    by (auto simp: FairAdmissionController_init_def adm_inv_def adm_caps_ok_def adm_queue_ok_def adm_jobs_ok_def
        adm_ticks_ok_def usage_of_def FairAdmissionController_queued_def CAPPED_def split: if_splits)
qed

lemma submit_ticks:
  assumes "adm_ticks_ok a"
  shows "adm_ticks_ok (fst (FairAdmissionController_submit a j))"
proof -
  have up: "map_of (fa_pending_by_id a) i = Some x \<Longrightarrow> aj_enqueued_at x \<le> fa_tick a + 1" for i x
    using assms by (force simp: adm_ticks_ok_def)
  show ?thesis
    using assms by (auto simp: FairAdmissionController_submit_def Let_def adm_ticks_ok_def count_decision_def
        defer_job_def dest: up)
qed

lemma next_ticks:
  assumes "adm_inv a" and "adm_ticks_ok a" and "FairAdmissionController_next a = (a', r)"
  shows "adm_ticks_ok a'"
proof -
  let ?a1 = "a\<lparr>fa_tick := fa_tick a + 1\<rparr>"
  obtain a2 cs where c: "collect_choices ?a1 (fa_pending a) = (a2, cs)" by (cases "collect_choices ?a1 (fa_pending a)")
  have f: "sel_frame ?a1 a2" using collect_choices_spec [OF c] by blast
  have t2: "adm_ticks_ok a2"
    using assms(2) f by (fastforce simp: adm_ticks_ok_def sel_frame_def adm_frame_def)
  then have "adm_ticks_ok (activate key j a2)" for key j by (auto simp: adm_ticks_ok_def activate_def)
  then show ?thesis
    using assms(3) c t2 by (auto simp: FairAdmissionController_next_def split: list.splits prod.splits)
qed

lemma adm_step_inv:
  assumes "adm_step a a'" and "adm_inv a \<and> adm_ticks_ok a"
  shows "adm_inv a' \<and> adm_ticks_ok a'"
  using assms(1)
proof cases
  case (as_submit j0 j d)
  then show ?thesis using post_init_costs submit_adm_inv [of a j] submit_ticks [of a j] assms(2) by fastforce
next
  case (as_next r)
  then show ?thesis using next_adm_inv next_ticks assms(2) by blast
next
  case (as_release i b)
  then have "a' = fst (FairAdmissionController_release a i)" by simp
  then show ?thesis
    using release_adm_inv assms(2) by (auto simp: adm_ticks_ok_def FairAdmissionController_release_def)
next
  case (as_cancel i b)
  then have a': "a' = fst (FairAdmissionController_cancel a i)" by simp
  moreover have "adm_ticks_ok a'"
    using assms(2) unfolding a' adm_ticks_ok_def FairAdmissionController_cancel_def FairAdmissionController_release_def
    by (auto simp: Let_def split: option.splits if_splits)
  ultimately show ?thesis using cancel_adm_inv assms(2) by blast
qed

lemma adm_reachable_inv: "adm_reachable a \<Longrightarrow> adm_inv a \<and> adm_ticks_ok a"
proof (induction rule: adm_reachable.induct)
  case (ar_init limits l aging a)
  then show ?case by (rule adm_init_inv)
next
  case (ar_step a a')
  then show ?case using adm_step_inv by blast
qed

section \<open>The coordinator's invariant\<close>

inductive coord_step :: "(string list \<Rightarrow> string) \<Rightarrow> InferenceCoordinator \<Rightarrow> InferenceCoordinator \<Rightarrow> bool" for H where
  cs_arrive: "eid \<notin> set (dict_keys (ic_shared c)) \<Longrightarrow>
    InferenceCoordinator_arrive H c r eid client session priority corr = (c', res) \<Longrightarrow> coord_step H c c'"
| cs_cancel: "coord_step H c (InferenceCoordinator_waiter_cancelled c eid corr)"
| cs_begin: "map_of (ic_shared c) eid = Some e \<Longrightarrow> se_phase e = Exec_created \<Longrightarrow>
    coord_step H c (InferenceCoordinator_execution_begins c eid)"
| cs_end: "map_of (ic_shared c) eid = Some e \<Longrightarrow> se_phase e = Exec_started \<Longrightarrow>
    coord_step H c (InferenceCoordinator_execution_ended c eid)"
| cs_cleanup: "map_of (ic_shared c) eid = Some e \<Longrightarrow> se_future_done e \<Longrightarrow>
    coord_step H c (InferenceCoordinator_cleanup c eid)"

inductive coord_reachable :: "(string list \<Rightarrow> string) \<Rightarrow> InferenceCoordinator \<Rightarrow> bool" for H where
  cr_init: "CapacityLimits_post_init limits = Inr l \<Longrightarrow> FairAdmissionController_init l aging = Inr a \<Longrightarrow>
    coord_reachable H \<lparr>ic_admission = a, ic_inflight = [], ic_shared = [], ic_dedup_hits = 0, ic_dedup_misses = 0\<rparr>"
| cr_step: "coord_reachable H c \<Longrightarrow> coord_step H c c' \<Longrightarrow> coord_reachable H c'"

definition unsettled :: "InferenceCoordinator \<Rightarrow> string set" where
  "unsettled c = {eid. \<exists>e. map_of (ic_shared c) eid = Some e \<and> \<not> se_future_done e}"

definition running :: "InferenceCoordinator \<Rightarrow> string set" where
  \<comment> \<open>the executions whose task will still run or is running\<close>
  "running c = {eid. \<exists>e. map_of (ic_shared c) eid = Some e \<and> se_phase e \<in> {Exec_created, Exec_started}}"

definition lost :: "InferenceCoordinator \<Rightarrow> string set" where
  "lost c = {eid. \<exists>e. map_of (ic_shared c) eid = Some e \<and> se_phase e = Exec_lost}"

lemma unsettled_parts: "unsettled c = running c \<union> lost c" "running c \<inter> lost c = {}"
proof -
  have "se_phase e \<noteq> Exec_settled \<longleftrightarrow> se_phase e \<in> {Exec_created, Exec_started} \<or> se_phase e = Exec_lost" for e
    by (cases "se_phase e") auto
  then show "unsettled c = running c \<union> lost c" by (auto simp: unsettled_def running_def lost_def)
qed (auto simp: running_def lost_def)

definition exec_ok :: "(string list \<Rightarrow> string) \<Rightarrow> string \<Rightarrow> SharedExecution \<Rightarrow> bool" where
  "exec_ok H eid e \<longleftrightarrow> se_admission_job_id e = ''inference:'' @ eid
     \<and> se_key e = InferenceRequest_equivalence_key H (se_request e)
     \<and> (se_phase e = Exec_lost \<longrightarrow> se_cancel_requested e)"

definition coord_inv :: "(string list \<Rightarrow> string) \<Rightarrow> InferenceCoordinator \<Rightarrow> bool" where
  "coord_inv H c \<longleftrightarrow> adm_inv (ic_admission c) \<and> distinct (dict_keys (ic_shared c))
     \<and> (\<forall>eid e. map_of (ic_shared c) eid = Some e \<longrightarrow> exec_ok H eid e)
     \<and> (\<forall>k eid. map_of (ic_inflight c) k = Some eid \<longleftrightarrow>
          (\<exists>e. map_of (ic_shared c) eid = Some e \<and> se_key e = Some k))
     \<and> set (dict_keys (fa_active (ic_admission c))) = (\<lambda>eid. ''inference:'' @ eid) ` unsettled c"

lemma map_of_map_entry:
  "map_of (map (\<lambda>(i, e). (i, f i e)) d) k = map_option (f k) (map_of d k)"
  by (induction d) auto

lemma keys_map_entry: "dict_keys (map (\<lambda>(i, e). (i, f i e)) d) = dict_keys d"
  by (induction d) auto

lemma coord_inv_update:
  \<comment> \<open>changing waiters and flags of executions, but not which futures are settled\<close>
  assumes inv: "coord_inv H c"
    and adm: "ic_admission c' = ic_admission c" and infl: "ic_inflight c' = ic_inflight c"
    and sh: "ic_shared c' = map (\<lambda>(i, e). (i, f i e)) (ic_shared c)"
    and keep: "\<And>i e. se_key (f i e) = se_key e \<and> se_admission_job_id (f i e) = se_admission_job_id e
       \<and> se_request (f i e) = se_request e \<and> se_future_done (f i e) = se_future_done e"
    and wf: "\<And>i e. map_of (ic_shared c) i = Some e \<Longrightarrow> exec_ok H i e \<Longrightarrow> se_phase (f i e) = Exec_lost \<Longrightarrow> se_cancel_requested (f i e)"
  shows "coord_inv H c'"
proof -
  have get: "map_of (ic_shared c') i = map_option (f i) (map_of (ic_shared c) i)" for i
    unfolding sh by (rule map_of_map_entry)
  have "unsettled c' = unsettled c" unfolding unsettled_def get using keep by auto
  moreover have "distinct (dict_keys (ic_shared c'))"
    using inv unfolding coord_inv_def sh keys_map_entry by blast
  moreover have "exec_ok H i e" if e: "map_of (ic_shared c') i = Some e" for i e
  proof -
    obtain e0 where e0: "map_of (ic_shared c) i = Some e0" "e = f i e0" using e unfolding get by auto
    then have ok: "exec_ok H i e0" using inv by (simp add: coord_inv_def)
    have "se_phase e = Exec_lost \<longrightarrow> se_cancel_requested e" using wf [OF e0(1) ok] e0(2) by simp
    then show ?thesis using ok keep [of i e0] unfolding exec_ok_def e0(2) by simp
  qed
  moreover have "(\<exists>e. map_of (ic_shared c') i = Some e \<and> se_key e = Some k)
      \<longleftrightarrow> (\<exists>e. map_of (ic_shared c) i = Some e \<and> se_key e = Some k)" for i k
    unfolding get using keep by auto
  ultimately show ?thesis using inv by (simp add: coord_inv_def adm infl)
qed

lemma submit_admitted:
  assumes "FairAdmissionController_submit a j = (a', d)" and "ad_state d = ''admitted''"
  shows "fa_active a' = dict_set (fa_active a) (aj_job_id j) j"
  using assms
  by (auto simp: FairAdmissionController_submit_def Let_def count_decision_def split: if_splits)

lemma submit_not_admitted:
  assumes "FairAdmissionController_submit a j = (a', d)" and "ad_state d \<noteq> ''admitted''"
  shows "fa_active a' = fa_active a"
  using assms
  by (auto simp: FairAdmissionController_submit_def Let_def count_decision_def defer_job_def split: if_splits)

lemma start_inv:
  assumes inv: "coord_inv H c" and fresh: "eid \<notin> set (dict_keys (ic_shared c))"
    and key: "key = InferenceRequest_equivalence_key H r"
    and free: "\<And>k. key = Some k \<Longrightarrow> map_of (ic_inflight c) k = None"
    and run: "InferenceCoordinator_start c key r eid client session priority corr = (c', res)"
  shows "coord_inv H c'"
proof -
  let ?aid = "''inference:'' @ eid"
  have new: "map_of (ic_shared c) eid = None" using fresh by (metis in_dict_def in_dict_keys)
  show ?thesis
  proof (cases "AdmissionJob_post_init (admission_job ?aid client session priority)")
    case (Inl e)
    then have "c' = c\<lparr>ic_dedup_misses := ic_dedup_misses c + 1\<rparr>"
      using run by (simp add: InferenceCoordinator_start_def Let_def)
    then show ?thesis using inv by (simp add: coord_inv_def unsettled_def)
  next
    case (Inr job)
    have job: "job = admission_job ?aid client session priority" "job_costs_ok job"
      using post_init_costs [OF Inr] by auto
    obtain a1 d where sub: "FairAdmissionController_submit (ic_admission c) job = (a1, d)"
      by (cases "FairAdmissionController_submit (ic_admission c) job")
    have a1: "adm_inv a1"
      using submit_adm_inv [OF _ job(2), of "ic_admission c"] inv sub by (simp add: coord_inv_def)
    show ?thesis
    proof (cases "ad_state d = ''admitted''")
      case False
      then have "c' = c\<lparr>ic_dedup_misses := ic_dedup_misses c + 1, ic_admission := a1\<rparr>"
        using run Inr sub by (simp add: InferenceCoordinator_start_def Let_def)
      then show ?thesis
        using inv a1 submit_not_admitted [OF sub False] by (simp add: coord_inv_def unsettled_def)
    next
      case True
      let ?e = "\<lparr>se_key = key, se_waiters = [corr], se_admission_job_id = ?aid, se_request = r,
        se_phase = Exec_created, se_cancel_requested = False\<rparr>"
      have c': "ic_admission c' = a1" "ic_shared c' = dict_set (ic_shared c) eid ?e"
        "ic_inflight c' = (case key of None \<Rightarrow> ic_inflight c | Some k \<Rightarrow> dict_set (ic_inflight c) k eid)"
        using run Inr sub True by (auto simp: InferenceCoordinator_start_def Let_def split: option.splits)
      have act: "fa_active a1 = dict_set (fa_active (ic_admission c)) ?aid job"
        using submit_admitted [OF sub True] job(1) by (simp add: admission_job_def)
      have run': "unsettled c' = insert eid (unsettled c)"
        unfolding unsettled_def c' using new by auto
      have "set (dict_keys (fa_active a1)) = (\<lambda>eid. ''inference:'' @ eid) ` unsettled c'"
        using inv unfolding act run' coord_inv_def by (auto simp: dom_update)
      moreover have "map_of (ic_inflight c') k = Some x \<longleftrightarrow>
          (\<exists>e. map_of (ic_shared c') x = Some e \<and> se_key e = Some k)" for k x
      proof -
        have old: "map_of (ic_inflight c) k = Some x \<longleftrightarrow> (\<exists>e. map_of (ic_shared c) x = Some e \<and> se_key e = Some k)"
          using inv by (simp add: coord_inv_def)
        have "map_of (ic_inflight c) k \<noteq> Some eid"
        proof
          assume "map_of (ic_inflight c) k = Some eid"
          then have "\<exists>e. map_of (ic_shared c) eid = Some e" using inv unfolding coord_inv_def by blast
          then show False using new by simp
        qed
        then show ?thesis
          using old free [of k] by (cases key) (auto simp: c')
      qed
      moreover have "\<forall>i e. map_of (ic_shared c') i = Some e \<longrightarrow> exec_ok H i e"
        using inv key by (auto simp: c' coord_inv_def exec_ok_def)
      moreover have "distinct (dict_keys (ic_shared c'))" using inv by (simp add: c' coord_inv_def)
      ultimately show ?thesis using a1 unfolding coord_inv_def c'(1) by blast
    qed
  qed
qed

lemma arrive_inv:
  assumes "coord_inv H c" and "eid \<notin> set (dict_keys (ic_shared c))"
    and "InferenceCoordinator_arrive H c r eid client session priority corr = (c', res)"
  shows "coord_inv H c'"
proof (cases "case InferenceRequest_equivalence_key H r of None \<Rightarrow> None | Some k \<Rightarrow> map_of (ic_inflight c) k")
  case None
  then have "InferenceCoordinator_start c (InferenceRequest_equivalence_key H r) r eid client session priority corr = (c', res)"
    using assms(3) by (simp add: InferenceCoordinator_arrive_def)
  then show ?thesis using None by (intro start_inv [OF assms(1,2) refl]) simp_all
next
  case (Some x)
  then have c': "ic_admission c' = ic_admission c" "ic_inflight c' = ic_inflight c"
    "ic_shared c' = map (\<lambda>(i, e). (i, if i = x then add_waiter corr e else e)) (ic_shared c)"
    using assms(3) by (auto simp: InferenceCoordinator_arrive_def)
  show ?thesis by (rule coord_inv_update [OF assms(1) c']) (auto simp: add_waiter_def exec_ok_def split: if_splits)
qed

lemma waiter_cancelled_inv:
  assumes "coord_inv H c"
  shows "coord_inv H (InferenceCoordinator_waiter_cancelled c eid corr)"
proof (rule coord_inv_update [OF assms])
  let ?f = "\<lambda>i e. if i \<noteq> eid then e else let e1 = e\<lparr>se_waiters := removeAll corr (se_waiters e)\<rparr>
      in if se_waiters e1 = [] \<and> \<not> se_future_done e1 then e1\<lparr>se_cancel_requested := True\<rparr> else e1"
  show "ic_shared (InferenceCoordinator_waiter_cancelled c eid corr)
      = map (\<lambda>(i, e). (i, ?f i e)) (ic_shared c)"
    by (simp add: InferenceCoordinator_waiter_cancelled_def)
qed (auto simp: InferenceCoordinator_waiter_cancelled_def Let_def exec_ok_def split: if_splits)

lemma begins_inv:
  assumes inv: "coord_inv H c" and e: "map_of (ic_shared c) eid = Some e" "se_phase e = Exec_created"
  shows "coord_inv H (InferenceCoordinator_execution_begins c eid)"
proof -
  let ?e = "e\<lparr>se_phase := (if se_cancel_requested e then Exec_lost else Exec_started)\<rparr>"
  let ?f = "\<lambda>i x. if map_of (ic_shared c) i = Some x \<and> i = eid then ?e else x"
  have d: "distinct (dict_keys (ic_shared c))" using inv by (simp add: coord_inv_def)
  show ?thesis
  proof (rule coord_inv_update [OF inv, where f = ?f])
    have "(if i \<noteq> eid then x else x\<lparr>se_phase := (if se_cancel_requested x then Exec_lost else Exec_started)\<rparr>) = ?f i x"
      if "(i, x) \<in> set (ic_shared c)" for i x
      using that e(1) map_of_is_SomeI [OF d that] by auto
    then show "ic_shared (InferenceCoordinator_execution_begins c eid) = map (\<lambda>(i, e). (i, ?f i e)) (ic_shared c)"
      by (auto simp: InferenceCoordinator_execution_begins_def intro!: map_cong)
  qed (use e in \<open>auto simp: InferenceCoordinator_execution_begins_def exec_ok_def split: if_splits\<close>)
qed

lemma ended_inv:
  assumes inv: "coord_inv H c" and e: "map_of (ic_shared c) eid = Some e"
  shows "coord_inv H (InferenceCoordinator_execution_ended c eid)" (is "coord_inv H ?c")
proof -
  have aid: "se_admission_job_id e = ''inference:'' @ eid" using inv e by (auto simp: coord_inv_def exec_ok_def)
  have c: "ic_shared ?c = dict_set (ic_shared c) eid (e\<lparr>se_phase := Exec_settled\<rparr>)" "ic_inflight ?c = ic_inflight c"
    "ic_admission ?c = fst (FairAdmissionController_release (ic_admission c) (''inference:'' @ eid))"
    using e aid by (simp_all add: InferenceCoordinator_execution_ended_def)
  have act: "fa_active (ic_admission ?c) = dict_pop (fa_active (ic_admission c)) (''inference:'' @ eid)"
    unfolding c by (simp add: FairAdmissionController_release_def)
  have run: "unsettled ?c = unsettled c - {eid}" unfolding unsettled_def c by auto
  have "set (dict_keys (fa_active (ic_admission ?c))) = (\<lambda>eid. ''inference:'' @ eid) ` unsettled ?c"
  proof -
    have "set (dict_keys (fa_active (ic_admission ?c))) = set (dict_keys (fa_active (ic_admission c))) - {''inference:'' @ eid}"
      unfolding act by (auto simp: delete_keys)
    also have "\<dots> = (\<lambda>eid. ''inference:'' @ eid) ` unsettled c - {''inference:'' @ eid}"
      using inv unfolding coord_inv_def by argo
    also have "\<dots> = (\<lambda>eid. ''inference:'' @ eid) ` (unsettled c - {eid})" by auto
    finally show ?thesis unfolding run .
  qed
  moreover have "(\<exists>e'. map_of (ic_shared ?c) i = Some e' \<and> se_key e' = Some k)
      \<longleftrightarrow> (\<exists>e'. map_of (ic_shared c) i = Some e' \<and> se_key e' = Some k)" for i k
    unfolding c using e by auto
  moreover have "\<forall>i e'. map_of (ic_shared ?c) i = Some e' \<longrightarrow> exec_ok H i e'"
    using inv e by (auto simp: c coord_inv_def exec_ok_def)
  moreover have "adm_inv (ic_admission ?c)" unfolding c by (rule release_adm_inv) (use inv in \<open>simp add: coord_inv_def\<close>)
  moreover have "distinct (dict_keys (ic_shared ?c))" using inv by (simp add: c coord_inv_def)
  ultimately show ?thesis using inv unfolding coord_inv_def c(2) by presburger
qed

lemma cleanup_inv:
  assumes inv: "coord_inv H c" and e: "map_of (ic_shared c) eid = Some e" and dn: "se_future_done e"
  shows "coord_inv H (InferenceCoordinator_cleanup c eid)" (is "coord_inv H ?c")
proof -
  have infl: "map_of (ic_inflight c) k = Some x \<longleftrightarrow> (\<exists>e. map_of (ic_shared c) x = Some e \<and> se_key e = Some k)" for k x
    using inv by (simp add: coord_inv_def)
  have c: "ic_admission ?c = ic_admission c" "ic_shared ?c = dict_pop (ic_shared c) eid"
    "map_of (ic_inflight ?c) = (case se_key e of None \<Rightarrow> map_of (ic_inflight c) | Some k \<Rightarrow> (map_of (ic_inflight c))(k := None))"
    using e infl by (auto simp: InferenceCoordinator_cleanup_def Let_def split: option.splits)
  have run: "unsettled ?c = unsettled c" unfolding unsettled_def c using e dn by auto
  have "map_of (ic_inflight ?c) k = Some x \<longleftrightarrow> (\<exists>e. map_of (ic_shared ?c) x = Some e \<and> se_key e = Some k)" for k x
  proof -
    have "se_key e = Some k \<Longrightarrow> map_of (ic_inflight c) k = Some eid" using infl e by blast
    then show ?thesis using infl [of k x] e unfolding c(2,3) by (cases "se_key e") auto
  qed
  moreover have "\<forall>i e'. map_of (ic_shared ?c) i = Some e' \<longrightarrow> exec_ok H i e'"
    using inv by (auto simp: c coord_inv_def split: if_splits)
  moreover have "distinct (dict_keys (ic_shared ?c))" using inv by (simp add: c coord_inv_def)
  ultimately show ?thesis using inv unfolding coord_inv_def c(1) run by blast
qed

lemma coord_step_inv: "coord_step H c c' \<Longrightarrow> coord_inv H c \<Longrightarrow> coord_inv H c'"
  by (induction rule: coord_step.induct)
    (blast intro: arrive_inv waiter_cancelled_inv begins_inv ended_inv cleanup_inv)+

lemma coord_reachable_inv: "coord_reachable H c \<Longrightarrow> coord_inv H c"
proof (induction rule: coord_reachable.induct)
  case (cr_init limits l aging a)
  have "adm_inv a" using adm_init_inv [OF cr_init] by blast
  moreover have "fa_active a = []" using cr_init(2) by (auto simp: FairAdmissionController_init_def split: if_splits)
  ultimately show ?case by (simp add: coord_inv_def unsettled_def)
next
  case (cr_step c c')
  then show ?case using coord_step_inv by blast
qed

section \<open>Retry\<close>

definition policy_ok :: "RetryPolicy \<Rightarrow> bool" where
  "policy_ok p \<longleftrightarrow> 1 \<le> rp_max_attempts p \<and> 0 \<le> rp_base_delay_seconds p \<and> 0 \<le> rp_max_delay_seconds p
     \<and> 0 \<le> rp_jitter_ratio p \<and> rp_jitter_ratio p \<le> 1"

lemma post_init_policy: "RetryPolicy_post_init p0 = Inr p \<Longrightarrow> policy_ok p"
  by (auto simp: RetryPolicy_post_init_def policy_ok_def not_less split: if_splits)

lemma delay_bounds:
  assumes "policy_ok p" and "1 \<le> n" and "jit k n \<le> 255"
  shows "\<exists>d. RetryPolicy_delay jit p k n = Inr d \<and> 0 \<le> d \<and> d \<le> rp_max_delay_seconds p"
proof -
  let ?raw = "of_nat (jit k n) / 255 :: rat"
  have r: "0 \<le> ?raw" "?raw \<le> 1" using assms(3) by (simp_all add: divide_le_eq flip: of_nat_le_iff)
  have j: "0 \<le> rp_jitter_ratio p" "rp_jitter_ratio p \<le> 1" using assms(1) by (auto simp: policy_ok_def)
  have "- 1 \<le> (?raw * 2 - 1) * rp_jitter_ratio p"
  proof -
    have "(- 1) * rp_jitter_ratio p \<le> (?raw * 2 - 1) * rp_jitter_ratio p" using r j by (intro mult_right_mono) auto
    then show ?thesis using j by linarith
  qed
  then have "0 \<le> rp_base_delay_seconds p * 2 ^ nat (n - 1) * (1 + (?raw * 2 - 1) * rp_jitter_ratio p)"
    using assms(1) by (intro mult_nonneg_nonneg) (auto simp: policy_ok_def)
  then show ?thesis using assms(1,2) by (simp add: RetryPolicy_delay_def Let_def policy_ok_def)
qed

lemma retry_loop_spec:
  assumes "policy_ok p" and "\<And>n. jit k n \<le> 255" and "1 \<le> attempt"
    and "\<forall>d \<in> set ds. 0 \<le> rd_delay_seconds d \<and> rd_delay_seconds d \<le> rp_max_delay_seconds p"
    and "retry_loop jit p k clock run left attempt failures opened ds = (n, res)"
  shows "n \<le> left \<and> res \<noteq> RetryDelayError
    \<and> (\<forall>r. res = RetryReceipt r \<longrightarrow> 1 \<le> n \<and> run (attempt + (n - 1)) = AttemptOk r
         \<and> (\<forall>i < n - 1. \<exists>x. run (attempt + i) = AttemptFailed x))
    \<and> (\<forall>ds'. res = InferenceRetryExhausted ds' \<longrightarrow> (\<forall>i < n. \<exists>x. run (attempt + i) = AttemptFailed x)
         \<and> (\<forall>d \<in> set ds'. 0 \<le> rd_delay_seconds d \<and> rd_delay_seconds d \<le> rp_max_delay_seconds p))"
  using assms(3-5)
proof (induction left arbitrary: attempt failures opened ds n)
  case 0
  then show ?case by auto
next
  case (Suc left)
  obtain t1 t2 t3 where cl: "clock attempt = (t1, t2, t3)" by (cases "clock attempt")
  have mx: "0 \<le> rp_max_delay_seconds p" using assms(1) by (simp add: policy_ok_def)
  show ?case
  proof (cases "t1 < opened")
    case True
    then show ?thesis using Suc.prems cl mx by auto
  next
    case False
    show ?thesis
    proof (cases "run attempt")
      case (AttemptFailed name)
      define opened1 where "opened1 = (if failures + 1 \<ge> rp_circuit_failure_threshold p
          then t2 + rp_circuit_cooldown_seconds p else opened)"
      define again where "again \<longleftrightarrow> int attempt < rp_max_attempts p \<and> opened1 \<le> t3"
      obtain delay where dl: "(if again then RetryPolicy_delay jit p k (int attempt) else Inr 0) = Inr delay"
        "0 \<le> delay" "delay \<le> rp_max_delay_seconds p"
        using delay_bounds [OF assms(1), of "int attempt" jit k] assms(2) Suc.prems(1) mx by (cases again) auto
      define reason where "reason = (if \<not> again \<and> failures + 1 \<ge> rp_circuit_failure_threshold p
          then ''circuit_open'' else ''retryable_failure'')"
      let ?ds = "ds @ [\<lparr>rd_attempt = int attempt, rd_retry = again, rd_delay_seconds = delay, rd_reason = reason\<rparr>]"
      have step: "(n, res) = (if \<not> again then (1, InferenceRetryExhausted ?ds)
          else case retry_loop jit p k clock run left (Suc attempt) (failures + 1) opened1 ?ds of (m, y) \<Rightarrow> (Suc m, y))"
        using Suc.prems(3) cl False AttemptFailed dl(1)
        by (cases again) (auto simp: Let_def reason_def opened1_def [symmetric] again_def [symmetric])
      have ds: "\<forall>d \<in> set ?ds. 0 \<le> rd_delay_seconds d \<and> rd_delay_seconds d \<le> rp_max_delay_seconds p"
        using Suc.prems(2) dl(2,3) by auto
      show ?thesis
      proof (cases again)
        case False
        then show ?thesis using step ds AttemptFailed by auto
      next
        case True
        obtain m y where rec: "retry_loop jit p k clock run left (Suc attempt) (failures + 1) opened1 ?ds = (m, y)"
          by (cases "retry_loop jit p k clock run left (Suc attempt) (failures + 1) opened1 ?ds")
        have n: "n = Suc m" "res = y" using step True rec by auto
        have shift: "run (attempt + Suc i) = run (Suc attempt + i)" for i by simp
        have all: "\<exists>x. run (attempt + i) = AttemptFailed x"
          if "\<forall>i < l. \<exists>x. run (Suc attempt + i) = AttemptFailed x" "i < Suc l" for i l
          using that AttemptFailed by (cases i) auto
        have ih: "m \<le> left" "res \<noteq> RetryDelayError"
          "\<And>r. res = RetryReceipt r \<Longrightarrow> 1 \<le> m \<and> run (Suc attempt + (m - 1)) = AttemptOk r
             \<and> (\<forall>i < m - 1. \<exists>x. run (Suc attempt + i) = AttemptFailed x)"
          "\<And>ds'. res = InferenceRetryExhausted ds' \<Longrightarrow> (\<forall>i < m. \<exists>x. run (Suc attempt + i) = AttemptFailed x)
             \<and> (\<forall>d \<in> set ds'. 0 \<le> rd_delay_seconds d \<and> rd_delay_seconds d \<le> rp_max_delay_seconds p)"
          using Suc.IH [OF le_SucI [OF Suc.prems(1)] ds rec [folded n(2)]] by blast+
        have "run (attempt + m) = AttemptOk r \<and> (\<forall>i < m. \<exists>x. run (attempt + i) = AttemptFailed x)"
          if "res = RetryReceipt r" for r
          using ih(3) [OF that] all [of "m - 1"] by (cases m) auto
        moreover have "(\<forall>i < Suc m. \<exists>x. run (attempt + i) = AttemptFailed x)
             \<and> (\<forall>d \<in> set ds'. 0 \<le> rd_delay_seconds d \<and> rd_delay_seconds d \<le> rp_max_delay_seconds p)"
          if "res = InferenceRetryExhausted ds'" for ds'
          using ih(4) [OF that] all [of m] by blast
        ultimately show ?thesis using ih(1,2) unfolding n(1) by simp
      qed
    qed (use Suc.prems cl False in auto)
  qed
qed

section \<open>Properties\<close>

definition demo_caps :: CapacityLimits where
  "demo_caps = \<lparr>cl_max_runnable = 2, cl_max_active_workers = 2, cl_max_inference_requests = 1,
     cl_max_backend_slots = 1, cl_max_memory_bytes = 0, cl_max_queue = 4\<rparr>"

definition demo_adm0 :: FairAdmissionController where
  "demo_adm0 = projr (FairAdmissionController_init demo_caps 20)"

definition demo_adm1 :: FairAdmissionController where
  "demo_adm1 = fst (FairAdmissionController_submit demo_adm0 (admission_job ''j1'' ''a'' ''s'' ''inference''))"

definition demo_adm2 :: FairAdmissionController where
  "demo_adm2 = fst (FairAdmissionController_submit demo_adm1 (admission_job ''j2'' ''b'' ''s'' ''background''))"

definition demo_adm3 :: FairAdmissionController where
  "demo_adm3 = fst (FairAdmissionController_release demo_adm2 ''j1'')"

lemma demo_adm_reachable: "adm_reachable demo_adm2" "adm_reachable demo_adm3"
proof -
  have "CapacityLimits_post_init demo_caps = Inr demo_caps" "\<not> isl (FairAdmissionController_init demo_caps 20)"
    by code_simp+
  then have 0: "adm_reachable demo_adm0"
    unfolding demo_adm0_def by (intro ar_init [of demo_caps demo_caps 20]) simp_all
  have j: "AdmissionJob_post_init (admission_job ''j1'' ''a'' ''s'' ''inference'') = Inr (admission_job ''j1'' ''a'' ''s'' ''inference'')"
    "AdmissionJob_post_init (admission_job ''j2'' ''b'' ''s'' ''background'') = Inr (admission_job ''j2'' ''b'' ''s'' ''background'')"
    by code_simp+
  have 1: "adm_reachable demo_adm1"
    unfolding demo_adm1_def by (rule ar_step [OF 0 as_submit [OF j(1)]]) (rule prod.collapse [symmetric])
  show 2: "adm_reachable demo_adm2"
    unfolding demo_adm2_def by (rule ar_step [OF 1 as_submit [OF j(2)]]) (rule prod.collapse [symmetric])
  show "adm_reachable demo_adm3"
    unfolding demo_adm3_def by (rule ar_step [OF 2 as_release]) (rule prod.collapse [symmetric])
qed

text \<open>C7: on every reachable admission controller the active jobs together respect each capacity
  cap (and the memory cap when one is set), at most \<open>max_queue\<close> jobs are pending, the index of
  pending jobs and the fairness queues hold the same jobs, and no job is pending and active at
  once.\<close>

theorem admission_caps_respected:
  assumes "adm_reachable a"
  shows "(\<forall>(f, cap) \<in> set CAPPED. sum_list (map f (dict_values (fa_active a))) \<le> cap (fa_limits a))
    \<and> (cl_max_memory_bytes (fa_limits a) = 0
       \<or> sum_list (map aj_memory_bytes (dict_values (fa_active a))) \<le> cl_max_memory_bytes (fa_limits a))
    \<and> int (length (fa_pending_by_id a)) \<le> cl_max_queue (fa_limits a)
    \<and> (\<forall>j. map_of (fa_pending_by_id a) (aj_job_id j) = Some j \<longleftrightarrow>
         (\<exists>q. map_of (fa_pending a) (FairAdmissionController_fairness_key j) = Some q \<and> j \<in> set q))
    \<and> (\<forall>i. in_dict i (fa_pending_by_id a) \<longrightarrow> \<not> in_dict i (fa_active a))"
proof -
  have inv: "adm_caps_ok a" "adm_queue_ok a" "adm_jobs_ok a"
    using adm_reachable_inv [OF assms] by (auto simp: adm_inv_def)
  have "map_of (fa_pending_by_id a) (aj_job_id j) = Some j \<longleftrightarrow>
         (\<exists>q. map_of (fa_pending a) (FairAdmissionController_fairness_key j) = Some q \<and> j \<in> set q)" for j
    using adm_queue_ok_index(3) [OF inv(2)] adm_queue_okD(2) [OF inv(2)] by blast
  moreover have "\<not> in_dict i (fa_active a)" if "in_dict i (fa_pending_by_id a)" for i
    using adm_queue_ok_index(2) [OF inv(2)] that by (auto simp: in_dict_def)
  ultimately show ?thesis
    using inv(1,3) by (simp add: adm_caps_ok_def usage_of_def adm_jobs_ok_def FairAdmissionController_queued_def)
qed

theorem admission_caps_respected_witness:
  "length (fa_active demo_adm2) = 1 \<and> length (fa_pending_by_id demo_adm2) = 1
     \<and> sum_list (map aj_backend_slots (dict_values (fa_active demo_adm2))) \<le> 1"
proof -
  have "length (fa_active demo_adm2) = 1" "length (fa_pending_by_id demo_adm2) = 1"
    "cl_max_backend_slots (fa_limits demo_adm2) = 1" by code_simp+
  then show ?thesis using admission_caps_respected [OF demo_adm_reachable(1)] by (simp add: CAPPED_def)
qed

text \<open>C8: selection never overtakes by more than the aging window allows. If \<open>next\<close> returns nothing, no
  queue head fits. If it returns a job, that job was a queue head that fits, and any other head
  that fits was enqueued at most \<open>7/4\<close> of the aging period before it, whatever the priorities:
  a job that waits longer than that beats every newcomer.\<close>

theorem admission_bounded_overtaking:
  assumes "adm_reachable a" and "FairAdmissionController_next a = (a', r)"
    and "map_of (fa_pending a) key = Some (j # q)" and "FairAdmissionController_fits a j"
  shows "\<exists>j' key' q'. r = Some j' \<and> map_of (fa_pending a) key' = Some (j' # q')
    \<and> FairAdmissionController_fits a j'
    \<and> 4 * (aj_enqueued_at j' - aj_enqueued_at j) \<le> 7 * fa_aging_ticks a"
proof -
  have inv: "adm_inv a" "adm_ticks_ok a" using adm_reachable_inv [OF assms(1)] by auto
  have qo: "adm_queue_ok a" and aging: "1 \<le> fa_aging_ticks a" using inv(1) by (auto simp: adm_inv_def adm_jobs_ok_def)
  from inv(1) assms(2) show ?thesis
  proof (cases rule: next_cases)
    case none
    then show ?thesis using assms(3,4) by blast
  next
    case (some key' j' q' a2)
    let ?T = "fa_tick a + 1" and ?A = "of_int (fa_aging_ticks a) :: rat"
    have mem: "map_of (fa_pending_by_id a) (aj_job_id j) = Some j" "map_of (fa_pending_by_id a) (aj_job_id j') = Some j'"
      using adm_queue_okD(2) [OF qo assms(3), of j] adm_queue_okD(2) [OF qo some(2), of j'] by auto
    then have t: "aj_enqueued_at j \<le> fa_tick a" "aj_enqueued_at j' \<le> fa_tick a"
      using inv(2) by (auto simp: adm_ticks_ok_def)
    have w: "1 \<le> dict_get_or PRIORITY_WEIGHT x 0 \<and> dict_get_or PRIORITY_WEIGHT x 0 \<le> 8"
      if "in_dict x PRIORITY_WEIGHT" for x
      using that by (auto simp: PRIORITY_WEIGHT_def dict_get_or_def in_dict_def split: if_splits)
    have wj: "1 \<le> dict_get_or PRIORITY_WEIGHT (aj_priority j) 0" "dict_get_or PRIORITY_WEIGHT (aj_priority j') 0 \<le> 8"
      using w inv(1) mem by (auto simp: adm_inv_def adm_jobs_ok_def job_costs_ok_def)
    have "fst (score_value (a\<lparr>fa_tick := ?T\<rparr>) j) \<le> fst (score_value (a\<lparr>fa_tick := ?T\<rparr>) j')"
      using some(6) assms(3,4) by (fastforce simp: less_eq_prod_def)
    then have "of_int (?T - aj_enqueued_at j) * 4 / ?A \<le> 7 + of_int (?T - aj_enqueued_at j') * 4 / ?A"
      using t wj by (simp add: score_value_eq)
    then have "of_int (?T - aj_enqueued_at j) * 4 \<le> 7 * ?A + of_int (?T - aj_enqueued_at j') * 4"
      using aging by (simp add: divide_simps mult.commute)
    then have "(of_int (4 * (aj_enqueued_at j' - aj_enqueued_at j)) :: rat) \<le> of_int (7 * fa_aging_ticks a)"
      by simp
    then have "4 * (aj_enqueued_at j' - aj_enqueued_at j) \<le> 7 * fa_aging_ticks a"
      by (simp only: of_int_le_iff)
    then show ?thesis using some(1-3) by blast
  qed
qed

theorem admission_bounded_overtaking_witness:
  "\<exists>j'. snd (FairAdmissionController_next demo_adm3) = Some j'"
proof -
  have "map_of (fa_pending demo_adm3) (''default'', ''s'', ''b'')
      = Some [(admission_job ''j2'' ''b'' ''s'' ''background'')\<lparr>aj_enqueued_at := 2\<rparr>]"
    and "FairAdmissionController_fits demo_adm3 ((admission_job ''j2'' ''b'' ''s'' ''background'')\<lparr>aj_enqueued_at := 2\<rparr>)"
    by code_simp+
  then show ?thesis
    using admission_bounded_overtaking [OF demo_adm_reachable(2) prod.collapse [symmetric]] by blast
qed

definition demo_inf_request :: "string \<Rightarrow> InferenceRequest" where
  "demo_inf_request scope = \<lparr>ir_model_identity = ''m'', ir_backend_identity = ''b'',
     ir_stable_prefix_generation = ''1'', ir_canonical_request_hash = ''h'',
     ir_tool_registry_generation = ''t'', ir_authority_scope = scope, ir_privacy_scope = ''p'',
     ir_side_effect_free = True, ir_operation_kind = ''inference''\<rparr>"

definition demo_coord0 :: InferenceCoordinator where
  "demo_coord0 = \<lparr>ic_admission = demo_adm0, ic_inflight = [], ic_shared = [], ic_dedup_hits = 0, ic_dedup_misses = 0\<rparr>"

definition demo_coord :: InferenceCoordinator where
  "demo_coord = fst (InferenceCoordinator_arrive concat demo_coord0 (demo_inf_request ''x'') ''e1'' ''c'' ''s'' ''inference'' ''w1'')"

lemma demo_coord_reachable: "coord_reachable concat demo_coord"
proof -
  have "CapacityLimits_post_init demo_caps = Inr demo_caps" "\<not> isl (FairAdmissionController_init demo_caps 20)"
    by code_simp+
  then have 0: "coord_reachable concat demo_coord0"
    unfolding demo_coord0_def demo_adm0_def by (intro cr_init [of demo_caps demo_caps 20]) simp_all
  have "coord_step concat demo_coord0 demo_coord"
    unfolding demo_coord_def by (rule cs_arrive [OF _ prod.collapse [symmetric]]) (simp add: demo_coord0_def)
  then show ?thesis by (rule cr_step [OF 0])
qed

text \<open>Work is shared only within one scope. If a request arriving at a reachable coordinator is
  deduplicated onto a running execution, both requests are side-effect-free inference with the
  same digest, and when the digest does not collide on the two they agree on model, backend,
  prefix generation, request hash, tool registry, authority scope and privacy scope.\<close>

lemma single_flight_same_scope:
  assumes "coord_reachable H c"
    and "InferenceCoordinator_arrive H c r eid client session priority corr = (c', Inr (x, True))"
    and "\<And>r'. H (identity_fields r) = H (identity_fields r') \<Longrightarrow> identity_fields r = identity_fields r'"
  shows "\<exists>e. map_of (ic_shared c) x = Some e \<and> ir_side_effect_free r \<and> ir_side_effect_free (se_request e)
    \<and> ir_operation_kind r = ''inference'' \<and> ir_operation_kind (se_request e) = ''inference''
    \<and> identity_fields r = identity_fields (se_request e)"
proof -
  have inv: "coord_inv H c" by (rule coord_reachable_inv [OF assms(1)])
  obtain k where k: "InferenceRequest_equivalence_key H r = Some k" "map_of (ic_inflight c) k = Some x"
    using assms(2)
    by (auto simp: InferenceCoordinator_arrive_def InferenceCoordinator_start_def Let_def
        split: option.splits sum.splits prod.splits if_splits)
  then obtain e where e: "map_of (ic_shared c) x = Some e" "se_key e = Some k" using inv unfolding coord_inv_def by blast
  then have "InferenceRequest_equivalence_key H (se_request e) = Some k" using inv by (auto simp: coord_inv_def exec_ok_def)
  then show ?thesis
    using e(1) k(1) assms(3) [of "se_request e"]
    by (auto simp: InferenceRequest_equivalence_key_def split: if_splits)
qed

lemma single_flight_same_scope_example:
  "\<exists>e. map_of (ic_shared demo_coord) ''e1'' = Some e
     \<and> identity_fields (demo_inf_request ''x'') = identity_fields (se_request e)"
proof -
  let ?H = "\<lambda>fs. if fs = identity_fields (demo_inf_request ''x'') then concat fs else [CHR ''!'']"
  let ?r = "InferenceCoordinator_arrive ?H demo_coord (demo_inf_request ''x'') ''e2'' ''d'' ''s'' ''inference'' ''w2''"
  have k: "InferenceRequest_equivalence_key ?H (demo_inf_request ''x'') = InferenceRequest_equivalence_key concat (demo_inf_request ''x'')"
    by (simp add: InferenceRequest_equivalence_key_def)
  have eq: "InferenceCoordinator_arrive ?H demo_coord0 (demo_inf_request ''x'') ''e1'' ''c'' ''s'' ''inference'' ''w1''
      = InferenceCoordinator_arrive concat demo_coord0 (demo_inf_request ''x'') ''e1'' ''c'' ''s'' ''inference'' ''w1''"
    unfolding InferenceCoordinator_arrive_def k ..
  have "coord_step ?H demo_coord0 demo_coord"
    unfolding demo_coord_def eq [symmetric]
    by (rule cs_arrive [OF _ prod.collapse [symmetric]]) (simp add: demo_coord0_def)
  moreover have "coord_reachable ?H demo_coord0"
  proof -
    have "CapacityLimits_post_init demo_caps = Inr demo_caps" "\<not> isl (FairAdmissionController_init demo_caps 20)"
      by code_simp+
    then show ?thesis unfolding demo_coord0_def demo_adm0_def by (intro cr_init [of demo_caps demo_caps 20]) simp_all
  qed
  ultimately have reach: "coord_reachable ?H demo_coord" by (rule cr_step [rotated])
  have "?r = InferenceCoordinator_arrive concat demo_coord (demo_inf_request ''x'') ''e2'' ''d'' ''s'' ''inference'' ''w2''"
    unfolding InferenceCoordinator_arrive_def k ..
  moreover have "snd (InferenceCoordinator_arrive concat demo_coord (demo_inf_request ''x'') ''e2'' ''d'' ''s'' ''inference'' ''w2'')
      = Inr (''e1'', True)" by code_simp
  ultimately have "snd ?r = Inr (''e1'', True)" by (simp only:)
  then have run: "?r = (fst ?r, Inr (''e1'', True))" by (rule prod_eqI [OF fst_conv [symmetric], unfolded snd_conv])
  have ne: "concat (identity_fields (demo_inf_request ''x'')) \<noteq> [CHR ''!'']" by code_simp
  have "identity_fields (demo_inf_request ''x'') = identity_fields r'"
    if "?H (identity_fields (demo_inf_request ''x'')) = ?H (identity_fields r')" for r'
    using that ne by (cases "identity_fields r' = identity_fields (demo_inf_request ''x'')") (simp_all only: if_True if_False refl)
  from single_flight_same_scope [OF reach run this] show ?thesis by blast
qed

text \<open>C9: single flight, bounded execution, and exactly what leaks. On a reachable coordinator each key has at most one
  execution, the one registered in flight; the active admissions are exactly those of the executions that run and of the lost ones;
  every lost execution was cancelled because its last waiter left before its task took its first step, and its future is not settled; an execution that settled holds no admission;
  and the running and the lost executions together stay within the inference cap of the admission controller.\<close>

theorem single_flight_no_leak:
  assumes "coord_reachable H c"
  shows "(\<forall>x y ex ey k. map_of (ic_shared c) x = Some ex \<and> map_of (ic_shared c) y = Some ey
            \<and> se_key ex = Some k \<and> se_key ey = Some k \<longrightarrow> x = y)
    \<and> set (dict_keys (fa_active (ic_admission c))) = (\<lambda>eid. ''inference:'' @ eid) ` (running c \<union> lost c)
    \<and> (\<forall>x e. map_of (ic_shared c) x = Some e \<longrightarrow> (x \<in> lost c \<longrightarrow> se_cancel_requested e \<and> \<not> se_future_done e)
         \<and> (se_future_done e \<longrightarrow> ''inference:'' @ x \<notin> set (dict_keys (fa_active (ic_admission c)))))
    \<and> int (card (running c) + card (lost c)) \<le> cl_max_inference_requests (fa_limits (ic_admission c))"
proof -
  let ?a = "ic_admission c"
  have inv: "coord_inv H c" by (rule coord_reachable_inv [OF assms])
  then have adm: "adm_inv ?a" and act: "set (dict_keys (fa_active ?a)) = (\<lambda>eid. ''inference:'' @ eid) ` unsettled c"
    by (simp_all add: coord_inv_def)
  have "x = y" if "map_of (ic_shared c) x = Some ex" "map_of (ic_shared c) y = Some ey" "se_key ex = Some k" "se_key ey = Some k"
    for x y ex ey k
  proof -
    have "map_of (ic_inflight c) k = Some x" "map_of (ic_inflight c) k = Some y"
      using inv that unfolding coord_inv_def by blast+
    then show ?thesis by simp
  qed
  moreover have "(x \<in> lost c \<longrightarrow> se_cancel_requested e \<and> \<not> se_future_done e)
      \<and> (se_future_done e \<longrightarrow> ''inference:'' @ x \<notin> set (dict_keys (fa_active ?a)))" if m: "map_of (ic_shared c) x = Some e" for x e
  proof -
    have ok: "exec_ok H x e" using inv m by (simp add: coord_inv_def)
    have "x \<notin> unsettled c" if "se_future_done e" using m that by (simp add: unsettled_def)
    moreover have "''inference:'' @ x \<in> set (dict_keys (fa_active ?a)) \<longleftrightarrow> x \<in> unsettled c"
      unfolding act by (simp add: image_iff)
    ultimately show ?thesis using m ok by (simp add: lost_def exec_ok_def)
  qed
  moreover have "int (card (running c) + card (lost c)) \<le> cl_max_inference_requests (fa_limits ?a)"
  proof -
    have d: "distinct (dict_keys (fa_active ?a))" using adm by (simp add: adm_inv_def adm_jobs_ok_def)
    have fin: "finite (unsettled c)"
      by (rule finite_subset [of _ "set (dict_keys (ic_shared c))"]) (auto simp: unsettled_def dest: dict_get_key)
    have "card (running c) + card (lost c) = card (unsettled c)"
      using fin unsettled_parts [of c] by (simp add: card_Un_disjoint)
    also have "\<dots> = card ((\<lambda>eid. ''inference:'' @ eid) ` unsettled c)"
      by (rule card_image [symmetric]) (simp add: inj_on_def)
    also have "\<dots> = length (fa_active ?a)" using act distinct_card [OF d] by simp
    finally have len: "card (running c) + card (lost c) = length (fa_active ?a)" .
    have "1 \<le> aj_inference_requests j" if "j \<in> set (dict_values (fa_active ?a))" for j
      using adm dict_values_get [OF d that] by (auto simp: adm_inv_def adm_jobs_ok_def job_costs_ok_def)
    then have "int (length (fa_active ?a)) \<le> sum_list (map aj_inference_requests (dict_values (fa_active ?a)))"
      using sum_list_mono [of "fa_active ?a" "\<lambda>_. 1" "\<lambda>x. aj_inference_requests (snd x)"]
      by (simp add: comp_def sum_list_triv)
    also have "\<dots> \<le> cl_max_inference_requests (fa_limits ?a)"
      using adm by (simp add: adm_inv_def adm_caps_ok_def usage_of_def CAPPED_def)
    finally show ?thesis using len by (simp only:)
  qed
  ultimately show ?thesis using act unsettled_parts(1) [of c] by simp
qed

definition demo_lost_coord :: InferenceCoordinator where
  \<comment> \<open>the only waiter leaves before the task's first step\<close>
  "demo_lost_coord = InferenceCoordinator_execution_begins (InferenceCoordinator_waiter_cancelled demo_coord ''e1'' ''w1'') ''e1''"

lemma demo_lost_fields:
  "map_option se_phase (map_of (ic_shared (InferenceCoordinator_waiter_cancelled demo_coord ''e1'' ''w1'')) ''e1'') = Some Exec_created"
  "map_option se_phase (map_of (ic_shared demo_lost_coord) ''e1'') = Some Exec_lost"
  "cl_max_inference_requests (fa_limits (ic_admission demo_lost_coord)) = 1"
  by code_simp+

lemma demo_lost_reachable: "coord_reachable concat demo_lost_coord"
proof -
  have c: "coord_reachable concat (InferenceCoordinator_waiter_cancelled demo_coord ''e1'' ''w1'')"
    by (rule cr_step [OF demo_coord_reachable cs_cancel])
  show ?thesis unfolding demo_lost_coord_def
    using demo_lost_fields(1) by (intro cr_step [OF c]) (auto intro: cs_begin)
qed

theorem single_flight_no_leak_witness: "''e1'' \<in> lost demo_lost_coord \<and> int (card (running demo_lost_coord) + card (lost demo_lost_coord)) \<le> 1"
  using single_flight_no_leak [OF demo_lost_reachable] demo_lost_fields(2,3) by (auto simp: lost_def)

text \<open>A lost execution is lost for ever: it keeps its admission and stays registered in flight, so that every later request with its key is
  deduplicated onto a future that no step settles.\<close>

lemma lost_stays:
  assumes "coord_step H c c'" and "coord_inv H c" and "x \<in> lost c" and "map_of (ic_shared c) x = Some e"
  shows "x \<in> lost c' \<and> (\<exists>e'. map_of (ic_shared c') x = Some e' \<and> se_key e' = se_key e)"
proof -
  have ph: "se_phase e = Exec_lost" using assms(3,4) by (simp add: lost_def)
  have "\<exists>e'. map_of (ic_shared c') x = Some e' \<and> se_phase e' = Exec_lost \<and> se_key e' = se_key e"
    using assms(1)
  proof cases
    case (cs_arrive eid r client session priority corr res)
    have "eid \<noteq> x" using cs_arrive(1) assms(4) dict_get_key by metis
    then show ?thesis using cs_arrive(2) assms(4) ph
      by (auto simp: InferenceCoordinator_arrive_def InferenceCoordinator_start_def Let_def map_of_map_entry add_waiter_def
          split: option.splits sum.splits prod.splits if_splits)
  next
    case (cs_cancel eid corr)
    then show ?thesis using assms(4) ph by (auto simp: InferenceCoordinator_waiter_cancelled_def map_of_map_entry Let_def)
  next
    case (cs_begin eid e0)
    then show ?thesis using assms(4) ph by (auto simp: InferenceCoordinator_execution_begins_def map_of_map_entry)
  next
    case (cs_end eid e0)
    then show ?thesis using assms(4) ph by (auto simp: InferenceCoordinator_execution_ended_def)
  next
    case (cs_cleanup eid e0)
    then show ?thesis using assms(4) ph by (auto simp: InferenceCoordinator_cleanup_def Let_def split: option.splits)
  qed
  then show ?thesis by (auto simp: lost_def)
qed

lemma lost_execution_hangs:
  assumes "coord_reachable H c" and "(coord_step H)\<^sup>*\<^sup>* c d" and "x \<in> lost c" and "map_of (ic_shared c) x = Some e"
    and "InferenceRequest_equivalence_key H r = se_key e" and "se_key e \<noteq> None"
  shows "''inference:'' @ x \<in> set (dict_keys (fa_active (ic_admission d)))
    \<and> snd (InferenceCoordinator_arrive H d r eid client session priority corr) = Inr (x, True)"
proof -
  have "coord_reachable H d \<and> x \<in> lost d \<and> (\<exists>e'. map_of (ic_shared d) x = Some e' \<and> se_key e' = se_key e)"
    using assms(2)
  proof (induction rule: rtranclp_induct)
    case (step a b)
    then obtain e' where "map_of (ic_shared a) x = Some e'" "se_key e' = se_key e" by blast
    then show ?case using step lost_stays [OF step(2) coord_reachable_inv, of x e'] cr_step [of H a b] by auto
  qed (use assms in auto)
  then obtain e' where d: "coord_reachable H d" "x \<in> lost d" "map_of (ic_shared d) x = Some e'" "se_key e' = se_key e" by blast
  have inv: "coord_inv H d" by (rule coord_reachable_inv [OF d(1)])
  obtain k where k: "se_key e = Some k" using assms(6) by auto
  then have "map_of (ic_inflight d) k = Some x" using inv d(3,4) unfolding coord_inv_def by auto
  moreover have "x \<in> unsettled d" using d(2) by (simp add: unsettled_parts)
  then have "''inference:'' @ x \<in> set (dict_keys (fa_active (ic_admission d)))" using inv by (simp add: coord_inv_def)
  ultimately show ?thesis using assms(5) k by (simp add: InferenceCoordinator_arrive_def)
qed

text \<open>Cancellation crosses callers. When the only waiter of a running keyed execution is
  cancelled, the execution's task is cancelled but stays registered in flight until its cleanup
  takes the lock; an equivalent request that arrives in between is deduplicated onto the
  cancelled execution and so shares a cancellation it did not ask for.\<close>

lemma late_joiner_shares_cancellation:
  assumes "coord_reachable H c" and "map_of (ic_shared c) x = Some e" and "\<not> se_future_done e"
    and "se_waiters e = [w]" and "InferenceRequest_equivalence_key H r = se_key e" and "se_key e \<noteq> None"
  shows "\<exists>c2 e2. InferenceCoordinator_arrive H (InferenceCoordinator_waiter_cancelled c x w)
      r eid client session priority w' = (c2, Inr (x, True))
    \<and> map_of (ic_shared c2) x = Some e2 \<and> se_cancel_requested e2 \<and> w' \<in> set (se_waiters e2)"
proof -
  let ?c1 = "InferenceCoordinator_waiter_cancelled c x w"
  obtain k where k: "se_key e = Some k" using assms(6) by auto
  have inv: "coord_inv H c" by (rule coord_reachable_inv [OF assms(1)])
  then have "map_of (ic_inflight c) k = Some x" using assms(2) k unfolding coord_inv_def by blast
  then have infl: "map_of (ic_inflight ?c1) k = Some x" by (simp add: InferenceCoordinator_waiter_cancelled_def)
  have "map_of (ic_shared ?c1) x = Some (e\<lparr>se_waiters := [], se_cancel_requested := True\<rparr>)"
    using assms(2-4) by (simp add: InferenceCoordinator_waiter_cancelled_def map_of_map_entry Let_def)
  then show ?thesis
    using infl assms(5) k
    by (auto simp: InferenceCoordinator_arrive_def map_of_map_entry add_waiter_def)
qed

lemma late_joiner_shares_cancellation_example:
  "\<exists>c2 e2. InferenceCoordinator_arrive concat (InferenceCoordinator_waiter_cancelled demo_coord ''e1'' ''w1'')
      (demo_inf_request ''x'') ''e2'' ''d'' ''s'' ''inference'' ''w2'' = (c2, Inr (''e1'', True))
    \<and> map_of (ic_shared c2) ''e1'' = Some e2 \<and> se_cancel_requested e2 \<and> ''w2'' \<in> set (se_waiters e2)"
proof -
  let ?e = "the (map_of (ic_shared demo_coord) ''e1'')"
  have "map_of (ic_shared demo_coord) ''e1'' \<noteq> None" and f: "\<not> se_future_done ?e" "se_waiters ?e = [''w1'']"
    "InferenceRequest_equivalence_key concat (demo_inf_request ''x'') = se_key ?e" "se_key ?e \<noteq> None"
    by code_simp+
  then have "map_of (ic_shared demo_coord) ''e1'' = Some ?e" by simp
  from late_joiner_shares_cancellation [OF demo_coord_reachable this f] show ?thesis .
qed

text \<open>The retry loop is bounded and exact. With a valid policy it calls \<open>coordinator.run\<close> at most
  \<open>max_attempts\<close> times; it returns a receipt exactly as the last call produced it, after failed
  calls only; and when it gives up every call made has failed and every delay it chose lies
  between zero and the maximal delay.\<close>

lemma retry_bounded:
  assumes "RetryPolicy_post_init p0 = Inr p" and "\<And>n. jit key n \<le> 255"
    and "run_with_retry jit p key clock run = (n, res)"
  shows "int n \<le> rp_max_attempts p \<and> res \<noteq> RetryDelayError
    \<and> (\<forall>r. res = RetryReceipt r \<longrightarrow> run n = AttemptOk r \<and> (\<forall>i. 1 \<le> i \<and> i < n \<longrightarrow> (\<exists>x. run i = AttemptFailed x)))
    \<and> (\<forall>ds. res = InferenceRetryExhausted ds \<longrightarrow> (\<forall>i. 1 \<le> i \<and> i \<le> n \<longrightarrow> (\<exists>x. run i = AttemptFailed x))
         \<and> (\<forall>d \<in> set ds. 0 \<le> rd_delay_seconds d \<and> rd_delay_seconds d \<le> rp_max_delay_seconds p))"
proof -
  have pol: "policy_ok p" by (rule post_init_policy [OF assms(1)])
  have l: "retry_loop jit p key clock run (nat (rp_max_attempts p)) 1 0 0 [] = (n, res)"
    using assms(3) by (simp add: run_with_retry_def)
  note spec = retry_loop_spec [OF pol assms(2) order_refl _ l, simplified]
  have "\<exists>x. run i = AttemptFailed x" if "1 \<le> i" "i < m" "\<forall>i < m - Suc 0. \<exists>x. run (Suc i) = AttemptFailed x" for i m
    using that(3)[rule_format, of "i - 1"] that(1,2) by simp
  moreover have "\<exists>x. run i = AttemptFailed x" if "1 \<le> i" "i \<le> m" "\<forall>i < m. \<exists>x. run (Suc i) = AttemptFailed x" for i m
    using that(3)[rule_format, of "i - 1"] that(1,2) by simp
  moreover have "int n \<le> rp_max_attempts p"
    using spec pol by (auto simp: policy_ok_def)
  ultimately show ?thesis using spec by auto
qed

lemma retry_bounded_example:
  "fst (run_with_retry (\<lambda>_ _. 0) \<lparr>rp_max_attempts = 3, rp_base_delay_seconds = 1, rp_max_delay_seconds = 2,
       rp_jitter_ratio = 0, rp_circuit_failure_threshold = 5, rp_circuit_cooldown_seconds = 5\<rparr> ''k''
      (\<lambda>n. (of_nat n, of_nat n, of_nat n)) (\<lambda>n. if n = 2 then AttemptOk ''r'' else AttemptFailed ''E'')) \<le> 3"
proof -
  let ?p = "\<lparr>rp_max_attempts = 3, rp_base_delay_seconds = 1, rp_max_delay_seconds = 2,
       rp_jitter_ratio = 0, rp_circuit_failure_threshold = 5, rp_circuit_cooldown_seconds = 5\<rparr>"
  have "RetryPolicy_post_init ?p = Inr ?p" by code_simp
  from retry_bounded [OF this, of "\<lambda>_ _. 0" "''k''" "\<lambda>n. (of_nat n, of_nat n, of_nat n)"
      "\<lambda>n. if n = 2 then AttemptOk ''r'' else AttemptFailed ''E''", OF _ prod.collapse [symmetric]]
  show ?thesis by simp
qed

text \<open>A request whose admission is deferred is refused, yet its job stays in the pending set.\<close>

lemma deferred_inference_stays_pending:
  assumes "InferenceCoordinator_start c key r eid client session priority corr = (c', Inl (AdmissionRejected d))"
    and "ad_state d = ''deferred''"
  shows "in_dict (''inference:'' @ eid) (fa_pending_by_id (ic_admission c'))"
proof -
  obtain job a1 where j: "AdmissionJob_post_init (admission_job (''inference:'' @ eid) client session priority) = Inr job"
    and s: "FairAdmissionController_submit (ic_admission c) job = (a1, d)" and c': "ic_admission c' = a1"
    using assms(1) by (auto simp: InferenceCoordinator_start_def Let_def split: sum.splits prod.splits if_splits)
  have "aj_job_id job = ''inference:'' @ eid" using post_init_costs [OF j] by (simp add: admission_job_def)
  then show ?thesis
    using s assms(2) unfolding c'
    by (auto simp: FairAdmissionController_submit_def Let_def count_decision_def defer_job_def in_dict_def split: if_splits)
qed

end
