(* ===== verification/Convergence.thy ===== *)
theory Convergence
  imports Loop_Prelude
begin

text \<open>
  The semantic convergence controller, \<open>src/simplicio_loop/semantic_convergence.py\<close>: typed
  progress signals, evidence merging, and the state machine that decides whether a run is
  progressing, stalled, replanning, rerouting, escalating, draining, waiting or finished.
  Signals and loop evidence are JSON values. The digest of a JSON value is the parameter \<open>D\<close>, the
  text Python prints for a value that is not a string is \<open>rep\<close>, and the number a text denotes
  is \<open>fl\<close> (\<open>None\<close> when \<open>float\<close> raises). A step returns the controller it leaves behind together
  with its receipt or error, since the code changes the controller before it may raise.
\<close>

section \<open>Signals and evidence\<close>

datatype ControllerState = PROGRESSING | STALLED | REPLAN | REROUTE | ESCALATE | DRAIN | WAITING
  | BLOCKED | FAILED | VERIFIED

definition TERMINAL_STATES :: "ControllerState list" where
  "TERMINAL_STATES = [BLOCKED, FAILED, VERIFIED]"

fun ALLOWED :: "ControllerState \<Rightarrow> ControllerState list" where
  "ALLOWED PROGRESSING = [PROGRESSING, STALLED, WAITING, BLOCKED, FAILED, VERIFIED]"
| "ALLOWED STALLED = [STALLED, REPLAN, WAITING, BLOCKED, FAILED, VERIFIED]"
| "ALLOWED REPLAN = [REPLAN, REROUTE, BLOCKED, FAILED, VERIFIED]"
| "ALLOWED REROUTE = [REROUTE, ESCALATE, BLOCKED, FAILED, VERIFIED]"
| "ALLOWED ESCALATE = [ESCALATE, DRAIN, BLOCKED, FAILED, VERIFIED]"
| "ALLOWED DRAIN = [DRAIN, PROGRESSING, STALLED, BLOCKED, FAILED, VERIFIED]"
| "ALLOWED WAITING = [WAITING, PROGRESSING, STALLED, BLOCKED, FAILED, VERIFIED]"
| "ALLOWED BLOCKED = [BLOCKED]"
| "ALLOWED FAILED = [FAILED]"
| "ALLOWED VERIFIED = [VERIFIED]"

definition SEMANTIC_KEYS :: "string list" where
  "SEMANTIC_KEYS = [''task_frontier'', ''files_hash'', ''diff_hash'', ''tree_hash'', ''validation'',
     ''receipts'', ''blockers'', ''tool_result'', ''user_input'', ''delivery'', ''external_state'']"

datatype signal_error = SignalSchemaInvalid | SignalIdentityMissing | EvidenceMissing
  | EvidenceNotConcrete | SemanticNotMapping | WaitNotMapping

fun signal_message :: "signal_error \<Rightarrow> string" where
  "signal_message SignalSchemaInvalid = ''signal schema must be simplicio.progress-signal/v1''"
| "signal_message SignalIdentityMissing = ''signal_id and source (agent or loop) are required''"
| "signal_message EvidenceMissing = ''typed signal requires evidence id/hash''"
| "signal_message EvidenceNotConcrete = ''typed signal requires a concrete evidence id or hash''"
| "signal_message SemanticNotMapping = ''semantic changes must be a mapping, not prose''"
| "signal_message WaitNotMapping = ''wait must be a mapping''"

definition known_keys :: "(string \<times> json) list \<Rightarrow> (string \<times> json) list" where
  \<comment> \<open>\<open>{key: source[key] for key in _SEMANTIC_KEYS if key in source}\<close>\<close>
  "known_keys src = [(key, jget src key). key \<leftarrow> SEMANTIC_KEYS, in_dict key src]"

definition semantic_values :: "(string \<times> json) list \<Rightarrow> signal_error + (string \<times> json) list" where
  "semantic_values raw =
    (case jor (jor (jget raw ''semantic'') (jget raw ''changes'')) (JObj []) of
       JObj src \<Rightarrow> Inr (known_keys src)
     | _ \<Rightarrow> Inl SemanticNotMapping)"

record ProgressSignal =
  ps_signal_id :: string
  ps_source :: string
  ps_evidence_id :: string
  ps_evidence_hash :: string
  ps_semantic :: "(string \<times> json) list"
  ps_strategy_hash :: string
  ps_outcome :: string
  ps_action :: string
  ps_wait :: "(string \<times> json) list"

record EvidenceSnapshot =
  es_evidence_id :: string
  es_evidence_hash :: string
  es_semantic :: "(string \<times> json) list"
  es_acceptance_verified :: bool
  es_delivery_verified :: bool
  es_external_changed :: bool

definition EvidenceSnapshot_semantic_hash :: "(json \<Rightarrow> string) \<Rightarrow> EvidenceSnapshot \<Rightarrow> string" where
  "EvidenceSnapshot_semantic_hash D e = D (JObj (es_semantic e))"

definition str_or :: "(json \<Rightarrow> string) \<Rightarrow> (string \<times> json) list \<Rightarrow> string \<Rightarrow> string \<Rightarrow> string" where
  \<comment> \<open>\<open>str(d.get(k) or x)\<close>\<close>
  "str_or rep d k x = py_str rep (jor (jget d k) (JStr x))"

definition normalize_signal ::
    "(json \<Rightarrow> string) \<Rightarrow> (json \<Rightarrow> string) \<Rightarrow> json \<Rightarrow> signal_error + ProgressSignal" where
  "normalize_signal D rep value =
    (case value of
       JObj raw \<Rightarrow>
         if jget raw ''schema'' \<noteq> JStr ''simplicio.progress-signal/v1'' then Inl SignalSchemaInvalid
         else let signal_id = strip (str_or rep raw ''signal_id'' []);
                  src = strip (str_or rep raw ''source'' [])
         in if signal_id = [] \<or> src \<notin> {''agent'', ''loop''} then Inl SignalIdentityMissing
         else (case jget raw ''evidence'' of
           JObj evidence \<Rightarrow>
             let evidence_id = strip (str_or rep evidence ''id'' []);
                 evidence_hash = strip (str_or rep evidence ''hash'' [])
             in if evidence_id = [] \<and> evidence_hash = [] then Inl EvidenceNotConcrete
             else ebind (semantic_values raw) (\<lambda>semantic.
               case jor (jget raw ''wait'') (JObj []) of
                 JObj wait \<Rightarrow> Inr \<lparr>ps_signal_id = signal_id, ps_source = src,
                   ps_evidence_id = (if evidence_id \<noteq> [] then evidence_id else evidence_hash),
                   ps_evidence_hash = (if evidence_hash \<noteq> [] then evidence_hash else D (JObj evidence)),
                   ps_semantic = semantic, ps_strategy_hash = str_or rep raw ''strategy_hash'' [],
                   ps_outcome = lower (str_or rep raw ''outcome'' ''progress''),
                   ps_action = lower (str_or rep raw ''action'' []), ps_wait = wait\<rparr>
               | _ \<Rightarrow> Inl WaitNotMapping)
         | _ \<Rightarrow> Inl EvidenceMissing)
     | _ \<Rightarrow> Inl SignalSchemaInvalid)"

definition merge_evidence ::
    "(json \<Rightarrow> string) \<Rightarrow> (json \<Rightarrow> string) \<Rightarrow> ProgressSignal \<Rightarrow> (string \<times> json) list option \<Rightarrow> EvidenceSnapshot" where
  "merge_evidence D rep signal loop_evidence =
    (let loop = (case loop_evidence of None \<Rightarrow> [] | Some d \<Rightarrow> d);
         semantic = (case jor (jor (jget loop ''semantic'') (jget loop ''changes'')) (JObj []) of
             JObj extra \<Rightarrow> fold (\<lambda>(k, v) d. dict_set d k v) (known_keys extra) (ps_semantic signal)
           | _ \<Rightarrow> ps_semantic signal)
     in \<lparr>es_evidence_id = py_str rep (jor (jor (jget loop ''evidence_id'') (jget loop ''evidence_hash''))
                            (JStr (ps_evidence_id signal))),
         es_evidence_hash = py_str rep (jor (jor (jget loop ''evidence_hash'') (JStr (ps_evidence_hash signal)))
                            (JStr (D (JObj semantic)))),
         es_semantic = semantic,
         es_acceptance_verified = truthy (jget loop ''acceptance_verified''),
         es_delivery_verified = truthy (jget loop ''delivery_verified''),
         es_external_changed = truthy (jget loop ''external_changed'')\<rparr>)"

section \<open>The controller\<close>

record transition_row =
  tw_from :: ControllerState
  tw_to :: ControllerState
  tw_reason :: string
  tw_evidence_id :: string
  tw_evidence_hash :: string

record ConvergenceController =
  cc_state :: ControllerState
  cc_stall_window :: int
  cc_replans :: int
  cc_reroutes :: int
  cc_escalations :: int
  cc_attempts :: int
  cc_max_replans :: int
  cc_max_reroutes :: int
  cc_max_escalations :: int
  cc_max_attempts :: int
  cc_last_semantic_hash :: string
  cc_last_strategy_hash :: string
  cc_transitions :: "transition_row list"

datatype conv_error = NeedsEvidence | InvalidTransition ControllerState ControllerState | DeadlineNotNumber

record conv_receipt =
  rc_state :: ControllerState
  rc_reason :: string
  rc_semantic_changed :: bool
  rc_stall_window :: int
  rc_transition :: transition_row

definition ConvergenceController_transition ::
    "ConvergenceController \<Rightarrow> ControllerState \<Rightarrow> EvidenceSnapshot \<Rightarrow> string
      \<Rightarrow> ConvergenceController \<times> (conv_error + transition_row)" where
  "ConvergenceController_transition c target e reason =
    (if es_evidence_id e = [] \<and> es_evidence_hash e = [] then (c, Inl NeedsEvidence)
     else if target \<notin> set (ALLOWED (cc_state c)) then (c, Inl (InvalidTransition (cc_state c) target))
     else let row = \<lparr>tw_from = cc_state c, tw_to = target, tw_reason = reason,
                 tw_evidence_id = es_evidence_id e, tw_evidence_hash = es_evidence_hash e\<rparr>
          in (c\<lparr>cc_state := target, cc_transitions := cc_transitions c @ [row]\<rparr>, Inr row))"

definition ConvergenceController_receipt ::
    "ConvergenceController \<Rightarrow> transition_row \<Rightarrow> string \<Rightarrow> bool \<Rightarrow> conv_receipt" where
  "ConvergenceController_receipt c row reason changed =
    \<lparr>rc_state = cc_state c, rc_reason = reason, rc_semantic_changed = changed,
     rc_stall_window = cc_stall_window c, rc_transition = row\<rparr>"

definition move ::
    "ConvergenceController \<Rightarrow> ControllerState \<Rightarrow> EvidenceSnapshot \<Rightarrow> string \<Rightarrow> bool
      \<Rightarrow> ConvergenceController \<times> (conv_error + conv_receipt)" where
  \<comment> \<open>\<open>row = self.transition(...); return self._receipt(...)\<close>\<close>
  "move c target e reason changed =
    (case ConvergenceController_transition c target e reason of
       (c', Inl err) \<Rightarrow> (c', Inl err)
     | (c', Inr row) \<Rightarrow> (c', Inr (ConvergenceController_receipt c' row reason changed)))"

definition choose_target ::
    "ConvergenceController \<Rightarrow> ProgressSignal \<Rightarrow> EvidenceSnapshot \<Rightarrow> bool
      \<Rightarrow> ConvergenceController \<times> ControllerState \<times> string" where
  \<comment> \<open>the per-state decision, with the counters it spends\<close>
  "choose_target c signal e changed =
    (case cc_state c of
       PROGRESSING \<Rightarrow> (c, if changed then (PROGRESSING, ''semantic_progress'') else (STALLED, ''semantic_stall''))
     | STALLED \<Rightarrow>
         if ps_action signal = ''replan'' \<and> ps_strategy_hash signal \<noteq> []
            \<and> ps_strategy_hash signal \<noteq> cc_last_strategy_hash c \<and> cc_replans c < cc_max_replans c
         then (c\<lparr>cc_replans := cc_replans c + 1, cc_last_strategy_hash := ps_strategy_hash signal\<rparr>,
               REPLAN, ''strategy_changed'')
         else (c, STALLED, ''replan_requires_strategy_delta'')
     | REPLAN \<Rightarrow>
         if ps_action signal = ''reroute'' \<and> cc_reroutes c < cc_max_reroutes c
         then (c\<lparr>cc_reroutes := cc_reroutes c + 1\<rparr>, REROUTE, ''bounded_reroute'')
         else (c, REPLAN, ''awaiting_reroute'')
     | REROUTE \<Rightarrow>
         if ps_action signal = ''escalate'' \<and> cc_escalations c < cc_max_escalations c
         then (c\<lparr>cc_escalations := cc_escalations c + 1\<rparr>, ESCALATE, ''bounded_escalation'')
         else (c, REROUTE, ''awaiting_escalation'')
     | ESCALATE \<Rightarrow> (c, if ps_action signal = ''drain'' then (DRAIN, ''drain_after_escalation'')
                       else (ESCALATE, ''awaiting_drain''))
     | DRAIN \<Rightarrow> (c, if changed then (PROGRESSING, ''drain_made_progress'') else (STALLED, ''drain_stalled''))
     | _ \<Rightarrow> (c, if es_external_changed e \<or> changed then (PROGRESSING, ''external_state_changed'')
               else (STALLED, ''no_observable_delta'')))"

fun to_float :: "(string \<Rightarrow> rat option) \<Rightarrow> json \<Rightarrow> rat option" where
  "to_float fl (JNum r) = Some r"
| "to_float fl (JBool b) = Some (if b then 1 else 0)"
| "to_float fl (JStr s) = fl s"
| "to_float fl _ = None"

definition wait_target ::
    "(string \<Rightarrow> rat option) \<Rightarrow> (string \<times> json) list \<Rightarrow> rat option \<Rightarrow> conv_error + ControllerState \<times> string" where
  "wait_target fl wait now =
    (if \<not> truthy (jget wait ''condition'') \<or> jget wait ''heartbeat'' = JNull \<or> jget wait ''deadline'' = JNull
     then Inr (FAILED, ''invalid_wait_contract'')
     else case now of
       None \<Rightarrow> Inr (WAITING, ''explicit_wait'')
     | Some t \<Rightarrow> (case to_float fl (jget wait ''deadline'') of
         None \<Rightarrow> Inl DeadlineNotNumber
       | Some d \<Rightarrow> if d \<le> t then Inr (BLOCKED, ''wait_deadline_expired'') else Inr (WAITING, ''explicit_wait'')))"

definition outcome_target ::
    "(string \<Rightarrow> rat option) \<Rightarrow> ConvergenceController \<Rightarrow> ProgressSignal \<Rightarrow> EvidenceSnapshot \<Rightarrow> rat option
      \<Rightarrow> (conv_error + ControllerState \<times> string) option" where
  \<comment> \<open>the early returns of \<open>step\<close>: the attempt cap and the explicit outcomes\<close>
  "outcome_target fl c signal e now =
    (if cc_attempts c > cc_max_attempts c then Some (Inr (BLOCKED, ''attempt_cap_exhausted''))
     else if ps_outcome signal = ''blocked'' then Some (Inr (BLOCKED, ''explicit_blocker''))
     else if ps_outcome signal = ''failed'' then Some (Inr (FAILED, ''explicit_failure''))
     else if ps_outcome signal = ''verified'' then
       (if \<not> (es_acceptance_verified e \<and> es_delivery_verified e)
        then Some (Inr (STALLED, ''verified_requires_acceptance_and_delivery_evidence''))
        else Some (Inr (VERIFIED, ''acceptance_and_delivery_verified'')))
     else if ps_outcome signal = ''waiting'' then Some (wait_target fl (ps_wait signal) now)
     else None)"

definition step_valid ::
    "(json \<Rightarrow> string) \<Rightarrow> (string \<Rightarrow> rat option) \<Rightarrow> ConvergenceController \<Rightarrow> ProgressSignal \<Rightarrow> EvidenceSnapshot
      \<Rightarrow> rat option \<Rightarrow> ConvergenceController \<times> (conv_error + conv_receipt)" where
  \<comment> \<open>\<open>step\<close> after the signal has been normalised\<close>
  "step_valid D fl c signal e now =
    (if cc_state c \<in> set TERMINAL_STATES then move c (cc_state c) e ''terminal_state_preserved'' False
     else let h = EvidenceSnapshot_semantic_hash D e;
              changed = (h \<noteq> cc_last_semantic_hash c);
              c1 = c\<lparr>cc_last_semantic_hash := h, cc_attempts := cc_attempts c + 1\<rparr>
     in case outcome_target fl c1 signal e now of
          Some (Inl err) \<Rightarrow> (c1, Inl err)
        | Some (Inr (target, reason)) \<Rightarrow> move c1 target e reason changed
        | None \<Rightarrow>
          (case choose_target c1 signal e changed of (c2, target, reason) \<Rightarrow>
            move (c2\<lparr>cc_stall_window := (if target = STALLED then cc_stall_window c2 + 1 else 0)\<rparr>)
              target e reason changed))"

definition ConvergenceController_step ::
    "(json \<Rightarrow> string) \<Rightarrow> (json \<Rightarrow> string) \<Rightarrow> (string \<Rightarrow> rat option) \<Rightarrow> ConvergenceController \<Rightarrow> json
      \<Rightarrow> (string \<times> json) list option \<Rightarrow> rat option \<Rightarrow> ConvergenceController \<times> (conv_error + conv_receipt)" where
  "ConvergenceController_step D rep fl c raw_signal loop_evidence now =
    (case normalize_signal D rep raw_signal of
       Inl err \<Rightarrow>
         let raw_id = (case raw_signal of JObj raw \<Rightarrow> str_or rep raw ''signal_id'' ''invalid'' | _ \<Rightarrow> ''invalid'');
             c1 = c\<lparr>cc_state := FAILED\<rparr>;
             reason = ''invalid_signal:'' @ signal_message err;
             row = \<lparr>tw_from = cc_state c1, tw_to = cc_state c1, tw_reason = reason,
                    tw_evidence_id = raw_id, tw_evidence_hash = D raw_signal\<rparr>;
             c2 = c1\<lparr>cc_transitions := cc_transitions c1 @ [row]\<rparr>
         in (c2, Inr (ConvergenceController_receipt c2 row reason False))
     | Inr signal \<Rightarrow> step_valid D fl c signal (merge_evidence D rep signal loop_evidence) now)"

section \<open>What a step can do\<close>

lemma py_str_or_nonempty:
  assumes "\<forall>v. rep v \<noteq> []" and "a \<noteq> []"
  shows "py_str rep (jor x (JStr a)) \<noteq> []"
  using assms by (cases x) (auto simp: jor_def)

lemma normalize_evidence: "normalize_signal D rep raw = Inr s \<Longrightarrow> ps_evidence_id s \<noteq> []"
proof -
  assume n: "normalize_signal D rep raw = Inr s"
  obtain d where d: "raw = JObj d" using n by (cases raw) (simp_all add: normalize_signal_def)
  obtain ev where ev: "jget d ''evidence'' = JObj ev"
    using n d by (cases "jget d ''evidence''") (simp_all add: normalize_signal_def Let_def split: if_splits)
  obtain w where w: "jor (jget d ''wait'') (JObj []) = JObj w"
    using n d ev by (cases "jor (jget d ''wait'') (JObj [])")
      (simp_all add: normalize_signal_def Let_def ebind_Inr_conv split: if_splits)
  show ?thesis
    using n d ev w by (auto simp: normalize_signal_def Let_def ebind_Inr_conv split: if_splits)
qed

lemma merged_evidence:
  assumes "normalize_signal D rep raw = Inr s" and "\<forall>v. rep v \<noteq> []"
  shows "es_evidence_id (merge_evidence D rep s l) \<noteq> []"
  using py_str_or_nonempty [OF assms(2) normalize_evidence [OF assms(1)]]
  by (simp add: merge_evidence_def Let_def)

lemma move_fst:
  assumes "es_evidence_id e \<noteq> []"
  shows "fst (move c t e reason ch) = (if t \<in> set (ALLOWED (cc_state c))
     then c\<lparr>cc_state := t, cc_transitions := cc_transitions c @ [\<lparr>tw_from = cc_state c, tw_to = t, tw_reason = reason,
            tw_evidence_id = es_evidence_id e, tw_evidence_hash = es_evidence_hash e\<rparr>]\<rparr> else c)"
  using assms by (simp add: move_def ConvergenceController_transition_def Let_def)

lemma move_frame:
  "cc_attempts (fst (move c t e reason ch)) = cc_attempts c"
  "cc_max_attempts (fst (move c t e reason ch)) = cc_max_attempts c"
  "cc_replans (fst (move c t e reason ch)) = cc_replans c" "cc_max_replans (fst (move c t e reason ch)) = cc_max_replans c"
  "cc_reroutes (fst (move c t e reason ch)) = cc_reroutes c" "cc_max_reroutes (fst (move c t e reason ch)) = cc_max_reroutes c"
  "cc_escalations (fst (move c t e reason ch)) = cc_escalations c"
  "cc_max_escalations (fst (move c t e reason ch)) = cc_max_escalations c"
  by (simp_all add: move_def ConvergenceController_transition_def Let_def)

lemmas ctl_frames = move_frame

lemma choose_frame:
  assumes "choose_target c s e ch = (c', t, r)"
  shows "cc_attempts c' = cc_attempts c" "cc_max_attempts c' = cc_max_attempts c" "cc_state c' = cc_state c"
    "cc_max_replans c' = cc_max_replans c" "cc_max_reroutes c' = cc_max_reroutes c" "cc_max_escalations c' = cc_max_escalations c"
    "cc_transitions c' = cc_transitions c"
    "cc_replans c' \<le> max (cc_replans c) (cc_max_replans c)" "cc_reroutes c' \<le> max (cc_reroutes c) (cc_max_reroutes c)"
    "cc_escalations c' \<le> max (cc_escalations c) (cc_max_escalations c)" "t \<noteq> VERIFIED"
  using assms by (auto simp: choose_target_def split: ControllerState.splits if_splits)

definition caps_ok :: "ConvergenceController \<Rightarrow> bool" where
  "caps_ok c \<longleftrightarrow> cc_replans c \<le> max 0 (cc_max_replans c) \<and> cc_reroutes c \<le> max 0 (cc_max_reroutes c)
     \<and> cc_escalations c \<le> max 0 (cc_max_escalations c)"

definition rows_ok :: "ConvergenceController \<Rightarrow> bool" where
  "rows_ok c \<longleftrightarrow> (\<forall>row \<in> set (cc_transitions c). tw_to row \<in> set (ALLOWED (tw_from row)))"

lemma move_rows: "rows_ok c \<Longrightarrow> rows_ok (fst (move c t e reason ch))"
  by (auto simp: rows_ok_def move_def ConvergenceController_transition_def Let_def)

lemma outcome_target_props:
  assumes "outcome_target fl c s e now = Some out"
  shows "out = Inl err \<Longrightarrow> err = DeadlineNotNumber \<and> cc_attempts c \<le> cc_max_attempts c"
    and "out = Inr (t, reason) \<Longrightarrow> cc_attempts c > cc_max_attempts c \<Longrightarrow> t = BLOCKED"
    and "out = Inr (t, reason) \<Longrightarrow> t = VERIFIED \<Longrightarrow> es_acceptance_verified e \<and> es_delivery_verified e"
  using assms by (auto simp: outcome_target_def wait_target_def split: if_splits option.splits)

text \<open>Every branch of a valid step is a \<open>move\<close> of a prepared controller, or the deadline error.\<close>

lemma step_valid_cases:
  assumes "step_valid D fl c s e now = (c', res)" and "cc_state c \<notin> set TERMINAL_STATES"
  obtains
    (moved) c1 t reason ch where "(c', res) = move c1 t e reason ch" "cc_state c1 = cc_state c"
      "cc_attempts c1 = cc_attempts c + 1" "cc_max_attempts c1 = cc_max_attempts c"
      "cc_attempts c1 > cc_max_attempts c1 \<Longrightarrow> t = BLOCKED" "caps_ok c \<Longrightarrow> caps_ok c1"
      "cc_transitions c1 = cc_transitions c"
      "t = VERIFIED \<Longrightarrow> es_acceptance_verified e \<and> es_delivery_verified e"
  | (deadline) c1 where "c' = c1" "res = Inl DeadlineNotNumber" "cc_state c1 = cc_state c"
      "cc_attempts c1 = cc_attempts c + 1" "cc_max_attempts c1 = cc_max_attempts c"
      "cc_attempts c1 \<le> cc_max_attempts c1" "caps_ok c \<Longrightarrow> caps_ok c1" "cc_transitions c1 = cc_transitions c"
proof -
  let ?h = "EvidenceSnapshot_semantic_hash D e"
  let ?ch = "?h \<noteq> cc_last_semantic_hash c"
  let ?c1 = "c\<lparr>cc_last_semantic_hash := ?h, cc_attempts := cc_attempts c + 1\<rparr>"
  have c1: "cc_state ?c1 = cc_state c" "cc_attempts ?c1 = cc_attempts c + 1" "cc_max_attempts ?c1 = cc_max_attempts c"
    "caps_ok c \<Longrightarrow> caps_ok ?c1" "cc_transitions ?c1 = cc_transitions c" by (simp_all add: caps_ok_def)
  show thesis
  proof (cases "outcome_target fl ?c1 s e now")
    case None
    then have le: "cc_attempts c + 1 \<le> cc_max_attempts c" by (simp add: outcome_target_def split: if_splits)
    obtain c2 t r where ct: "choose_target ?c1 s e ?ch = (c2, t, r)" by (cases "choose_target ?c1 s e ?ch")
    let ?c3 = "c2\<lparr>cc_stall_window := (if t = STALLED then cc_stall_window c2 + 1 else 0)\<rparr>"
    note f = choose_frame [OF ct]
    have eq: "(c', res) = move ?c3 t e r ?ch"
      using assms None ct by (simp add: step_valid_def Let_def)
    have caps: "caps_ok c \<Longrightarrow> caps_ok ?c3" using f by (auto simp: caps_ok_def)
    show thesis by (rule moved [OF eq]) (use le f caps in auto)
  next
    case (Some out)
    note p = outcome_target_props [OF Some]
    show thesis
    proof (cases out)
      case (Inl err)
      then have r: "c' = ?c1" "res = Inl DeadlineNotNumber" "cc_attempts c + 1 \<le> cc_max_attempts c"
        using assms Some p by (auto simp: step_valid_def Let_def)
      show thesis by (rule deadline [OF r(1,2) c1(1-3)]) (use r(3) c1 in auto)
    next
      case (Inr tr)
      obtain t reason where tr: "tr = (t, reason)" by (cases tr)
      have m: "(c', res) = move ?c1 t e reason ?ch"
        using assms Some Inr tr by (simp add: step_valid_def Let_def)
      show thesis by (rule moved [OF m c1(1-3)]) (use p Inr tr c1 in auto)
    qed
  qed
qed

lemma terminal_allowed:
  "s \<in> set TERMINAL_STATES \<Longrightarrow> set (ALLOWED s) = {s}" "BLOCKED \<in> set (ALLOWED s) \<or> s \<in> {FAILED, VERIFIED}"
  by (auto simp: TERMINAL_STATES_def) (cases s; simp)

lemma step_terminal:
  assumes "\<forall>v. rep v \<noteq> []" and "cc_state c \<in> set TERMINAL_STATES"
  shows "cc_state (fst (ConvergenceController_step D rep fl c raw l now)) \<in> set TERMINAL_STATES"
proof (cases "normalize_signal D rep raw")
  case (Inl err)
  then show ?thesis by (simp add: ConvergenceController_step_def Let_def TERMINAL_STATES_def)
next
  case (Inr s)
  then show ?thesis
    using assms(2) move_fst [OF merged_evidence [OF Inr assms(1)]]
    by (simp add: ConvergenceController_step_def step_valid_def)
qed

lemma step_progress:
  assumes "\<forall>v. rep v \<noteq> []" and "cc_state c \<notin> set TERMINAL_STATES"
    and "c' = fst (ConvergenceController_step D rep fl c raw l now)"
  shows "cc_state c' \<in> set TERMINAL_STATES
    \<or> (cc_attempts c' = cc_attempts c + 1 \<and> cc_attempts c' \<le> cc_max_attempts c' \<and> cc_max_attempts c' = cc_max_attempts c)"
proof (cases "normalize_signal D rep raw")
  case (Inl err)
  then show ?thesis using assms(3) by (simp add: ConvergenceController_step_def Let_def TERMINAL_STATES_def)
next
  case (Inr s)
  let ?e = "merge_evidence D rep s l"
  note ev = merged_evidence [OF Inr assms(1), of l]
  obtain res where st: "step_valid D fl c s ?e now = (c', res)"
    using assms(3) Inr by (cases "step_valid D fl c s ?e now") (simp add: ConvergenceController_step_def)
  from st assms(2) show ?thesis
  proof (cases rule: step_valid_cases)
    case (moved c1 t reason ch)
    have c': "c' = fst (move c1 t ?e reason ch)" using moved(1) by (metis fst_conv)
    have att: "cc_attempts c' = cc_attempts c + 1" "cc_max_attempts c' = cc_max_attempts c"
      using moved(3,4) by (simp_all add: c' move_frame)
    show ?thesis
    proof (cases "cc_attempts c1 > cc_max_attempts c1")
      case True
      then have "t = BLOCKED" by (rule moved(5))
      moreover have "BLOCKED \<in> set (ALLOWED (cc_state c1))"
        using assms(2) terminal_allowed(2) [of "cc_state c"] moved(2) by (auto simp: TERMINAL_STATES_def)
      ultimately show ?thesis by (simp add: c' move_fst [OF ev] TERMINAL_STATES_def)
    qed (use att moved(3,4) in simp)
  qed simp
qed

fun run_signals ::
    "(json \<Rightarrow> string) \<Rightarrow> (json \<Rightarrow> string) \<Rightarrow> (string \<Rightarrow> rat option) \<Rightarrow> ConvergenceController
      \<Rightarrow> (json \<times> (string \<times> json) list option \<times> rat option) list \<Rightarrow> ConvergenceController" where
  \<comment> \<open>a caller that keeps stepping the controller, errors included\<close>
  "run_signals D rep fl c [] = c"
| "run_signals D rep fl c ((raw, l, now) # later) =
    run_signals D rep fl (fst (ConvergenceController_step D rep fl c raw l now)) later"

lemma run_terminal:
  assumes "\<forall>v. rep v \<noteq> []" and "cc_state c \<in> set TERMINAL_STATES"
  shows "cc_state (run_signals D rep fl c xs) \<in> set TERMINAL_STATES"
  using assms(2)
proof (induction xs arbitrary: c)
  case (Cons x xs)
  then show ?case using step_terminal [OF assms(1)] by (cases x) auto
qed simp

lemma run_bounded:
  assumes "\<forall>v. rep v \<noteq> []" and "cc_max_attempts c - cc_attempts c < int (length xs)"
  shows "cc_state (run_signals D rep fl c xs) \<in> set TERMINAL_STATES \<or> cc_max_attempts c < cc_attempts c \<and> xs = []"
  using assms(2)
proof (induction xs arbitrary: c)
  case (Cons x xs)
  obtain raw l now where x: "x = (raw, l, now)" by (cases x)
  let ?c = "fst (ConvergenceController_step D rep fl c raw l now)"
  show ?case
  proof (cases "cc_state ?c \<in> set TERMINAL_STATES")
    case True
    then show ?thesis using run_terminal [OF assms(1)] x by simp
  next
    case False
    then have "cc_state c \<notin> set TERMINAL_STATES" using step_terminal [OF assms(1)] by blast
    then have "cc_attempts ?c = cc_attempts c + 1" "cc_attempts ?c \<le> cc_max_attempts ?c"
      "cc_max_attempts ?c = cc_max_attempts c" using step_progress [OF assms(1) _ refl] False by blast+
    then show ?thesis using Cons.IH [of ?c] Cons.prems x by auto
  qed
qed simp

definition fresh_controller :: "int \<Rightarrow> int \<Rightarrow> int \<Rightarrow> int \<Rightarrow> ConvergenceController" where
  "fresh_controller replans reroutes escalations attempts =
    \<lparr>cc_state = PROGRESSING, cc_stall_window = 0, cc_replans = 0, cc_reroutes = 0, cc_escalations = 0,
     cc_attempts = 0, cc_max_replans = replans, cc_max_reroutes = reroutes,
     cc_max_escalations = escalations, cc_max_attempts = attempts, cc_last_semantic_hash = [],
     cc_last_strategy_hash = [], cc_transitions = []\<rparr>"

lemma step_caps_rows:
  assumes "caps_ok c" and "rows_ok c"
  shows "caps_ok (fst (ConvergenceController_step D rep fl c raw l now))
    \<and> rows_ok (fst (ConvergenceController_step D rep fl c raw l now))"
proof (cases "normalize_signal D rep raw")
  case (Inl err)
  then show ?thesis using assms by (simp add: ConvergenceController_step_def Let_def caps_ok_def rows_ok_def)
next
  case (Inr s)
  let ?e = "merge_evidence D rep s l"
  obtain c' res where st: "step_valid D fl c s ?e now = (c', res)" by (cases "step_valid D fl c s ?e now")
  have c': "fst (ConvergenceController_step D rep fl c raw l now) = c'"
    using Inr st by (simp add: ConvergenceController_step_def)
  show ?thesis
  proof (cases "cc_state c \<in> set TERMINAL_STATES")
    case True
    then have "c' = fst (move c (cc_state c) ?e ''terminal_state_preserved'' False)"
      using st by (simp add: step_valid_def)
    then show ?thesis using assms move_rows [of c] unfolding c' by (simp add: caps_ok_def move_frame)
  next
    case False
    from st False show ?thesis unfolding c'
    proof (cases rule: step_valid_cases)
      case (moved c1 t reason ch)
      have "c' = fst (move c1 t ?e reason ch)" using moved(1) by (metis fst_conv)
      then show "caps_ok c' \<and> rows_ok c'"
        using moved(6,7) assms move_rows [of c1] by (simp add: caps_ok_def move_frame rows_ok_def)
    next
      case (deadline c1)
      then show "caps_ok c' \<and> rows_ok c'" using assms by (simp add: rows_ok_def)
    qed
  qed
qed

lemma run_caps_rows: "caps_ok c \<Longrightarrow> rows_ok c \<Longrightarrow> caps_ok (run_signals D rep fl c xs) \<and> rows_ok (run_signals D rep fl c xs)"
proof (induction xs arbitrary: c)
  case (Cons x xs)
  then show ?case using step_caps_rows by (cases x) auto
qed simp

section \<open>Properties\<close>

definition demo_signal :: "string \<Rightarrow> json" where
  "demo_signal outcome = JObj [(''schema'', JStr ''simplicio.progress-signal/v1''), (''signal_id'', JStr ''s''),
     (''source'', JStr ''loop''), (''evidence'', JObj [(''id'', JStr ''e'')]), (''outcome'', JStr outcome)]"

definition demo_rep :: "json \<Rightarrow> string" where "demo_rep v = ''?''"

text \<open>C10: convergence is forced. Whatever signals a fresh controller receives, valid or not, and
  even if the caller goes on after errors, after more than \<open>max_attempts\<close> of them the controller
  is in a terminal state (blocked, failed or verified).\<close>

theorem convergence_terminates:
  assumes "\<forall>v. rep v \<noteq> []" and "max 0 attempts < int (length signals)"
  shows "cc_state (run_signals D rep fl (fresh_controller replans reroutes escalations attempts) signals)
    \<in> {BLOCKED, FAILED, VERIFIED}"
  using run_bounded [OF assms(1), of "fresh_controller replans reroutes escalations attempts" signals D fl] assms(2)
  by (auto simp: fresh_controller_def TERMINAL_STATES_def)

theorem convergence_terminates_witness:
  "cc_state (run_signals demo_rep demo_rep (\<lambda>_. None) (fresh_controller 3 3 2 2)
     (replicate 3 (demo_signal ''progress'', None, None))) \<in> {BLOCKED, FAILED, VERIFIED}"
  by (rule convergence_terminates) (simp_all add: demo_rep_def)

text \<open>C11: a run is declared verified only on evidence. If a step takes the controller from another
  state to \<open>VERIFIED\<close>, the signal was valid, its outcome was \<open>verified\<close> and the loop's own evidence
  says that both acceptance and delivery were verified; the agent's signal alone cannot do it.\<close>

theorem verified_requires_evidence:
  assumes "ConvergenceController_step D rep fl c raw l now = (c', res)"
    and "cc_state c \<noteq> VERIFIED" and "cc_state c' = VERIFIED"
  shows "\<exists>s loop. normalize_signal D rep raw = Inr s \<and> l = Some loop
    \<and> truthy (jget loop ''acceptance_verified'') \<and> truthy (jget loop ''delivery_verified'')"
proof (cases "normalize_signal D rep raw")
  case (Inl err)
  then show ?thesis using assms by (auto simp: ConvergenceController_step_def Let_def)
next
  case (Inr s)
  let ?e = "merge_evidence D rep s l"
  have st: "step_valid D fl c s ?e now = (c', res)" using assms(1) Inr by (simp add: ConvergenceController_step_def)
  have nt: "cc_state c \<notin> set TERMINAL_STATES"
  proof
    assume "cc_state c \<in> set TERMINAL_STATES"
    then have "cc_state c' = cc_state c"
      using st by (auto simp: step_valid_def move_def ConvergenceController_transition_def Let_def split: if_splits)
    then show False using assms(2,3) by simp
  qed
  from st nt have "es_acceptance_verified ?e \<and> es_delivery_verified ?e"
  proof (cases rule: step_valid_cases)
    case (moved c1 t reason ch)
    have "c' = fst (move c1 t ?e reason ch)" using moved(1) by (metis fst_conv)
    then have "t = VERIFIED"
      using assms(2,3) moved(2) by (auto simp: move_def ConvergenceController_transition_def Let_def split: if_splits)
    then show ?thesis by (rule moved(8))
  qed (use assms(2,3) in simp)
  then show ?thesis using Inr by (cases l) (auto simp: merge_evidence_def Let_def jget_def)
qed

theorem verified_requires_evidence_witness:
  "\<exists>s loop. normalize_signal demo_rep demo_rep (demo_signal ''verified'') = Inr s
    \<and> Some [(''acceptance_verified'', JBool True), (''delivery_verified'', JBool True)] = Some loop
    \<and> truthy (jget loop ''acceptance_verified'') \<and> truthy (jget loop ''delivery_verified'')"
proof (rule verified_requires_evidence)
  let ?l = "Some [(''acceptance_verified'', JBool True), (''delivery_verified'', JBool True)]"
  let ?r = "ConvergenceController_step demo_rep demo_rep (\<lambda>_. None) (fresh_controller 3 3 2 20) (demo_signal ''verified'') ?l None"
  show "?r = (fst ?r, snd ?r)" by simp
  show "cc_state (fresh_controller 3 3 2 20) \<noteq> VERIFIED" by (simp add: fresh_controller_def)
  show "cc_state (fst ?r) = VERIFIED" by code_simp
qed

text \<open>Recovery is bounded and its history is legal. However many signals a fresh controller
  with non-negative caps receives, it replans, reroutes and escalates at most as often as its caps
  allow, and every recorded transition is one the transition table permits.\<close>

lemma recovery_caps_and_history:
  assumes "0 \<le> replans" and "0 \<le> reroutes" and "0 \<le> escalations"
    and "c = run_signals D rep fl (fresh_controller replans reroutes escalations attempts) signals"
  shows "cc_replans c \<le> cc_max_replans c \<and> cc_reroutes c \<le> cc_max_reroutes c \<and> cc_escalations c \<le> cc_max_escalations c
    \<and> (\<forall>row \<in> set (cc_transitions c). tw_to row \<in> set (ALLOWED (tw_from row)))"
proof -
  have "caps_ok c \<and> rows_ok c"
    unfolding assms(4) by (rule run_caps_rows) (simp_all add: fresh_controller_def caps_ok_def rows_ok_def)
  moreover have "cc_max_replans (fst (ConvergenceController_step D rep fl x raw l now)) = cc_max_replans x
      \<and> cc_max_reroutes (fst (ConvergenceController_step D rep fl x raw l now)) = cc_max_reroutes x
      \<and> cc_max_escalations (fst (ConvergenceController_step D rep fl x raw l now)) = cc_max_escalations x" for x raw l now
    by (auto simp: ConvergenceController_step_def step_valid_def Let_def move_frame choose_target_def
        split: sum.splits option.splits ControllerState.splits prod.splits)
  then have "cc_max_replans (run_signals D rep fl x xs) = cc_max_replans x
      \<and> cc_max_reroutes (run_signals D rep fl x xs) = cc_max_reroutes x
      \<and> cc_max_escalations (run_signals D rep fl x xs) = cc_max_escalations x" for x xs
    by (induction xs arbitrary: x) auto
  ultimately show ?thesis
    using assms(1-3) unfolding assms(4) by (simp add: caps_ok_def rows_ok_def fresh_controller_def)
qed

lemma recovery_caps_and_history_example:
  "cc_replans (run_signals demo_rep demo_rep (\<lambda>_. None) (fresh_controller 3 3 2 20) [(demo_signal ''progress'', None, None)])
     \<le> cc_max_replans (run_signals demo_rep demo_rep (\<lambda>_. None) (fresh_controller 3 3 2 20) [(demo_signal ''progress'', None, None)])"
  using recovery_caps_and_history [of 3 3 2 _ demo_rep demo_rep "\<lambda>_. None" 20
      "[(demo_signal ''progress'', None, None)]", OF _ _ _ refl] by simp

text \<open>An invalid signal overwrites even a verified terminal state, and the row it records names
  \<open>FAILED\<close> as the state it came from.\<close>

lemma invalid_signal_overwrites_terminal:
  "\<exists>c'. fst (ConvergenceController_step D rep fl (c\<lparr>cc_state := VERIFIED\<rparr>) JNull l now) = c'
     \<and> cc_state c' = FAILED \<and> tw_from (last (cc_transitions c')) = FAILED"
  by (simp add: ConvergenceController_step_def normalize_signal_def Let_def)

end
