(* ===== verification/Hash_Chain.thy ===== *)
theory Hash_Chain
  imports Loop_Prelude
begin

text \<open>
  The interface of an append-only journal whose rows carry a sequence number, the seal of the row
  before them and their own seal, the digest of the rest of the row. Four components keep such a
  journal (typed recovery, the evidence ledger, the prism journal and the work gap ledger); what tamper evidence means for
  them is proved here once.
\<close>

section \<open>Linked rows\<close>

fun linked :: "('r \<Rightarrow> 'h) \<Rightarrow> ('r \<Rightarrow> 'h) \<Rightarrow> ('r \<Rightarrow> nat) \<Rightarrow> 'h \<Rightarrow> nat \<Rightarrow> 'r list \<Rightarrow> bool" where
  "linked seal prev num h n [] = True"
| "linked seal prev num h n (r # rs) = (prev r = h \<and> num r = n \<and> linked seal prev num (seal r) (Suc n) rs)"

definition head_seal :: "('r \<Rightarrow> 'h) \<Rightarrow> 'h \<Rightarrow> 'r list \<Rightarrow> 'h" where
  "head_seal seal h rs = (if rs = [] then h else seal (last rs))"

lemma head_seal_simps [simp]:
  "head_seal seal h [] = h" "head_seal seal h (rs @ [r]) = seal r" "head_seal seal h (r # rs) = head_seal seal (seal r) rs"
  by (simp_all add: head_seal_def)

lemma linked_append:
  "linked seal prev num h n (xs @ ys) \<longleftrightarrow> linked seal prev num h n xs \<and> linked seal prev num (head_seal seal h xs) (n + length xs) ys"
  by (induction xs arbitrary: h n) auto

section \<open>Tamper evidence\<close>

locale hash_chain =
  fixes accept :: "'r list \<Rightarrow> bool"
    and digest :: "'b \<Rightarrow> 'h"
    and body :: "'r \<Rightarrow> 'b"
    and seal :: "'r \<Rightarrow> 'h"
    and prev :: "'r \<Rightarrow> 'h"
    and num :: "'r \<Rightarrow> nat"
    and start :: "'h"
  assumes accepted_linked: "accept rs \<Longrightarrow> linked seal prev num start 1 rs"
    and accepted_sealed: "accept rs \<Longrightarrow> r \<in> set rs \<Longrightarrow> seal r = digest (body r)"
    and body_row: "accept rs \<Longrightarrow> accept rs' \<Longrightarrow> r \<in> set rs \<Longrightarrow> r' \<in> set rs' \<Longrightarrow> body r = body r' \<Longrightarrow> seal r = seal r' \<Longrightarrow> r = r'"
begin

lemma linked_unique:
  assumes "linked seal prev num start 1 xs" and "linked seal prev num start 1 ys" and "xs \<noteq> []" and "ys \<noteq> []"
    and "seal (last xs) = seal (last ys)" and "\<And>x y. x \<in> set xs \<Longrightarrow> y \<in> set ys \<Longrightarrow> seal x = seal y \<Longrightarrow> x = y"
  shows "xs = ys"
  using assms
proof (induction xs arbitrary: ys rule: rev_induct)
  case (snoc x xs)
  obtain ys0 y where ys: "ys = ys0 @ [y]" using snoc.prems(4) by (cases ys rule: rev_cases) auto
  have "seal x = seal y" using snoc.prems(5) by (simp add: ys)
  then have xy: "x = y" using snoc.prems(6) [of x y] by (simp add: ys)
  have x: "linked seal prev num start 1 xs" "num x = Suc (length xs)" "prev x = head_seal seal start xs"
    and y: "linked seal prev num start 1 ys0" "num y = Suc (length ys0)" "prev y = head_seal seal start ys0"
    using snoc.prems(1,2) unfolding ys by (auto simp: linked_append)
  have len: "length xs = length ys0" using x(2) y(2) xy by simp
  have "xs = ys0"
  proof (cases "xs = []")
    case False
    then have "ys0 \<noteq> []" using len by auto
    then show ?thesis using snoc.IH [OF x(1) y(1) False] x(3) y(3) xy False snoc.prems(6) unfolding ys by (simp add: head_seal_def)
  qed (use len in simp)
  with xy show ?case by (simp add: ys)
qed simp

text \<open>Two accepted journals with the same last seal are equal, unless the digest collides on two of their bodies.\<close>

lemma same_head:
  assumes "accept xs" and "accept ys" and "xs \<noteq> []" and "ys \<noteq> []" and "seal (last xs) = seal (last ys)"
    and "inj_on digest (body ` (set xs \<union> set ys))"
  shows "xs = ys"
proof (rule linked_unique [OF accepted_linked accepted_linked])
  fix x y assume xy: "x \<in> set xs" "y \<in> set ys" "seal x = seal y"
  then have "digest (body x) = digest (body y)" using accepted_sealed assms(1,2) by metis
  then have "body x = body y" using assms(6) xy unfolding inj_on_def by blast
  then show "x = y" using body_row [OF assms(1,2) xy(1,2)] xy(3) by blast
qed (use assms in auto)

end

end
