(* ===== verification/Typed_Recovery.thy ===== *)
theory Typed_Recovery
  imports Hash_Chain
begin

text \<open>
  Typed retry and effect reconciliation, \<open>src/simplicio_loop/typed_recovery.py\<close>: failure
  classes, the hash-chained recovery journal and the controller that decides, without a model,
  whether a failed attempt is retried, reconciled, replanned or reported. The journal file is the
  list of its parsed rows; the digest of a row body is the parameter \<open>h\<close> and the jitter unit is
  \<open>unit\<close>. The operation is the parameter \<open>op\<close>: what it does on each attempt. Clock readings are
  given per attempt (\<open>clock 0\<close> is the start, \<open>clock n\<close> the reading before attempt \<open>n\<close>), and \<open>stamp\<close>
  gives the time stamp of each row.
\<close>

section \<open>Failures and policy\<close>

datatype FailureClass = TRANSIENT | PERMANENT | POLICY | SEMANTIC | EFFECT_UNKNOWN

fun FailureClass_value :: "FailureClass \<Rightarrow> string" where
  "FailureClass_value TRANSIENT = ''transient''"
| "FailureClass_value PERMANENT = ''permanent''"
| "FailureClass_value POLICY = ''policy''"
| "FailureClass_value SEMANTIC = ''semantic''"
| "FailureClass_value EFFECT_UNKNOWN = ''effect_unknown''"

datatype py_exception =
    RecoveryFailure FailureClass string
  | TimeoutError | ConnectionError | PermissionError | FileNotFoundError | ValueError | TypeError
  | OtherError string

definition classify_failure :: "py_exception \<Rightarrow> FailureClass" where
  "classify_failure exc = (case exc of
     RecoveryFailure c _ \<Rightarrow> c
   | TimeoutError \<Rightarrow> TRANSIENT | ConnectionError \<Rightarrow> TRANSIENT
   | PermissionError \<Rightarrow> PERMANENT | FileNotFoundError \<Rightarrow> PERMANENT
   | ValueError \<Rightarrow> PERMANENT | TypeError \<Rightarrow> PERMANENT
   | OtherError _ \<Rightarrow> EFFECT_UNKNOWN)"

definition exception_code :: "py_exception \<Rightarrow> string" where
  \<comment> \<open>\<open>getattr(exc, "code", type(exc).__name__)\<close>\<close>
  "exception_code exc = (case exc of
     RecoveryFailure _ code \<Rightarrow> code
   | TimeoutError \<Rightarrow> ''TimeoutError'' | ConnectionError \<Rightarrow> ''ConnectionError''
   | PermissionError \<Rightarrow> ''PermissionError'' | FileNotFoundError \<Rightarrow> ''FileNotFoundError''
   | ValueError \<Rightarrow> ''ValueError'' | TypeError \<Rightarrow> ''TypeError'' | OtherError name \<Rightarrow> name)"

datatype recovery_error = BudgetNotPositive | BackoffNegative | JitterOutOfRange | InvalidJournal nat

record TypedRetryPolicy =
  tp_max_attempts :: int
  tp_max_elapsed_seconds :: rat
  tp_base_backoff_seconds :: rat
  tp_max_backoff_seconds :: rat
  tp_jitter_ratio :: rat

definition TypedRetryPolicy_post_init :: "TypedRetryPolicy \<Rightarrow> recovery_error + TypedRetryPolicy" where
  "TypedRetryPolicy_post_init p =
    (if tp_max_attempts p < 1 \<or> tp_max_elapsed_seconds p \<le> 0 then Inl BudgetNotPositive
     else if tp_base_backoff_seconds p < 0 \<or> tp_max_backoff_seconds p < 0 then Inl BackoffNegative
     else if \<not> (0 \<le> tp_jitter_ratio p \<and> tp_jitter_ratio p \<le> 1) then Inl JitterOutOfRange
     else Inr p)"

section \<open>The journal\<close>

definition RECEIPT_SCHEMA :: string where
  "RECEIPT_SCHEMA = ''simplicio.recovery-receipt/v1''"

record recovery_body =
  rw_schema :: string
  rw_sequence :: int
  rw_previous_hash :: string
  rw_event :: string
  rw_observed_at_ns :: int
  rw_payload :: "(string \<times> json) list"

record recovery_row = recovery_body +
  rw_receipt_hash :: string

abbreviation body_of :: "recovery_row \<Rightarrow> recovery_body" where
  \<comment> \<open>the row without its receipt hash\<close>
  "body_of r \<equiv> recovery_body.truncate r"

fun read_rows ::
    "(recovery_body \<Rightarrow> string) \<Rightarrow> nat \<Rightarrow> string \<Rightarrow> recovery_row list \<Rightarrow> recovery_row list
      \<Rightarrow> recovery_error + recovery_row list" where
  "read_rows h number previous rows [] = Inr rows"
| "read_rows h number previous rows (row # lines) =
    (if rw_schema row \<noteq> RECEIPT_SCHEMA \<or> rw_sequence row \<noteq> int (length rows) + 1
        \<or> rw_previous_hash row \<noteq> previous \<or> rw_receipt_hash row \<noteq> h (body_of row)
     then Inl (InvalidJournal number)
     else read_rows h (Suc number) (rw_receipt_hash row) (rows @ [row]) lines)"

definition RecoveryJournal_read ::
    "(recovery_body \<Rightarrow> string) \<Rightarrow> recovery_row list \<Rightarrow> recovery_error + recovery_row list" where
  "RecoveryJournal_read h lines = read_rows h 1 [] [] lines"

definition RecoveryJournal_append ::
    "(recovery_body \<Rightarrow> string) \<Rightarrow> recovery_row list \<Rightarrow> string \<Rightarrow> int \<Rightarrow> (string \<times> json) list
      \<Rightarrow> recovery_row list \<times> recovery_row" where
  "RecoveryJournal_append h rows event observed payload =
    (let body = \<lparr>rw_schema = RECEIPT_SCHEMA, rw_sequence = int (length rows) + 1,
           rw_previous_hash = (if rows \<noteq> [] then rw_receipt_hash (last rows) else []),
           rw_event = event, rw_observed_at_ns = observed, rw_payload = payload\<rparr>;
         row = recovery_body.extend body \<lparr>rw_receipt_hash = h body\<rparr>
     in (rows @ [row], row))"

definition RecoveryJournal_completed :: "recovery_row list \<Rightarrow> string \<Rightarrow> recovery_row option" where
  "RecoveryJournal_completed rows key =
    find (\<lambda>row. jget (rw_payload row) ''idempotency_key'' = JStr key
                \<and> rw_event row \<in> {''succeeded'', ''reconciled''}) (rev rows)"

fun fence_of :: "json \<Rightarrow> int" where
  \<comment> \<open>\<open>int(row.get("fence", 0))\<close>; the controller writes integer fences only\<close>
  "fence_of (JNum r) = \<lfloor>r\<rfloor>"
| "fence_of _ = 0"

definition RecoveryJournal_max_fence :: "recovery_row list \<Rightarrow> string \<Rightarrow> int" where
  "RecoveryJournal_max_fence rows task =
    (let fences = [fence_of (jget (rw_payload row) ''fence'').
           row \<leftarrow> rows, jget (rw_payload row) ''task_id'' = JStr task]
     in case fences of [] \<Rightarrow> 0 | f # fs \<Rightarrow> fold max fs f)"

section \<open>The controller\<close>

datatype op_outcome = OpReturned json | OpCancelled | OpRaised py_exception

datatype recovery_result =
    IdempotentReceipt recovery_row
  | ExecutionSucceeded int json recovery_row
  | ReconciliationSucceeded int recovery_row
  | BlockedEffectUnknown int recovery_row
  | ReplanRequired int recovery_row
  | FailedWith string int recovery_row
  | CancelledRaised

definition TypedRecoveryController_delay ::
    "(string \<Rightarrow> int \<Rightarrow> rat) \<Rightarrow> TypedRetryPolicy \<Rightarrow> string \<Rightarrow> int \<Rightarrow> rat" where
  "TypedRecoveryController_delay unit p task attempt =
    (let raw = min (tp_max_backoff_seconds p) (tp_base_backoff_seconds p * 2 ^ nat (max 0 (attempt - 1)))
     in if raw = 0 \<or> tp_jitter_ratio p = 0 then raw
        else raw * (1 - tp_jitter_ratio p + 2 * tp_jitter_ratio p * unit task attempt))"

definition attempt_payload :: "string \<Rightarrow> string \<Rightarrow> string \<Rightarrow> int \<Rightarrow> int \<Rightarrow> (string \<times> json) list" where
  "attempt_payload task key aid attempt fence =
    [(''task_id'', JStr task), (''idempotency_key'', JStr key), (''attempt_id'', JStr aid),
     (''attempt'', JNum (of_int attempt)), (''fence'', JNum (of_int fence))]"

definition attempt_name :: "string \<Rightarrow> int \<Rightarrow> int \<Rightarrow> string" where
  "attempt_name task attempt fence =
    task @ ''-attempt-'' @ show_int attempt @ ''-fence-'' @ show_int fence"

record recovery_env =
  re_hash :: "recovery_body \<Rightarrow> string"
  re_unit :: "string \<Rightarrow> int \<Rightarrow> rat"
  re_clock :: "nat \<Rightarrow> rat"
  re_stamp :: "nat \<Rightarrow> int"
  re_op :: "nat \<Rightarrow> op_outcome"
  re_reconcile :: "((string \<times> json) list) option"

definition log_row :: "recovery_env \<Rightarrow> recovery_row list \<Rightarrow> string \<Rightarrow> (string \<times> json) list \<Rightarrow> recovery_row list \<times> recovery_row" where
  "log_row env rows event payload =
     RecoveryJournal_append (re_hash env) rows event (re_stamp env (length rows)) payload"

fun attempt_loop ::
    "recovery_env \<Rightarrow> TypedRetryPolicy \<Rightarrow> string \<Rightarrow> string \<Rightarrow> nat \<Rightarrow> nat \<Rightarrow> int \<Rightarrow> string \<Rightarrow> nat \<Rightarrow> recovery_row list
      \<Rightarrow> nat \<times> recovery_row list \<times> recovery_result" where
  \<comment> \<open>\<open>left\<close> attempts remain, \<open>attempt\<close> is the next one; the first component of the result counts
     the calls of the operation\<close>
  "attempt_loop env p task key 0 attempt fence parent executed rows =
    (let (rows1, receipt) = log_row env rows ''budget_exhausted''
           [(''task_id'', JStr task), (''idempotency_key'', JStr key), (''attempts'', JNum (of_nat executed)),
            (''elapsed_seconds'', JNum (max 0 (re_clock env attempt - re_clock env 0)))]
     in (0, rows1, FailedWith ''retry_budget_exhausted'' (int executed) receipt))"
| "attempt_loop env p task key (Suc left) attempt fence parent executed rows =
    (let remaining = tp_max_elapsed_seconds p - (re_clock env attempt - re_clock env 0)
     in if remaining \<le> 0 then attempt_loop env p task key 0 attempt fence parent executed rows
     else
       let fence1 = fence + 1; aid = attempt_name task (int attempt) fence1;
           base = attempt_payload task key aid (int attempt) fence1;
           rows1 = fst (log_row env rows ''attempt_started'' (base @ [(''parent_attempt_id'', JStr parent)]))
       in case re_op env attempt of
            OpReturned result \<Rightarrow>
              (let (rows2, receipt) = log_row env rows1 ''succeeded'' (base @ [(''result'', result)])
               in (1, rows2, ExecutionSucceeded (int attempt) result receipt))
          | OpCancelled \<Rightarrow> (1, fst (log_row env rows1 ''cancelled'' base), CancelledRaised)
          | OpRaised exc \<Rightarrow>
              (let cls = classify_failure exc;
                   (rows2, failure) = log_row env rows1 ''attempt_failed''
                     (base @ [(''failure_class'', JStr (FailureClass_value cls)), (''code'', JStr (exception_code exc))])
               in case cls of
                    EFFECT_UNKNOWN \<Rightarrow>
                      (case re_reconcile env of
                         Some outcome \<Rightarrow>
                           if jget outcome ''committed'' = JBool True
                           then (let (rows3, receipt) = log_row env rows2 ''reconciled'' (base @ [(''effect_receipt'', JObj outcome)])
                                 in (1, rows3, ReconciliationSucceeded (int attempt) receipt))
                           else (1, rows2, BlockedEffectUnknown (int attempt) failure)
                       | None \<Rightarrow> (1, rows2, BlockedEffectUnknown (int attempt) failure))
                  | SEMANTIC \<Rightarrow> (1, rows2, ReplanRequired (int attempt) failure)
                  | PERMANENT \<Rightarrow> (1, rows2, FailedWith (FailureClass_value cls) (int attempt) failure)
                  | POLICY \<Rightarrow> (1, rows2, FailedWith (FailureClass_value cls) (int attempt) failure)
                  | TRANSIENT \<Rightarrow>
                      (if int attempt \<ge> tp_max_attempts p
                       then (case attempt_loop env p task key 0 attempt fence1 aid attempt rows2 of (n, y) \<Rightarrow> (Suc n, y))
                       else (case attempt_loop env p task key left (Suc attempt) fence1 aid attempt rows2 of
                               (n, y) \<Rightarrow> (Suc n, y)))))"

definition TypedRecoveryController_run ::
    "recovery_env \<Rightarrow> TypedRetryPolicy \<Rightarrow> recovery_row list \<Rightarrow> string \<Rightarrow> string
      \<Rightarrow> nat \<times> recovery_row list \<times> recovery_result" where
  "TypedRecoveryController_run env p rows task key =
    (case RecoveryJournal_completed rows key of
       Some prior \<Rightarrow> (0, rows, IdempotentReceipt prior)
     | None \<Rightarrow> attempt_loop env p task key (nat (tp_max_attempts p)) 1 (RecoveryJournal_max_fence rows task) [] 0 rows)"

section \<open>The hash chain\<close>

fun chain :: "(recovery_body \<Rightarrow> string) \<Rightarrow> nat \<Rightarrow> string \<Rightarrow> recovery_row list \<Rightarrow> bool" where
  "chain h k previous [] \<longleftrightarrow> True"
| "chain h k previous (row # rows) \<longleftrightarrow> rw_schema row = RECEIPT_SCHEMA \<and> rw_sequence row = int k + 1
     \<and> rw_previous_hash row = previous \<and> rw_receipt_hash row = h (body_of row)
     \<and> chain h (Suc k) (rw_receipt_hash row) rows"

lemma read_rows_conv:
  "read_rows h n previous acc rows = Inr out \<longleftrightarrow> chain h (length acc) previous rows \<and> out = acc @ rows"
proof (induction rows arbitrary: n previous acc)
  case (Cons row rows)
  show ?case using Cons.IH [of "Suc n" "rw_receipt_hash row" "acc @ [row]"] by (auto split: if_splits)
qed auto

lemma read_iff: "RecoveryJournal_read h rows = Inr rows \<longleftrightarrow> chain h 0 [] rows"
  by (simp add: RecoveryJournal_read_def read_rows_conv)

definition last_hash :: "string \<Rightarrow> recovery_row list \<Rightarrow> string" where
  "last_hash previous rows = (if rows = [] then previous else rw_receipt_hash (last rows))"

lemma chain_append:
  "chain h k previous (xs @ ys) \<longleftrightarrow> chain h k previous xs \<and> chain h (k + length xs) (last_hash previous xs) ys"
  by (induction xs arbitrary: k previous) (auto simp: last_hash_def)

lemma append_chain:
  assumes "chain h 0 [] rows" and "RecoveryJournal_append h rows event observed payload = (rows', row)"
  shows "chain h 0 [] rows'" "rows' = rows @ [row]" "rw_event row = event" "rw_payload row = payload"
  using assms
  by (auto simp: RecoveryJournal_append_def Let_def chain_append last_hash_def recovery_body.defs)

lemma truncate_inject:
  "body_of x = body_of y \<Longrightarrow> rw_receipt_hash x = rw_receipt_hash y \<Longrightarrow> x = y" for x y :: recovery_row
  by (cases x; cases y) (simp add: recovery_body.defs)

lemma chain_linked:
  "chain h k previous rows \<Longrightarrow> linked rw_receipt_hash rw_previous_hash (\<lambda>r. nat (rw_sequence r)) previous (Suc k) rows
     \<and> (\<forall>r \<in> set rows. rw_receipt_hash r = h (body_of r))"
  by (induction h k previous rows rule: chain.induct) (auto simp: nat_add_distrib)

interpretation recovery_chain: hash_chain "\<lambda>rows. RecoveryJournal_read h rows = Inr rows" h body_of rw_receipt_hash rw_previous_hash
    "\<lambda>r. nat (rw_sequence r)" "[]" for h
  by unfold_locales (use chain_linked in \<open>fastforce simp: read_iff\<close>, use chain_linked in \<open>fastforce simp: read_iff\<close>, rule truncate_inject)

section \<open>Fences and completion\<close>

lemma max_fence_snoc:
  assumes "0 \<le> RecoveryJournal_max_fence rows task" and "0 \<le> fence_of (jget (rw_payload row) ''fence'')"
    and "jget (rw_payload row) ''task_id'' = JStr task"
  shows "RecoveryJournal_max_fence (rows @ [row]) task
    = max (RecoveryJournal_max_fence rows task) (fence_of (jget (rw_payload row) ''fence''))"
proof -
  define fences where "fences = (\<lambda>rows. [fence_of (jget (rw_payload row) ''fence'').
      row \<leftarrow> rows :: recovery_row list, jget (rw_payload row) ''task_id'' = JStr task])"
  have m: "RecoveryJournal_max_fence xs task = (case fences xs of [] \<Rightarrow> 0 | f # fs \<Rightarrow> fold max fs f)" for xs
    by (simp add: RecoveryJournal_max_fence_def fences_def)
  have "fences (rows @ [row]) = fences rows @ [fence_of (jget (rw_payload row) ''fence'')]"
    using assms(3) by (simp add: fences_def)
  then show ?thesis
    using assms(1,2) unfolding m by (cases "fences rows") (simp_all add: max.commute)
qed

lemma log_row_facts:
  assumes "log_row env rows event payload = (rows', row)"
  shows "rows' = rows @ [row]" "rw_event row = event" "rw_payload row = payload"
    "chain (re_hash env) 0 [] rows \<Longrightarrow> chain (re_hash env) 0 [] rows'"
proof -
  have a: "RecoveryJournal_append (re_hash env) rows event (re_stamp env (length rows)) payload = (rows', row)"
    using assms by (simp add: log_row_def)
  then show "rows' = rows @ [row]" "rw_event row = event" "rw_payload row = payload"
    by (auto simp: RecoveryJournal_append_def Let_def recovery_body.defs)
  show "chain (re_hash env) 0 [] rows \<Longrightarrow> chain (re_hash env) 0 [] rows'" using append_chain(1) [OF _ a] .
qed

definition grown :: "recovery_env \<Rightarrow> string \<Rightarrow> int \<Rightarrow> recovery_row list \<Rightarrow> recovery_row list \<Rightarrow> bool" where
  \<comment> \<open>\<open>rows'\<close> extends \<open>rows\<close>, keeps the chain, and its largest fence for the task is \<open>f\<close>\<close>
  "grown env task f rows rows' \<longleftrightarrow> (\<exists>new. rows' = rows @ new)
     \<and> (chain (re_hash env) 0 [] rows \<longrightarrow> chain (re_hash env) 0 [] rows')
     \<and> RecoveryJournal_max_fence rows' task = f"

lemma grown_log:
  assumes "log_row env rows event payload = (rows', row)" and "RecoveryJournal_max_fence rows task = f" and "0 \<le> f"
    and "jget payload ''task_id'' = JStr task" and "fence_of (jget payload ''fence'') \<in> {0..f} \<or> fence_of (jget payload ''fence'') = f + 1"
  shows "grown env task (max f (fence_of (jget payload ''fence''))) rows rows'"
  using log_row_facts [OF assms(1)] assms(2-5) max_fence_snoc [of rows task row] by (auto simp: grown_def)

lemma grown_trans: "grown env task f rows rows1 \<Longrightarrow> grown env task f' rows1 rows2 \<Longrightarrow> grown env task f' rows rows2"
  by (auto simp: grown_def)

lemma completed_snoc:
  "jget (rw_payload row) ''idempotency_key'' = JStr key \<Longrightarrow> rw_event row \<in> {''succeeded'', ''reconciled''} \<Longrightarrow>
    RecoveryJournal_completed (rows @ [row]) key = Some row"
  by (simp add: RecoveryJournal_completed_def)

lemma attempt_payload_get [simp]:
  "jget (attempt_payload task key aid n f @ xs) ''task_id'' = JStr task"
  "jget (attempt_payload task key aid n f @ xs) ''idempotency_key'' = JStr key"
  "jget (attempt_payload task key aid n f @ xs) ''fence'' = JNum (of_int f)"
  "jget (attempt_payload task key aid n f) ''task_id'' = JStr task"
  "jget (attempt_payload task key aid n f) ''fence'' = JNum (of_int f)"
  by (simp_all add: attempt_payload_def jget_def)

fun success_receipt :: "recovery_result \<Rightarrow> recovery_row option" where
  "success_receipt (IdempotentReceipt r) = Some r"
| "success_receipt (ExecutionSucceeded n v r) = Some r"
| "success_receipt (ReconciliationSucceeded n r) = Some r"
| "success_receipt _ = None"

section \<open>The attempt loop\<close>

definition loop_ok ::
    "recovery_env \<Rightarrow> string \<Rightarrow> string \<Rightarrow> nat \<Rightarrow> nat \<Rightarrow> int \<Rightarrow> recovery_row list \<Rightarrow> nat \<times> recovery_row list \<times> recovery_result \<Rightarrow> bool" where
  "loop_ok env task key left attempt fence rows out \<longleftrightarrow> (case out of (n, rows', res) \<Rightarrow>
     n \<le> left \<and> grown env task (fence + int n) rows rows'
     \<and> (\<forall>i. i + 1 < n \<longrightarrow> (\<exists>exc. re_op env (attempt + i) = OpRaised exc \<and> classify_failure exc = TRANSIENT))
     \<and> (\<forall>r. success_receipt res = Some r \<longrightarrow> RecoveryJournal_completed rows' key = Some r))"

lemma exhausted_ok:
  assumes "RecoveryJournal_max_fence rows task = fence" and "0 \<le> fence"
  shows "loop_ok env task key left attempt fence rows (attempt_loop env p task key 0 a f parent executed rows)"
proof -
  let ?p = "[(''task_id'', JStr task), (''idempotency_key'', JStr key), (''attempts'', JNum (of_nat executed)),
            (''elapsed_seconds'', JNum (max 0 (re_clock env a - re_clock env 0)))]"
  obtain rows1 row where l: "log_row env rows ''budget_exhausted'' ?p = (rows1, row)"
    by (cases "log_row env rows ''budget_exhausted'' ?p")
  have "grown env task (max fence (fence_of (jget ?p ''fence''))) rows rows1"
    by (rule grown_log [OF l assms]) (use assms(2) in \<open>simp_all add: jget_def\<close>)
  then show ?thesis using l assms(2) by (simp add: loop_ok_def jget_def)
qed

lemma one_call_ok:
  assumes "grown env task (fence + 1) rows rows'"
    and "\<And>r. success_receipt res = Some r \<Longrightarrow> RecoveryJournal_completed rows' key = Some r"
  shows "loop_ok env task key (Suc left) attempt fence rows (1, rows', res)"
  using assms by (simp add: loop_ok_def)

lemma later_call_ok:
  assumes "grown env task (fence + 1) rows rows1" and "re_op env attempt = OpRaised exc" and "classify_failure exc = TRANSIENT"
    and "loop_ok env task key left (Suc attempt) (fence + 1) rows1 out"
  shows "loop_ok env task key (Suc left) attempt fence rows (case out of (n, y) \<Rightarrow> (Suc n, y))"
proof -
  obtain n rows' res where out: "out = (n, rows', res)" by (cases out)
  have o: "n \<le> left" "grown env task (fence + 1 + int n) rows1 rows'"
    "\<And>i. i + 1 < n \<Longrightarrow> \<exists>exc. re_op env (Suc attempt + i) = OpRaised exc \<and> classify_failure exc = TRANSIENT"
    "\<And>r. success_receipt res = Some r \<Longrightarrow> RecoveryJournal_completed rows' key = Some r"
    using assms(4) by (auto simp: loop_ok_def out)
  have "\<exists>exc. re_op env (attempt + i) = OpRaised exc \<and> classify_failure exc = TRANSIENT" if "i + 1 < Suc n" for i
    using that assms(2,3) o(3) [of "i - 1"] by (cases i) auto
  then show ?thesis
    using o(1,4) grown_trans [OF assms(1) o(2)] by (simp add: loop_ok_def out add.assoc)
qed

lemma attempt_loop_ok:
  assumes "RecoveryJournal_max_fence rows task = fence" and "0 \<le> fence"
  shows "loop_ok env task key left attempt fence rows (attempt_loop env p task key left attempt fence parent executed rows)"
  using assms
proof (induction left arbitrary: attempt fence parent executed rows)
  case 0
  then show ?case by (rule exhausted_ok)
next
  case (Suc left)
  show ?case
  proof (cases "tp_max_elapsed_seconds p - (re_clock env attempt - re_clock env 0) \<le> 0")
    case True
    then show ?thesis using exhausted_ok [OF Suc.prems] by (simp del: attempt_loop.simps(1))
  next
    case False
    define aid where "aid = attempt_name task (int attempt) (fence + 1)"
    define base where "base = attempt_payload task key aid (int attempt) (fence + 1)"
    obtain rows1 row1 where l1: "log_row env rows ''attempt_started'' (base @ [(''parent_attempt_id'', JStr parent)]) = (rows1, row1)"
      by (cases "log_row env rows ''attempt_started'' (base @ [(''parent_attempt_id'', JStr parent)])")
    have g1: "grown env task (fence + 1) rows rows1"
      using grown_log [OF l1 Suc.prems] Suc.prems(2) by (simp add: base_def)
    then have f1: "RecoveryJournal_max_fence rows1 task = fence + 1" by (simp add: grown_def)
    have more: "grown env task (fence + 1) r0 rows2"
      if "log_row env r0 ev (base @ xs) = (rows2, row2)" "RecoveryJournal_max_fence r0 task = fence + 1" for r0 ev xs rows2 row2
      using grown_log [OF that] Suc.prems(2) by (simp add: base_def)
    show ?thesis
    proof (cases "re_op env attempt")
      case (OpReturned v)
      obtain rows2 row2 where l2: "log_row env rows1 ''succeeded'' (base @ [(''result'', v)]) = (rows2, row2)"
        by (cases "log_row env rows1 ''succeeded'' (base @ [(''result'', v)])")
      have "RecoveryJournal_completed rows2 key = Some row2"
        using log_row_facts [OF l2] completed_snoc [of row2 key rows1] by (simp add: base_def)
      then have "loop_ok env task key (Suc left) attempt fence rows (1, rows2, ExecutionSucceeded (int attempt) v row2)"
        using grown_trans [OF g1 more [OF l2 f1]] by (intro one_call_ok) simp_all
      then show ?thesis
        using False OpReturned l1 l2 by (simp add: Let_def aid_def [symmetric] base_def [symmetric])
    next
      case OpCancelled
      obtain rows2 row2 where l2: "log_row env rows1 ''cancelled'' (base @ []) = (rows2, row2)"
        by (cases "log_row env rows1 ''cancelled'' (base @ [])")
      have "loop_ok env task key (Suc left) attempt fence rows (1, rows2, CancelledRaised)"
        using grown_trans [OF g1 more [OF l2 f1]] by (intro one_call_ok) simp_all
      then show ?thesis
        using False OpCancelled l1 l2 by (simp add: Let_def aid_def [symmetric] base_def [symmetric])
    next
      case (OpRaised exc)
      define fl where "fl = [(''failure_class'', JStr (FailureClass_value (classify_failure exc))), (''code'', JStr (exception_code exc))]"
      obtain rows2 row2 where l2: "log_row env rows1 ''attempt_failed'' (base @ fl) = (rows2, row2)"
        by (cases "log_row env rows1 ''attempt_failed'' (base @ fl)")
      have g2: "grown env task (fence + 1) rows rows2" by (rule grown_trans [OF g1 more [OF l2 f1]])
      then have f2: "RecoveryJournal_max_fence rows2 task = fence + 1" by (simp add: grown_def)
      have f0: "0 \<le> fence + 1" using Suc.prems(2) by simp
      have eq: "attempt_loop env p task key (Suc left) attempt fence parent executed rows =
        (case classify_failure exc of
           EFFECT_UNKNOWN \<Rightarrow>
             (case re_reconcile env of
                Some outcome \<Rightarrow>
                  if jget outcome ''committed'' = JBool True
                  then (let (rows3, receipt) = log_row env rows2 ''reconciled'' (base @ [(''effect_receipt'', JObj outcome)])
                        in (1, rows3, ReconciliationSucceeded (int attempt) receipt))
                  else (1, rows2, BlockedEffectUnknown (int attempt) row2)
              | None \<Rightarrow> (1, rows2, BlockedEffectUnknown (int attempt) row2))
         | SEMANTIC \<Rightarrow> (1, rows2, ReplanRequired (int attempt) row2)
         | PERMANENT \<Rightarrow> (1, rows2, FailedWith (FailureClass_value (classify_failure exc)) (int attempt) row2)
         | POLICY \<Rightarrow> (1, rows2, FailedWith (FailureClass_value (classify_failure exc)) (int attempt) row2)
         | TRANSIENT \<Rightarrow>
             (if int attempt \<ge> tp_max_attempts p
              then (case attempt_loop env p task key 0 attempt (fence + 1) aid attempt rows2 of (n, y) \<Rightarrow> (Suc n, y))
              else (case attempt_loop env p task key left (Suc attempt) (fence + 1) aid attempt rows2 of
                      (n, y) \<Rightarrow> (Suc n, y))))"
        unfolding attempt_loop.simps(2) Let_def aid_def [symmetric] base_def [symmetric] fl_def [symmetric] l1 OpRaised
          op_outcome.case fst_conv l2 prod.case
        using False by (simp del: attempt_loop.simps)
      have stop: "loop_ok env task key (Suc left) attempt fence rows (1, rows2, res)" if "success_receipt res = None" for res
        using that by (intro one_call_ok [OF g2]) simp
      show ?thesis
      proof (cases "classify_failure exc")
        case TRANSIENT
        then show ?thesis
          using later_call_ok [OF g2 OpRaised TRANSIENT exhausted_ok [OF f2 f0]]
            later_call_ok [OF g2 OpRaised TRANSIENT Suc.IH [OF f2 f0]]
          unfolding eq by (simp del: attempt_loop.simps)
      next
        case EFFECT_UNKNOWN
        show ?thesis
        proof (cases "\<exists>o'. re_reconcile env = Some o' \<and> jget o' ''committed'' = JBool True")
          case True
          then obtain o' where o': "re_reconcile env = Some o'" "jget o' ''committed'' = JBool True" by blast
          obtain rows3 row3 where l3: "log_row env rows2 ''reconciled'' (base @ [(''effect_receipt'', JObj o')]) = (rows3, row3)"
            by (cases "log_row env rows2 ''reconciled'' (base @ [(''effect_receipt'', JObj o')])")
          have "RecoveryJournal_completed rows3 key = Some row3"
            using log_row_facts [OF l3] completed_snoc [of row3 key rows2] by (simp add: base_def)
          then have "loop_ok env task key (Suc left) attempt fence rows (1, rows3, ReconciliationSucceeded (int attempt) row3)"
            using grown_trans [OF g2 more [OF l3 f2]] by (intro one_call_ok) simp_all
          then show ?thesis unfolding eq using EFFECT_UNKNOWN o' l3 by simp
        next
          case False
          then show ?thesis unfolding eq using EFFECT_UNKNOWN stop by (auto split: option.splits)
        qed
      qed (use stop in \<open>simp_all add: eq del: attempt_loop.simps\<close>)
    qed
  qed
qed

section \<open>Properties\<close>

definition demo_env :: "(nat \<Rightarrow> op_outcome) \<Rightarrow> recovery_env" where
  "demo_env op = \<lparr>re_hash = (\<lambda>b. show_int (rw_sequence b) @ rw_event b), re_unit = (\<lambda>_ _. 1 / 2),
     re_clock = of_nat, re_stamp = int, re_op = op, re_reconcile = None\<rparr>"

definition demo_retry_policy :: TypedRetryPolicy where
  "demo_retry_policy = \<lparr>tp_max_attempts = 3, tp_max_elapsed_seconds = 30, tp_base_backoff_seconds = 1,
     tp_max_backoff_seconds = 5, tp_jitter_ratio = 0\<rparr>"

definition demo_flaky :: "nat \<Rightarrow> op_outcome" where
  "demo_flaky n = (if n < 2 then OpRaised TimeoutError else OpReturned (JStr ''done''))"

definition demo_run :: "nat \<times> recovery_row list \<times> recovery_result" where
  "demo_run = TypedRecoveryController_run (demo_env demo_flaky) demo_retry_policy [] ''t'' ''k''"

text \<open>The journal is tamper evident. If the digest does not collide on the row bodies involved, two
  non-empty journals that the reader accepts and that end in the same receipt hash are the same
  journal: no row can be changed, dropped, inserted or reordered without changing the last hash.\<close>

lemma recovery_journal_tamper_evident:
  assumes "RecoveryJournal_read h xs = Inr xs" and "RecoveryJournal_read h ys = Inr ys"
    and "xs \<noteq> []" and "ys \<noteq> []" and "rw_receipt_hash (last xs) = rw_receipt_hash (last ys)"
    and "inj_on h (body_of ` (set xs \<union> set ys))"
  shows "xs = ys"
  by (rule recovery_chain.same_head [OF assms])

lemma recovery_journal_tamper_evident_example:
  "fst (RecoveryJournal_append (re_hash (demo_env demo_flaky)) [] ''cancelled'' 7 [(''fence'', JNum 1)])
    = [\<lparr>rw_schema = ''simplicio.recovery-receipt/v1'', rw_sequence = 1, rw_previous_hash = [],
        rw_event = ''cancelled'', rw_observed_at_ns = 7, rw_payload = [(''fence'', JNum 1)],
        rw_receipt_hash = ''1cancelled''\<rparr>]" (is "?xs = ?ys")
proof (rule recovery_journal_tamper_evident [of "re_hash (demo_env demo_flaky)"])
  show "RecoveryJournal_read (re_hash (demo_env demo_flaky)) ?xs = Inr ?xs" by code_simp
  show "RecoveryJournal_read (re_hash (demo_env demo_flaky)) ?ys = Inr ?ys" by code_simp
  show "rw_receipt_hash (last ?xs) = rw_receipt_hash (last ?ys)" by code_simp
  have b: "body_of ` (set ?xs \<union> set ?ys) = {body_of (hd ?ys)}"
    by (simp add: RecoveryJournal_append_def Let_def recovery_body.defs RECEIPT_SCHEMA_def)
  show "inj_on (re_hash (demo_env demo_flaky)) (body_of ` (set ?xs \<union> set ?ys))"
    unfolding b by (simp add: inj_on_def)
qed (simp_all add: RecoveryJournal_append_def Let_def)

text \<open>A run is bounded, retries only transient failures, and keeps the journal sound. It calls the
  operation at most \<open>max_attempts\<close> times, every call but the last having failed transiently; it
  only appends to the journal, which stays acceptable to the reader; and the largest fence the
  journal holds for the task grows by exactly one per call, so fences are never reused.\<close>

lemma recovery_run_bounded:
  assumes "RecoveryJournal_completed rows key = None" and "0 \<le> RecoveryJournal_max_fence rows task"
    and "RecoveryJournal_read (re_hash env) rows = Inr rows"
    and "TypedRecoveryController_run env p rows task key = (n, rows', res)"
  shows "int n \<le> max 0 (tp_max_attempts p)
    \<and> (\<forall>i. 1 \<le> i \<and> i < n \<longrightarrow> (\<exists>exc. re_op env i = OpRaised exc \<and> classify_failure exc = TRANSIENT))
    \<and> (\<exists>new. rows' = rows @ new) \<and> RecoveryJournal_read (re_hash env) rows' = Inr rows'
    \<and> RecoveryJournal_max_fence rows' task = RecoveryJournal_max_fence rows task + int n"
proof -
  have "loop_ok env task key (nat (tp_max_attempts p)) 1 (RecoveryJournal_max_fence rows task) rows (n, rows', res)"
    using attempt_loop_ok [OF refl assms(2), of env key "nat (tp_max_attempts p)" 1 p "[]" 0] assms(1,4)
    by (simp add: TypedRecoveryController_run_def)
  then have o: "n \<le> nat (tp_max_attempts p)" "grown env task (RecoveryJournal_max_fence rows task + int n) rows rows'"
    "\<And>i. i + 1 < n \<Longrightarrow> \<exists>exc. re_op env (1 + i) = OpRaised exc \<and> classify_failure exc = TRANSIENT"
    by (auto simp: loop_ok_def)
  have "\<exists>exc. re_op env i = OpRaised exc \<and> classify_failure exc = TRANSIENT" if "1 \<le> i" "i < n" for i
    using o(3) [of "i - 1"] that by simp
  then show ?thesis using o(1,2) assms(3) by (auto simp: grown_def read_iff)
qed

lemma recovery_run_bounded_example:
  "fst demo_run = 2 \<and> RecoveryJournal_max_fence (fst (snd demo_run)) ''t'' = 2"
proof -
  have n: "fst demo_run = 2" by code_simp
  have "RecoveryJournal_completed [] ''k'' = None" "0 \<le> RecoveryJournal_max_fence [] ''t''"
    "RecoveryJournal_read (re_hash (demo_env demo_flaky)) [] = Inr []"
    by (simp_all add: RecoveryJournal_completed_def RecoveryJournal_max_fence_def RecoveryJournal_read_def)
  from recovery_run_bounded [OF this, of demo_retry_policy "fst demo_run" "fst (snd demo_run)" "snd (snd demo_run)"]
  show ?thesis using n by (simp add: demo_run_def RecoveryJournal_max_fence_def)
qed

text \<open>C12: effects happen at most once per idempotency key. Once a run has succeeded, by execution or by
  reconciliation, any later run with the same key on the journal it left, or on any journal that
  appends rows of other keys to it, calls the operation zero times, leaves the journal as it is
  and answers with the recorded receipt.\<close>

theorem recovery_exactly_once:
  assumes "0 \<le> RecoveryJournal_max_fence rows task"
    and "TypedRecoveryController_run env p rows task key = (n, rows', res)" and "success_receipt res = Some receipt"
    and "\<forall>row \<in> set later. jget (rw_payload row) ''idempotency_key'' \<noteq> JStr key"
  shows "TypedRecoveryController_run env2 p2 (rows' @ later) task2 key = (0, rows' @ later, IdempotentReceipt receipt)"
proof -
  have c: "RecoveryJournal_completed rows' key = Some receipt"
  proof (cases "RecoveryJournal_completed rows key")
    case (Some prior)
    then show ?thesis using assms(2,3) by (auto simp: TypedRecoveryController_run_def)
  next
    case None
    then show ?thesis
      using attempt_loop_ok [OF refl assms(1), of env key "nat (tp_max_attempts p)" 1 p "[]" 0] assms(2,3)
      by (simp add: TypedRecoveryController_run_def loop_ok_def)
  qed
  have skip: "find P (ys @ zs) = find P zs" if "\<forall>y \<in> set ys. \<not> P y" for P :: "recovery_row \<Rightarrow> bool" and ys zs
    using that by (induction ys) auto
  have "RecoveryJournal_completed (rows' @ later) key = Some receipt"
    using c assms(4) unfolding RecoveryJournal_completed_def rev_append by (subst skip) auto
  then show ?thesis by (simp add: TypedRecoveryController_run_def)
qed

theorem recovery_exactly_once_witness:
  "\<exists>receipt. TypedRecoveryController_run (demo_env demo_flaky) demo_retry_policy (fst (snd demo_run)) ''t'' ''k''
     = (0, fst (snd demo_run), IdempotentReceipt receipt)"
proof -
  have "success_receipt (snd (snd demo_run)) \<noteq> None" by code_simp
  then obtain receipt where s: "success_receipt (snd (snd demo_run)) = Some receipt" by blast
  have "TypedRecoveryController_run (demo_env demo_flaky) demo_retry_policy [] ''t'' ''k''
      = (fst demo_run, fst (snd demo_run), snd (snd demo_run))" by (simp add: demo_run_def)
  from recovery_exactly_once [OF _ this s, of "[]"] show ?thesis by (auto simp: RecoveryJournal_max_fence_def)
qed

end
