(* ===== verification/Technical_Debt.thy ===== *)
theory Technical_Debt
  imports Loop_Prelude
begin

text \<open>
  Technical-debt notices (\<open>technical_debt.py\<close>): the allow-list of degradations and the list of hard
  blockers, the validated notice, and the run directory that stores notices twice, in a compact
  index and in an append-only ledger from which a lost index is rebuilt.

  A file is missing, unreadable, or has a content; a ledger line that is no notice object is
  \<open>None\<close>. The digest of the fingerprint text and the timestamps are parameters; one timestamp stands for the
  clock readings within one operation.
\<close>

section \<open>Reason codes\<close>

definition DEBT_STATUSES :: "string list" where
  "DEBT_STATUSES = [''OPEN'', ''ACKNOWLEDGED'', ''RESOLVED'']"

definition SEVERITIES :: "string list" where
  "SEVERITIES = [''low'', ''medium'', ''high'']"

definition NON_BLOCKING_REASON_CODES :: "string list" where
  "NON_BLOCKING_REASON_CODES = [''fanout_disabled'', ''fanout_adapter_unavailable'',
     ''fanout_serial_fallback'', ''not_git_checkout'', ''missing_plan_targets'',
     ''overlapping_task_impacts'', ''worktree_adapter_unavailable'', ''worktree_preflight_failed'',
     ''optional_capability_unavailable'', ''telemetry_degraded'', ''reporting_degraded'',
     ''quarantined_item'']"

definition HARD_BLOCKER_REASON_CODES :: "string list" where
  "HARD_BLOCKER_REASON_CODES = [''hard_constraint_violation'', ''budget_exhausted'', ''source_drift'',
     ''mutation_authority_invalid'', ''planning_not_ready'', ''stale_fence'', ''invalid_receipt'',
     ''receipt_invalid'', ''privacy_violation'', ''unauthorized'', ''safety_violation'',
     ''mandatory_quality_failed'', ''network_paused'', ''remote_worker_timeout'']"

definition is_hard_blocker :: "string \<Rightarrow> bool" where
  "is_hard_blocker reason_code \<longleftrightarrow> strip reason_code \<in> set HARD_BLOCKER_REASON_CODES"

definition is_non_blocking_reason :: "string \<Rightarrow> bool" where
  "is_non_blocking_reason reason_code \<longleftrightarrow> strip reason_code \<in> set NON_BLOCKING_REASON_CODES"

lemma reason_codes_disjoint: "is_non_blocking_reason c \<Longrightarrow> \<not> is_hard_blocker c"
proof -
  have "\<forall>r \<in> set NON_BLOCKING_REASON_CODES. r \<notin> set HARD_BLOCKER_REASON_CODES" by code_simp
  then show "is_non_blocking_reason c \<Longrightarrow> \<not> is_hard_blocker c"
    by (auto simp: is_hard_blocker_def is_non_blocking_reason_def)
qed

section \<open>Notices\<close>

record notice =
  dn_debt_id :: string
  dn_fingerprint :: string
  dn_run_id :: string
  dn_work_item_id :: string
  dn_scope :: string
  dn_stage :: string
  dn_source :: string
  dn_reason_code :: string
  dn_severity :: string
  dn_message :: string
  dn_next_action :: string
  dn_blocking :: bool
  dn_status :: string
  dn_receipt :: string
  dn_first_seen :: string
  dn_last_seen :: string
  dn_occurrences :: int

record notice_args =
  na_run_id :: string
  na_reason_code :: string
  na_stage :: string
  na_source :: string
  na_message :: string
  na_next_action :: string
  na_work_item_id :: string
  na_severity :: string
  na_scope :: string
  na_receipt :: string

datatype debt_error = ReasonCodeRequired | HardBlockerNotDebt string | MustNotBlock | BadSeverity

definition fingerprint :: "(string \<Rightarrow> string) \<Rightarrow> string \<Rightarrow> string \<Rightarrow> string \<Rightarrow> string \<Rightarrow> string \<Rightarrow> string" where
  "fingerprint sha reason_code stage source work_item_id scope =
    sha (strip reason_code @ ''|'' @ strip stage @ ''|'' @ strip source @ ''|''
         @ strip work_item_id @ ''|'' @ strip scope)"

definition build_notice ::
    "(string \<Rightarrow> string) \<Rightarrow> string \<Rightarrow> notice_args \<Rightarrow> bool \<Rightarrow> string option \<Rightarrow> debt_error + notice" where
  "build_notice sha now a blocking observed_at =
    (let code = strip (na_reason_code a)
     in if code = [] then Inl ReasonCodeRequired
        else if is_hard_blocker code then Inl (HardBlockerNotDebt code)
        else if blocking then Inl MustNotBlock
        else if na_severity a \<notin> set SEVERITIES then Inl BadSeverity
        else
          let fp = fingerprint sha code (na_stage a) (na_source a) (na_work_item_id a) (na_scope a);
              timestamp = (case observed_at of Some t \<Rightarrow> (if t = [] then now else t) | None \<Rightarrow> now)
          in Inr \<lparr>dn_debt_id = ''debt-'' @ take 16 fp, dn_fingerprint = fp, dn_run_id = na_run_id a,
               dn_work_item_id = na_work_item_id a,
               dn_scope = (if na_scope a = [] then ''run'' else na_scope a),
               dn_stage = na_stage a, dn_source = na_source a, dn_reason_code = code,
               dn_severity = na_severity a, dn_message = na_message a, dn_next_action = na_next_action a,
               dn_blocking = False, dn_status = ''OPEN'', dn_receipt = na_receipt a,
               dn_first_seen = timestamp, dn_last_seen = timestamp, dn_occurrences = 1\<rparr>)"

section \<open>The run directory\<close>

datatype 'a doc = Missing | Corrupt | Content 'a

record run_state =
  rs_technical_debts :: "notice list"
  rs_phase :: "string option"
  rs_run_id :: string
  rs_degraded :: bool

record debt_event =
  de_phase :: string
  de_run_id :: string
  de_task_id :: string
  de_reason_code :: string
  de_technical_debt :: notice
  de_receipt :: string
  de_ts :: string

record run_dir =
  rd_index :: "(string, notice) dict doc"
  rd_ledger :: "notice option list"
  rd_state :: "run_state doc"
  rd_events :: "debt_event list"

definition replay_ledger :: "notice option list \<Rightarrow> (string, notice) dict" where
  "replay_ledger lines = fold (\<lambda>line recovered. case line of
       None \<Rightarrow> recovered
     | Some item \<Rightarrow> if dn_fingerprint item = [] then recovered
                    else dict_set recovered (dn_fingerprint item) item) lines []"

definition read_index :: "run_dir \<Rightarrow> (string, notice) dict" where
  "read_index rdir = (case rd_index rdir of Content d \<Rightarrow> d | _ \<Rightarrow> replay_ledger (rd_ledger rdir))"

definition append_observation :: "notice \<Rightarrow> run_dir \<Rightarrow> run_dir" where
  "append_observation n rdir = rdir\<lparr>rd_ledger := rd_ledger rdir @ [Some n]\<rparr>"

definition empty_state :: run_state where
  "empty_state = \<lparr>rs_technical_debts = [], rs_phase = None, rs_run_id = [], rs_degraded = False\<rparr>"

definition merge_observation :: "string \<Rightarrow> notice_args \<Rightarrow> notice \<Rightarrow> notice" where
  \<comment> \<open>the notice written for a fingerprint that was seen before\<close>
  "merge_observation now a previous = previous
     \<lparr>dn_last_seen := now,
      dn_occurrences := (if dn_occurrences previous = 0 then 1 else dn_occurrences previous) + 1,
      dn_status := (if dn_status previous \<in> set DEBT_STATUSES then dn_status previous else ''OPEN''),
      dn_message := (if na_message a \<noteq> [] then na_message a else dn_message previous),
      dn_next_action := (if na_next_action a \<noteq> [] then na_next_action a else dn_next_action previous)\<rparr>"

definition project_state :: "string \<Rightarrow> notice_args \<Rightarrow> notice \<Rightarrow> run_state \<Rightarrow> run_dir \<Rightarrow> run_dir" where
  \<comment> \<open>the update of \<open>state.json\<close> and the progress event\<close>
  "project_state now a n st rdir =
    (let debts = filter (\<lambda>i. dn_fingerprint i \<noteq> dn_fingerprint n) (rs_technical_debts st) @ [n];
         st' = st\<lparr>rs_technical_debts := debts,
                   rs_degraded := (if rs_phase st \<noteq> Some ''blocked'' then True else rs_degraded st)\<rparr>;
         event = \<lparr>de_phase = (case rs_phase st of None \<Rightarrow> ''executing'' | Some p \<Rightarrow> p),
                  de_run_id = (if na_run_id a \<noteq> [] then na_run_id a else rs_run_id st),
                  de_task_id = na_work_item_id a, de_reason_code = dn_reason_code n,
                  de_technical_debt = n, de_receipt = na_receipt a, de_ts = now\<rparr>
     in rdir\<lparr>rd_state := Content st', rd_events := rd_events rdir @ [event]\<rparr>)"

definition record_notice ::
    "(string \<Rightarrow> string) \<Rightarrow> string \<Rightarrow> notice_args \<Rightarrow> run_dir \<Rightarrow> run_dir \<times> (debt_error + notice)" where
  "record_notice sha now a rdir =
    (case build_notice sha now a False None of
       Inl e \<Rightarrow> (rdir, Inl e)
     | Inr fresh \<Rightarrow>
         let index = read_index rdir;
             n = (case dict_get index (dn_fingerprint fresh) of
                    None \<Rightarrow> fresh | Some previous \<Rightarrow> merge_observation now a previous);
             rdir1 = append_observation n rdir;
             rdir2 = rdir1\<lparr>rd_index := Content (dict_set index (dn_fingerprint n) n)\<rparr>;
             rdir3 = (case rd_state rdir2 of
                        Missing \<Rightarrow> rdir2
                      | Corrupt \<Rightarrow> project_state now a n empty_state rdir2
                      | Content st \<Rightarrow> project_state now a n st rdir2)
         in (rdir3, Inr n))"

definition read_notices :: "run_dir \<Rightarrow> string option \<Rightarrow> notice list" where
  "read_notices rdir status =
    (let notices = dict_values (read_index rdir);
         kept = (case status of None \<Rightarrow> notices
                 | Some s \<Rightarrow> if s = [] then notices else filter (\<lambda>n. dn_status n = s) notices)
     in sort_key (\<lambda>n. (dn_first_seen n, dn_debt_id n)) kept)"

record debt_summary =
  ds_count :: nat
  ds_open_count :: nat
  ds_blocking_count :: nat
  ds_by_severity :: "(string, nat) dict"

definition summarize_notices :: "notice list \<Rightarrow> debt_summary" where
  "summarize_notices rows =
    (let open_rows = filter (\<lambda>n. dn_status n \<in> {''OPEN'', ''ACKNOWLEDGED''}) rows
     in \<lparr>ds_count = length rows, ds_open_count = length open_rows,
         ds_blocking_count = length (filter dn_blocking rows),
         ds_by_severity = map (\<lambda>s. (s, length (filter (\<lambda>n. dn_severity n = s) open_rows))) SEVERITIES\<rparr>)"

section \<open>The index and the ledger agree\<close>

fun observe_all :: "(string \<Rightarrow> string) \<Rightarrow> (string \<times> notice_args) list \<Rightarrow> run_dir \<Rightarrow> run_dir" where
  "observe_all sha [] rdir = rdir"
| "observe_all sha ((now, a) # obs) rdir = observe_all sha obs (fst (record_notice sha now a rdir))"

definition fresh_dir :: "run_state doc \<Rightarrow> run_dir" where
  "fresh_dir st = \<lparr>rd_index = Missing, rd_ledger = [], rd_state = st, rd_events = []\<rparr>"

definition seen :: "string \<Rightarrow> notice option list \<Rightarrow> nat" where
  "seen fp lines = length (filter (\<lambda>l. case l of None \<Rightarrow> False | Some n \<Rightarrow> dn_fingerprint n = fp) lines)"

lemma seen_simps [simp]:
  "seen fp [] = 0"
  "seen fp (lines @ [Some n]) = seen fp lines + (if dn_fingerprint n = fp then 1 else 0)"
  by (simp_all add: seen_def)

definition notice_ok :: "string \<Rightarrow> notice option list \<Rightarrow> notice \<Rightarrow> bool" where
  "notice_ok fp lines n \<longleftrightarrow> dn_fingerprint n = fp \<and> \<not> dn_blocking n \<and> \<not> is_hard_blocker (dn_reason_code n)
     \<and> dn_occurrences n = int (seen fp lines) \<and> 0 < seen fp lines"

definition debt_ok :: "run_dir \<Rightarrow> bool" where
  "debt_ok rdir \<longleftrightarrow> read_index rdir = replay_ledger (rd_ledger rdir)
     \<and> distinct (dict_keys (read_index rdir))
     \<and> (\<forall>fp n. dict_get (read_index rdir) fp = Some n \<longrightarrow> notice_ok fp (rd_ledger rdir) n)
     \<and> (\<forall>fp. dict_get (read_index rdir) fp = None \<longrightarrow> seen fp (rd_ledger rdir) = 0)"

lemma build_notice_ok:
  assumes "build_notice sha now a False None = Inr n"
  shows "\<not> dn_blocking n \<and> \<not> is_hard_blocker (dn_reason_code n) \<and> dn_occurrences n = 1
    \<and> dn_fingerprint n = fingerprint sha (strip (na_reason_code a)) (na_stage a) (na_source a) (na_work_item_id a) (na_scope a)"
  using assms by (auto simp: build_notice_def Let_def split: if_splits)

lemma replay_snoc:
  "replay_ledger (lines @ [Some n]) = (if dn_fingerprint n = [] then replay_ledger lines
     else dict_set (replay_ledger lines) (dn_fingerprint n) n)"
  by (simp add: replay_ledger_def)

lemma project_state_keeps [simp]:
  "rd_index (project_state now a n st rdir) = rd_index rdir"
  "rd_ledger (project_state now a n st rdir) = rd_ledger rdir"
  by (simp_all add: project_state_def Let_def)

lemma record_notice_shape:
  assumes "record_notice sha now a rdir = (rdir', Inr n)"
  obtains fresh where "build_notice sha now a False None = Inr fresh"
    and "n = (case dict_get (read_index rdir) (dn_fingerprint fresh) of
                None \<Rightarrow> fresh | Some previous \<Rightarrow> merge_observation now a previous)"
    and "rd_ledger rdir' = rd_ledger rdir @ [Some n]"
    and "rd_index rdir' = Content (dict_set (read_index rdir) (dn_fingerprint n) n)"
  using assms that
  by (auto simp: record_notice_def append_observation_def Let_def split: sum.splits doc.splits)

lemma record_notice_error: "record_notice sha now a rdir = (rdir', Inl e) \<Longrightarrow> rdir' = rdir"
  by (auto simp: record_notice_def Let_def split: sum.splits)

lemma record_notice_debt_ok:
  assumes ok: "debt_ok rdir" and sha: "\<forall>t. sha t \<noteq> []"
    and r: "record_notice sha now a rdir = (rdir', Inr n)"
  shows "debt_ok rdir'"
proof -
  obtain fresh where b: "build_notice sha now a False None = Inr fresh"
    and n: "n = (case dict_get (read_index rdir) (dn_fingerprint fresh) of
                None \<Rightarrow> fresh | Some previous \<Rightarrow> merge_observation now a previous)"
    and l: "rd_ledger rdir' = rd_ledger rdir @ [Some n]"
    and i: "rd_index rdir' = Content (dict_set (read_index rdir) (dn_fingerprint n) n)"
    using r by (rule record_notice_shape)
  let ?fp = "dn_fingerprint fresh"
  have fp: "?fp \<noteq> []" using build_notice_ok [OF b] sha by (simp add: fingerprint_def)
  have n_ok: "notice_ok ?fp (rd_ledger rdir @ [Some n]) n"
  proof (cases "dict_get (read_index rdir) ?fp")
    case None
    with ok have "seen ?fp (rd_ledger rdir) = 0" by (simp add: debt_ok_def)
    with None n build_notice_ok [OF b] show ?thesis by (simp add: notice_ok_def)
  next
    case (Some p)
    with ok have "notice_ok ?fp (rd_ledger rdir) p" by (simp add: debt_ok_def)
    with Some n show ?thesis by (simp add: notice_ok_def merge_observation_def)
  qed
  then have nfp: "dn_fingerprint n = ?fp" by (simp add: notice_ok_def)
  have idx: "read_index rdir' = dict_set (read_index rdir) ?fp n" using i nfp by (simp add: read_index_def)
  have "notice_ok f (rd_ledger rdir') m" if "dict_get (read_index rdir') f = Some m" for f m
  proof (cases "f = ?fp")
    case True
    with that idx n_ok l show ?thesis by simp
  next
    case False
    with that idx ok have "notice_ok f (rd_ledger rdir) m" by (simp add: debt_ok_def)
    with False l nfp show ?thesis by (simp add: notice_ok_def)
  qed
  moreover have "seen f (rd_ledger rdir') = 0" if "dict_get (read_index rdir') f = None" for f
    using that idx ok l nfp by (auto simp: debt_ok_def split: if_splits)
  moreover have "distinct (dict_keys (read_index rdir'))" unfolding idx
    using ok unfolding debt_ok_def by (intro distinct_keys_set) blast
  moreover have "read_index rdir' = replay_ledger (rd_ledger rdir')"
    using ok idx l nfp fp by (simp add: debt_ok_def replay_snoc)
  ultimately show ?thesis unfolding debt_ok_def by blast
qed

lemma observe_all_debt_ok:
  "debt_ok rdir \<Longrightarrow> \<forall>t. sha t \<noteq> [] \<Longrightarrow> debt_ok (observe_all sha obs rdir)"
proof (induction sha obs rdir rule: observe_all.induct)
  case (2 sha now a obs rdir)
  obtain rdir' r where eq: "record_notice sha now a rdir = (rdir', r)" by fastforce
  have "debt_ok (fst (record_notice sha now a rdir))"
  proof (cases r)
    case (Inl e)
    then show ?thesis using record_notice_error eq 2(2) by fastforce
  next
    case (Inr n)
    then show ?thesis using record_notice_debt_ok [OF 2(2,3)] eq by simp
  qed
  with 2 show ?case by simp
qed simp

lemma fresh_dir_debt_ok [simp]: "debt_ok (fresh_dir st)"
  by (simp add: debt_ok_def fresh_dir_def read_index_def replay_ledger_def)

lemma read_notices_in_index: "set (read_notices rdir status) \<subseteq> set (dict_values (read_index rdir))"
  by (auto simp: read_notices_def Let_def split: option.splits if_splits)

lemma summary_counts:
  "ds_open_count (summarize_notices rows) \<le> ds_count (summarize_notices rows)"
  "sum_list (dict_values (ds_by_severity (summarize_notices rows))) \<le> ds_open_count (summarize_notices rows)"
proof -
  show "ds_open_count (summarize_notices rows) \<le> ds_count (summarize_notices rows)"
    by (simp add: summarize_notices_def Let_def)
  have "length (filter (\<lambda>n. dn_severity n = ''low'') xs) + (length (filter (\<lambda>n. dn_severity n = ''medium'') xs)
      + length (filter (\<lambda>n. dn_severity n = ''high'') xs)) \<le> length xs" for xs
    by (induction xs) auto
  from this [of "filter (\<lambda>n. dn_status n \<in> {''OPEN'', ''ACKNOWLEDGED''}) rows"]
  show "sum_list (dict_values (ds_by_severity (summarize_notices rows))) \<le> ds_open_count (summarize_notices rows)"
    unfolding summarize_notices_def Let_def SEVERITIES_def by simp
qed

section \<open>Property\<close>


definition demo_args :: notice_args where
  "demo_args = \<lparr>na_run_id = ''r'', na_reason_code = '' telemetry_degraded'', na_stage = ''s'', na_source = ''x'',
     na_message = ''m'', na_next_action = ''n'', na_work_item_id = ''w'', na_severity = ''low'',
     na_scope = '''', na_receipt = ''''\<rparr>"

definition demo_dir :: run_dir where
  "demo_dir = observe_all (\<lambda>t. ''#'' @ t) [(''1'', demo_args), (''2'', demo_args\<lparr>na_message := ''again''\<rparr>),
     (''3'', demo_args\<lparr>na_reason_code := ''stale_fence''\<rparr>)] (fresh_dir (Content empty_state))"


end
