(* ===== verification/Control_Policy.thy ===== *)
theory Control_Policy
  imports Technical_Debt "HOL-Library.Multiset"
begin

text \<open>
  The control policy (\<open>control_policy.py\<close>) and the bounded recovery plan it consults
  (\<open>recovery_policy.py\<close>): a run projection is mapped to one loop decision.

  A projection is a record. An absent number is \<open>None\<close> (read as 0), an absent text is the empty
  text, an absent list is the empty list; the hard constraints, the maintenance block, the capacity
  signal and the technical debts keep the dictionary shape in which the source receives them.
  A history entry is the part of a projection that the drift measure reads.
\<close>

section \<open>Recovery stages\<close>

definition RECOVERABLE :: "(string, string list) dict" where
  "RECOVERABLE = [(''live_lock'', [''diagnose_ownership'', ''bounded_wait'']),
     (''operator_failure'', [''capability_check'', ''bounded_repair'']),
     (''provider_failure'', [''capability_check'', ''bounded_repair'']),
     (''post_merge_residual'', [''requery_source'', ''review_and_close''])]"

datatype policy_error = RecoveryBoundsInvalid

datatype recovery =
    RecoveryBlocked string int int "string list"
    \<comment> \<open>reason code, attempts, limit, allowed actions\<close>
  | RecoveryContinue string int int string "string list"
    \<comment> \<open>reason code, number of this attempt, limit, action, allowed actions\<close>

definition recovery_stage :: "string \<Rightarrow> int \<Rightarrow> int \<Rightarrow> policy_error + recovery" where
  "recovery_stage blocker attempts max_attempts =
    (let key = lower (strip blocker)
     in case dict_get RECOVERABLE key of
          None \<Rightarrow> Inr (RecoveryBlocked ''external_authority_blocked'' attempts max_attempts [])
        | Some actions \<Rightarrow>
            if attempts < 0 \<or> max_attempts < 1 then Inl RecoveryBoundsInvalid
            else if max_attempts \<le> attempts
            then Inr (RecoveryBlocked (key @ ''_recovery_exhausted'') attempts max_attempts actions)
            else Inr (RecoveryContinue (key @ ''_recovery_pending'') (attempts + 1) max_attempts
                   (if attempts < int (length actions) then actions ! nat attempts else last actions)
                   actions))"

section \<open>Projections\<close>

record tick =
  acs_open :: "rat option"
  verifiers_failed :: "rat option"
  effects_unverified :: "rat option"
  backlog :: "rat option"
  retry_amplification :: "rat option"
  state_signature :: string

record candidate =
  cand_id :: string
  cand_reads :: "string list"
  cand_writes :: "string list"

record projection = tick +
  hard_constraints :: "(string, json) dict"
  maintenance :: "(string, json) dict"
  technical_debts :: "json option"
  technical_debt :: "json option"
  blocked :: bool
  blocked_reason :: string
  blocker_type :: string
  recovery_attempts :: "rat option"
  recovery_max_attempts :: "rat option"
  history :: "tick list"
  candidates :: "candidate list"
  capacity_signal :: "(string, json) dict"

record PolicyWeights =
  w_a :: rat
  w_b :: rat
  w_c :: rat
  w_d :: rat
  w_e :: rat

definition DEFAULT_WEIGHTS :: PolicyWeights where
  "DEFAULT_WEIGHTS = \<lparr>w_a = 1, w_b = 1, w_c = 1, w_d = 1 / 4, w_e = 1\<rparr>"

definition num :: "rat option \<Rightarrow> rat" where
  \<comment> \<open>\<open>x or 0\<close>\<close>
  "num x = (case x of None \<Rightarrow> 0 | Some r \<Rightarrow> r)"

definition py_int :: "rat \<Rightarrow> int" where
  \<comment> \<open>\<open>int(x)\<close> truncates toward zero\<close>
  "py_int r = (if r < 0 then - \<lfloor>- r\<rfloor> else \<lfloor>r\<rfloor>)"

section \<open>Decisions\<close>

datatype decision_kind =
    CONTINUE_SERIAL | CONTINUE_PARALLEL | OBSERVE_WAIT | REPLAN | ESCALATE
  | STOP_SUCCESS | STOP_BLOCKED | STOP_BUDGET | STOP_UNSAFE

datatype drift_state = PROGRESS | STALL | OSCILLATION

record grouping =
  gr_groups :: "string list list"
  gr_recommended_concurrency :: nat
  gr_serial :: bool

record LoopDecision =
  ld_decision :: decision_kind
  ld_reason_code :: string
  ld_v :: "(rat \<times> rat) option"
  ld_drift :: "drift_state option"
  ld_recovery :: "recovery option"
  ld_grouping :: "grouping option"
  ld_debts :: "(string, json) dict list"

definition result :: "decision_kind \<Rightarrow> string \<Rightarrow> LoopDecision" where
  "result d code = \<lparr>ld_decision = d, ld_reason_code = code, ld_v = None, ld_drift = None,
     ld_recovery = None, ld_grouping = None, ld_debts = []\<rparr>"

definition debts_of_list :: "json list \<Rightarrow> (string, json) dict list" where
  "debts_of_list items = List.map_filter (\<lambda>item. case item of
       JObj d \<Rightarrow> if jget d ''blocking'' \<noteq> JBool True then Some d else None
     | _ \<Rightarrow> None) items"

definition collect_debts :: "projection \<Rightarrow> (string, json) dict list" where
  "collect_debts p =
    (let raw = (case technical_debts p of Some v \<Rightarrow> v
                | None \<Rightarrow> (case technical_debt p of Some v \<Rightarrow> v | None \<Rightarrow> JNull))
     in case raw of
          JObj d \<Rightarrow> if d = [] then [] else debts_of_list [JObj d]
        | JArr xs \<Rightarrow> debts_of_list xs
        | _ \<Rightarrow> [])"

definition attach_debt :: "LoopDecision \<Rightarrow> (string, json) dict list \<Rightarrow> LoopDecision" where
  "attach_debt r debts = (if debts \<noteq> [] then r\<lparr>ld_debts := debts\<rparr> else r)"

definition compute_v :: "PolicyWeights \<Rightarrow> 'a tick_scheme \<Rightarrow> rat" where
  "compute_v w p = w_a w * num (acs_open p) + w_b w * num (verifiers_failed p)
     + w_c w * num (effects_unverified p) + w_d w * num (backlog p) + w_e w * num (retry_amplification p)"

definition round_half_even :: "rat \<Rightarrow> int" where
  "round_half_even r =
    (let n = \<lfloor>r\<rfloor>; rest = r - of_int n
     in if rest < 1 / 2 then n else if 1 / 2 < rest then n + 1 else if even n then n else n + 1)"

definition format_fixed6 :: "rat \<Rightarrow> string" where
  \<comment> \<open>the format specification \<open>.6f\<close>\<close>
  "format_fixed6 v =
    (let n = nat (round_half_even (\<bar>v\<bar> * 1000000));
         frac = show_nat (n mod 1000000)
     in (if v < 0 then ''-'' else '''') @ show_nat (n div 1000000) @ ''.''
        @ replicate (6 - length frac) CHR ''0'' @ frac)"

definition signature_of :: "PolicyWeights \<Rightarrow> 'a tick_scheme \<Rightarrow> string" where
  "signature_of w entry =
    (let supplied = strip (state_signature entry)
     in if supplied \<noteq> [] then supplied else format_fixed6 (compute_v w entry))"

record drift =
  dr_state :: drift_state
  dr_v :: rat
  dr_delta_v :: rat
  dr_repeat_count :: int
  dr_state_signature :: string

definition oscillates :: "string list \<Rightarrow> nat \<Rightarrow> bool" where
  \<comment> \<open>the body of the loop over the periods\<close>
  "oscillates trail period \<longleftrightarrow> \<not> length trail < period * 2 \<and>
    (let window = drop (length trail - period * 2) trail
     in take period window = drop period window \<and> card (set (take period window)) > 1)"

definition tail_repeat :: "string \<Rightarrow> string list \<Rightarrow> nat" where
  \<comment> \<open>the loop counting the current signature from the end of the trail\<close>
  "tail_repeat sig trail = length (takeWhile (\<lambda>s. s = sig) (rev trail))"

definition classify_drift :: "PolicyWeights \<Rightarrow> int \<Rightarrow> tick list \<Rightarrow> 'a tick_scheme \<Rightarrow> drift" where
  "classify_drift w stall_threshold rows current =
    (let signatures = map (signature_of w) rows;
         current_sig = signature_of w current;
         v_t = compute_v w current;
         delta_v = (if rows = [] then 0 else v_t - compute_v w (last rows));
         trail = signatures @ [current_sig];
         mk = (\<lambda>st n. \<lparr>dr_state = st, dr_v = v_t, dr_delta_v = delta_v, dr_repeat_count = n,
                 dr_state_signature = current_sig\<rparr>)
     in case List.find (oscillates trail) [2, 3, 4] of
          Some period \<Rightarrow> mk OSCILLATION (int period)
        | None \<Rightarrow>
            let repeat = int (tail_repeat current_sig trail)
            in if delta_v < 0 \<and> repeat < stall_threshold then mk PROGRESS repeat
               else if stall_threshold \<le> repeat then mk STALL repeat
               else mk PROGRESS repeat)"

section \<open>Grouping candidates\<close>

definition conflicts :: "candidate \<Rightarrow> candidate \<Rightarrow> bool" where
  "conflicts a b \<longleftrightarrow>
     set (cand_writes a) \<inter> (set (cand_reads b) \<union> set (cand_writes b)) \<noteq> {}
     \<or> set (cand_writes b) \<inter> (set (cand_reads a) \<union> set (cand_writes a)) \<noteq> {}"

definition can_join :: "candidate list \<Rightarrow> int \<Rightarrow> candidate \<Rightarrow> string list \<Rightarrow> bool" where
  "can_join items max_group_size item g \<longleftrightarrow> int (length g) < max_group_size
     \<and> \<not> (\<exists>other \<in> set (filter (\<lambda>i. cand_id i \<in> set g) items). conflicts item other)"

fun place :: "candidate list \<Rightarrow> int \<Rightarrow> candidate \<Rightarrow> string list list \<Rightarrow> string list list" where
  \<comment> \<open>the inner loop: the first group that can take the item, else a new group\<close>
  "place items m item [] = [[cand_id item]]"
| "place items m item (g # gs) =
    (if can_join items m item g then (g @ [cand_id item]) # gs else g # place items m item gs)"

definition group_size_cap :: "(string, json) dict \<Rightarrow> int \<Rightarrow> int" where
  "group_size_cap signal prior_group_size =
    (let rising = (\<exists>key \<in> set [''errors_rising'', ''queue_rising'', ''memory_rising'', ''io_rising''].
                     truthy (jget signal key))
     in if rising then 1 else max 1 (prior_group_size + 1))"

definition group_candidates :: "candidate list \<Rightarrow> (string, json) dict \<Rightarrow> int \<Rightarrow> grouping" where
  "group_candidates items signal prior_group_size =
    (let groups = fold (place items (group_size_cap signal prior_group_size)) items [];
         serial = (\<forall>g \<in> set groups. length g = 1)
     in \<lparr>gr_groups = groups, gr_recommended_concurrency = (if groups = [] then 1 else Max (length ` set groups)),
         gr_serial = (serial \<or> items = [])\<rparr>)"

section \<open>The decision\<close>

definition hard_flag :: "(string, json) dict \<Rightarrow> string \<Rightarrow> bool" where
  \<comment> \<open>truth of \<open>hard.get(key, True)\<close>\<close>
  "hard_flag hard key = (case dict_get hard key of None \<Rightarrow> True | Some v \<Rightarrow> truthy v)"

definition decide_blocked ::
    "PolicyWeights \<Rightarrow> projection \<Rightarrow> (string, json) dict list \<Rightarrow> policy_error + LoopDecision" where
  \<comment> \<open>the branch for a blocked run\<close>
  "decide_blocked w p debts =
    (let reason = strip (blocked_reason p);
         kind = lower (strip (blocker_type p));
         with_v = (\<lambda>r. r\<lparr>ld_v := Some (compute_v w p, 0)\<rparr>);
         finish = (\<lambda>reason.
           if debts \<noteq> [] \<and> (reason = [] \<or> is_non_blocking_reason reason \<and> \<not> is_hard_blocker reason)
           then attach_debt (with_v (result CONTINUE_SERIAL ''technical_debt_notified'')) debts
           else with_v (result STOP_BLOCKED (if reason \<noteq> [] then reason else ''external_dependency_blocked'')))
     in if kind = [] then Inr (finish reason)
        else ebind (recovery_stage kind (py_int (num (recovery_attempts p)))
               (let m = num (recovery_max_attempts p) in if m = 0 then 2 else py_int m))
             (\<lambda>recovery. case recovery of
                RecoveryContinue c n m a acts \<Rightarrow>
                  Inr (attach_debt (with_v (result CONTINUE_SERIAL ''recovery_pending'')
                        \<lparr>ld_recovery := Some recovery\<rparr>) debts)
              | RecoveryBlocked c n m acts \<Rightarrow> Inr (finish (if reason = [] then c else reason))))"

definition decide_drift ::
    "PolicyWeights \<Rightarrow> int \<Rightarrow> int \<Rightarrow> projection \<Rightarrow> LoopDecision" where
  \<comment> \<open>the branch that looks at the drift and at the candidates\<close>
  "decide_drift w stall_threshold cooldown p =
    (let drift = classify_drift w stall_threshold (history p) p;
         with_v = (\<lambda>r. r\<lparr>ld_v := Some (dr_v drift, dr_delta_v drift), ld_drift := Some (dr_state drift)\<rparr>)
     in if dr_state drift \<in> {STALL, OSCILLATION} then
          if \<not> cooldown \<le> dr_repeat_count drift then with_v (result OBSERVE_WAIT ''hysteresis_hold'')
          else if dr_state drift = OSCILLATION then with_v (result ESCALATE ''oscillation_detected'')
          else with_v (result REPLAN ''stall_escalation'')
        else
          let grouping = group_candidates (candidates p) (capacity_signal p) 1
          in if gr_serial grouping
             then with_v (result CONTINUE_SERIAL ''no_conflict_free_parallelism'') \<lparr>ld_grouping := Some grouping\<rparr>
             else with_v (result CONTINUE_PARALLEL ''conflict_free_groups'') \<lparr>ld_grouping := Some grouping\<rparr>)"

definition decide :: "PolicyWeights \<Rightarrow> int \<Rightarrow> int \<Rightarrow> projection \<Rightarrow> policy_error + LoopDecision" where
  "decide w stall_threshold cooldown p =
    (let hard = hard_constraints p
     in if \<not> (hard_flag hard ''safe'' \<and> hard_flag hard ''authorized'' \<and> hard_flag hard ''privacy_ok'')
        then Inr (result STOP_UNSAFE ''hard_constraint_violation'')
        else if \<not> hard_flag hard ''within_budget'' then Inr (result STOP_BUDGET ''budget_exhausted'')
        else if jget (maintenance p) ''mode'' = JStr ''maintenance_deferred''
                \<or> jget (maintenance p) ''disposition'' = JStr ''backlog_only''
        then Inr (result STOP_BLOCKED ''maintenance_deferred'')
        else
          let debts = collect_debts p
          in if py_int (num (acs_open p)) = 0 \<and> py_int (num (verifiers_failed p)) = 0
                \<and> py_int (num (effects_unverified p)) = 0
             then Inr (attach_debt ((result STOP_SUCCESS ''verified'')\<lparr>ld_v := Some (compute_v w p, 0)\<rparr>) debts)
             else if blocked p \<or> strip (blocked_reason p) \<noteq> [] then decide_blocked w p debts
             else Inr (attach_debt (decide_drift w stall_threshold cooldown p) debts))"

section \<open>Drift\<close>

lemma classify_oscillation:
  "dr_state (classify_drift w k rows cur) = OSCILLATION \<longleftrightarrow>
    (\<exists>period \<in> {2, 3, 4}. oscillates (map (signature_of w) rows @ [signature_of w cur]) period)"
  by (auto simp: classify_drift_def Let_def split: option.splits if_splits)

lemma tail_repeat_last:
  "n \<le> tail_repeat sig trail \<Longrightarrow> i < n \<Longrightarrow> rev trail ! i = sig"
  unfolding tail_repeat_def
  by (metis (mono_tags, lifting) less_le_trans nth_mem set_takeWhileD takeWhile_nth)

lemma classify_stall:
  "dr_state (classify_drift w k rows cur) = STALL \<longleftrightarrow>
    \<not> (\<exists>period \<in> {2, 3, 4}. oscillates (map (signature_of w) rows @ [signature_of w cur]) period)
    \<and> k \<le> int (tail_repeat (signature_of w cur) (map (signature_of w) rows @ [signature_of w cur]))"
  by (auto simp: classify_drift_def Let_def split: option.splits if_splits)

text \<open>A flat trail is never reported as an oscillation.\<close>

lemma flat_not_oscillating: "set trail \<subseteq> {s} \<Longrightarrow> \<not> oscillates trail period"
proof -
  assume flat: "set trail \<subseteq> {s}"
  have "set (take period (drop (length trail - period * 2) trail)) \<subseteq> {s}"
    using flat by (meson in_set_dropD in_set_takeD subset_iff)
  then have "card (set (take period (drop (length trail - period * 2) trail))) \<le> 1"
    using card_mono [of "{s}"] by simp
  then show ?thesis by (simp add: oscillates_def Let_def)
qed

section \<open>Groups\<close>

lemma conflicts_sym: "conflicts a b \<longleftrightarrow> conflicts b a"
  by (auto simp: conflicts_def)

definition compatible :: "candidate list \<Rightarrow> string list \<Rightarrow> bool" where
  "compatible items g \<longleftrightarrow> (\<forall>a \<in> set items. \<forall>b \<in> set items.
     cand_id a \<in> set g \<and> cand_id b \<in> set g \<and> a \<noteq> b \<longrightarrow> \<not> conflicts a b)"

definition group_ok :: "candidate list \<Rightarrow> int \<Rightarrow> string list \<Rightarrow> bool" where
  "group_ok items m g \<longleftrightarrow> g \<noteq> [] \<and> int (length g) \<le> m \<and> compatible items g"

lemma id_inj: "distinct (map cand_id items) \<Longrightarrow> a \<in> set items \<Longrightarrow> b \<in> set items \<Longrightarrow> cand_id a = cand_id b \<Longrightarrow> a = b"
  by (meson distinct_map inj_on_eq_iff)

lemma group_ok_join:
  assumes d: "distinct (map cand_id items)" and "item \<in> set items" and "group_ok items m g"
    and "can_join items m item g"
  shows "group_ok items m (g @ [cand_id item])"
proof -
  have "\<not> conflicts a b" if ab: "a \<in> set items" "b \<in> set items" "cand_id a \<in> set (g @ [cand_id item])"
    "cand_id b \<in> set (g @ [cand_id item])" "a \<noteq> b" for a b
  proof -
    have free: "\<not> conflicts item c" if "c \<in> set items" "cand_id c \<in> set g" for c
      using assms(4) that by (auto simp: can_join_def)
    consider "cand_id a \<in> set g \<and> cand_id b \<in> set g" | "a = item \<and> cand_id b \<in> set g"
      | "b = item \<and> cand_id a \<in> set g"
      using ab id_inj [OF d] assms(2) by auto
    then show ?thesis
    proof cases
      case 1
      then show ?thesis using assms(3) ab by (auto simp: group_ok_def compatible_def)
    next
      case 2
      then show ?thesis using free ab by blast
    next
      case 3
      then show ?thesis using free ab conflicts_sym by blast
    qed
  qed
  then show ?thesis using assms(4) by (simp add: group_ok_def compatible_def can_join_def)
qed

lemma group_ok_single:
  assumes "distinct (map cand_id items)" and "item \<in> set items" and "1 \<le> m"
  shows "group_ok items m [cand_id item]"
proof -
  have "a = b" if "a \<in> set items" "b \<in> set items" "cand_id a = cand_id item" "cand_id b = cand_id item" for a b
    using that id_inj [OF assms(1)] by metis
  then show ?thesis using assms(3) by (auto simp: group_ok_def compatible_def)
qed

lemma place_ok:
  assumes "distinct (map cand_id items)" and "item \<in> set items" and "1 \<le> m" and "\<forall>g \<in> set gs. group_ok items m g"
  shows "(\<forall>g \<in> set (place items m item gs). group_ok items m g)
    \<and> mset (concat (place items m item gs)) = mset (concat gs) + {#cand_id item#}"
  using assms(4) by (induction gs) (auto simp: group_ok_single [OF assms(1-3)] group_ok_join [OF assms(1,2)])

lemma fold_place_ok:
  assumes "distinct (map cand_id items)" and "1 \<le> m"
  shows "set todo \<subseteq> set items \<Longrightarrow> \<forall>g \<in> set gs. group_ok items m g \<Longrightarrow>
    (\<forall>g \<in> set (fold (place items m) todo gs). group_ok items m g)
    \<and> mset (concat (fold (place items m) todo gs)) = mset (concat gs) + mset (map cand_id todo)"
proof (induction todo arbitrary: gs)
  case (Cons item todo)
  have p: "(\<forall>g \<in> set (place items m item gs). group_ok items m g)
    \<and> mset (concat (place items m item gs)) = mset (concat gs) + {#cand_id item#}"
    by (rule place_ok [OF assms(1) _ assms(2)]) (use Cons.prems in simp_all)
  show ?case using Cons.IH [of "place items m item gs"] p Cons.prems by simp
qed simp

lemma group_size_cap_pos: "1 \<le> group_size_cap signal n"
  by (simp add: group_size_cap_def Let_def)

section \<open>Branches of the decision\<close>

definition blocked_run :: "projection \<Rightarrow> bool" where
  "blocked_run p \<longleftrightarrow> blocked p \<or> strip (blocked_reason p) \<noteq> []"

definition hard_safe :: "projection \<Rightarrow> bool" where
  "hard_safe p \<longleftrightarrow> (\<forall>key \<in> {''safe'', ''authorized'', ''privacy_ok''}. hard_flag (hard_constraints p) key)"

definition deferred :: "projection \<Rightarrow> bool" where
  "deferred p \<longleftrightarrow> jget (maintenance p) ''mode'' = JStr ''maintenance_deferred''
     \<or> jget (maintenance p) ''disposition'' = JStr ''backlog_only''"

definition all_closed :: "projection \<Rightarrow> bool" where
  "all_closed p \<longleftrightarrow> (\<forall>f \<in> {acs_open, verifiers_failed, effects_unverified}. py_int (num (f p)) = 0)"

lemma decide_cases:
  "decide w k c p =
    (if \<not> hard_safe p then Inr (result STOP_UNSAFE ''hard_constraint_violation'')
     else if \<not> hard_flag (hard_constraints p) ''within_budget'' then Inr (result STOP_BUDGET ''budget_exhausted'')
     else if deferred p then Inr (result STOP_BLOCKED ''maintenance_deferred'')
     else if all_closed p
     then Inr (attach_debt ((result STOP_SUCCESS ''verified'')\<lparr>ld_v := Some (compute_v w p, 0)\<rparr>) (collect_debts p))
     else if blocked_run p then decide_blocked w p (collect_debts p)
     else Inr (attach_debt (decide_drift w k c p) (collect_debts p)))"
  unfolding decide_def Let_def hard_safe_def deferred_def all_closed_def blocked_run_def by simp

lemma attach_debt_keeps [simp]:
  "ld_decision (attach_debt r d) = ld_decision r" "ld_reason_code (attach_debt r d) = ld_reason_code r"
  "ld_recovery (attach_debt r d) = ld_recovery r" "ld_grouping (attach_debt r d) = ld_grouping r"
  by (simp_all add: attach_debt_def)

lemma result_fields [simp]:
  "ld_decision (result d r) = d" "ld_reason_code (result d r) = r" "ld_recovery (result d r) = None"
  by (simp_all add: result_def)

lemma decide_drift_kind:
  "ld_decision (decide_drift w k c p)
    \<in> {OBSERVE_WAIT, ESCALATE, REPLAN, CONTINUE_SERIAL, CONTINUE_PARALLEL}"
  by (simp add: decide_drift_def Let_def)

lemma recoverable_actions: "dict_get RECOVERABLE key = Some actions \<Longrightarrow> actions \<noteq> []"
  by (auto simp: RECOVERABLE_def split: if_splits)

lemma recovery_stage_bounded:
  "recovery_stage b n m = Inr (RecoveryContinue code i lim' act acts) \<Longrightarrow>
     lim' = m \<and> i = n + 1 \<and> 1 \<le> i \<and> i \<le> m \<and> act \<in> set acts"
  by (auto simp: recovery_stage_def Let_def recoverable_actions nat_less_iff split: option.splits if_splits)

lemma decide_blocked_kind:
  assumes "decide_blocked w p debts = Inr d"
  shows "ld_decision d = STOP_BLOCKED \<or>
    ld_decision d = CONTINUE_SERIAL \<and>
      ((\<exists>code n m act acts. ld_recovery d = Some (RecoveryContinue code n m act acts) \<and> 1 \<le> n \<and> n \<le> m)
       \<or> debts \<noteq> [] \<and> \<not> is_hard_blocker (strip (blocked_reason p)))"
proof -
  have none: "\<not> is_hard_blocker []" by code_simp
  show ?thesis
  proof (cases "lower (strip (blocker_type p)) = []")
    case True
    then show ?thesis using assms none by (auto simp: decide_blocked_def Let_def split: if_splits)
  next
    case False
    then obtain rec where rec: "recovery_stage (lower (strip (blocker_type p))) (py_int (num (recovery_attempts p)))
        (if num (recovery_max_attempts p) = 0 then 2 else py_int (num (recovery_max_attempts p))) = Inr rec"
      using assms by (auto simp: decide_blocked_def Let_def ebind_Inr_conv)
    show ?thesis
    proof (cases rec)
      case (RecoveryContinue code n m act acts)
      then show ?thesis using recovery_stage_bounded rec assms False by (fastforce simp: decide_blocked_def Let_def)
    next
      case (RecoveryBlocked code n m acts)
      then show ?thesis using rec assms False none by (auto simp: decide_blocked_def Let_def split: if_splits)
    qed
  qed
qed

section \<open>Properties\<close>

text \<open>C14: the hard constraints and the proof of completion rule the decision. The policy stops as unsafe
  exactly when a safety, authority or privacy flag fails, and for the budget exactly when only the
  budget fails; it reports success exactly when the constraints hold, maintenance is not deferred and
  nothing is open, failed or unverified, whatever the drift or the weights; and a blocked run goes on
  only for a recovery attempt within its limit or with recorded debt under a reason that is not a hard
  blocker.\<close>

theorem decide_precedence:
  assumes "decide w k c p = Inr d"
  shows "(ld_decision d = STOP_UNSAFE \<longleftrightarrow> \<not> hard_safe p)
    \<and> (ld_decision d = STOP_BUDGET \<longleftrightarrow> hard_safe p \<and> \<not> hard_flag (hard_constraints p) ''within_budget'')
    \<and> (ld_decision d = STOP_SUCCESS \<longleftrightarrow> hard_safe p \<and> hard_flag (hard_constraints p) ''within_budget''
          \<and> \<not> deferred p \<and> all_closed p)
    \<and> (blocked_run p \<and> ld_decision d \<notin> {STOP_UNSAFE, STOP_BUDGET, STOP_SUCCESS, STOP_BLOCKED}
        \<longrightarrow> ld_decision d = CONTINUE_SERIAL \<and>
          ((\<exists>code n m act acts. ld_recovery d = Some (RecoveryContinue code n m act acts) \<and> 1 \<le> n \<and> n \<le> m)
           \<or> collect_debts p \<noteq> [] \<and> \<not> is_hard_blocker (strip (blocked_reason p))))"
proof -
  have drift: "ld_decision (decide_drift w k c p) \<notin> {STOP_UNSAFE, STOP_BUDGET, STOP_SUCCESS, STOP_BLOCKED}"
    using decide_drift_kind [of w k c p] by auto
  show ?thesis
  proof (cases "blocked_run p")
    case True
    have "ld_decision d \<notin> {STOP_UNSAFE, STOP_BUDGET, STOP_SUCCESS}" if "decide_blocked w p (collect_debts p) = Inr d"
      using decide_blocked_kind [OF that] by auto
    with True show ?thesis using assms decide_blocked_kind [of w p "collect_debts p" d]
      by (auto simp: decide_cases split: if_splits)
  next
    case False
    with assms drift show ?thesis by (auto simp: decide_cases split: if_splits)
  qed
qed

definition demo_projection :: projection where
  "demo_projection = \<lparr>acs_open = Some 1, verifiers_failed = None, effects_unverified = None, backlog = None,
     retry_amplification = None, state_signature = [],
     hard_constraints = [(''safe'', JBool True)], maintenance = [], technical_debts = None,
     technical_debt = None, blocked = True, blocked_reason = [], blocker_type = ''live_lock'',
     recovery_attempts = Some 1, recovery_max_attempts = None, history = [], candidates = [],
     capacity_signal = []\<rparr>"

theorem decide_precedence_witness:
  "blocked_run demo_projection \<and> ld_decision (projr (decide DEFAULT_WEIGHTS 3 2 demo_projection)) = CONTINUE_SERIAL
   \<and> (\<exists>code n m act acts. ld_recovery (projr (decide DEFAULT_WEIGHTS 3 2 demo_projection))
        = Some (RecoveryContinue code n m act acts) \<and> 1 \<le> n \<and> n \<le> m)"
proof -
  have b: "blocked_run demo_projection" "collect_debts demo_projection = []" by code_simp+
  have e: "decide DEFAULT_WEIGHTS 3 2 demo_projection = Inr (projr (decide DEFAULT_WEIGHTS 3 2 demo_projection))"
    by code_simp
  have "ld_decision (projr (decide DEFAULT_WEIGHTS 3 2 demo_projection)) = CONTINUE_SERIAL" by code_simp
  then show ?thesis using decide_precedence [OF e] b by simp
qed

text \<open>The groups of candidates are a partition into conflict-free groups under the cap. Every
  candidate is placed exactly once, no group is empty or larger than the cap, and no two candidates of
  a group conflict, that is, neither writes what the other reads or writes.\<close>

lemma groups_conflict_free:
  assumes "distinct (map cand_id items)"
  shows "mset (concat (gr_groups (group_candidates items signal n))) = mset (map cand_id items)
    \<and> (\<forall>g \<in> set (gr_groups (group_candidates items signal n)). g \<noteq> [] \<and> int (length g) \<le> group_size_cap signal n
        \<and> (\<forall>a \<in> set items. \<forall>b \<in> set items. cand_id a \<in> set g \<and> cand_id b \<in> set g \<and> a \<noteq> b \<longrightarrow>
             set (cand_writes a) \<inter> (set (cand_reads b) \<union> set (cand_writes b)) = {}))"
proof -
  have "set items \<subseteq> set items" "\<forall>g \<in> set []. group_ok items (group_size_cap signal n) g" by simp_all
  from fold_place_ok [OF assms group_size_cap_pos this]
  show ?thesis
    by (auto simp: group_candidates_def Let_def group_ok_def compatible_def conflicts_def)
qed

definition demo_items :: "candidate list" where
  "demo_items = [\<lparr>cand_id = ''a'', cand_reads = [''x''], cand_writes = [''y'']\<rparr>,
     \<lparr>cand_id = ''b'', cand_reads = [''y''], cand_writes = []\<rparr>,
     \<lparr>cand_id = ''c'', cand_reads = [''x''], cand_writes = [''z'']\<rparr>]"

lemma groups_conflict_free_example:
  "gr_groups (group_candidates demo_items [] 1) = [[''a'', ''c''], [''b'']]
   \<and> mset (concat (gr_groups (group_candidates demo_items [] 1))) = mset (map cand_id demo_items)"
proof -
  have "distinct (map cand_id demo_items)" by code_simp
  from groups_conflict_free [OF this, of "[]" 1]
  have "mset (concat (gr_groups (group_candidates demo_items [] 1))) = mset (map cand_id demo_items)" by blast
  moreover have "gr_groups (group_candidates demo_items [] 1) = [[''a'', ''c''], [''b'']]" by code_simp
  ultimately show ?thesis by blast
qed

end
