(* ===== verification/Flow_Semantics.thy ===== *)
theory Flow_Semantics
  imports Loop_Prelude "HOL-Library.Multiset"
begin

text \<open>
  Converge and drain verdicts over snapshots of attempts and polls (\<open>flow_semantics.py\<close>).

  An argument that is not a sequence is \<open>None\<close>, a row that is not a mapping is \<open>None\<close> in the list.
  The fields of a poll keep their JSON shape, because the code accepts mappings, lists and texts
  there. \<open>rep\<close> is the text \<open>str\<close> gives for a JSON value that is not a text.
\<close>

section \<open>Converge\<close>

record attempt =
  at_verified :: bool
  at_failure_fingerprint :: string
  at_fingerprint :: string
  at_strategy_changed :: bool
  at_strategy_id :: "string option option"
  at_strategy :: "string option option"
  at_changed :: bool

datatype flow_status = BLOCKED | CONTINUE | COMPLETE | ESCALATE | RETRY | DRAINED

record flow_result =
  fr_status :: flow_status
  fr_reason_code :: string
  fr_attempt_count :: nat
  fr_failure_fingerprint :: string
  fr_repeat_count :: nat
  fr_strategy_changed :: bool

definition flow_result0 :: "flow_status \<Rightarrow> string \<Rightarrow> nat \<Rightarrow> flow_result" where
  "flow_result0 st code n = \<lparr>fr_status = st, fr_reason_code = code, fr_attempt_count = n,
     fr_failure_fingerprint = [], fr_repeat_count = 0, fr_strategy_changed = False\<rparr>"

definition attempt_fingerprint :: "attempt \<Rightarrow> string" where
  "attempt_fingerprint row =
    strip (if at_failure_fingerprint row \<noteq> [] then at_failure_fingerprint row else at_fingerprint row)"

definition strategy_of :: "attempt \<Rightarrow> string option" where
  \<comment> \<open>\<open>row.get("strategy_id", row.get("strategy"))\<close>\<close>
  "strategy_of row = (case at_strategy_id row of Some v \<Rightarrow> v
     | None \<Rightarrow> (case at_strategy row of Some v \<Rightarrow> v | None \<Rightarrow> None))"

definition repeat_count :: "attempt list \<Rightarrow> nat" where
  "repeat_count rows =
    (let fp = attempt_fingerprint (last rows)
     in if fp = [] then 0 else length (takeWhile (\<lambda>row. attempt_fingerprint row = fp) (rev rows)))"

definition strategy_switched :: "attempt list \<Rightarrow> bool" where
  "strategy_switched rows \<longleftrightarrow> at_strategy_changed (last rows) \<or>
    (1 < length rows \<and>
      (let old = strategy_of (rows ! (length rows - 2)); new = strategy_of (last rows)
       in old \<noteq> None \<and> new \<noteq> None \<and> old \<noteq> new))"

definition all_rows :: "'a option list \<Rightarrow> 'a list" where
  "all_rows xs = List.map_filter (\<lambda>x. x) xs"

definition evaluate_converge :: "attempt option list option \<Rightarrow> int \<Rightarrow> int \<Rightarrow> flow_result" where
  "evaluate_converge attempts max_attempts stall_threshold =
    (case attempts of
       None \<Rightarrow> flow_result0 BLOCKED ''attempts_invalid'' 0
     | Some given \<Rightarrow>
         if max_attempts < 1 \<or> stall_threshold < 1 then flow_result0 BLOCKED ''limits_invalid'' 0
         else
           let rows = all_rows given
           in if length rows \<noteq> length given then flow_result0 BLOCKED ''attempt_invalid'' 0
              else if rows = [] then flow_result0 CONTINUE ''no_attempts'' 0
              else if at_verified (last rows) then flow_result0 COMPLETE ''verified'' (length rows)
              else if max_attempts \<le> int (length rows) then flow_result0 ESCALATE ''attempt_cap'' (length rows)
              else
                let extra = (\<lambda>r b. r\<lparr>fr_failure_fingerprint := attempt_fingerprint (last rows),
                              fr_repeat_count := repeat_count rows, fr_strategy_changed := b\<rparr>)
                in if stall_threshold \<le> int (repeat_count rows)
                   then if strategy_switched rows
                        then extra (flow_result0 RETRY ''strategy_changed'' (length rows)) True
                        else extra (flow_result0 ESCALATE ''stall_escalation'' (length rows)) False
                   else extra (flow_result0 RETRY
                          (if \<not> at_changed (last rows) then ''no_progress'' else ''attempt_failed'') (length rows))
                          (strategy_switched rows))"

section \<open>Drain\<close>

record poll =
  po_ready :: json
  po_active :: json
  po_blocked :: json

record quarantine =
  qu_id :: string
  qu_reason :: string
  qu_dead_ends :: "string list"

record debt_row =
  db_debt_id :: string
  db_work_item_id :: string
  db_message :: string
  db_blocking :: bool
  db_dead_ends :: "string list"

record drain_acc =
  da_quarantined :: "quarantine list"
  da_late :: "string list"
  da_previous_empty :: bool
  da_empty_tail :: nat

record drain_result =
  dt_status :: flow_status
  dt_reason_code :: string
  dt_empty_rounds :: nat
  dt_late_arrivals :: "string list"
  dt_quarantined :: "quarantine list"
  dt_technical_debts :: "debt_row list"

fun items_of :: "(json \<Rightarrow> string) \<Rightarrow> json \<Rightarrow> string list" where
  "items_of rep (JObj d) = sorted_set (filter (\<lambda>s. s \<noteq> []) (dict_keys d))"
| "items_of rep (JStr s) = (if s \<noteq> [] then [s] else [])"
| "items_of rep (JArr xs) = sorted_set (filter (\<lambda>s. s \<noteq> []) (map (py_str rep) xs))"
| "items_of rep _ = []"

fun blocked_items :: "json \<Rightarrow> json list" where
  "blocked_items (JObj d) = (if d = [] then [] else [JObj d])"
| "blocked_items (JArr xs) = xs"
| "blocked_items _ = []"

fun quarantine_of :: "(json \<Rightarrow> string) \<Rightarrow> json \<Rightarrow> quarantine" where
  "quarantine_of rep (JObj d) =
    \<lparr>qu_id = py_str rep (jor (jor (jget d ''id'') (jget d ''item_id'')) (JStr [])),
     qu_reason = py_str rep (jor (jget d ''reason'') (JStr ''blocked'')),
     qu_dead_ends = items_of rep (jget d ''dead_ends'')\<rparr>"
| "quarantine_of rep item = \<lparr>qu_id = py_str rep item, qu_reason = ''blocked'', qu_dead_ends = []\<rparr>"

definition poll_empty :: "(json \<Rightarrow> string) \<Rightarrow> poll \<Rightarrow> bool" where
  "poll_empty rep poll \<longleftrightarrow> items_of rep (po_ready poll) = [] \<and> items_of rep (po_active poll) = []"

definition drain_poll :: "(json \<Rightarrow> string) \<Rightarrow> poll \<Rightarrow> drain_acc \<Rightarrow> drain_acc" where
  \<comment> \<open>one iteration of the loop over the polls\<close>
  "drain_poll rep poll acc =
    (let ready = items_of rep (po_ready poll);
         is_empty = poll_empty rep poll
     in \<lparr>da_quarantined = da_quarantined acc @ map (quarantine_of rep) (blocked_items (po_blocked poll)),
         da_late = (if da_previous_empty acc \<and> ready \<noteq> [] then da_late acc @ ready else da_late acc),
         da_previous_empty = is_empty,
         da_empty_tail = (if is_empty then da_empty_tail acc + 1 else 0)\<rparr>)"

definition drain_start :: drain_acc where
  "drain_start = \<lparr>da_quarantined = [], da_late = [], da_previous_empty = False, da_empty_tail = 0\<rparr>"

definition debt_of :: "quarantine \<Rightarrow> debt_row" where
  "debt_of q = \<lparr>db_debt_id = ''quarantined-'' @ qu_id q, db_work_item_id = qu_id q, db_message = qu_reason q,
     db_blocking = False, db_dead_ends = qu_dead_ends q\<rparr>"

definition drain_blocked :: "string \<Rightarrow> drain_result" where
  "drain_blocked code = \<lparr>dt_status = BLOCKED, dt_reason_code = code, dt_empty_rounds = 0,
     dt_late_arrivals = [], dt_quarantined = [], dt_technical_debts = []\<rparr>"

definition evaluate_drain :: "(json \<Rightarrow> string) \<Rightarrow> poll option list option \<Rightarrow> int \<Rightarrow> drain_result" where
  "evaluate_drain rep rounds k =
    (case rounds of
       None \<Rightarrow> drain_blocked ''rounds_invalid''
     | Some given \<Rightarrow>
         if k < 1 then drain_blocked ''limit_invalid''
         else
           let polls = all_rows given
           in if length polls \<noteq> length given then drain_blocked ''round_invalid''
              else
                let acc = fold (drain_poll rep) polls drain_start;
                    quarantined = sort_key (\<lambda>q. (qu_id q, qu_reason q, qu_dead_ends q)) (da_quarantined acc);
                    late = sorted_set (da_late acc);
                    mk = (\<lambda>st code. \<lparr>dt_status = st, dt_reason_code = code, dt_empty_rounds = da_empty_tail acc,
                           dt_late_arrivals = late, dt_quarantined = quarantined,
                           dt_technical_debts = map debt_of quarantined\<rparr>)
                in if late \<noteq> [] then mk CONTINUE ''late_arrival''
                   else if k \<le> int (da_empty_tail acc) then mk DRAINED ''drain_verified''
                   else mk CONTINUE ''source_not_quiet'')"

section \<open>Facts on converge\<close>

lemma all_rows_full [simp]: "length (all_rows (map Some xs)) = length xs" "all_rows (map Some xs) = xs"
  by (induction xs) (simp_all add: all_rows_def map_filter_simps)

lemma all_rows_length: "length (all_rows xs) = length xs \<longleftrightarrow> xs = map Some (all_rows xs)"
proof (induction xs)
  case (Cons x xs)
  have "length (all_rows xs) \<le> length xs" by (induction xs) (auto simp: all_rows_def map_filter_simps split: option.splits)
  with Cons show ?case by (cases x) (auto simp: all_rows_def map_filter_simps)
qed (simp add: all_rows_def map_filter_simps)

text \<open>Only a verified last attempt completes, a full attempt budget is never retried, and a retry
  after a stall means the strategy was changed.\<close>

lemma converge_complete_iff:
  "fr_status (evaluate_converge (Some (map Some rows)) m s) = COMPLETE \<longleftrightarrow>
    1 \<le> m \<and> 1 \<le> s \<and> rows \<noteq> [] \<and> at_verified (last rows)"
  by (auto simp: evaluate_converge_def flow_result0_def Let_def)

lemma converge_bounded:
  "m \<le> int (length rows) \<Longrightarrow>
    fr_status (evaluate_converge (Some (map Some rows)) m s) \<in> {BLOCKED, COMPLETE, ESCALATE}"
  by (auto simp: evaluate_converge_def flow_result0_def Let_def)

lemma converge_retry:
  "fr_status (evaluate_converge (Some (map Some rows)) m s) = RETRY \<Longrightarrow>
    int (length rows) < m \<and> (int (repeat_count rows) < s \<or> strategy_switched rows)"
  by (auto simp: evaluate_converge_def flow_result0_def Let_def split: if_splits)

section \<open>Facts on drain\<close>

definition late_at :: "(json \<Rightarrow> string) \<Rightarrow> poll list \<Rightarrow> nat \<Rightarrow> bool" where
  "late_at rep polls i \<longleftrightarrow> Suc i < length polls \<and> poll_empty rep (polls ! i)
     \<and> items_of rep (po_ready (polls ! Suc i)) \<noteq> []"

lemma drain_poll_sel [simp]:
  "da_late (drain_poll rep p acc) = (if da_previous_empty acc \<and> items_of rep (po_ready p) \<noteq> []
     then da_late acc @ items_of rep (po_ready p) else da_late acc)"
  "da_previous_empty (drain_poll rep p acc) = poll_empty rep p"
  "da_empty_tail (drain_poll rep p acc) = (if poll_empty rep p then da_empty_tail acc + 1 else 0)"
  "da_quarantined (drain_poll rep p acc) =
     da_quarantined acc @ map (quarantine_of rep) (blocked_items (po_blocked p))"
  by (simp_all add: drain_poll_def Let_def)

lemma drain_tail:
  "da_empty_tail (fold (drain_poll rep) polls drain_start) = length (takeWhile (poll_empty rep) (rev polls))"
  by (induction polls rule: rev_induct) (simp_all add: drain_start_def)

lemma drain_previous:
  "da_previous_empty (fold (drain_poll rep) polls drain_start) \<longleftrightarrow> polls \<noteq> [] \<and> poll_empty rep (last polls)"
  by (induction polls rule: rev_induct) (simp_all add: drain_start_def)

lemma late_at_snoc:
  "late_at rep (polls @ [p]) i \<longleftrightarrow> late_at rep polls i \<or>
    (Suc i = length polls \<and> poll_empty rep (last polls) \<and> items_of rep (po_ready p) \<noteq> [])"
proof (cases "Suc i = length polls")
  case True
  then have "last polls = polls ! i" by (simp add: last_conv_nth flip: True length_greater_0_conv)
  with True show ?thesis by (auto simp: late_at_def nth_append simp flip: True)
next
  case False
  then show ?thesis by (auto simp: late_at_def nth_append)
qed

lemma drain_late:
  "da_late (fold (drain_poll rep) polls drain_start) \<noteq> [] \<longleftrightarrow> (\<exists>i. late_at rep polls i)"
proof (induction polls rule: rev_induct)
  case Nil
  then show ?case by (simp add: drain_start_def late_at_def)
next
  case (snoc p polls)
  have "(\<exists>i. Suc i = length polls \<and> Q) \<longleftrightarrow> polls \<noteq> [] \<and> Q" for Q
    by (cases polls) auto
  then show ?case using snoc drain_previous [of rep polls]
    by (auto simp: late_at_snoc ex_disj_distrib)
qed

lemma drain_quarantined:
  "da_quarantined (fold (drain_poll rep) polls drain_start)
    = concat (map (\<lambda>p. map (quarantine_of rep) (blocked_items (po_blocked p))) polls)"
  by (induction polls rule: rev_induct) (simp_all add: drain_start_def)

lemma takeWhile_length_iff:
  "k \<le> length (takeWhile P xs) \<longleftrightarrow> k \<le> length xs \<and> (\<forall>x \<in> set (take k xs). P x)"
proof (induction xs arbitrary: k)
  case (Cons x xs)
  then show ?case by (cases k) auto
qed simp

lemma empty_tail_iff:
  "k \<le> length (takeWhile P (rev xs)) \<longleftrightarrow> k \<le> length xs \<and> (\<forall>x \<in> set (drop (length xs - k) xs). P x)"
  by (simp add: takeWhile_length_iff take_rev)

section \<open>Property\<close>

text \<open>C15: a drain is verified exactly when the limit is positive, every round is well formed, the last
  \<open>k\<close> polls are all empty and idle, and no poll of the whole record shows ready work right after an
  empty poll. Blocked items never prevent it: they are all quarantined, none lost, each with a
  non-blocking debt. In particular a late arrival keeps every longer record of rounds from draining.\<close>

theorem drain_verified_iff:
  "(dt_status (evaluate_drain rep (Some given) k) = DRAINED \<longleftrightarrow>
      (\<exists>polls. given = map Some polls \<and> 1 \<le> k \<and> nat k \<le> length polls
         \<and> (\<forall>p \<in> set (drop (length polls - nat k) polls).
              items_of rep (po_ready p) = [] \<and> items_of rep (po_active p) = [])
         \<and> \<not> (\<exists>i. late_at rep polls i)))
   \<and> (dt_status (evaluate_drain rep (Some given) k) \<noteq> BLOCKED \<longrightarrow>
      (let r = evaluate_drain rep (Some given) k in
        mset (dt_quarantined r) =
          mset (concat (map (\<lambda>p. map (quarantine_of rep) (blocked_items (po_blocked p))) (all_rows given)))
        \<and> dt_technical_debts r = map debt_of (dt_quarantined r)
        \<and> (\<forall>d \<in> set (dt_technical_debts r). \<not> db_blocking d)))"
proof (cases "1 \<le> k \<and> given = map Some (all_rows given)")
  case False
  then have "dt_status (evaluate_drain rep (Some given) k) = BLOCKED"
    using all_rows_length [of given] by (auto simp: evaluate_drain_def drain_blocked_def Let_def)
  moreover have "\<not> (\<exists>polls. given = map Some polls \<and> 1 \<le> k)" using False all_rows_full(2) by metis
  ultimately show ?thesis by auto
next
  case True
  define polls where "polls = all_rows given"
  have given: "given = map Some polls" using True polls_def by simp
  let ?acc = "fold (drain_poll rep) polls drain_start"
  have late: "sorted_set (da_late ?acc) = [] \<longleftrightarrow> \<not> (\<exists>i. late_at rep polls i)"
    using drain_late [of rep polls] by (metis set_empty set_sorted_set)
  have "k \<le> int (da_empty_tail ?acc) \<longleftrightarrow> nat k \<le> length polls
      \<and> (\<forall>p \<in> set (drop (length polls - nat k) polls). poll_empty rep p)"
    using empty_tail_iff [of "nat k" "poll_empty rep" polls] True by (simp add: drain_tail nat_le_iff)
  then have "dt_status (evaluate_drain rep (Some given) k) = DRAINED \<longleftrightarrow>
      nat k \<le> length polls \<and> (\<forall>p \<in> set (drop (length polls - nat k) polls). poll_empty rep p)
      \<and> \<not> (\<exists>i. late_at rep polls i)"
    using True late given by (auto simp: evaluate_drain_def Let_def)
  moreover have "given = map Some ps \<longleftrightarrow> ps = polls" for ps
    using given all_rows_full(2) by metis
  moreover have "mset (dt_quarantined (evaluate_drain rep (Some given) k)) = mset (da_quarantined ?acc)
      \<and> dt_technical_debts (evaluate_drain rep (Some given) k) = map debt_of (dt_quarantined (evaluate_drain rep (Some given) k))"
    using True given by (simp add: evaluate_drain_def Let_def)
  ultimately show ?thesis using True
    by (auto simp: poll_empty_def Let_def drain_quarantined polls_def debt_of_def)
qed

definition demo_polls :: "poll option list" where
  "demo_polls = [Some \<lparr>po_ready = JArr [JStr ''t''], po_active = JNull, po_blocked = JArr [JStr ''q'']\<rparr>,
     Some \<lparr>po_ready = JArr [], po_active = JObj [], po_blocked = JNull\<rparr>]"

theorem drain_verified_iff_witness:
  "dt_status (evaluate_drain (\<lambda>_. ''?'') (Some demo_polls) 1) = DRAINED
   \<and> dt_quarantined (evaluate_drain (\<lambda>_. ''?'') (Some demo_polls) 1)
       = [\<lparr>qu_id = ''q'', qu_reason = ''blocked'', qu_dead_ends = []\<rparr>]
   \<and> dt_technical_debts (evaluate_drain (\<lambda>_. ''?'') (Some demo_polls) 1)
       = [debt_of \<lparr>qu_id = ''q'', qu_reason = ''blocked'', qu_dead_ends = []\<rparr>]"
proof -
  have s: "dt_status (evaluate_drain (\<lambda>_. ''?'') (Some demo_polls) 1) = DRAINED" by code_simp
  have q: "dt_quarantined (evaluate_drain (\<lambda>_. ''?'') (Some demo_polls) 1)
       = [\<lparr>qu_id = ''q'', qu_reason = ''blocked'', qu_dead_ends = []\<rparr>]" by code_simp
  from s q drain_verified_iff [of "\<lambda>_. ''?''" demo_polls 1] show ?thesis by (simp add: Let_def)
qed

end
