(* ===== verification/Slot_Lease.thy ===== *)
theory Slot_Lease
  imports Loop_Prelude
begin

text \<open>
  Durable resource leases (\<open>slot_lease.py\<close>): leases, fencing counters and protected values are a
  projection of an operations journal, and every mutation is a compare-and-swap append that is
  retried when the journal moved.

  The journal store is not part of the repository. It is the parameter \<open>ops\<close> of type \<open>'s journal_ops\<close>
  over an abstract store state, with \<open>journal_laws\<close> as the behaviour relied on: an append succeeds
  only at the expected sequence number and adds exactly one event, a failed append changes nothing.
  What other processes do to the store between a replay and the append that follows is the function
  \<open>env\<close>, indexed by the round of the retry loop; \<open>clock\<close> gives the time read in a round and
  \<open>sha\<close> is the digest of a receipt.
\<close>

section \<open>Leases, receipts and events\<close>

record CapabilityLease =
  cl_resource_key :: string
  cl_owner_id :: string
  cl_attempt :: int
  cl_fence :: int
  cl_issued_at :: rat
  cl_heartbeat_at :: rat
  cl_expires_at :: rat
  cl_state :: string

record receipt_body =
  lr_event :: string
  lr_observed_at :: rat
  lr_resource_key :: string
  lr_owner_id :: string
  lr_attempt :: int
  lr_fence :: int
  lr_expires_at :: rat
  lr_state :: string
  lr_reason :: "string option"

record lease_receipt = receipt_body +
  lr_receipt_hash :: string

datatype lease_error =
    LeaseError string
  | LeaseConflict string string rat
  | StaleFence string
  | JournalConflict
  | LeaseValueError string

datatype lease_op = Acquired | Heartbeat | Released | MarkedStale | Invalidated

datatype lease_payload =
    LeaseChanged lease_op string CapabilityLease lease_receipt
  | MutationCommitted string string json int lease_receipt
    \<comment> \<open>resource, value key, value, fence, receipt\<close>
  | UnknownSchema
  | UnknownOperation

record lease_replay =
  rp_valid :: bool
  rp_events :: "(int \<times> lease_payload) list"
  rp_compaction :: "int option"

datatype append_outcome = Appended | AppendFailed string string
  \<comment> \<open>text and reason code of the error\<close>

record 's journal_ops =
  op_replay :: "'s \<Rightarrow> lease_replay"
  op_append :: "'s \<Rightarrow> string \<Rightarrow> lease_payload \<Rightarrow> int \<Rightarrow> 's \<times> append_outcome"

record lease_state =
  ls_leases :: "(string, CapabilityLease) dict"
  ls_counters :: "(string, int) dict"
  ls_protected :: "(string, (string, json \<times> int) dict) dict"
  ls_receipts :: "lease_receipt list"

definition op_name :: "lease_op \<Rightarrow> string" where
  "op_name x = (case x of Acquired \<Rightarrow> ''acquired'' | Heartbeat \<Rightarrow> ''heartbeat'' | Released \<Rightarrow> ''released''
     | MarkedStale \<Rightarrow> ''marked_stale'' | Invalidated \<Rightarrow> ''invalidated'')"

section \<open>The projection\<close>

definition last_seq :: "lease_replay \<Rightarrow> int" where
  "last_seq rp = (if rp_events rp \<noteq> [] then fst (last (rp_events rp))
     else case rp_compaction rp of Some n \<Rightarrow> n | None \<Rightarrow> 0)"

definition checked_replay :: "'s journal_ops \<Rightarrow> 's \<Rightarrow> lease_error + lease_replay" where
  "checked_replay ops s = (let rp = op_replay ops s
     in if \<not> rp_valid rp then Inl (LeaseError ''lease journal is invalid'') else Inr rp)"

definition empty_lease_state :: lease_state where
  "empty_lease_state = \<lparr>ls_leases = [], ls_counters = [], ls_protected = [], ls_receipts = []\<rparr>"

fun project_event :: "lease_payload \<Rightarrow> lease_state \<Rightarrow> lease_error + lease_state" where
  "project_event (LeaseChanged _ key lease r) st = Inr (st
     \<lparr>ls_leases := dict_set (ls_leases st) key lease,
      ls_counters := dict_set (ls_counters st) key (max (dict_get_or (ls_counters st) key 0) (cl_fence lease)),
      ls_receipts := ls_receipts st @ [r]\<rparr>)"
| "project_event (MutationCommitted key vkey v fence r) st = Inr (st
     \<lparr>ls_protected := dict_set (ls_protected st) key
        (dict_set (dict_get_or (ls_protected st) key []) vkey (v, fence)),
      ls_receipts := ls_receipts st @ [r]\<rparr>)"
| "project_event UnknownSchema st = Inl (LeaseError ''lease journal contains an unknown event'')"
| "project_event UnknownOperation st = Inl (LeaseError ''lease journal contains an unknown operation'')"

definition project :: "lease_payload list \<Rightarrow> lease_error + lease_state" where
  "project evs = fold (\<lambda>e r. ebind r (project_event e)) evs (Inr empty_lease_state)"

definition state_of :: "lease_replay \<Rightarrow> lease_error + lease_state" where
  "state_of rp = project (map snd (rp_events rp))"

section \<open>Shared steps\<close>

definition is_conflict :: "string \<Rightarrow> string \<Rightarrow> bool" where
  "is_conflict message reason_code \<longleftrightarrow>
     contains_text ''JOURNAL_CONFLICT'' message \<or> reason_code = ''JOURNAL_CONFLICT''"

definition append_lease_event ::
    "'s journal_ops \<Rightarrow> lease_replay \<Rightarrow> string \<Rightarrow> lease_payload \<Rightarrow> 's \<Rightarrow> 's \<times> (lease_error + unit)" where
  "append_lease_event ops rp operation e s =
    (case op_append ops s (''resource_lease.'' @ operation) e (last_seq rp) of
       (s', Appended) \<Rightarrow> (s', Inr ())
     | (s', AppendFailed message code) \<Rightarrow>
         (s', Inl (if is_conflict message code then JournalConflict
                   else LeaseError (''lease journal append failed: '' @ message))))"

definition LeaseStore_init :: "rat \<Rightarrow> lease_error + rat" where
  \<comment> \<open>the largest time to live a store accepts\<close>
  "LeaseStore_init max_ttl =
    (if max_ttl \<le> 0 then Inl (LeaseValueError ''max_ttl_seconds must be positive'') else Inr max_ttl)"

definition check_ttl :: "rat \<Rightarrow> rat \<Rightarrow> lease_error + rat" where
  "check_ttl max_ttl ttl =
    (if ttl \<le> 0 \<or> max_ttl < ttl then Inl (LeaseValueError ''ttl_seconds out of range'') else Inr ttl)"

definition make_receipt ::
    "(receipt_body \<Rightarrow> string) \<Rightarrow> string \<Rightarrow> CapabilityLease \<Rightarrow> rat \<Rightarrow> string option \<Rightarrow> lease_receipt" where
  "make_receipt sha event lease observed_at reason =
    (let body = \<lparr>lr_event = event, lr_observed_at = observed_at, lr_resource_key = cl_resource_key lease,
           lr_owner_id = cl_owner_id lease, lr_attempt = cl_attempt lease, lr_fence = cl_fence lease,
           lr_expires_at = cl_expires_at lease, lr_state = cl_state lease, lr_reason = reason\<rparr>
     in receipt_body.extend body \<lparr>lr_receipt_hash = sha body\<rparr>)"

definition require_current ::
    "lease_state \<Rightarrow> string \<Rightarrow> string \<Rightarrow> int \<Rightarrow> rat \<Rightarrow> lease_error + CapabilityLease" where
  "require_current st key owner fence now =
    (case dict_get (ls_leases st) key of
       None \<Rightarrow> Inl (StaleFence ''resource has no lease'')
     | Some lease \<Rightarrow>
         if cl_state lease \<noteq> ''active'' \<or> cl_expires_at lease \<le> now then Inl (StaleFence ''lease expired'')
         else if cl_owner_id lease \<noteq> owner \<or> cl_fence lease \<noteq> fence
         then Inl (StaleFence ''owner or fencing token is stale'')
         else Inr lease)"

text \<open>One round of an operation reads a projection and a time and gives an error, an early result, or
  an event to append with the result to return once it is committed.\<close>

datatype 'r cas_attempt = Finish 'r | Commit string lease_payload 'r

fun cas_loop ::
    "'s journal_ops \<Rightarrow> (nat \<Rightarrow> 's \<Rightarrow> 's) \<Rightarrow> (nat \<Rightarrow> rat) \<Rightarrow> string
      \<Rightarrow> (lease_state \<Rightarrow> rat \<Rightarrow> lease_error + 'r cas_attempt) \<Rightarrow> nat \<Rightarrow> nat \<Rightarrow> 's \<Rightarrow> 's \<times> (lease_error + 'r)" where
  "cas_loop ops env clock what body 0 i s = (s, Inl (LeaseError (what @ '' remained contended'')))"
| "cas_loop ops env clock what body (Suc n) i s =
    (case ebind (checked_replay ops s) (\<lambda>rp. ebind (state_of rp) (\<lambda>st.
            ebind (body st (clock i)) (\<lambda>a. Inr (rp, a)))) of
       Inl e \<Rightarrow> (s, Inl e)
     | Inr (rp, Finish r) \<Rightarrow> (s, Inr r)
     | Inr (rp, Commit operation e r) \<Rightarrow>
         (case append_lease_event ops rp operation e (env i s) of
            (s', Inr _) \<Rightarrow> (s', Inr r)
          | (s', Inl JournalConflict) \<Rightarrow> cas_loop ops env clock what body n (Suc i) s'
          | (s', Inl err) \<Rightarrow> (s', Inl err)))"

section \<open>Operations\<close>

definition lease_live :: "CapabilityLease \<Rightarrow> rat \<Rightarrow> bool" where
  "lease_live l now \<longleftrightarrow> cl_state l = ''active'' \<and> now < cl_expires_at l"

definition acquire_body ::
    "(receipt_body \<Rightarrow> string) \<Rightarrow> string \<Rightarrow> string \<Rightarrow> rat \<Rightarrow> lease_state \<Rightarrow> rat
      \<Rightarrow> lease_error + (CapabilityLease \<times> lease_receipt) cas_attempt" where
  "acquire_body sha key owner ttl st now =
    (let current = dict_get (ls_leases st) key
     in case current of
          Some c \<Rightarrow> if lease_live c now then Inl (LeaseConflict key (cl_owner_id c) (cl_expires_at c))
                    else (let lease = \<lparr>cl_resource_key = key, cl_owner_id = owner, cl_attempt = cl_attempt c + 1,
                                cl_fence = dict_get_or (ls_counters st) key 0 + 1, cl_issued_at = now,
                                cl_heartbeat_at = now, cl_expires_at = now + ttl, cl_state = ''active''\<rparr>;
                              r = make_receipt sha ''acquired'' lease now None
                          in Inr (Commit ''acquired'' (LeaseChanged Acquired key lease r) (lease, r)))
        | None \<Rightarrow> (let lease = \<lparr>cl_resource_key = key, cl_owner_id = owner, cl_attempt = 1,
                         cl_fence = dict_get_or (ls_counters st) key 0 + 1, cl_issued_at = now,
                         cl_heartbeat_at = now, cl_expires_at = now + ttl, cl_state = ''active''\<rparr>;
                       r = make_receipt sha ''acquired'' lease now None
                   in Inr (Commit ''acquired'' (LeaseChanged Acquired key lease r) (lease, r))))"

definition LeaseStore_acquire where
  "LeaseStore_acquire ops env clock sha max_ttl key owner ttl s =
    (if strip key = [] \<or> strip owner = [] then (s, Inl (LeaseValueError ''resource_key and owner_id are required''))
     else case check_ttl max_ttl ttl of
            Inl e \<Rightarrow> (s, Inl e)
          | Inr t \<Rightarrow> cas_loop ops env clock ''lease acquisition'' (acquire_body sha (strip key) (strip owner) t) 32 0 s)"

definition heartbeat_body ::
    "(receipt_body \<Rightarrow> string) \<Rightarrow> string \<Rightarrow> string \<Rightarrow> int \<Rightarrow> rat \<Rightarrow> lease_state \<Rightarrow> rat
      \<Rightarrow> lease_error + (CapabilityLease \<times> lease_receipt) cas_attempt" where
  "heartbeat_body sha key owner fence ttl st now =
    ebind (require_current st key owner fence now) (\<lambda>lease.
      let renewed = lease\<lparr>cl_heartbeat_at := now, cl_expires_at := now + ttl, cl_state := ''active''\<rparr>;
          r = make_receipt sha ''heartbeat'' renewed now None
      in Inr (Commit ''heartbeat'' (LeaseChanged Heartbeat key renewed r) (renewed, r)))"

definition LeaseStore_heartbeat where
  "LeaseStore_heartbeat ops env clock sha max_ttl key owner fence ttl s =
    (case check_ttl max_ttl ttl of
       Inl e \<Rightarrow> (s, Inl e)
     | Inr t \<Rightarrow> cas_loop ops env clock ''lease heartbeat'' (heartbeat_body sha key owner fence t) 32 0 s)"

definition put_body ::
    "(receipt_body \<Rightarrow> string) \<Rightarrow> string \<Rightarrow> string \<Rightarrow> int \<Rightarrow> string \<Rightarrow> json \<Rightarrow> lease_state \<Rightarrow> rat
      \<Rightarrow> lease_error + (string \<times> int \<times> lease_receipt) cas_attempt" where
  "put_body sha key owner fence vkey v st now =
    ebind (require_current st key owner fence now) (\<lambda>lease.
      let r = make_receipt sha ''mutation_committed'' lease now None
      in Inr (Commit ''mutation_committed'' (MutationCommitted key vkey v fence r) (vkey, fence, r)))"

definition LeaseStore_put where
  "LeaseStore_put ops env clock sha key owner fence vkey v s =
    cas_loop ops env clock ''protected mutation'' (put_body sha key owner fence vkey v) 32 0 s"

definition release_body ::
    "(receipt_body \<Rightarrow> string) \<Rightarrow> string \<Rightarrow> string \<Rightarrow> int \<Rightarrow> lease_state \<Rightarrow> rat
      \<Rightarrow> lease_error + (CapabilityLease \<times> lease_receipt) cas_attempt" where
  "release_body sha key owner fence st now =
    ebind (require_current st key owner fence now) (\<lambda>lease.
      let released = lease\<lparr>cl_state := ''released''\<rparr>;
          r = make_receipt sha ''released'' released now None
      in Inr (Commit ''released'' (LeaseChanged Released key released r) (released, r)))"

definition LeaseStore_release where
  "LeaseStore_release ops env clock sha key owner fence s =
    cas_loop ops env clock ''lease release'' (release_body sha key owner fence) 32 0 s"

definition invalidate_body ::
    "(receipt_body \<Rightarrow> string) \<Rightarrow> string \<Rightarrow> string \<Rightarrow> lease_state \<Rightarrow> rat
      \<Rightarrow> lease_error + (CapabilityLease \<times> lease_receipt) option cas_attempt" where
  "invalidate_body sha key reason st now =
    (case dict_get (ls_leases st) key of
       None \<Rightarrow> Inr (Finish None)
     | Some lease \<Rightarrow>
         let stale = lease\<lparr>cl_state := (if cl_state lease = ''active'' then ''stale'' else cl_state lease)\<rparr>;
             r = make_receipt sha ''invalidated'' stale now (Some reason)
         in Inr (Commit ''invalidated'' (LeaseChanged Invalidated key stale r) (Some (stale, r))))"

definition LeaseStore_invalidate where
  "LeaseStore_invalidate ops env clock sha key reason s =
    cas_loop ops env clock ''lease invalidation'' (invalidate_body sha key reason) 32 0 s"

text \<open>The sweeps mark one lease per round until no candidate is left. They have no bound on the number
  of rounds, so a sweep that never ends is \<open>None\<close>.\<close>

definition stale_body ::
    "(receipt_body \<Rightarrow> string) \<Rightarrow> lease_state \<Rightarrow> rat \<Rightarrow> lease_error + lease_receipt cas_attempt option" where
  "stale_body sha st now =
    (case List.find (\<lambda>l. cl_state l = ''active'' \<and> cl_expires_at l \<le> now) (dict_values (ls_leases st)) of
       None \<Rightarrow> Inr None
     | Some lease \<Rightarrow>
         let stale = lease\<lparr>cl_state := ''stale''\<rparr>;
             r = make_receipt sha ''marked_stale'' stale now (Some ''heartbeat_expired'')
         in Inr (Some (Commit ''marked_stale'' (LeaseChanged MarkedStale (cl_resource_key lease) stale r) r)))"

definition owner_body ::
    "(receipt_body \<Rightarrow> string) \<Rightarrow> string \<Rightarrow> string \<Rightarrow> lease_state \<Rightarrow> rat
      \<Rightarrow> lease_error + lease_receipt cas_attempt option" where
  "owner_body sha owner reason st now =
    (case List.find (\<lambda>l. cl_owner_id l = owner \<and> cl_state l = ''active'') (dict_values (ls_leases st)) of
       None \<Rightarrow> Inr None
     | Some lease \<Rightarrow>
         let stale = lease\<lparr>cl_state := ''stale''\<rparr>;
             r = make_receipt sha ''invalidated'' stale now (Some reason)
         in Inr (Some (Commit ''invalidated'' (LeaseChanged Invalidated (cl_resource_key lease) stale r) r)))"

partial_function (option) sweep_loop ::
    "'s journal_ops \<Rightarrow> (nat \<Rightarrow> 's \<Rightarrow> 's) \<Rightarrow> (nat \<Rightarrow> rat)
      \<Rightarrow> (lease_state \<Rightarrow> rat \<Rightarrow> lease_error + lease_receipt cas_attempt option) \<Rightarrow> nat \<Rightarrow> lease_receipt list \<Rightarrow> 's
      \<Rightarrow> ('s \<times> (lease_error + lease_receipt list)) option" where
  [code]: "sweep_loop ops env clock body i receipts s =
    (case ebind (checked_replay ops s) (\<lambda>rp. ebind (state_of rp) (\<lambda>st.
            ebind (body st (clock i)) (\<lambda>a. Inr (rp, a)))) of
       Inl e \<Rightarrow> Some (s, Inl e)
     | Inr (rp, None) \<Rightarrow> Some (s, Inr receipts)
     | Inr (rp, Some (Finish r)) \<Rightarrow> Some (s, Inr (receipts @ [r]))
     | Inr (rp, Some (Commit operation e r)) \<Rightarrow>
         (case append_lease_event ops rp operation e (env i s) of
            (s', Inr _) \<Rightarrow> sweep_loop ops env clock body (Suc i) (receipts @ [r]) s'
          | (s', Inl JournalConflict) \<Rightarrow> sweep_loop ops env clock body (Suc i) receipts s'
          | (s', Inl err) \<Rightarrow> Some (s', Inl err)))"

definition LeaseStore_mark_stale where
  "LeaseStore_mark_stale ops env clock sha s = sweep_loop ops env clock (stale_body sha) 0 [] s"

definition LeaseStore_invalidate_owner where
  "LeaseStore_invalidate_owner ops env clock sha owner reason s =
    (if strip owner = [] then Some (s, Inl (LeaseValueError ''owner_id is required''))
     else sweep_loop ops env clock (owner_body sha (strip owner) reason) 0 [] s)"

definition LeaseStore_reclaim where
  "LeaseStore_reclaim ops env clock env' clock' sha max_ttl key owner ttl s =
    (case LeaseStore_mark_stale ops env clock sha s of
       None \<Rightarrow> None
     | Some (s', Inl e) \<Rightarrow> Some (s', Inl e)
     | Some (s', Inr _) \<Rightarrow> Some (LeaseStore_acquire ops env' clock' sha max_ttl key owner ttl s'))"

section \<open>Queries\<close>

definition project_store :: "'s journal_ops \<Rightarrow> 's \<Rightarrow> lease_error + lease_state" where
  "project_store ops s = ebind (checked_replay ops s) state_of"

definition LeaseStore_read :: "'s journal_ops \<Rightarrow> string \<Rightarrow> string \<Rightarrow> 's \<Rightarrow> lease_error + json option" where
  "LeaseStore_read ops key vkey s = ebind (project_store ops s) (\<lambda>st.
     Inr (map_option fst (dict_get (dict_get_or (ls_protected st) key []) vkey)))"

record effective_lease =
  el_lease :: CapabilityLease
  el_expires_in_seconds :: rat
  el_conflict :: bool

definition effective :: "CapabilityLease \<Rightarrow> rat \<Rightarrow> effective_lease" where
  "effective l now =
    (let state = (if cl_state l = ''active'' \<and> cl_expires_at l \<le> now then ''stale'' else cl_state l)
     in \<lparr>el_lease = l\<lparr>cl_state := state\<rparr>, el_expires_in_seconds = max 0 (cl_expires_at l - now),
         el_conflict = (state = ''active'')\<rparr>)"

definition LeaseStore_list_leases where
  "LeaseStore_list_leases ops now prefix s = ebind (project_store ops s) (\<lambda>st.
     Inr (map (\<lambda>p. effective (snd p) now)
       (filter (\<lambda>p. take (length prefix) (fst p) = prefix) (sort_key fst (ls_leases st)))))"

definition LeaseStore_status where
  "LeaseStore_status ops now key s = ebind (project_store ops s) (\<lambda>st.
     Inr (map_option (\<lambda>l. (effective l now, max 0 (now - cl_issued_at l))) (dict_get (ls_leases st) key)))"

definition LeaseStore_receipts where
  "LeaseStore_receipts ops key s = ebind (project_store ops s) (\<lambda>st.
     Inr (filter (\<lambda>r. lr_resource_key r = key) (ls_receipts st)))"

section \<open>Histories\<close>

text \<open>An event is legitimate at a projection when some operation commits it there.\<close>

definition commits :: "lease_error + 'r cas_attempt \<Rightarrow> lease_payload \<Rightarrow> bool" where
  "commits a e \<longleftrightarrow> (\<exists>operation r. a = Inr (Commit operation e r))"

definition sweeps :: "lease_error + 'r cas_attempt option \<Rightarrow> lease_payload \<Rightarrow> bool" where
  "sweeps a e \<longleftrightarrow> (\<exists>operation r. a = Inr (Some (Commit operation e r)))"

inductive legit :: "(receipt_body \<Rightarrow> string) \<Rightarrow> lease_state \<Rightarrow> lease_payload \<Rightarrow> bool" for sha where
  legit_acquire: "commits (acquire_body sha key owner ttl st now) e \<Longrightarrow> legit sha st e"
| legit_heartbeat: "commits (heartbeat_body sha key owner fence ttl st now) e \<Longrightarrow> legit sha st e"
| legit_put: "commits (put_body sha key owner fence vkey v st now) e \<Longrightarrow> legit sha st e"
| legit_release: "commits (release_body sha key owner fence st now) e \<Longrightarrow> legit sha st e"
| legit_invalidate: "commits (invalidate_body sha key reason st now) e \<Longrightarrow> legit sha st e"
| legit_stale: "sweeps (stale_body sha st now) e \<Longrightarrow> legit sha st e"
| legit_owner: "sweeps (owner_body sha owner reason st now) e \<Longrightarrow> legit sha st e"

inductive lease_history :: "(receipt_body \<Rightarrow> string) \<Rightarrow> lease_payload list \<Rightarrow> bool" for sha where
  history_empty: "lease_history sha []"
| history_step: "lease_history sha evs \<Longrightarrow> project evs = Inr st \<Longrightarrow> legit sha st e \<Longrightarrow> lease_history sha (evs @ [e])"

fun acquisition :: "string \<Rightarrow> lease_payload \<Rightarrow> CapabilityLease option" where
  "acquisition key (LeaseChanged Acquired k lease r) = (if k = key then Some lease else None)"
| "acquisition key _ = None"

definition acquisitions :: "string \<Rightarrow> lease_payload list \<Rightarrow> CapabilityLease list" where
  "acquisitions key evs = List.map_filter (acquisition key) evs"

lemma acquisitions_simps [simp]:
  "acquisitions key [] = []"
  "acquisitions key (evs @ [e]) = acquisitions key evs @ (case acquisition key e of None \<Rightarrow> [] | Some l \<Rightarrow> [l])"
  by (simp_all add: acquisitions_def map_filter_def split: option.splits)

lemma project_simps [simp]:
  "project [] = Inr empty_lease_state"
  "project (evs @ [e]) = ebind (project evs) (project_event e)"
  by (simp_all add: project_def)

text \<open>What a history keeps: the fences handed out for a resource count up from one, the counter is
  their number, and the recorded lease continues the last acquisition.\<close>

definition tracked :: "lease_payload list \<Rightarrow> lease_state \<Rightarrow> string \<Rightarrow> bool" where
  "tracked evs st key \<longleftrightarrow>
     (let acq = acquisitions key evs
      in dict_get_or (ls_counters st) key 0 = int (length acq)
         \<and> map cl_fence acq = map int [1..<Suc (length acq)]
         \<and> (case dict_get (ls_leases st) key of
              None \<Rightarrow> acq = []
            | Some l \<Rightarrow> acq \<noteq> [] \<and> cl_resource_key l = key \<and> cl_fence l = int (length acq)
                        \<and> cl_owner_id l = cl_owner_id (last acq)))"

definition same_hold :: "CapabilityLease \<Rightarrow> CapabilityLease \<Rightarrow> bool" where
  "same_hold l l' \<longleftrightarrow> cl_resource_key l' = cl_resource_key l \<and> cl_fence l' = cl_fence l \<and> cl_owner_id l' = cl_owner_id l"

lemma require_current_Inr:
  "require_current st key owner fence now = Inr l \<longleftrightarrow> dict_get (ls_leases st) key = Some l \<and> lease_live l now
     \<and> cl_owner_id l = owner \<and> cl_fence l = fence"
  by (auto simp: require_current_def lease_live_def split: option.splits)

lemma find_values:
  "List.find P (dict_values d) = Some l \<Longrightarrow> l \<in> set (dict_values d) \<and> P l"
  by (metis find_Some_iff nth_mem)

text \<open>The three shapes of a legitimate event.\<close>

lemma legit_cases:
  assumes "legit sha st e" and keys: "\<forall>l \<in> set (dict_values (ls_leases st)).
     dict_get (ls_leases st) (cl_resource_key l) = Some l"
  obtains (Acq) key l r where "e = LeaseChanged Acquired key l r" "cl_resource_key l = key"
      "cl_fence l = dict_get_or (ls_counters st) key 0 + 1"
      "\<forall>c. dict_get (ls_leases st) key = Some c \<longrightarrow> \<not> lease_live c (cl_issued_at l)"
  | (Keep) oper key l l' r where "e = LeaseChanged oper key l' r" "oper \<noteq> Acquired"
      "dict_get (ls_leases st) key = Some l" "same_hold l l'"
  | (Put) key vkey v l r where "e = MutationCommitted key vkey v (cl_fence l) r"
      "dict_get (ls_leases st) key = Some l" "lr_owner_id r = cl_owner_id l"
  using assms(1)
proof cases
  case (legit_acquire key owner ttl now)
  then show thesis using Acq
    by (auto simp: commits_def acquire_body_def Let_def split: option.splits if_splits)
next
  case (legit_heartbeat key owner fence ttl now)
  then show thesis using Keep [of Heartbeat key]
    by (auto simp: commits_def heartbeat_body_def Let_def ebind_Inr_conv require_current_Inr same_hold_def)
next
  case (legit_put key owner fence vkey v now)
  then show thesis using Put [of key vkey v]
    by (auto simp: commits_def put_body_def Let_def ebind_Inr_conv require_current_Inr make_receipt_def
        receipt_body.defs)
next
  case (legit_release key owner fence now)
  then show thesis using Keep [of Released key]
    by (auto simp: commits_def release_body_def Let_def ebind_Inr_conv require_current_Inr same_hold_def)
next
  case (legit_invalidate key reason now)
  then show thesis using Keep [of Invalidated key]
    by (auto simp: commits_def invalidate_body_def Let_def same_hold_def split: option.splits)
next
  case (legit_stale now)
  then obtain l r where e: "e = LeaseChanged MarkedStale (cl_resource_key l) (l\<lparr>cl_state := ''stale''\<rparr>) r"
    and "l \<in> set (dict_values (ls_leases st))"
    by (auto simp: sweeps_def stale_body_def Let_def dest: find_values split: option.splits)
  with keys show thesis by (intro Keep [OF e]) (auto simp: same_hold_def)
next
  case (legit_owner owner reason now)
  then obtain l r where e: "e = LeaseChanged Invalidated (cl_resource_key l) (l\<lparr>cl_state := ''stale''\<rparr>) r"
    and "l \<in> set (dict_values (ls_leases st))"
    by (auto simp: sweeps_def owner_body_def Let_def dest: find_values split: option.splits)
  with keys show thesis by (intro Keep [OF e]) (auto simp: same_hold_def)
qed

definition history_ok :: "lease_payload list \<Rightarrow> lease_state \<Rightarrow> bool" where
  "history_ok evs st \<longleftrightarrow> distinct (dict_keys (ls_leases st)) \<and> (\<forall>key. tracked evs st key)"

lemma history_ok_keys:
  assumes "history_ok evs st"
  shows "\<forall>l \<in> set (dict_values (ls_leases st)). dict_get (ls_leases st) (cl_resource_key l) = Some l"
proof
  fix l
  assume "l \<in> set (dict_values (ls_leases st))"
  then obtain k where k: "dict_get (ls_leases st) k = Some l"
    using assms dict_values_get by (metis history_ok_def)
  moreover have "tracked evs st k" using assms by (simp add: history_ok_def)
  ultimately show "dict_get (ls_leases st) (cl_resource_key l) = Some l" by (simp add: tracked_def Let_def)
qed

lemma history_ok_step:
  assumes ok: "history_ok evs st" and "legit sha st e" and st': "project_event e st = Inr st'"
  shows "history_ok (evs @ [e]) st'"
  using assms(2) history_ok_keys [OF ok]
proof (cases rule: legit_cases)
  case (Acq key l r)
  have "tracked (evs @ [e]) st' k" for k
  proof -
    have "tracked evs st k" using ok by (simp add: history_ok_def)
    then show ?thesis using Acq st' by (auto simp: tracked_def Let_def split: option.splits if_splits)
  qed
  then show ?thesis using ok Acq st' distinct_keys_set by (auto simp: history_ok_def)
next
  case (Keep oper key l l' r)
  then have a: "acquisition k e = None" for k by (cases oper) auto
  have "tracked (evs @ [e]) st' k" for k
  proof -
    have "tracked evs st k" using ok by (simp add: history_ok_def)
    then show ?thesis using Keep st' a by (auto simp: tracked_def Let_def same_hold_def split: option.splits if_splits)
  qed
  then show ?thesis using ok Keep st' distinct_keys_set by (auto simp: history_ok_def)
next
  case (Put key vkey v l r)
  then have "tracked (evs @ [e]) st' k \<longleftrightarrow> tracked evs st k" for k
    using st' by (auto simp: tracked_def Let_def)
  then show ?thesis using ok Put st' by (auto simp: history_ok_def)
qed

lemma legit_projects: "legit sha st e \<Longrightarrow> \<exists>st'. project_event e st = Inr st'"
  by (induction rule: legit.induct)
    (auto simp: commits_def sweeps_def acquire_body_def heartbeat_body_def put_body_def release_body_def
      invalidate_body_def stale_body_def owner_body_def Let_def ebind_Inr_conv split: option.splits if_splits)

lemma history_projects: "lease_history sha evs \<Longrightarrow> \<exists>st. project evs = Inr st \<and> history_ok evs st"
proof (induction rule: lease_history.induct)
  case history_empty
  then show ?case by (simp add: history_ok_def tracked_def empty_lease_state_def)
next
  case (history_step evs st e)
  then obtain st' where "project_event e st = Inr st'" using legit_projects by blast
  with history_step history_ok_step show ?case by fastforce
qed

lemma history_prefix: "lease_history sha (pre @ post) \<Longrightarrow> lease_history sha pre"
proof (induction post rule: rev_induct)
  case (snoc e post)
  from snoc.prems have "lease_history sha ((pre @ post) @ [e])" by simp
  then show ?case by (cases rule: lease_history.cases) (auto intro: snoc.IH)
qed simp

lemma history_last: "lease_history sha (pre @ [e]) \<Longrightarrow> \<exists>st. project pre = Inr st \<and> history_ok pre st \<and> legit sha st e"
proof -
  assume h: "lease_history sha (pre @ [e])"
  then obtain st where "project pre = Inr st" "legit sha st e"
    by (cases rule: lease_history.cases) auto
  with history_projects [OF history_prefix [OF h]] show ?thesis by auto
qed

section \<open>The retry loops under interference\<close>

definition journal_laws :: "'s journal_ops \<Rightarrow> bool" where
  "journal_laws ops \<longleftrightarrow> (\<forall>s name e expected s' out. op_append ops s name e expected = (s', out) \<longrightarrow>
     (if out = Appended
      then expected = last_seq (op_replay ops s)
        \<and> op_replay ops s' = (op_replay ops s)\<lparr>rp_events := rp_events (op_replay ops s) @ [(expected + 1, e)]\<rparr>
      else op_replay ops s' = op_replay ops s))"

text \<open>A store is sound when its journal is valid, was never compacted, is numbered from one, and is a
  history of committed operations. Soundness of a later store relative to an earlier one also asks
  that the journal only grew.\<close>

definition numbered :: "(int \<times> lease_payload) list \<Rightarrow> bool" where
  "numbered evs \<longleftrightarrow> map fst evs = map int [1..<Suc (length evs)]"

definition sound_store :: "(receipt_body \<Rightarrow> string) \<Rightarrow> 's journal_ops \<Rightarrow> 's \<Rightarrow> bool" where
  "sound_store sha ops s \<longleftrightarrow> rp_valid (op_replay ops s) \<and> rp_compaction (op_replay ops s) = None
     \<and> numbered (rp_events (op_replay ops s)) \<and> lease_history sha (map snd (rp_events (op_replay ops s)))"

definition journal_grows :: "'s journal_ops \<Rightarrow> 's \<Rightarrow> 's \<Rightarrow> bool" where
  "journal_grows ops s s' \<longleftrightarrow> (\<exists>new. rp_events (op_replay ops s') = rp_events (op_replay ops s) @ new)"

definition fair_env :: "(receipt_body \<Rightarrow> string) \<Rightarrow> 's journal_ops \<Rightarrow> (nat \<Rightarrow> 's \<Rightarrow> 's) \<Rightarrow> bool" where
  \<comment> \<open>the other processes also only commit operations of this module\<close>
  "fair_env sha ops env \<longleftrightarrow> (\<forall>i s. sound_store sha ops s \<longrightarrow> sound_store sha ops (env i s) \<and> journal_grows ops s (env i s))"

lemma last_seq_numbered:
  "numbered (rp_events rp) \<Longrightarrow> rp_compaction rp = None \<Longrightarrow> last_seq rp = int (length (rp_events rp))"
  unfolding last_seq_def numbered_def
  by (cases "rp_events rp" rule: rev_cases) auto

lemma numbered_snoc: "numbered (evs @ [(n, e)]) \<longleftrightarrow> numbered evs \<and> n = int (length evs) + 1"
  by (auto simp: numbered_def)

lemma journal_grows_refl [simp]: "journal_grows ops s s"
  by (simp add: journal_grows_def)

lemma journal_grows_trans: "journal_grows ops s t \<Longrightarrow> journal_grows ops t u \<Longrightarrow> journal_grows ops s u"
  by (fastforce simp: journal_grows_def)

text \<open>A committed append happens at the very journal that was read, whatever the others did.\<close>

lemma append_committed:
  assumes laws: "journal_laws ops" and s: "sound_store sha ops s" and t: "sound_store sha ops t"
    and g: "journal_grows ops s t" and legit: "\<And>st. state_of (op_replay ops s) = Inr st \<Longrightarrow> legit sha st e"
    and a: "append_lease_event ops (op_replay ops s) operation e t = (u, Inr ())"
  shows "rp_events (op_replay ops t) = rp_events (op_replay ops s) \<and> sound_store sha ops u \<and> journal_grows ops t u
    \<and> map snd (rp_events (op_replay ops u)) = map snd (rp_events (op_replay ops s)) @ [e]"
proof -
  let ?E = "\<lambda>s. rp_events (op_replay ops s)"
  obtain out where out: "op_append ops t (''resource_lease.'' @ operation) e (last_seq (op_replay ops s)) = (u, out)" "out = Appended"
    using a by (auto simp: append_lease_event_def split: prod.splits append_outcome.splits)
  with laws have l: "last_seq (op_replay ops s) = last_seq (op_replay ops t)"
    "op_replay ops u = (op_replay ops t)\<lparr>rp_events := ?E t @ [(last_seq (op_replay ops s) + 1, e)]\<rparr>"
    by (fastforce simp: journal_laws_def)+
  have len: "last_seq (op_replay ops s) = int (length (?E s))" "last_seq (op_replay ops t) = int (length (?E t))"
    using s t last_seq_numbered by (auto simp: sound_store_def)
  with l(1) g have same: "?E t = ?E s" by (auto simp: journal_grows_def)
  obtain st where st: "project (map snd (?E s)) = Inr st"
    using s history_projects by (auto simp: sound_store_def)
  then have "lease_history sha (map snd (?E s) @ [e])"
    using s legit by (intro history_step) (auto simp: sound_store_def state_of_def)
  then show ?thesis using t same l(2) len by (auto simp: sound_store_def journal_grows_def numbered_snoc)
qed

lemma append_failed:
  assumes "journal_laws ops" and "append_lease_event ops rp operation e t = (u, Inl err)"
  shows "op_replay ops u = op_replay ops t"
  using assms
  by (fastforce simp: append_lease_event_def journal_laws_def split: prod.splits append_outcome.splits)

lemma sound_same: "op_replay ops u = op_replay ops t \<Longrightarrow> sound_store sha ops t \<Longrightarrow> sound_store sha ops u \<and> journal_grows ops t u"
  by (simp add: sound_store_def journal_grows_def)

definition legit_body :: "(receipt_body \<Rightarrow> string) \<Rightarrow> (lease_state \<Rightarrow> rat \<Rightarrow> lease_error + 'r cas_attempt) \<Rightarrow> bool" where
  "legit_body sha body \<longleftrightarrow> (\<forall>st now e. commits (body st now) e \<longrightarrow> legit sha st e)"

text \<open>The result of a loop: the store stays sound and only journal_grows; a result comes from a projection of
  a journal the store went through, and a committed event is the next event of that journal.\<close>

definition outcome_ok where
  "outcome_ok sha ops body s s' res \<longleftrightarrow> sound_store sha ops s' \<and> journal_grows ops s s' \<and>
    (\<forall>r. res = Inr r \<longrightarrow> (\<exists>evs st now. project evs = Inr st \<and>
       (body st now = Inr (Finish r) \<and> map snd (rp_events (op_replay ops s')) = evs
        \<or> (\<exists>operation e. body st now = Inr (Commit operation e r)
             \<and> map snd (rp_events (op_replay ops s')) = evs @ [e]))))"

lemma cas_loop_ok:
  assumes laws: "journal_laws ops" and env: "fair_env sha ops env" and body: "legit_body sha body"
  shows "sound_store sha ops s \<Longrightarrow> cas_loop ops env clock what body n i s = (s', res) \<Longrightarrow>
    outcome_ok sha ops body s s' res"
proof (induction n arbitrary: i s)
  case 0
  then show ?case by (auto simp: outcome_ok_def)
next
  case (Suc n)
  let ?rp = "op_replay ops s"
  have rp: "checked_replay ops s = Inr ?rp" using Suc.prems(1) by (simp add: checked_replay_def sound_store_def)
  obtain st where st: "state_of ?rp = Inr st"
    using Suc.prems(1) history_projects by (auto simp: sound_store_def state_of_def)
  have t: "sound_store sha ops (env i s)" "journal_grows ops s (env i s)"
    using env Suc.prems(1) by (auto simp: fair_env_def)
  show ?case
  proof (cases "body st (clock i)")
    case (Inl e)
    then show ?thesis using Suc.prems rp st by (auto simp: outcome_ok_def)
  next
    case (Inr a)
    show ?thesis
    proof (cases a)
      case (Finish r)
      then show ?thesis using Suc.prems rp st Inr by (auto simp: outcome_ok_def state_of_def)
    next
      case (Commit operation e r)
      have leg: "legit sha st' e" if "state_of ?rp = Inr st'" for st'
        using body Inr Commit st that by (fastforce simp: legit_body_def commits_def)
      obtain u res' where u: "append_lease_event ops ?rp operation e (env i s) = (u, res')" by fastforce
      show ?thesis
      proof (cases res')
        case (Inr x)
        with u have "append_lease_event ops ?rp operation e (env i s) = (u, Inr ())" by simp
        from append_committed [OF laws Suc.prems(1) t leg this]
        show ?thesis using Suc.prems rp st \<open>body st (clock i) = Inr a\<close> Commit u Inr journal_grows_trans [OF t(2)]
          by (auto simp: outcome_ok_def state_of_def)
      next
        case (Inl err)
        have so: "sound_store sha ops u" "journal_grows ops s u"
          using sound_same [OF append_failed [OF laws u [unfolded Inl]] t(1)] journal_grows_trans [OF t(2)] by auto
        show ?thesis
        proof (cases "err = JournalConflict")
          case True
          then have "cas_loop ops env clock what body n (Suc i) u = (s', res)"
            using Suc.prems(2) rp st \<open>body st (clock i) = Inr a\<close> Commit u Inl by simp
          from Suc.IH [OF so(1) this] show ?thesis using journal_grows_trans [OF so(2)] by (auto simp: outcome_ok_def)
        next
          case False
          then have "s' = u \<and> res = Inl err"
            using Suc.prems(2) rp st \<open>body st (clock i) = Inr a\<close> Commit u Inl by (cases err) auto
          then show ?thesis using so by (auto simp: outcome_ok_def)
        qed
      qed
    qed
  qed
qed

lemma legit_bodies:
  "legit_body sha (acquire_body sha key owner ttl)"
  "legit_body sha (heartbeat_body sha key owner fence ttl)"
  "legit_body sha (put_body sha key owner fence vkey v)"
  "legit_body sha (release_body sha key owner fence)"
  "legit_body sha (invalidate_body sha key reason)"
  by (auto simp: legit_body_def intro: legit.intros)

definition legit_sweep ::
    "(receipt_body \<Rightarrow> string) \<Rightarrow> (lease_state \<Rightarrow> rat \<Rightarrow> lease_error + lease_receipt cas_attempt option) \<Rightarrow> bool" where
  "legit_sweep sha body \<longleftrightarrow> (\<forall>st now e. sweeps (body st now) e \<longrightarrow> legit sha st e)"

lemma sound_store_state:
  assumes "sound_store sha ops s"
  obtains st where "checked_replay ops s = Inr (op_replay ops s)" "state_of (op_replay ops s) = Inr st"
    "history_ok (map snd (rp_events (op_replay ops s))) st"
  using assms history_projects by (force simp: sound_store_def checked_replay_def state_of_def)

lemma sweep_loop_ok:
  assumes "sweep_loop ops env clock body i receipts s = Some r"
  shows "journal_laws ops \<longrightarrow> fair_env sha ops env \<longrightarrow> legit_sweep sha body \<longrightarrow> sound_store sha ops s \<longrightarrow>
    sound_store sha ops (fst r) \<and> journal_grows ops s (fst r)"
proof (rule sweep_loop.raw_induct [OF _ assms], intro impI)
  fix loop :: "'a journal_ops \<Rightarrow> (nat \<Rightarrow> 'a \<Rightarrow> 'a) \<Rightarrow> (nat \<Rightarrow> rat)
      \<Rightarrow> (lease_state \<Rightarrow> rat \<Rightarrow> lease_error + lease_receipt cas_attempt option) \<Rightarrow> nat \<Rightarrow> lease_receipt list \<Rightarrow> 'a
      \<Rightarrow> ('a \<times> (lease_error + lease_receipt list)) option"
    and ops :: "'a journal_ops" and env clock body i receipts s r
  assume IH: "\<And>ops env clock body i receipts s r. loop ops env clock body i receipts s = Some r \<Longrightarrow>
      journal_laws ops \<longrightarrow> fair_env sha ops env \<longrightarrow> legit_sweep sha body \<longrightarrow> sound_store sha ops s \<longrightarrow>
      sound_store sha ops (fst r) \<and> journal_grows ops s (fst r)"
    and run: "(case ebind (checked_replay ops s) (\<lambda>rp. ebind (state_of rp) (\<lambda>st.
            ebind (body st (clock i)) (\<lambda>a. Inr (rp, a)))) of
       Inl e \<Rightarrow> Some (s, Inl e)
     | Inr (rp, None) \<Rightarrow> Some (s, Inr receipts)
     | Inr (rp, Some (Finish r)) \<Rightarrow> Some (s, Inr (receipts @ [r]))
     | Inr (rp, Some (Commit operation e r)) \<Rightarrow>
         (case append_lease_event ops rp operation e (env i s) of
            (s', Inr _) \<Rightarrow> loop ops env clock body (Suc i) (receipts @ [r]) s'
          | (s', Inl JournalConflict) \<Rightarrow> loop ops env clock body (Suc i) receipts s'
          | (s', Inl err) \<Rightarrow> Some (s', Inl err))) = Some r"
    and laws: "journal_laws ops" and env: "fair_env sha ops env" and body: "legit_sweep sha body"
    and s: "sound_store sha ops s"
  let ?rp = "op_replay ops s"
  obtain st where st: "checked_replay ops s = Inr ?rp" "state_of ?rp = Inr st" using s by (rule sound_store_state)
  have t: "sound_store sha ops (env i s)" "journal_grows ops s (env i s)"
    using env s by (auto simp: fair_env_def)
  show "sound_store sha ops (fst r) \<and> journal_grows ops s (fst r)"
  proof (cases "\<exists>operation e x. body st (clock i) = Inr (Some (Commit operation e x))")
    case False
    then have "fst r = s" using run st
      by (cases "body st (clock i)") (auto split: option.splits cas_attempt.splits)
    then show ?thesis using s by simp
  next
    case True
    then obtain operation e x where c: "body st (clock i) = Inr (Some (Commit operation e x))" by blast
    have leg: "legit sha st' e" if "state_of ?rp = Inr st'" for st'
      using body c st that by (fastforce simp: legit_sweep_def sweeps_def)
    obtain u res where u: "append_lease_event ops ?rp operation e (env i s) = (u, res)" by fastforce
    have so: "sound_store sha ops u \<and> journal_grows ops s u"
    proof (cases res)
      case (Inr y)
      with u append_committed [OF laws s t leg] journal_grows_trans [OF t(2)] show ?thesis by fastforce
    next
      case (Inl err)
      with sound_same [OF append_failed [OF laws] t(1)] u journal_grows_trans [OF t(2)] show ?thesis by blast
    qed
    have "fst r = u \<or> (\<exists>rs. loop ops env clock body (Suc i) rs u = Some r)"
      using run st c u by (auto split: sum.splits lease_error.splits)
    then consider "fst r = u" | rs where "loop ops env clock body (Suc i) rs u = Some r" by blast
    then show ?thesis
    proof cases
      case 1
      then show ?thesis using so by simp
    next
      case 2
      from IH [OF this] laws env body so have "sound_store sha ops (fst r)" "journal_grows ops u (fst r)" by simp_all
      then show ?thesis using so journal_grows_trans [of ops s u "fst r"] by simp
    qed
  qed
qed

lemma legit_sweeps:
  "legit_sweep sha (stale_body sha)" "legit_sweep sha (owner_body sha owner reason)"
  by (auto simp: legit_sweep_def intro: legit.intros)

section \<open>Every operation keeps the store sound\<close>

inductive client_step :: "(receipt_body \<Rightarrow> string) \<Rightarrow> 's journal_ops \<Rightarrow> 's \<Rightarrow> 's \<Rightarrow> bool" for sha ops where
  step_acquire: "fair_env sha ops env \<Longrightarrow>
    LeaseStore_acquire ops env clock sha max_ttl key owner ttl s = (s', res) \<Longrightarrow> client_step sha ops s s'"
| step_heartbeat: "fair_env sha ops env \<Longrightarrow>
    LeaseStore_heartbeat ops env clock sha max_ttl key owner fence ttl s = (s', res) \<Longrightarrow> client_step sha ops s s'"
| step_put: "fair_env sha ops env \<Longrightarrow>
    LeaseStore_put ops env clock sha key owner fence vkey v s = (s', res') \<Longrightarrow> client_step sha ops s s'"
| step_release: "fair_env sha ops env \<Longrightarrow>
    LeaseStore_release ops env clock sha key owner fence s = (s', res) \<Longrightarrow> client_step sha ops s s'"
| step_invalidate: "fair_env sha ops env \<Longrightarrow>
    LeaseStore_invalidate ops env clock sha key reason s = (s', res'') \<Longrightarrow> client_step sha ops s s'"
| step_mark_stale: "fair_env sha ops env \<Longrightarrow>
    LeaseStore_mark_stale ops env clock sha s = Some (s', swept) \<Longrightarrow> client_step sha ops s s'"
| step_invalidate_owner: "fair_env sha ops env \<Longrightarrow>
    LeaseStore_invalidate_owner ops env clock sha owner reason s = Some (s', swept) \<Longrightarrow> client_step sha ops s s'"
| step_reclaim: "fair_env sha ops env \<Longrightarrow> fair_env sha ops env' \<Longrightarrow>
    LeaseStore_reclaim ops env clock env' clock' sha max_ttl key owner ttl s = Some (s', res) \<Longrightarrow> client_step sha ops s s'"

lemma acquire_outcome:
  assumes "journal_laws ops" "fair_env sha ops env" "sound_store sha ops s"
    "LeaseStore_acquire ops env clock sha max_ttl key owner ttl s = (s', res)"
  shows "sound_store sha ops s' \<and> journal_grows ops s s'"
  using assms cas_loop_ok [OF assms(1,2) legit_bodies(1) assms(3)]
  by (force simp: LeaseStore_acquire_def outcome_ok_def split: if_splits sum.splits)

lemma client_step_sound:
  assumes "client_step sha ops s s'" and laws: "journal_laws ops" and s: "sound_store sha ops s"
  shows "sound_store sha ops s' \<and> journal_grows ops s s'"
  using assms(1)
proof cases
  case (step_acquire env clock max_ttl key owner ttl res)
  show ?thesis by (rule acquire_outcome [OF laws step_acquire(1) s step_acquire(2)])
next
  case (step_heartbeat env clock max_ttl key owner fence ttl res)
  then show ?thesis using s cas_loop_ok [OF laws _ legit_bodies(2) s]
    by (force simp: LeaseStore_heartbeat_def outcome_ok_def split: sum.splits)
next
  case (step_put env clock key owner fence vkey v res)
  then show ?thesis using cas_loop_ok [OF laws _ legit_bodies(3) s]
    by (force simp: LeaseStore_put_def outcome_ok_def)
next
  case (step_release env clock key owner fence res)
  then show ?thesis using cas_loop_ok [OF laws _ legit_bodies(4) s]
    by (force simp: LeaseStore_release_def outcome_ok_def)
next
  case (step_invalidate env clock key reason res)
  then show ?thesis using cas_loop_ok [OF laws _ legit_bodies(5) s]
    by (force simp: LeaseStore_invalidate_def outcome_ok_def)
next
  case (step_mark_stale env clock swept)
  then show ?thesis using sweep_loop_ok legit_sweeps(1) laws s
    by (fastforce simp: LeaseStore_mark_stale_def)
next
  case (step_invalidate_owner env clock owner reason swept)
  then show ?thesis using sweep_loop_ok legit_sweeps(2) laws s
    by (fastforce simp: LeaseStore_invalidate_owner_def split: if_splits)
next
  case (step_reclaim env env' clock clock' max_ttl key owner ttl res)
  from step_reclaim(3) obtain t r1 where t: "LeaseStore_mark_stale ops env clock sha s = Some (t, r1)"
    "s' = t \<or> (\<exists>res. LeaseStore_acquire ops env' clock' sha max_ttl key owner ttl t = (s', res))"
    by (auto simp: LeaseStore_reclaim_def split: option.splits sum.splits)
  have so: "sound_store sha ops t" "journal_grows ops s t"
    using sweep_loop_ok legit_sweeps(1) laws s step_reclaim(1) t(1) by (fastforce simp: LeaseStore_mark_stale_def)+
  from t(2) show ?thesis
  proof (elim disjE exE)
    fix res'
    assume "LeaseStore_acquire ops env' clock' sha max_ttl key owner ttl t = (s', res')"
    from acquire_outcome [OF laws step_reclaim(2) so(1) this]
    show ?thesis using journal_grows_trans [OF so(2)] by simp
  qed (use so in simp)
qed

section \<open>A sweep without interference ends\<close>

definition journal_live :: "'s journal_ops \<Rightarrow> bool" where
  "journal_live ops \<longleftrightarrow> (\<forall>s name e. snd (op_append ops s name e (last_seq (op_replay ops s))) = Appended)"

definition active_count :: "lease_state \<Rightarrow> int" where
  "active_count st = dict_sum (\<lambda>l. if cl_state l = ''active'' then 1 else 0) (ls_leases st)"

definition quiet :: "nat \<Rightarrow> 's \<Rightarrow> 's" where
  "quiet i s = s"

lemma quiet_fair: "fair_env sha ops quiet"
  by (simp add: fair_env_def quiet_def)

lemma stale_body_step:
  assumes ok: "history_ok evs st" and b: "stale_body sha st now = Inr (Some (Commit operation e r))"
  shows "\<exists>st'. project_event e st = Inr st' \<and> active_count st' < active_count st"
proof -
  obtain l where l: "l \<in> set (dict_values (ls_leases st))" "cl_state l = ''active''"
    "e = LeaseChanged MarkedStale (cl_resource_key l) (l\<lparr>cl_state := ''stale''\<rparr>) r"
    using b by (auto simp: stale_body_def Let_def dest: find_values split: option.splits)
  have "dict_get (ls_leases st) (cl_resource_key l) = Some l" "distinct (dict_keys (ls_leases st))"
    using history_ok_keys [OF ok] l(1) ok unfolding history_ok_def by blast+
  then show ?thesis using l by (simp add: active_count_def dict_sum_set_known)
qed

lemma active_count_nonneg: "0 \<le> active_count st"
  unfolding active_count_def by (rule dict_sum_nonneg) simp

lemma stale_sweep_returns:
  assumes laws: "journal_laws ops" "journal_live ops"
  shows "sound_store sha ops s \<Longrightarrow> state_of (op_replay ops s) = Inr st \<Longrightarrow>
    \<exists>s' rs st'. sweep_loop ops quiet clock (stale_body sha) i receipts s = Some (s', Inr (receipts @ rs))
      \<and> sound_store sha ops s' \<and> state_of (op_replay ops s') = Inr st'
      \<and> (\<forall>l \<in> set (dict_values (ls_leases st')). \<not> (cl_state l = ''active'' \<and> cl_expires_at l \<le> clock (i + length rs)))"
proof (induction "nat (active_count st)" arbitrary: s st i receipts rule: less_induct)
  case less
  have c: "checked_replay ops s = Inr (op_replay ops s)"
    using less(2) by (simp add: checked_replay_def sound_store_def)
  have ok: "history_ok (map snd (rp_events (op_replay ops s))) st"
    using sound_store_state [OF less(2)] less(3) by (metis sum.inject(2))
  show ?case
  proof (cases "stale_body sha st (clock i) = Inr None")
    case True
    then have "\<forall>l \<in> set (dict_values (ls_leases st)). \<not> (cl_state l = ''active'' \<and> cl_expires_at l \<le> clock i)"
      by (auto simp: stale_body_def Let_def find_None_iff split: option.splits)
    with True c less(2,3) show ?thesis by (subst sweep_loop.simps) auto
  next
    case False
    then obtain operation e r where b: "stale_body sha st (clock i) = Inr (Some (Commit operation e r))"
      by (auto simp: stale_body_def Let_def split: option.splits)
    obtain u where u: "append_lease_event ops (op_replay ops s) operation e s = (u, Inr ())"
    proof -
      have "snd (op_append ops s (''resource_lease.'' @ operation) e (last_seq (op_replay ops s))) = Appended"
        using laws(2) by (simp add: journal_live_def)
      then show thesis by (intro that [of "fst (op_append ops s (''resource_lease.'' @ operation) e (last_seq (op_replay ops s)))"])
          (simp add: append_lease_event_def prod.case_eq_if)
    qed
    have leg: "legit sha st' e" if "state_of (op_replay ops s) = Inr st'" for st'
      using that less(3) b legit_sweeps(1) by (fastforce simp: legit_sweep_def sweeps_def)
    have au: "sound_store sha ops u" "map snd (rp_events (op_replay ops u)) = map snd (rp_events (op_replay ops s)) @ [e]"
      using append_committed [OF laws(1) less(2) less(2) journal_grows_refl leg u] by auto
    obtain st2 where st2: "project_event e st = Inr st2" "active_count st2 < active_count st"
      using stale_body_step [OF ok b] by blast
    have "state_of (op_replay ops u) = Inr st2" using au(2) st2(1) less(3) by (simp add: state_of_def)
    moreover have "nat (active_count st2) < nat (active_count st)"
      using st2(2) active_count_nonneg [of st2] by simp
    ultimately obtain s' rs st' where
      "sweep_loop ops quiet clock (stale_body sha) (Suc i) (receipts @ [r]) u = Some (s', Inr ((receipts @ [r]) @ rs))"
      "sound_store sha ops s'" "state_of (op_replay ops s') = Inr st'"
      "\<forall>l \<in> set (dict_values (ls_leases st')). \<not> (cl_state l = ''active'' \<and> cl_expires_at l \<le> clock (Suc i + length rs))"
      using less(1) [of st2 u "Suc i" "receipts @ [r]"] au(1) by blast
    moreover have "sweep_loop ops quiet clock (stale_body sha) i receipts s
        = sweep_loop ops quiet clock (stale_body sha) (Suc i) (receipts @ [r]) u"
      using c less(3) b u by (subst sweep_loop.simps) (simp add: quiet_def)
    ultimately show ?thesis by (intro exI [of _ s'] exI [of _ "r # rs"] exI [of _ st']) simp
  qed
qed

section \<open>Properties\<close>

text \<open>C16: fencing. In every history of committed operations the fences handed out for a resource are
  1, 2, 3 and so on; a lease is only acquired while no live lease of the resource is recorded; and a
  protected mutation carries the fence and the owner of the last acquisition before it, so a worker
  whose lease was taken over can never write.\<close>

theorem lease_fencing:
  assumes "lease_history sha evs"
  shows "map cl_fence (acquisitions key evs) = map int [1..<Suc (length (acquisitions key evs))]
    \<and> (evs = pre @ LeaseChanged Acquired key l r # post \<longrightarrow>
        (\<exists>st. project pre = Inr st \<and> (\<forall>c. dict_get (ls_leases st) key = Some c \<longrightarrow> \<not> lease_live c (cl_issued_at l))))
    \<and> (evs = pre @ MutationCommitted key vkey v fence r # post \<longrightarrow>
        acquisitions key pre \<noteq> [] \<and> fence = cl_fence (last (acquisitions key pre))
        \<and> lr_owner_id r = cl_owner_id (last (acquisitions key pre)))"
proof (intro conjI impI)
  show "map cl_fence (acquisitions key evs) = map int [1..<Suc (length (acquisitions key evs))]"
    using history_projects [OF assms] by (auto simp: history_ok_def tracked_def Let_def simp del: upt_Suc)
next
  assume "evs = pre @ LeaseChanged Acquired key l r # post"
  then have "lease_history sha (pre @ [LeaseChanged Acquired key l r])"
    using assms history_prefix [of sha "pre @ [LeaseChanged Acquired key l r]" post] by simp
  from history_last [OF this] obtain st where st: "project pre = Inr st" "history_ok pre st"
    "legit sha st (LeaseChanged Acquired key l r)" by blast
  from st(3) history_ok_keys [OF st(2)]
  show "\<exists>st. project pre = Inr st \<and> (\<forall>c. dict_get (ls_leases st) key = Some c \<longrightarrow> \<not> lease_live c (cl_issued_at l))"
    by (cases rule: legit_cases) (use st(1) in auto)
next
  assume "evs = pre @ MutationCommitted key vkey v fence r # post"
  then have "lease_history sha (pre @ [MutationCommitted key vkey v fence r])"
    using assms history_prefix [of sha "pre @ [MutationCommitted key vkey v fence r]" post] by simp
  from history_last [OF this] obtain st where st: "project pre = Inr st" "history_ok pre st"
    "legit sha st (MutationCommitted key vkey v fence r)" by blast
  from st(3) history_ok_keys [OF st(2)]
  obtain c where c: "dict_get (ls_leases st) key = Some c" "fence = cl_fence c" "lr_owner_id r = cl_owner_id c"
    by (cases rule: legit_cases) auto
  have t: "tracked pre st key" using st(2) by (simp add: history_ok_def)
  then have "cl_fence (last (acquisitions key pre)) = int (length (acquisitions key pre))"
    using c(1) by (auto simp: tracked_def Let_def last_map [symmetric, of _ cl_fence] simp del: last_map)
  with t c show "acquisitions key pre \<noteq> []" "fence = cl_fence (last (acquisitions key pre))"
    "lr_owner_id r = cl_owner_id (last (acquisitions key pre))"
    by (auto simp: tracked_def Let_def)
qed

definition demo_ops :: "lease_payload list journal_ops" where
  "demo_ops = \<lparr>op_replay = (\<lambda>evs. \<lparr>rp_valid = True, rp_events = zip (map int [1..<Suc (length evs)]) evs, rp_compaction = None\<rparr>),
     op_append = (\<lambda>evs name e expected. if expected = int (length evs) then (evs @ [e], Appended)
        else (evs, AppendFailed ''JOURNAL_CONFLICT'' ''JOURNAL_CONFLICT''))\<rparr>"

definition demo_sha :: "receipt_body \<Rightarrow> string" where
  "demo_sha b = lr_event b"

definition demo_lease_journal :: "lease_payload list" where
  "demo_lease_journal =
    (let s1 = fst (LeaseStore_acquire demo_ops quiet (\<lambda>_. 0) demo_sha 3600 ''k'' ''a'' 10 []);
         s2 = fst (LeaseStore_put demo_ops quiet (\<lambda>_. 5) demo_sha ''k'' ''a'' 1 ''x'' (JNum 1) s1)
     in fst (LeaseStore_acquire demo_ops quiet (\<lambda>_. 20) demo_sha 3600 ''k'' ''b'' 10 s2))"

lemma demo_last_seq [simp]: "last_seq (op_replay demo_ops evs) = int (length evs)"
  by (rule trans [OF last_seq_numbered]) (simp_all add: demo_ops_def numbered_def del: upt_Suc)

lemma demo_laws: "journal_laws demo_ops"
  by (auto simp: journal_laws_def) (auto simp: demo_ops_def upt_Suc_append simp del: upt_Suc split: if_splits)

lemma demo_live: "journal_live demo_ops"
  by (simp add: journal_live_def) (simp add: demo_ops_def)

lemma demo_empty_sound: "sound_store demo_sha demo_ops []"
  by (simp add: sound_store_def demo_ops_def numbered_def history_empty)

lemma demo_steps_sound:
  "sound_store demo_sha demo_ops demo_lease_journal"
proof -
  have step: "sound_store demo_sha demo_ops s \<Longrightarrow> client_step demo_sha demo_ops s s' \<Longrightarrow> sound_store demo_sha demo_ops s'" for s s'
    by (rule conjunct1 [OF client_step_sound [OF _ demo_laws]])
  show ?thesis unfolding demo_lease_journal_def Let_def
    by (rule step [OF step [OF step [OF demo_empty_sound]]])
      (rule step_acquire [OF quiet_fair prod.collapse [symmetric]]
       step_put [OF quiet_fair prod.collapse [symmetric]])+
qed

lemma demo_history: "lease_history demo_sha demo_lease_journal"
  using demo_steps_sound by (simp add: sound_store_def demo_ops_def del: upt_Suc)

theorem lease_fencing_witness:
  "length (acquisitions ''k'' demo_lease_journal) = 2
   \<and> map cl_fence (acquisitions ''k'' demo_lease_journal) = map int [1..<Suc (length (acquisitions ''k'' demo_lease_journal))]"
proof -
  have "length (acquisitions ''k'' demo_lease_journal) = 2" by code_simp
  with lease_fencing [OF demo_history, of "''k''"] show ?thesis by blast
qed

text \<open>C17: every operation is atomic against other processes. If the journal store is a compare-and-swap
  log and the other processes only run operations of this module, then whatever sequence of acquire,
  heartbeat, put, release, invalidate, mark-stale, invalidate-owner and reclaim calls is made, whether
  they succeed, fail or exhaust their retries, the journal only journal_grows, stays numbered without gaps, and
  remains a history of operations that were each valid at the very state they extended; so its
  projection never fails.\<close>

theorem lease_store_sound:
  assumes "journal_laws ops" and "(client_step sha ops)\<^sup>*\<^sup>* s s'" and "sound_store sha ops s"
  shows "sound_store sha ops s' \<and> journal_grows ops s s' \<and> (\<exists>st. project_store ops s' = Inr st)"
proof -
  from assms(2,3) have so: "sound_store sha ops s' \<and> journal_grows ops s s'"
  proof (induction rule: rtranclp_induct)
    case (step t u)
    then show ?case using client_step_sound [OF step(2) assms(1)] journal_grows_trans [of ops s t u] by simp
  qed simp
  then obtain st where "checked_replay ops s' = Inr (op_replay ops s')" "state_of (op_replay ops s') = Inr st"
    using sound_store_state [of sha ops s'] by metis
  with so show ?thesis by (simp add: project_store_def)
qed

definition demo_busy :: "nat \<Rightarrow> lease_payload list \<Rightarrow> lease_payload list" where
  \<comment> \<open>another worker takes the lease in the first round\<close>
  "demo_busy i evs = (if i = 0 then fst (LeaseStore_acquire demo_ops quiet (\<lambda>_. 0) demo_sha 3600 ''k'' ''rival'' 10 evs) else evs)"

lemma demo_busy_fair: "fair_env demo_sha demo_ops demo_busy"
proof -
  let ?t = "\<lambda>s. fst (LeaseStore_acquire demo_ops quiet (\<lambda>_. 0) demo_sha 3600 ''k'' ''rival'' 10 s)"
  have "client_step demo_sha demo_ops s (?t s)" for s
    by (rule step_acquire [OF quiet_fair prod.collapse [symmetric]])
  from client_step_sound [OF this demo_laws]
  have "sound_store demo_sha demo_ops s \<Longrightarrow> sound_store demo_sha demo_ops (?t s) \<and> journal_grows demo_ops s (?t s)" for s .
  then show ?thesis by (simp add: fair_env_def demo_busy_def)
qed

theorem lease_store_sound_witness:
  "snd (LeaseStore_acquire demo_ops demo_busy (\<lambda>_. 0) demo_sha 3600 ''k'' ''me'' 10 []) = Inl (LeaseConflict ''k'' ''rival'' 10)
   \<and> sound_store demo_sha demo_ops (fst (LeaseStore_acquire demo_ops demo_busy (\<lambda>_. 0) demo_sha 3600 ''k'' ''me'' 10 []))"
proof -
  have "(client_step demo_sha demo_ops)\<^sup>*\<^sup>* [] (fst (LeaseStore_acquire demo_ops demo_busy (\<lambda>_. 0) demo_sha 3600 ''k'' ''me'' 10 []))"
    by (rule r_into_rtranclp) (rule step_acquire [OF demo_busy_fair prod.collapse [symmetric]])
  from lease_store_sound [OF demo_laws this demo_empty_sound]
  have "sound_store demo_sha demo_ops (fst (LeaseStore_acquire demo_ops demo_busy (\<lambda>_. 0) demo_sha 3600 ''k'' ''me'' 10 []))" by simp
  moreover have "snd (LeaseStore_acquire demo_ops demo_busy (\<lambda>_. 0) demo_sha 3600 ''k'' ''me'' 10 []) = Inl (LeaseConflict ''k'' ''rival'' 10)"
    by code_simp
  ultimately show ?thesis by blast
qed

text \<open>The stale sweep ends. In a store that no other process writes meanwhile and that accepts every
  append at the right position, the unbounded loop of the sweep returns, for every clock, and leaves no
  active lease that has expired at the time of its last round.\<close>

lemma lease_sweep_returns:
  assumes "journal_laws ops" and "journal_live ops" and "sound_store sha ops s"
  shows "\<exists>s' rs st. LeaseStore_mark_stale ops quiet clock sha s = Some (s', Inr rs)
    \<and> project_store ops s' = Inr st
    \<and> (\<forall>l \<in> set (dict_values (ls_leases st)). \<not> (cl_state l = ''active'' \<and> cl_expires_at l \<le> clock (length rs)))"
proof -
  obtain st where "state_of (op_replay ops s) = Inr st" using sound_store_state [OF assms(3)] by metis
  from stale_sweep_returns [OF assms(1,2,3) this, of clock 0 "[]"]
  obtain s' rs st' where r: "sweep_loop ops quiet clock (stale_body sha) 0 [] s = Some (s', Inr rs)"
    "sound_store sha ops s'" "state_of (op_replay ops s') = Inr st'"
    "\<forall>l \<in> set (dict_values (ls_leases st')). \<not> (cl_state l = ''active'' \<and> cl_expires_at l \<le> clock (length rs))"
    by auto
  have "project_store ops s' = Inr st'"
    using r(2,3) by (simp add: project_store_def checked_replay_def sound_store_def)
  with r show ?thesis by (auto simp: LeaseStore_mark_stale_def)
qed

lemma lease_sweep_returns_example:
  "\<exists>s' rs st. LeaseStore_mark_stale demo_ops quiet (\<lambda>_. 40) demo_sha demo_lease_journal = Some (s', Inr rs)
    \<and> project_store demo_ops s' = Inr st
    \<and> list_all (\<lambda>l. \<not> (cl_state l = ''active'' \<and> cl_expires_at l \<le> 40)) (dict_values (ls_leases st))"
  using lease_sweep_returns [OF demo_laws demo_live demo_steps_sound, of "\<lambda>_. 40"] by (simp add: list_all_iff)

text \<open>A compacted journal forgets the fences: the projection reads only the events that are left, so
  the next acquisition starts again at fence one.\<close>

lemma compaction_forgets_fences:
  "state_of \<lparr>rp_valid = True, rp_events = [], rp_compaction = Some n\<rparr> = Inr st \<Longrightarrow>
    acquire_body sha key owner ttl st now = Inr (Commit operation (LeaseChanged Acquired key l r) x) \<Longrightarrow> cl_fence l = 1"
  by (auto simp: state_of_def acquire_body_def empty_lease_state_def Let_def)

end
