(* ===== verification/Plan_Dag.thy ===== *)
theory Plan_Dag
  imports Loop_Prelude "HOL-Library.Multiset"
begin

text \<open>
  Compilation of a plan into a dependency graph (\<open>plan_dag.py\<close>): normalised nodes, inferred
  producer-consumer dependencies, topological order, write conflicts, execution waves, drift
  detection and replanning.

  Hashes are parameters (\<open>hn\<close> of a node, \<open>hp\<close> of a plan, \<open>hr\<close> of a slot receipt), \<open>canon\<close> is the
  canonical JSON text by which risks are sorted. A mapping argument is a record whose absent texts and
  lists are empty.
\<close>

section \<open>Targets\<close>

datatype plan_error =
    GoalMissing | AcceptanceCriteriaMissing | OracleMissing | NodeIdentityMissing string
  | DependencyMissing string string | DagCycle "string list" | PinnedContextMissing
  | PlanningEvidenceMissing | NodeIdDuplicateOrEmpty | ReplanWithoutObservableCause
  | SlotAssignmentUnknownNode "string list" | WaveIndexError

definition strings_of :: "string list \<Rightarrow> string list" where
  "strings_of values = sorted_set (filter (\<lambda>v. v \<noteq> []) (map strip values))"

fun split_on :: "char \<Rightarrow> string \<Rightarrow> string list" where
  "split_on c [] = [[]]"
| "split_on c (x # xs) = (if x = c then [] # split_on c xs
     else (case split_on c xs of [] \<Rightarrow> [[x]] | p # ps \<Rightarrow> (x # p) # ps))"

fun join_with :: "string \<Rightarrow> string list \<Rightarrow> string" where
  "join_with sep [] = []"
| "join_with sep [p] = p"
| "join_with sep (p # q # ps) = p @ sep @ join_with sep (q # ps)"

definition norm_step :: "string \<Rightarrow> string list \<Rightarrow> string list" where
  "norm_step part comps = (if part = [] \<or> part = ''.'' then comps
     else if part = ''..'' then butlast comps else comps @ [part])"

definition norm_rooted :: "string \<Rightarrow> string" where
  \<comment> \<open>\<open>posixpath.normpath("/" + name).lstrip("/")\<close>\<close>
  "norm_rooted name = join_with ''/'' (fold norm_step (split_on (CHR ''/'') name) [])"

definition split_kind :: "string \<Rightarrow> string \<times> bool \<times> string" where
  \<comment> \<open>\<open>partition(":")\<close>\<close>
  "split_kind s = (let k = takeWhile (\<lambda>c. c \<noteq> CHR '':'') s; r = dropWhile (\<lambda>c. c \<noteq> CHR '':'') s
     in (k, r \<noteq> [], drop 1 r))"

definition target_of :: "string \<Rightarrow> string" where
  "target_of value =
    (let raw = map (\<lambda>c. if c = CHR 0x5C then CHR ''/'' else c) (strip value);
         (kind, separator, name) = split_kind raw
     in if separator \<and> kind \<in> {''file'', ''dir'', ''symbol'', ''config'', ''db'', ''api''}
        then kind @ '':'' @ (if kind \<in> {''file'', ''dir''} then norm_rooted name else name)
        else ''file:'' @ norm_rooted raw)"

definition rstrip_slash :: "string \<Rightarrow> string" where
  "rstrip_slash s = rev (dropWhile (\<lambda>c. c = CHR ''/'') (rev s))"

definition starts_with :: "string \<Rightarrow> string \<Rightarrow> bool" where
  "starts_with p s \<longleftrightarrow> take (length p) s = p"

definition inside :: "string \<Rightarrow> string \<Rightarrow> bool" where
  \<comment> \<open>a file name equal to a directory name or below it\<close>
  "inside name folder \<longleftrightarrow> name = folder \<or> starts_with (rstrip_slash folder @ ''/'') name"

definition targets_conflict :: "string \<Rightarrow> string \<Rightarrow> bool" where
  "targets_conflict left right =
    (let l = target_of left; r = target_of right
     in if l = r then True
        else
          let (lkind, _, lname) = split_kind l; (rkind, _, rname) = split_kind r
          in if lkind = ''dir'' \<and> rkind = ''file'' then inside rname lname
             else if rkind = ''dir'' \<and> lkind = ''file'' then inside lname rname
             else False)"

section \<open>Intent and nodes\<close>

record intent =
  in_goal :: string
  in_acceptance_criteria :: "string list"
  in_risks :: "(string, json) dict list"
  in_non_goals :: "string list"
  in_oracle :: "(string, json) dict"

record plan_node =
  pn_node_id :: string
  pn_logical_task_id :: string
  pn_capability :: string
  pn_inputs :: "string list"
  pn_outputs :: "string list"
  pn_depends_on :: "string list"
  pn_read_set :: "string list"
  pn_write_set :: "string list"
  pn_context_refs :: "string list"
  pn_tests :: "string list"
  pn_acceptance_criteria_refs :: "string list"
  pn_generation_sensitive :: bool
  pn_risk :: string
  pn_rollback_strategy :: string
  pn_node_hash :: string

function py_split :: "string \<Rightarrow> string list" where
  \<comment> \<open>\<open>str.split()\<close>\<close>
  "py_split s = (let t = dropWhile py_space s
     in if t = [] then [] else takeWhile (\<lambda>c. \<not> py_space c) t # py_split (dropWhile (\<lambda>c. \<not> py_space c) t))"
  by pat_completeness auto
termination
proof (relation "measure length")
  fix s t :: string
  assume t: "t = dropWhile py_space s" "t \<noteq> []"
  then have "\<not> py_space (hd t)" by (metis hd_dropWhile)
  then have "length (dropWhile (\<lambda>c. \<not> py_space c) t) < length t"
    using t(2) by (cases t) (auto simp: less_Suc_eq_le length_dropWhile_le)
  moreover have "length t \<le> length s" using t(1) length_dropWhile_le by blast
  ultimately show "(dropWhile (\<lambda>c. \<not> py_space c) t, s) \<in> measure length" by simp
qed simp

declare py_split.simps [simp del]

definition normalize_intent :: "((string, json) dict \<Rightarrow> string) \<Rightarrow> intent \<Rightarrow> plan_error + intent" where
  "normalize_intent canon raw =
    (let goal = join_with '' '' (py_split (in_goal raw));
         acceptance = strings_of (in_acceptance_criteria raw)
     in if goal = [] then Inl GoalMissing
        else if acceptance = [] then Inl AcceptanceCriteriaMissing
        else if in_oracle raw = [] then Inl OracleMissing
        else Inr \<lparr>in_goal = goal, in_acceptance_criteria = acceptance, in_risks = sort_key canon (in_risks raw),
               in_non_goals = strings_of (in_non_goals raw), in_oracle = in_oracle raw\<rparr>)"

definition normalize_node :: "(plan_node \<Rightarrow> string) \<Rightarrow> plan_node \<Rightarrow> plan_error + plan_node" where
  "normalize_node hn raw =
    (let node_id = strip (pn_node_id raw);
         logical_task_id = strip (if pn_logical_task_id raw \<noteq> [] then pn_logical_task_id raw else node_id);
         capability = strip (pn_capability raw)
     in if node_id = [] \<or> logical_task_id = [] \<or> capability = [] then Inl (NodeIdentityMissing node_id)
        else
          let node = \<lparr>pn_node_id = node_id, pn_logical_task_id = logical_task_id, pn_capability = capability,
                pn_inputs = strings_of (pn_inputs raw), pn_outputs = strings_of (pn_outputs raw),
                pn_depends_on = strings_of (pn_depends_on raw),
                pn_read_set = strings_of (map target_of (pn_read_set raw)),
                pn_write_set = strings_of (map target_of (pn_write_set raw)),
                pn_context_refs = strings_of (pn_context_refs raw), pn_tests = strings_of (pn_tests raw),
                pn_acceptance_criteria_refs = strings_of (pn_acceptance_criteria_refs raw),
                pn_generation_sensitive = pn_generation_sensitive raw,
                pn_risk = (if pn_risk raw \<noteq> [] then pn_risk raw else ''medium''),
                pn_rollback_strategy = (if pn_rollback_strategy raw \<noteq> [] then pn_rollback_strategy raw else ''revert''),
                pn_node_hash = []\<rparr>
          in Inr (node\<lparr>pn_node_hash := hn node\<rparr>))"

fun normalize_all :: "(plan_node \<Rightarrow> string) \<Rightarrow> plan_node list \<Rightarrow> plan_error + plan_node list" where
  "normalize_all hn [] = Inr []"
| "normalize_all hn (raw # raws) = ebind (normalize_node hn raw) (\<lambda>n. ebind (normalize_all hn raws) (\<lambda>ns. Inr (n # ns)))"

section \<open>Topological order\<close>

type_synonym graph = "(string, plan_node) dict"

definition missing_dependency :: "graph \<Rightarrow> (string \<times> string) option" where
  \<comment> \<open>the first dependency, in the order of the counting loop, that is no node\<close>
  "missing_dependency nodes =
    List.find (\<lambda>p. \<not> in_dict (snd p) nodes) (concat (map (\<lambda>(k, n). map (Pair k) (pn_depends_on n)) nodes))"

definition indegree_of :: "graph \<Rightarrow> (string, int) dict" where
  "indegree_of nodes = map (\<lambda>(k, n). (k, int (length (pn_depends_on n)))) nodes"

definition followers_of :: "graph \<Rightarrow> string \<Rightarrow> string list" where
  "followers_of nodes dep = concat (map (\<lambda>(k, n). map (\<lambda>_. k) (filter (\<lambda>d. d = dep) (pn_depends_on n))) nodes)"

definition release_follower :: "string \<Rightarrow> (string, int) dict \<times> string list \<Rightarrow> (string, int) dict \<times> string list" where
  "release_follower f st =
    (let degree = dict_get_or (fst st) f 0 - 1
     in (dict_set (fst st) f degree, if degree = 0 then sort (snd st @ [f]) else snd st))"

definition positive_count :: "(string, int) dict \<Rightarrow> nat" where
  "positive_count indeg = length (filter (\<lambda>p. 0 < snd p) indeg)"

lemma positive_count_set:
  "positive_count (dict_set indeg f (dict_get_or indeg f 0 - 1))
     + (if dict_get_or indeg f 0 - 1 = 0 then 1 else 0) \<le> positive_count indeg"
proof (induction indeg)
  case (Cons p indeg)
  then show ?case by (cases p) (auto simp: positive_count_def dict_get_or_def)
qed (simp add: positive_count_def)

lemma release_measure:
  "positive_count (fst (fold release_follower fs st)) + length (snd (fold release_follower fs st))
     \<le> positive_count (fst st) + length (snd st)"
proof (induction fs arbitrary: st)
  case (Cons f fs)
  have "positive_count (fst (release_follower f st)) + length (snd (release_follower f st))
      \<le> positive_count (fst st) + length (snd st)"
    using positive_count_set [of f "fst st"] by (auto simp: release_follower_def Let_def)
  with Cons [of "release_follower f st"] show ?case by simp
qed simp

function kahn :: "graph \<Rightarrow> (string, int) dict \<Rightarrow> string list \<Rightarrow> string list \<Rightarrow> (string, int) dict \<times> string list" where
  \<comment> \<open>the loop over the ready nodes; the result has the final degrees and the order\<close>
  "kahn nodes indeg [] ordered = (indeg, ordered)"
| "kahn nodes indeg (current # ready) ordered =
    (let st = fold release_follower (sort (followers_of nodes current)) (indeg, ready)
     in kahn nodes (fst st) (snd st) (ordered @ [current]))"
  by pat_completeness auto
termination
proof (relation "measure (\<lambda>(nodes, indeg, ready, ordered). positive_count indeg + length ready)")
  fix nodes :: graph and indeg current ready ordered st
  assume "st = fold release_follower (sort (followers_of nodes current)) (indeg, ready)"
  then show "((nodes, fst st, snd st, ordered @ [current]), (nodes, indeg, current # ready, ordered))
      \<in> measure (\<lambda>(nodes, indeg, ready, ordered). positive_count indeg + length ready)"
    using release_measure [of "sort (followers_of nodes current)" "(indeg, ready)"] by simp
qed simp

definition topological :: "graph \<Rightarrow> plan_error + string list" where
  "topological nodes =
    (case missing_dependency nodes of
       Some (k, d) \<Rightarrow> Inl (DependencyMissing k d)
     | None \<Rightarrow>
         let indeg = indegree_of nodes;
             ready = sort (map fst (filter (\<lambda>p. snd p = 0) indeg));
             (indeg', ordered) = kahn nodes indeg ready []
         in if length ordered \<noteq> length nodes
            then Inl (DagCycle (sort (map fst (filter (\<lambda>p. snd p \<noteq> 0) indeg'))))
            else Inr ordered)"

section \<open>Conflicts and waves\<close>

record plan_conflict =
  pc_left :: string
  pc_right :: string
  pc_targets :: "string list"

definition node_at :: "graph \<Rightarrow> string \<Rightarrow> plan_node" where
  \<comment> \<open>\<open>nodes[node_id]\<close> for a known node\<close>
  "node_at nodes k = the (dict_get nodes k)"

definition collisions_of :: "graph \<Rightarrow> string \<Rightarrow> string \<Rightarrow> string list" where
  "collisions_of nodes l r = sorted_set (concat (map (\<lambda>left. map (\<lambda>right. left @ ''|'' @ right)
     (filter (targets_conflict left) (pn_write_set (node_at nodes r)))) (pn_write_set (node_at nodes l))))"

fun pairs_of :: "'a list \<Rightarrow> ('a \<times> 'a) list" where
  "pairs_of [] = []"
| "pairs_of (x # xs) = map (Pair x) xs @ pairs_of xs"

definition plan_conflicts :: "graph \<Rightarrow> plan_conflict list" where
  "plan_conflicts nodes = concat (map (\<lambda>(l, r).
     let c = collisions_of nodes l r
     in if c \<noteq> [] then [\<lparr>pc_left = l, pc_right = r, pc_targets = c\<rparr>] else []) (pairs_of (sort (dict_keys nodes))))"

definition clash :: "plan_conflict list \<Rightarrow> string \<Rightarrow> string \<Rightarrow> bool" where
  \<comment> \<open>membership of the unordered pair in the set of conflict pairs\<close>
  "clash rows a b \<longleftrightarrow> (\<exists>row \<in> set rows. (pc_left row = a \<and> pc_right row = b) \<or> (pc_left row = b \<and> pc_right row = a))"

function place_wave :: "plan_conflict list \<Rightarrow> string \<Rightarrow> nat \<Rightarrow> string list list \<Rightarrow> plan_error + string list list \<times> nat" where
  \<comment> \<open>the loop that looks for a wave, from the earliest one on\<close>
  "place_wave rows node wave waves =
    (if length waves < wave then Inl WaveIndexError
     else if wave = length waves then Inr (waves @ [[node]], wave)
     else if \<forall>peer \<in> set (waves ! wave). \<not> clash rows node peer
     then Inr (waves[wave := waves ! wave @ [node]], wave)
     else place_wave rows node (Suc wave) waves)"
  by pat_completeness auto
termination by (relation "measure (\<lambda>(rows, node, wave, waves). length waves - wave)") auto

declare place_wave.simps [simp del]

definition earliest_wave :: "graph \<Rightarrow> (string, nat) dict \<Rightarrow> string \<Rightarrow> nat" where
  "earliest_wave nodes wave_of node =
    fold max (map (\<lambda>parent. dict_get_or wave_of parent 0 + 1) (pn_depends_on (node_at nodes node))) 0"

fun fill_waves ::
    "graph \<Rightarrow> plan_conflict list \<Rightarrow> string list \<Rightarrow> (string, nat) dict \<Rightarrow> string list list \<Rightarrow> plan_error + string list list" where
  "fill_waves nodes rows [] wave_of waves = Inr waves"
| "fill_waves nodes rows (node # ordered) wave_of waves =
    ebind (place_wave rows node (earliest_wave nodes wave_of node) waves)
      (\<lambda>(waves', wave). fill_waves nodes rows ordered (dict_set wave_of node wave) waves')"

definition plan_waves :: "graph \<Rightarrow> string list \<Rightarrow> plan_conflict list \<Rightarrow> plan_error + string list list" where
  "plan_waves nodes ordered rows =
    ebind (fill_waves nodes rows ordered [] []) (\<lambda>waves. Inr (map sort (filter (\<lambda>w. w \<noteq> []) waves)))"

section \<open>Compilation\<close>

record history_row =
  hi_revision :: int
  hi_plan_hash :: string
  hi_reason_code :: string
  hi_invalidated_nodes :: "string list"
  hi_evidence :: "string list"

record plan =
  pl_plan_id :: string
  pl_goal_id :: string
  pl_revision :: int
  pl_intent :: intent
  pl_context_snapshot_id :: string
  pl_context_hash :: string
  pl_fast_generation :: string
  pl_evidence_refs :: "string list"
  pl_nodes :: "plan_node list"
  pl_topological_order :: "string list"
  pl_conflicts :: "plan_conflict list"
  pl_execution_waves :: "string list list"
  pl_history :: "history_row list"
  pl_plan_hash :: string

record plan_args =
  pa_plan_id :: string
  pa_goal_id :: string
  pa_intent :: intent
  pa_nodes :: "plan_node list"
  pa_context_snapshot_id :: string
  pa_context_hash :: string
  pa_fast_generation :: string
  pa_evidence_refs :: "string list"
  pa_revision :: int
  pa_history :: "history_row list"

definition producers_of :: "plan_node list \<Rightarrow> string \<Rightarrow> string list" where
  "producers_of normalized handle =
    map pn_node_id (filter (\<lambda>n. handle \<in> set (pn_outputs n)) normalized)"

definition infer_dependencies :: "(plan_node \<Rightarrow> string) \<Rightarrow> plan_node list \<Rightarrow> plan_node \<Rightarrow> plan_node" where
  "infer_dependencies hn normalized node =
    (let inferred = filter (\<lambda>p. p \<noteq> pn_node_id node) (concat (map (producers_of normalized) (pn_inputs node)));
         node' = node\<lparr>pn_depends_on := sorted_set (pn_depends_on node @ inferred)\<rparr>
     in node'\<lparr>pn_node_hash := hn (node'\<lparr>pn_node_hash := []\<rparr>)\<rparr>)"

definition graph_of :: "plan_node list \<Rightarrow> graph" where
  "graph_of nodes = map (\<lambda>n. (pn_node_id n, n)) nodes"

definition compile_plan ::
    "(plan_node \<Rightarrow> string) \<Rightarrow> (plan \<Rightarrow> string) \<Rightarrow> ((string, json) dict \<Rightarrow> string) \<Rightarrow> plan_args \<Rightarrow> plan_error + plan" where
  "compile_plan hn hp canon a =
    ebind (normalize_intent canon (pa_intent a)) (\<lambda>normalized_intent.
      if pa_context_snapshot_id a = [] \<or> pa_context_hash a = [] \<or> pa_fast_generation a = []
      then Inl PinnedContextMissing
      else if pa_evidence_refs a = [] then Inl PlanningEvidenceMissing
      else ebind (normalize_all hn (pa_nodes a)) (\<lambda>normalized.
        if \<not> distinct (map pn_node_id normalized) \<or> normalized = [] then Inl NodeIdDuplicateOrEmpty
        else
          let by_id = graph_of (map (infer_dependencies hn normalized) normalized)
          in ebind (topological by_id) (\<lambda>ordered.
            let conflicts = plan_conflicts by_id
            in ebind (plan_waves by_id ordered conflicts) (\<lambda>waves.
              let plan = \<lparr>pl_plan_id = pa_plan_id a, pl_goal_id = pa_goal_id a, pl_revision = pa_revision a,
                    pl_intent = normalized_intent, pl_context_snapshot_id = pa_context_snapshot_id a,
                    pl_context_hash = pa_context_hash a, pl_fast_generation = pa_fast_generation a,
                    pl_evidence_refs = strings_of (pa_evidence_refs a),
                    pl_nodes = map (node_at by_id) (sort (dict_keys by_id)),
                    pl_topological_order = ordered, pl_conflicts = conflicts, pl_execution_waves = waves,
                    pl_history = pa_history a, pl_plan_hash = []\<rparr>
              in Inr (plan\<lparr>pl_plan_hash := hp plan\<rparr>)))))"

section \<open>Drift and replanning\<close>

record DriftResult =
  df_reason_code :: "string option"
  df_directly_affected :: "string list"
  df_invalidated_nodes :: "string list"
  df_evidence :: "string list"

definition drift_pass :: "graph \<Rightarrow> string list \<Rightarrow> string list" where
  \<comment> \<open>one sweep over the nodes\<close>
  "drift_pass nodes invalidated = fold (\<lambda>(k, n) bad.
     if k \<notin> set bad \<and> (\<exists>d \<in> set (pn_depends_on n). d \<in> set bad) then bad @ [k] else bad) nodes invalidated"

lemma drift_pass_grows: "\<exists>new. drift_pass nodes bad = bad @ new \<and> set new \<subseteq> fst ` set nodes - set bad \<and> distinct new"
proof (induction nodes arbitrary: bad)
  case (Cons p nodes)
  obtain k n where p: "p = (k, n)" by fastforce
  let ?bad = "if k \<notin> set bad \<and> (\<exists>d \<in> set (pn_depends_on n). d \<in> set bad) then bad @ [k] else bad"
  from Cons [of ?bad] obtain new where "drift_pass nodes ?bad = ?bad @ new"
    "set new \<subseteq> fst ` set nodes - set ?bad" "distinct new" by blast
  then show ?case using p by (auto simp: drift_pass_def split: if_splits)
qed (simp add: drift_pass_def)

function drift_closure :: "graph \<Rightarrow> string list \<Rightarrow> string list" where
  "drift_closure nodes invalidated =
    (let next = drift_pass nodes invalidated
     in if length next = length invalidated then next else drift_closure nodes next)"
  by pat_completeness auto
termination
proof (relation "measure (\<lambda>(nodes, bad). card (fst ` set nodes - set bad))")
  fix nodes bad nxt
  assume n: "nxt = drift_pass nodes bad" "length nxt \<noteq> length bad"
  obtain new where new: "nxt = bad @ new" "set new \<subseteq> fst ` set nodes - set bad"
    using drift_pass_grows n(1) by metis
  with n(2) obtain k where "k \<in> set new" by (cases new) auto
  with new have "fst ` set nodes - set nxt \<subset> fst ` set nodes - set bad" by auto
  then show "((nodes, nxt), nodes, bad) \<in> measure (\<lambda>(nodes, bad). card (fst ` set nodes - set bad))"
    by (simp add: psubset_card_mono)
qed simp

declare drift_closure.simps [simp del]

definition detect_drift ::
    "plan \<Rightarrow> string \<Rightarrow> string \<Rightarrow> string list \<Rightarrow> string list \<Rightarrow> DriftResult" where
  "detect_drift p current_context_hash current_generation changed_context_refs evidence =
    (let changed = strings_of changed_context_refs;
         nodes = graph_of (pl_nodes p);
         regenerated = (current_generation \<noteq> pl_fast_generation p);
         direct = map fst (filter (\<lambda>(k, n). (\<exists>c \<in> set (pn_context_refs n). c \<in> set changed)
                    \<or> regenerated \<and> pn_generation_sensitive n) nodes);
         reason = (if regenerated then Some ''observable_generation_drift''
                   else if current_context_hash \<noteq> pl_context_hash p \<or> direct \<noteq> []
                   then Some ''observable_context_drift'' else None);
         invalidated = drift_closure nodes direct
     in \<lparr>df_reason_code = reason, df_directly_affected = sort direct,
         df_invalidated_nodes = filter (\<lambda>k. k \<in> set invalidated) (pl_topological_order p),
         df_evidence = strings_of evidence\<rparr>)"

definition replan ::
    "(plan_node \<Rightarrow> string) \<Rightarrow> (plan \<Rightarrow> string) \<Rightarrow> ((string, json) dict \<Rightarrow> string)
      \<Rightarrow> plan \<Rightarrow> DriftResult \<Rightarrow> plan_node list \<Rightarrow> string \<Rightarrow> string \<Rightarrow> plan_error + plan" where
  "replan hn hp canon previous drift replacement_nodes current_context_hash current_generation =
    (case df_reason_code drift of
       None \<Rightarrow> Inl ReplanWithoutObservableCause
     | Some reason \<Rightarrow>
         if df_evidence drift = [] then Inl ReplanWithoutObservableCause
         else compile_plan hn hp canon
           \<lparr>pa_plan_id = pl_plan_id previous, pa_goal_id = pl_goal_id previous, pa_intent = pl_intent previous,
            pa_nodes = replacement_nodes, pa_context_snapshot_id = pl_context_snapshot_id previous,
            pa_context_hash = current_context_hash, pa_fast_generation = current_generation,
            pa_evidence_refs = pl_evidence_refs previous, pa_revision = pl_revision previous + 1,
            pa_history = pl_history previous @
              [\<lparr>hi_revision = pl_revision previous, hi_plan_hash = pl_plan_hash previous, hi_reason_code = reason,
                hi_invalidated_nodes = df_invalidated_nodes drift, hi_evidence = df_evidence drift\<rparr>]\<rparr>)"

record slot_receipt =
  sr_plan_id :: string
  sr_plan_revision :: int
  sr_plan_hash :: string
  sr_assignments :: "(string, string) dict"
  sr_receipt_hash :: string

definition bind_slots :: "(slot_receipt \<Rightarrow> string) \<Rightarrow> plan \<Rightarrow> (string, string) dict \<Rightarrow> plan_error + slot_receipt" where
  "bind_slots hr p assignments =
    (let unknown = sort (filter (\<lambda>k. k \<notin> set (map pn_node_id (pl_nodes p))) (dict_keys assignments))
     in if unknown \<noteq> [] then Inl (SlotAssignmentUnknownNode unknown)
        else
          let receipt = \<lparr>sr_plan_id = pl_plan_id p, sr_plan_revision = pl_revision p, sr_plan_hash = pl_plan_hash p,
                sr_assignments = sort_key fst assignments, sr_receipt_hash = []\<rparr>
          in Inr (receipt\<lparr>sr_receipt_hash := hr receipt\<rparr>))"

section \<open>The order is topological\<close>

abbreviation deps :: "graph \<Rightarrow> string \<Rightarrow> string list" where
  "deps nodes k \<equiv> pn_depends_on (node_at nodes k)"

definition graph_ok :: "graph \<Rightarrow> bool" where
  "graph_ok nodes \<longleftrightarrow> distinct (dict_keys nodes) \<and> (\<forall>(k, n) \<in> set nodes. distinct (pn_depends_on n))"

definition known_deps :: "graph \<Rightarrow> bool" where
  "known_deps nodes \<longleftrightarrow> (\<forall>k \<in> set (dict_keys nodes). set (deps nodes k) \<subseteq> set (dict_keys nodes))"

lemma node_at_in: "distinct (dict_keys nodes) \<Longrightarrow> (k, n) \<in> set nodes \<Longrightarrow> node_at nodes k = n"
  by (simp add: node_at_def)

lemma graph_ok_deps: "graph_ok nodes \<Longrightarrow> k \<in> set (dict_keys nodes) \<Longrightarrow> distinct (deps nodes k)"
  by (fastforce simp: graph_ok_def node_at_in)

lemma missing_dependency_None: "graph_ok nodes \<Longrightarrow> missing_dependency nodes = None \<longleftrightarrow> known_deps nodes"
  by (fastforce simp: missing_dependency_def find_None_iff known_deps_def in_dict_keys graph_ok_def node_at_in)

lemma set_followers:
  "graph_ok nodes \<Longrightarrow> set (followers_of nodes d) = {k \<in> set (dict_keys nodes). d \<in> set (deps nodes k)}"
  by (force simp: followers_of_def graph_ok_def node_at_in)

lemma filter_single: "distinct xs \<Longrightarrow> filter (\<lambda>x. x = d) xs = (if d \<in> set xs then [d] else [])"
  by (induction xs) auto

lemma distinct_followers: "graph_ok nodes \<Longrightarrow> distinct (followers_of nodes d)"
proof (induction nodes)
  case (Cons p nodes)
  obtain k n where p: "p = (k, n)" by fastforce
  have "distinct (pn_depends_on n)" using Cons.prems p by (simp add: graph_ok_def)
  then have "filter (\<lambda>x. x = d) (pn_depends_on n) = (if d \<in> set (pn_depends_on n) then [d] else [])"
    by (rule filter_single)
  moreover have "set (followers_of nodes d) \<subseteq> fst ` set nodes" by (auto simp: followers_of_def image_iff) force
  moreover have "k \<notin> fst ` set nodes" "graph_ok nodes" using Cons.prems p by (auto simp: graph_ok_def)
  moreover have "followers_of (p # nodes) d = map (\<lambda>_. k) (filter (\<lambda>x. x = d) (pn_depends_on n)) @ followers_of nodes d"
    by (simp add: followers_of_def p)
  ultimately show ?case using Cons.IH by auto
qed (simp add: followers_of_def)

lemma fold_release:
  "distinct fs \<Longrightarrow> set fs \<subseteq> set (dict_keys (fst st)) \<Longrightarrow>
    dict_keys (fst (fold release_follower fs st)) = dict_keys (fst st)
    \<and> (\<forall>k. dict_get_or (fst (fold release_follower fs st)) k 0 = dict_get_or (fst st) k 0 - (if k \<in> set fs then 1 else 0))
    \<and> set (snd (fold release_follower fs st)) = set (snd st) \<union> {f \<in> set fs. dict_get_or (fst st) f 0 = 1}
    \<and> (distinct (snd st) \<and> set (snd st) \<inter> set fs = {} \<longrightarrow> distinct (snd (fold release_follower fs st)))"
proof (induction fs arbitrary: st)
  case (Cons f fs)
  let ?st = "release_follower f st"
  have k: "dict_keys (fst ?st) = dict_keys (fst st)"
    using Cons.prems by (simp add: release_follower_def Let_def dict_keys_set_known)
  have g: "dict_get_or (fst ?st) k 0 = dict_get_or (fst st) k 0 - (if k = f then 1 else 0)" for k
    by (simp add: release_follower_def Let_def)
  have r: "set (snd ?st) = set (snd st) \<union> (if dict_get_or (fst st) f 0 = 1 then {f} else {})"
    "distinct (snd st) \<Longrightarrow> f \<notin> set (snd st) \<Longrightarrow> distinct (snd ?st)"
    by (auto simp: release_follower_def Let_def)
  have IH: "dict_keys (fst (fold release_follower fs ?st)) = dict_keys (fst ?st)"
    "\<forall>k. dict_get_or (fst (fold release_follower fs ?st)) k 0 = dict_get_or (fst ?st) k 0 - (if k \<in> set fs then 1 else 0)"
    "set (snd (fold release_follower fs ?st)) = set (snd ?st) \<union> {f \<in> set fs. dict_get_or (fst ?st) f 0 = 1}"
    "distinct (snd ?st) \<and> set (snd ?st) \<inter> set fs = {} \<Longrightarrow> distinct (snd (fold release_follower fs ?st))"
    using Cons.IH [of ?st] Cons.prems k by auto
  have "set (snd (fold release_follower (f # fs) st)) = set (snd st) \<union> {x \<in> set (f # fs). dict_get_or (fst st) x 0 = 1}"
    using IH(3) r(1) g Cons.prems(1) by (auto split: if_splits)
  moreover have "distinct (snd (fold release_follower (f # fs) st))"
    if "distinct (snd st)" "set (snd st) \<inter> set (f # fs) = {}"
    using IH(4) r that Cons.prems(1) by (auto split: if_splits)
  ultimately show ?case using IH(1,2) k g Cons.prems(1) by auto
qed simp

definition open_deps :: "graph \<Rightarrow> string list \<Rightarrow> string \<Rightarrow> nat" where
  "open_deps nodes ordered k = length (filter (\<lambda>d. d \<notin> set ordered) (deps nodes k))"

definition topo_prefix :: "graph \<Rightarrow> string list \<Rightarrow> bool" where
  "topo_prefix nodes ordered \<longleftrightarrow> distinct ordered \<and> set ordered \<subseteq> set (dict_keys nodes)
     \<and> (\<forall>i < length ordered. set (deps nodes (ordered ! i)) \<subseteq> set (take i ordered))"

definition kahn_inv :: "graph \<Rightarrow> (string, int) dict \<Rightarrow> string list \<Rightarrow> string list \<Rightarrow> bool" where
  "kahn_inv nodes indeg ready ordered \<longleftrightarrow> dict_keys indeg = dict_keys nodes
     \<and> (\<forall>k \<in> set (dict_keys nodes). dict_get_or indeg k 0 = int (open_deps nodes ordered k))
     \<and> distinct ready \<and> set ready = {k \<in> set (dict_keys nodes). k \<notin> set ordered \<and> open_deps nodes ordered k = 0}
     \<and> topo_prefix nodes ordered"

lemma open_deps_snoc:
  "distinct (deps nodes k) \<Longrightarrow> c \<notin> set ordered \<Longrightarrow>
    open_deps nodes ordered k = open_deps nodes (ordered @ [c]) k + (if c \<in> set (deps nodes k) then 1 else 0)"
proof -
  assume d: "distinct (deps nodes k)" and c: "c \<notin> set ordered"
  have "length (filter (\<lambda>d. d \<notin> set ordered) xs) =
      length (filter (\<lambda>d. d \<notin> set (ordered @ [c])) xs) + (if c \<in> set xs then 1 else 0)" if "distinct xs" for xs
    using that c by (induction xs) auto
  from this [OF d] show ?thesis by (simp add: open_deps_def)
qed

lemma open_deps_0: "open_deps nodes ordered k = 0 \<longleftrightarrow> set (deps nodes k) \<subseteq> set ordered"
  by (auto simp: open_deps_def filter_empty_conv)

lemma topo_prefix_snoc:
  "topo_prefix nodes ordered \<Longrightarrow> c \<in> set (dict_keys nodes) \<Longrightarrow> c \<notin> set ordered \<Longrightarrow> set (deps nodes c) \<subseteq> set ordered
    \<Longrightarrow> topo_prefix nodes (ordered @ [c])"
  by (auto simp: topo_prefix_def nth_append less_Suc_eq)

lemma kahn_inv_step:
  assumes g: "graph_ok nodes" and i: "kahn_inv nodes indeg (c # ready) ordered"
    and st: "st = fold release_follower (sort (followers_of nodes c)) (indeg, ready)"
  shows "kahn_inv nodes (fst st) (snd st) (ordered @ [c])"
proof -
  let ?N = "set (dict_keys nodes)" and ?fs = "sort (followers_of nodes c)"
  have fs: "set ?fs = {k \<in> ?N. c \<in> set (deps nodes k)}" "distinct ?fs"
    using set_followers [OF g] distinct_followers [OF g] by auto
  have c: "c \<in> ?N" "c \<notin> set ordered" "set (deps nodes c) \<subseteq> set ordered" "c \<notin> set ready"
    using i by (auto simp: kahn_inv_def open_deps_0)
  have od: "open_deps nodes ordered k = open_deps nodes (ordered @ [c]) k + (if c \<in> set (deps nodes k) then 1 else 0)"
    if "k \<in> ?N" for k using open_deps_snoc graph_ok_deps [OF g] c(2) that by blast
  have self: "c \<notin> set (deps nodes c)" using c by auto
  have rdy: "set ready = {k \<in> ?N. k \<notin> set ordered \<and> k \<noteq> c \<and> open_deps nodes ordered k = 0}"
    using i c(4) by (auto simp: kahn_inv_def)
  have disj: "set ready \<inter> set ?fs = {}"
    using rdy fs(1) c(2) by (auto simp: open_deps_0)
  have f: "dict_keys (fst st) = dict_keys indeg"
    "\<forall>k. dict_get_or (fst st) k 0 = dict_get_or indeg k 0 - (if k \<in> set ?fs then 1 else 0)"
    "set (snd st) = set ready \<union> {f \<in> set ?fs. dict_get_or indeg f 0 = 1}" "distinct (snd st)"
  proof -
    have "dict_keys indeg = dict_keys nodes" "distinct ready" using i by (simp_all add: kahn_inv_def)
    then have "set ?fs \<subseteq> set (dict_keys (fst (indeg, ready)))" "distinct (snd (indeg, ready)) \<and> set (snd (indeg, ready)) \<inter> set ?fs = {}"
      using fs(1) disj by (simp_all only: fst_conv snd_conv) blast+
    from fold_release [OF fs(2) this(1)] this(2)
    show "dict_keys (fst st) = dict_keys indeg"
      "\<forall>k. dict_get_or (fst st) k 0 = dict_get_or indeg k 0 - (if k \<in> set ?fs then 1 else 0)"
      "set (snd st) = set ready \<union> {f \<in> set ?fs. dict_get_or indeg f 0 = 1}" "distinct (snd st)"
      unfolding st by (simp_all only: fst_conv snd_conv) blast+
  qed
  have deg: "dict_get_or indeg k 0 = int (open_deps nodes ordered k)" if "k \<in> ?N" for k
    using i that unfolding kahn_inv_def by blast
  have ord: "k \<notin> set ordered" if "k \<in> ?N" "c \<in> set (deps nodes k)" for k
  proof
    assume "k \<in> set ordered"
    then obtain j where "j < length ordered" "ordered ! j = k" by (auto simp: in_set_conv_nth)
    then have "c \<in> set ordered" using i that(2) by (force simp: kahn_inv_def topo_prefix_def dest: in_set_takeD)
    with c(2) show False by simp
  qed
  have "set (snd st) = {k \<in> ?N. k \<notin> set (ordered @ [c]) \<and> open_deps nodes (ordered @ [c]) k = 0}"
  proof (rule set_eqI)
    fix k
    show "k \<in> set (snd st) \<longleftrightarrow> k \<in> {k \<in> ?N. k \<notin> set (ordered @ [c]) \<and> open_deps nodes (ordered @ [c]) k = 0}"
    proof (cases "k \<in> ?N")
      case True
      then show ?thesis unfolding f(3) rdy fs(1) using deg [OF True] od [OF True] ord [OF True] self
        by (cases "c \<in> set (deps nodes k)") auto
    next
      case False
      then show ?thesis unfolding f(3) rdy fs(1) by blast
    qed
  qed
  moreover have "dict_get_or (fst st) k 0 = int (open_deps nodes (ordered @ [c]) k)" if "k \<in> ?N" for k
    using f(2) fs(1) deg [OF that] od [OF that] that by simp
  moreover have "topo_prefix nodes (ordered @ [c])" using topo_prefix_snoc c i by (simp add: kahn_inv_def)
  ultimately show ?thesis using f(1,4) i by (simp add: kahn_inv_def)
qed

lemma kahn_final:
  assumes "graph_ok nodes"
  shows "kahn_inv nodes indeg ready ordered \<Longrightarrow>
    kahn_inv nodes (fst (kahn nodes indeg ready ordered)) [] (snd (kahn nodes indeg ready ordered))"
  using assms
proof (induction nodes indeg ready ordered rule: kahn.induct)
  case (2 nodes indeg current ready ordered)
  show ?case using 2(1) [OF refl kahn_inv_step [OF 2(3,2) refl] 2(3)] by (simp add: Let_def)
qed simp

lemma indegree_get: "distinct (dict_keys nodes) \<Longrightarrow> k \<in> set (dict_keys nodes) \<Longrightarrow>
    dict_get_or (indegree_of nodes) k 0 = int (length (deps nodes k))"
proof -
  assume d: "distinct (dict_keys nodes)" and "k \<in> set (dict_keys nodes)"
  then obtain n where n: "(k, n) \<in> set nodes" by auto
  have "dict_keys (indegree_of nodes) = dict_keys nodes" by (auto simp: indegree_of_def)
  then have "map_of (indegree_of nodes) k = Some (int (length (pn_depends_on n)))"
    using n d by (intro map_of_is_SomeI) (simp, force simp: indegree_of_def)
  then show ?thesis using node_at_in [OF d n] by (simp add: dict_get_or_def)
qed

lemma kahn_start:
  assumes "graph_ok nodes"
  shows "kahn_inv nodes (indegree_of nodes) (sort (map fst (filter (\<lambda>p. snd p = 0) (indegree_of nodes)))) []"
proof -
  have k: "dict_keys (indegree_of nodes) = dict_keys nodes" by (auto simp: indegree_of_def)
  have d: "distinct (dict_keys nodes)" using assms by (simp add: graph_ok_def)
  have "distinct (map fst (filter (\<lambda>p. snd p = 0) (indegree_of nodes)))"
    using d k by (metis distinct_map_filter)
  moreover have "set (map fst (filter (\<lambda>p. snd p = 0) (indegree_of nodes)))
      = {k \<in> set (dict_keys nodes). open_deps nodes [] k = 0}"
    using d by (force simp: indegree_of_def open_deps_def node_at_in)
  ultimately show ?thesis using indegree_get [OF d] k
    by (simp add: kahn_inv_def open_deps_def topo_prefix_def)
qed

text \<open>What the order is, and when there is one.\<close>

definition dep_rel :: "graph \<Rightarrow> (string \<times> string) set" where
  "dep_rel nodes = {(d, k). k \<in> set (dict_keys nodes) \<and> d \<in> set (deps nodes k)}"

lemma topological_Inr:
  assumes g: "graph_ok nodes" and t: "topological nodes = Inr ordered"
  shows "known_deps nodes \<and> topo_prefix nodes ordered \<and> set ordered = set (dict_keys nodes)"
proof -
  have m: "missing_dependency nodes = None" using t by (auto simp: topological_def split: option.splits)
  let ?r = "kahn nodes (indegree_of nodes) (sort (map fst (filter (\<lambda>p. snd p = 0) (indegree_of nodes)))) []"
  have o': "ordered = snd ?r" "length ordered = length nodes"
    using t m by (auto simp: topological_def Let_def split: prod.splits if_splits)
  then have p: "topo_prefix nodes ordered" using kahn_final [OF g kahn_start [OF g]] by (simp add: kahn_inv_def)
  have "card (set ordered) = length nodes" "card (set (dict_keys nodes)) = length nodes"
    using p o'(2) distinct_card [of ordered] distinct_card [of "dict_keys nodes"] g
    by (simp_all add: topo_prefix_def graph_ok_def)
  moreover have "set ordered \<subseteq> set (dict_keys nodes)" using p by (simp add: topo_prefix_def)
  ultimately have "set ordered = set (dict_keys nodes)" by (intro card_subset_eq) simp_all
  with p m missing_dependency_None [OF g] show ?thesis by simp
qed

lemma kahn_complete:
  assumes k: "known_deps nodes" and a: "acyclic (dep_rel nodes)" and fin: "kahn_inv nodes indeg [] ordered"
  shows "set ordered = set (dict_keys nodes)"
proof (rule ccontr)
  let ?N = "set (dict_keys nodes)"
  assume "set ordered \<noteq> ?N"
  then have ne: "?N - set ordered \<noteq> {}" using fin by (auto simp: kahn_inv_def topo_prefix_def)
  have "dep_rel nodes \<subseteq> ?N \<times> ?N" using k by (auto simp: dep_rel_def known_deps_def)
  then have "finite (dep_rel nodes)" by (rule finite_subset) simp
  then have "wf (dep_rel nodes)" using a by (rule finite_acyclic_wf)
  from wfE_min' [OF this ne]
  obtain z where z: "z \<in> ?N - set ordered" "\<And>y. (y, z) \<in> dep_rel nodes \<Longrightarrow> y \<notin> ?N - set ordered"
    by metis
  have "set (deps nodes z) \<subseteq> ?N" using k z(1) unfolding known_deps_def by blast
  then have "open_deps nodes ordered z = 0"
    unfolding open_deps_0 using z by (fastforce simp only: dep_rel_def)
  then have "z \<in> set []" using z(1) fin unfolding kahn_inv_def by blast
  then show False by simp
qed

lemma topological_acyclic:
  assumes g: "graph_ok nodes" and k: "known_deps nodes" and a: "acyclic (dep_rel nodes)"
  shows "\<exists>ordered. topological nodes = Inr ordered"
proof -
  obtain indeg ordered where r:
    "kahn nodes (indegree_of nodes) (sort (map fst (filter (\<lambda>p. snd p = 0) (indegree_of nodes)))) [] = (indeg, ordered)"
    by fastforce
  have fin: "kahn_inv nodes indeg [] ordered" using kahn_final [OF g kahn_start [OF g]] r by simp
  have "distinct ordered" "distinct (dict_keys nodes)" using fin g by (auto simp: kahn_inv_def topo_prefix_def graph_ok_def)
  then have "length ordered = length nodes"
    using kahn_complete [OF k a fin] distinct_card [of ordered] distinct_card [of "dict_keys nodes"] by simp
  then show ?thesis using missing_dependency_None [OF g] k r by (simp add: topological_def Let_def)
qed

lemma topo_prefix_acyclic:
  assumes "topo_prefix nodes ordered" and "set ordered = set (dict_keys nodes)"
  shows "acyclic (dep_rel nodes)"
proof -
  define pos where "pos k = length (takeWhile (\<lambda>x. x \<noteq> k) ordered)" for k
  have pos: "pos (ordered ! i) = i" if "i < length ordered" for i
  proof -
    have "distinct ordered" using assms(1) by (simp add: topo_prefix_def)
    then have "takeWhile (\<lambda>x. x \<noteq> ordered ! i) ordered = take i ordered"
      using that by (intro takeWhile_eq_take_P_nth) (auto simp: nth_eq_iff_index_eq)
    then show ?thesis using that by (simp add: pos_def)
  qed
  have "(d, k) \<in> measure pos" if dk: "(d, k) \<in> dep_rel nodes" for d k
  proof -
    have "k \<in> set ordered" using dk assms(2) by (simp add: dep_rel_def)
    then obtain i where i: "i < length ordered" "ordered ! i = k" by (auto simp: in_set_conv_nth)
    then have "d \<in> set (take i ordered)" using dk assms(1) by (auto simp: topo_prefix_def dep_rel_def)
    then obtain j where "j < i" "ordered ! j = d" by (auto simp: in_set_conv_nth)
    then show ?thesis using pos i by (metis in_measure order_less_trans)
  qed
  then have "dep_rel nodes \<subseteq> measure pos" by auto
  then show ?thesis using wf_acyclic wf_measure wf_subset by blast
qed

section \<open>Waves\<close>

lemma targets_conflict_sym: "targets_conflict l r \<longleftrightarrow> targets_conflict r l"
  by (auto simp: targets_conflict_def Let_def split: prod.splits)

lemma set_pairs_of: "distinct xs \<Longrightarrow> a \<in> set xs \<Longrightarrow> b \<in> set xs \<Longrightarrow> a \<noteq> b \<Longrightarrow>
    (a, b) \<in> set (pairs_of xs) \<or> (b, a) \<in> set (pairs_of xs)"
  by (induction xs) auto

lemma collisions_empty:
  "collisions_of nodes l r = [] \<longleftrightarrow>
    \<not> (\<exists>x \<in> set (pn_write_set (node_at nodes l)). \<exists>y \<in> set (pn_write_set (node_at nodes r)). targets_conflict x y)"
proof -
  have "collisions_of nodes l r = [] \<longleftrightarrow> set (collisions_of nodes l r) = {}" by simp
  also have "\<dots> \<longleftrightarrow> \<not> (\<exists>x \<in> set (pn_write_set (node_at nodes l)). \<exists>y \<in> set (pn_write_set (node_at nodes r)). targets_conflict x y)"
    unfolding collisions_of_def set_sorted_set by auto
  finally show ?thesis .
qed

lemma conflict_row:
  "(l, r) \<in> set (pairs_of (sort (dict_keys nodes))) \<Longrightarrow> collisions_of nodes l r \<noteq> [] \<Longrightarrow>
    \<lparr>pc_left = l, pc_right = r, pc_targets = collisions_of nodes l r\<rparr> \<in> set (plan_conflicts nodes)"
  unfolding plan_conflicts_def set_concat set_map Let_def by force

lemma clash_complete:
  assumes "distinct (dict_keys nodes)" "a \<in> set (dict_keys nodes)" "b \<in> set (dict_keys nodes)" "a \<noteq> b"
    and "\<not> clash (plan_conflicts nodes) a b"
    and "x \<in> set (pn_write_set (node_at nodes a))" "y \<in> set (pn_write_set (node_at nodes b))"
  shows "\<not> targets_conflict x y"
proof
  assume c: "targets_conflict x y"
  have "(a, b) \<in> set (pairs_of (sort (dict_keys nodes))) \<or> (b, a) \<in> set (pairs_of (sort (dict_keys nodes)))"
    using assms(1-4) by (intro set_pairs_of) simp_all
  moreover have "collisions_of nodes a b \<noteq> []" "collisions_of nodes b a \<noteq> []"
    using c assms(6,7) targets_conflict_sym by (auto simp: collisions_empty)
  ultimately have "clash (plan_conflicts nodes) a b"
    using conflict_row [of a b nodes] conflict_row [of b a nodes] unfolding clash_def by force
  with assms(5) show False by simp
qed

lemma place_wave_result:
  assumes "wave \<le> length waves"
  shows "\<exists>w. wave \<le> w \<and> w \<le> length waves \<and>
    place_wave rows node wave waves =
      Inr (if w = length waves then waves @ [[node]] else waves[w := waves ! w @ [node]], w)
    \<and> (w < length waves \<longrightarrow> (\<forall>peer \<in> set (waves ! w). \<not> clash rows node peer))"
  using assms
proof (induction rows node wave waves rule: place_wave.induct)
  case (1 rows node wave waves)
  consider "wave = length waves" | "wave < length waves" "\<forall>peer \<in> set (waves ! wave). \<not> clash rows node peer"
    | "wave < length waves" "\<not> (\<forall>peer \<in> set (waves ! wave). \<not> clash rows node peer)"
    using 1(2) by fastforce
  then show ?case
  proof cases
    case 1
    then show ?thesis by (auto simp: place_wave.simps intro!: exI [of _ "length waves"])
  next
    case 2
    then show ?thesis by (intro exI [of _ wave]) (simp add: place_wave.simps)
  next
    case 3
    then have "place_wave rows node wave waves = place_wave rows node (Suc wave) waves"
      by (subst place_wave.simps) auto
    then show ?thesis using 1(1) 3 by (metis Suc_leD Suc_leI linorder_not_less nat_neq_iff)
  qed
qed

definition waves_inv :: "graph \<Rightarrow> plan_conflict list \<Rightarrow> string list \<Rightarrow> (string, nat) dict \<Rightarrow> string list list \<Rightarrow> bool" where
  "waves_inv nodes rows placed wave_of waves \<longleftrightarrow>
     mset (concat waves) = mset placed \<and> [] \<notin> set waves
     \<and> (\<forall>w < length waves. \<forall>k \<in> set (waves ! w). dict_get wave_of k = Some w
          \<and> set (deps nodes k) \<subseteq> set (concat (take w waves))
          \<and> (\<forall>peer \<in> set (waves ! w). peer \<noteq> k \<longrightarrow> \<not> clash rows k peer))"

lemma clash_sym: "clash rows a b \<longleftrightarrow> clash rows b a"
  by (auto simp: clash_def)

lemma fold_max_le: "fold max (xs :: nat list) m \<le> n \<longleftrightarrow> m \<le> n \<and> (\<forall>x \<in> set xs. x \<le> n)"
  by (induction xs arbitrary: m) auto

lemma fold_max_ge: "x \<in> set xs \<Longrightarrow> x \<le> fold max (xs :: nat list) m"
  using fold_max_le [of xs m "fold max xs m"] by simp

lemma placed_wave:
  assumes "waves_inv nodes rows placed wave_of waves" and "k \<in> set placed"
  obtains w where "w < length waves" "k \<in> set (waves ! w)" "dict_get wave_of k = Some w"
proof -
  have "k \<in> set (concat waves)" using assms by (metis waves_inv_def mset_eq_setD)
  then obtain ws where "ws \<in> set waves" "k \<in> set ws" by auto
  then obtain w where "w < length waves" "k \<in> set (waves ! w)" by (auto simp: in_set_conv_nth [of ws])
  with assms(1) that show thesis by (auto simp: waves_inv_def)
qed

lemma mset_concat_update:
  "w < length ws \<Longrightarrow> mset (concat (ws[w := ws ! w @ [x]])) = mset (concat ws) + {#x#}"
proof -
  assume w: "w < length ws"
  have "mset (concat ws) = mset (concat (take w ws @ ws ! w # drop (Suc w) ws))"
    using id_take_nth_drop [OF w] by simp
  then show ?thesis using w by (simp add: upd_conv_take_nth_drop)
qed

lemma set_concat_update: "set (concat ws) \<subseteq> set (concat (ws[w := ws ! w @ y]))"
proof (cases "w < length ws")
  case True
  have "set (concat ws) = set (concat (take w ws @ ws ! w # drop (Suc w) ws))"
    using id_take_nth_drop [OF True] by simp
  also have "\<dots> \<subseteq> set (concat (ws[w := ws ! w @ y]))" using True by (auto simp: upd_conv_take_nth_drop)
  finally show ?thesis .
qed (simp add: list_update_beyond)

lemma set_concat_take_update:
  "set (concat (take n ws)) \<subseteq> set (concat (take n (ws[w := ws ! w @ y])))"
proof (cases "w < n")
  case True
  have "take n (ws[w := ws ! w @ y]) = (take n ws)[w := take n ws ! w @ y]"
    using True by (simp add: take_update_swap)
  then show ?thesis using set_concat_update [of "take n ws" w y] by simp
qed simp

lemma place_step:
  assumes i: "waves_inv nodes rows placed wave_of waves" and new: "node \<notin> set placed"
    and d: "set (deps nodes node) \<subseteq> set placed"
  shows "\<exists>waves' w. place_wave rows node (earliest_wave nodes wave_of node) waves = Inr (waves', w)
    \<and> waves_inv nodes rows (placed @ [node]) (dict_set wave_of node w) waves'"
proof -
  let ?e = "earliest_wave nodes wave_of node"
  have par: "\<exists>v < ?e. v < length waves \<and> p \<in> set (waves ! v)" if p: "p \<in> set (deps nodes node)" for p
  proof -
    obtain v where v: "v < length waves" "p \<in> set (waves ! v)" "dict_get wave_of p = Some v"
      using placed_wave [OF i] p d by blast
    then have "v + 1 \<le> ?e" using p unfolding earliest_wave_def
      by (intro fold_max_ge) (force simp: dict_get_or_def)
    with v show ?thesis by (intro exI [of _ v]) simp
  qed
  have "?e \<le> length waves"
    unfolding earliest_wave_def fold_max_le using placed_wave [OF i] d
    by (force simp: dict_get_or_def)
  from place_wave_result [OF this, of rows node] obtain w where w: "?e \<le> w" "w \<le> length waves"
    "place_wave rows node ?e waves = Inr (if w = length waves then waves @ [[node]] else waves[w := waves ! w @ [node]], w)"
    "w < length waves \<longrightarrow> (\<forall>peer \<in> set (waves ! w). \<not> clash rows node peer)" by blast
  have dw: "set (deps nodes node) \<subseteq> set (concat (take w waves))"
  proof
    fix p
    assume "p \<in> set (deps nodes node)"
    from par [OF this] obtain v where "v < ?e" "v < length waves" "p \<in> set (waves ! v)" by blast
    with w(1) have "v < w" "v < length waves" "p \<in> set (waves ! v)" by simp_all
    then show "p \<in> set (concat (take w waves))" by (fastforce simp: in_set_conv_nth [of _ "take w waves"])
  qed
  have old: "node \<notin> set (waves ! v)" if "v < length waves" for v
  proof -
    have "set (waves ! v) \<subseteq> set (concat waves)" using nth_mem [OF that] by auto
    then show ?thesis using i new by (metis waves_inv_def mset_eq_setD subsetD)
  qed
  show ?thesis
  proof (cases "w = length waves")
    case True
    have "waves_inv nodes rows (placed @ [node]) (dict_set wave_of node w) (waves @ [[node]])"
      using i True dw old by (auto simp: waves_inv_def nth_append less_Suc_eq)
    with w(3) True show ?thesis by simp
  next
    case False
    then have wl: "w < length waves" using w(2) by simp
    let ?ws = "waves[w := waves ! w @ [node]]"
    have take_w: "take w ?ws = take w waves" by simp
    have "dict_get (dict_set wave_of node w) k = Some v \<and> set (deps nodes k) \<subseteq> set (concat (take v ?ws))
        \<and> (\<forall>peer \<in> set (?ws ! v). peer \<noteq> k \<longrightarrow> \<not> clash rows k peer)"
      if v: "v < length ?ws" "k \<in> set (?ws ! v)" for v k
    proof (cases "k = node")
      case True
      then have "v = w" using v old by (cases "v = w") auto
      with True wl take_w dw w(4) show ?thesis by auto
    next
      case False
      then have k: "k \<in> set (waves ! v)" "v < length waves" using v by (cases "v = w"; simp)+
      then have "dict_get wave_of k = Some v" "set (deps nodes k) \<subseteq> set (concat (take v waves))"
        "\<forall>peer \<in> set (waves ! v). peer \<noteq> k \<longrightarrow> \<not> clash rows k peer" using i by (auto simp: waves_inv_def)
      moreover have "set (concat (take v waves)) \<subseteq> set (concat (take v ?ws))" by (rule set_concat_take_update)
      moreover have "\<not> clash rows k node" if "v = w" using w(4) wl k that clash_sym by blast
      ultimately show ?thesis using False k wl by (auto simp: nth_list_update simp del: set_concat)
    qed
    moreover have "mset (concat ?ws) = mset (placed @ [node])"
      using mset_concat_update [OF wl] i by (simp add: waves_inv_def)
    moreover have "[] \<notin> set ?ws" using i set_update_subset_insert [of waves w "waves ! w @ [node]"] by (auto simp: waves_inv_def)
    ultimately have "waves_inv nodes rows (placed @ [node]) (dict_set wave_of node w) ?ws"
      by (auto simp: waves_inv_def simp del: set_concat)
    with w(3) False show ?thesis by simp
  qed
qed

lemma fill_waves_ok:
  assumes t: "topo_prefix nodes (placed @ ordered)"
  shows "waves_inv nodes rows placed wave_of waves \<Longrightarrow>
    \<exists>waves' wave_of'. fill_waves nodes rows ordered wave_of waves = Inr waves'
      \<and> waves_inv nodes rows (placed @ ordered) wave_of' waves'"
  using t
proof (induction ordered arbitrary: placed wave_of waves)
  case (Cons node ordered)
  have "set (deps nodes ((placed @ node # ordered) ! length placed)) \<subseteq> set (take (length placed) (placed @ node # ordered))"
    using Cons.prems(2) unfolding topo_prefix_def by (metis length_append less_add_same_cancel1 length_greater_0_conv list.distinct(1))
  then have "set (deps nodes node) \<subseteq> set placed" by simp
  moreover have "node \<notin> set placed" using Cons.prems(2) by (auto simp: topo_prefix_def)
  ultimately obtain waves' w where p: "place_wave rows node (earliest_wave nodes wave_of node) waves = Inr (waves', w)"
    "waves_inv nodes rows (placed @ [node]) (dict_set wave_of node w) waves'"
    using place_step [OF Cons.prems(1)] by blast
  from Cons.IH [OF p(2)] Cons.prems(2) show ?case using p(1) by simp
qed auto

section \<open>Drift closure\<close>

lemma drift_pass_adds:
  "(k, n) \<in> set nodes \<Longrightarrow> d \<in> set (pn_depends_on n) \<Longrightarrow> d \<in> set bad \<Longrightarrow> k \<in> set (drift_pass nodes bad)"
proof (induction nodes arbitrary: bad)
  case (Cons p nodes)
  obtain k' n' where p: "p = (k', n')" by fastforce
  let ?bad = "if k' \<notin> set bad \<and> (\<exists>d \<in> set (pn_depends_on n'). d \<in> set bad) then bad @ [k'] else bad"
  have eq: "drift_pass (p # nodes) bad = drift_pass nodes ?bad" by (simp add: drift_pass_def p)
  have sub: "set bad \<subseteq> set ?bad" by auto
  show ?case
  proof (cases "(k, n) = p")
    case True
    then have "k \<in> set ?bad" using Cons.prems p by auto
    then show ?thesis unfolding eq using drift_pass_grows [of nodes ?bad] by (metis in_set_conv_decomp append_assoc append_Cons)
  next
    case False
    then show ?thesis unfolding eq using Cons.IH [of ?bad] Cons.prems sub by auto
  qed
qed simp

lemma drift_pass_sound:
  assumes g: "distinct (dict_keys all)" and sub: "set nodes \<subseteq> set all"
    and "\<forall>k \<in> set bad. \<exists>d \<in> D. (d, k) \<in> (dep_rel all)\<^sup>*"
  shows "\<forall>k \<in> set (drift_pass nodes bad). \<exists>d \<in> D. (d, k) \<in> (dep_rel all)\<^sup>*"
  using sub assms(3)
proof (induction nodes arbitrary: bad)
  case (Cons p nodes)
  obtain k n where p: "p = (k, n)" by fastforce
  let ?bad = "if k \<notin> set bad \<and> (\<exists>d \<in> set (pn_depends_on n). d \<in> set bad) then bad @ [k] else bad"
  have kn: "node_at all k = n" "k \<in> set (dict_keys all)" using Cons.prems(1) p node_at_in [OF g] by force+
  have "\<exists>d \<in> D. (d, k) \<in> (dep_rel all)\<^sup>*" if e: "e \<in> set (pn_depends_on n)" "e \<in> set bad" for e
  proof -
    obtain d where d: "d \<in> D" "(d, e) \<in> (dep_rel all)\<^sup>*" using Cons.prems(2) e(2) by blast
    have "(e, k) \<in> dep_rel all" using kn e(1) by (simp add: dep_rel_def)
    with d show ?thesis by (meson rtrancl.rtrancl_into_rtrancl)
  qed
  then have "\<forall>k \<in> set ?bad. \<exists>d \<in> D. (d, k) \<in> (dep_rel all)\<^sup>*" using Cons.prems(2) by auto
  from Cons.IH [OF _ this] Cons.prems(1) show ?case by (simp add: drift_pass_def p)
qed (simp add: drift_pass_def)

lemma drift_closure_superset: "set bad \<subseteq> set (drift_closure nodes bad)"
proof (induction nodes bad rule: drift_closure.induct)
  case (1 nodes bad)
  have "set bad \<subseteq> set (drift_pass nodes bad)" using drift_pass_grows [of nodes bad] by auto
  then show ?case using 1 by (subst drift_closure.simps) (auto simp: Let_def)
qed

lemma drift_closure_closed:
  "(k, n) \<in> set nodes \<Longrightarrow> d \<in> set (pn_depends_on n) \<Longrightarrow> d \<in> set (drift_closure nodes bad) \<Longrightarrow>
    k \<in> set (drift_closure nodes bad)"
proof (induction nodes bad rule: drift_closure.induct)
  case (1 nodes bad)
  show ?case
  proof (cases "length (drift_pass nodes bad) = length bad")
    case True
    then have "drift_closure nodes bad = bad" "drift_pass nodes bad = bad"
      using drift_pass_grows [of nodes bad] by (auto simp: drift_closure.simps Let_def)
    then show ?thesis using drift_pass_adds [OF 1(2,3), of bad] 1(4) by simp
  next
    case False
    then have "drift_closure nodes bad = drift_closure nodes (drift_pass nodes bad)"
      by (subst drift_closure.simps) (simp add: Let_def)
    then show ?thesis using 1(1) [OF refl False 1(2,3)] 1(4) by simp
  qed
qed

lemma drift_closure_sound:
  "distinct (dict_keys nodes) \<Longrightarrow> \<forall>k \<in> set bad. \<exists>d \<in> D. (d, k) \<in> (dep_rel nodes)\<^sup>* \<Longrightarrow>
    \<forall>k \<in> set (drift_closure nodes bad). \<exists>d \<in> D. (d, k) \<in> (dep_rel nodes)\<^sup>*"
proof (induction nodes bad rule: drift_closure.induct)
  case (1 nodes bad)
  have p: "\<forall>k \<in> set (drift_pass nodes bad). \<exists>d \<in> D. (d, k) \<in> (dep_rel nodes)\<^sup>*"
    by (rule drift_pass_sound [OF 1(2) subset_refl 1(3)])
  show ?case
  proof (cases "length (drift_pass nodes bad) = length bad")
    case True
    then have "drift_closure nodes bad = drift_pass nodes bad" by (subst drift_closure.simps) (simp add: Let_def)
    with p show ?thesis by simp
  next
    case False
    then have "drift_closure nodes bad = drift_closure nodes (drift_pass nodes bad)"
      by (subst drift_closure.simps) (simp add: Let_def)
    with 1(1) [OF refl False 1(2) p] show ?thesis by simp
  qed
qed

lemma drift_closure_exact:
  assumes g: "distinct (dict_keys nodes)"
  shows "k \<in> set (drift_closure nodes bad) \<longleftrightarrow> (\<exists>d \<in> set bad. (d, k) \<in> (dep_rel nodes)\<^sup>*)"
proof
  have "\<forall>k \<in> set bad. \<exists>d \<in> set bad. (d, k) \<in> (dep_rel nodes)\<^sup>*" by blast
  from drift_closure_sound [OF g this]
  show "k \<in> set (drift_closure nodes bad) \<Longrightarrow> \<exists>d \<in> set bad. (d, k) \<in> (dep_rel nodes)\<^sup>*" by blast
next
  assume "\<exists>d \<in> set bad. (d, k) \<in> (dep_rel nodes)\<^sup>*"
  then obtain d where d: "d \<in> set bad" "(d, k) \<in> (dep_rel nodes)\<^sup>*" by blast
  from d(2) show "k \<in> set (drift_closure nodes bad)"
  proof (induction rule: rtrancl_induct)
    case base
    then show ?case using d(1) drift_closure_superset by blast
  next
    case (step y z)
    then obtain n where n: "(z, n) \<in> set nodes" "y \<in> set (pn_depends_on n)"
      using node_at_in [OF g] by (force simp: dep_rel_def)
    show ?case by (rule drift_closure_closed [OF n step.IH])
  qed
qed

section \<open>Compiled plans\<close>

lemma infer_keeps [simp]:
  "pn_node_id (infer_dependencies hn ns n) = pn_node_id n"
  "distinct (pn_depends_on (infer_dependencies hn ns n))"
  by (simp_all add: infer_dependencies_def Let_def)

lemma graph_of_ok:
  "distinct (map pn_node_id normalized) \<Longrightarrow> graph_ok (graph_of (map (infer_dependencies hn normalized) normalized))"
  by (auto simp: graph_ok_def graph_of_def o_def)

lemma node_at_graph_of: "distinct (map pn_node_id ns) \<Longrightarrow> n \<in> set ns \<Longrightarrow> node_at (graph_of ns) (pn_node_id n) = n"
  by (rule node_at_in) (auto simp: graph_of_def o_def)

lemma compile_plan_parts:
  assumes "compile_plan hn hp canon a = Inr p"
  obtains ns where "distinct (map pn_node_id ns)" "graph_ok (graph_of ns)"
    "topological (graph_of ns) = Inr (pl_topological_order p)" "pl_conflicts p = plan_conflicts (graph_of ns)"
    "plan_waves (graph_of ns) (pl_topological_order p) (pl_conflicts p) = Inr (pl_execution_waves p)"
    "distinct (map pn_node_id (pl_nodes p))" "set (pl_nodes p) = set ns"
proof -
  from assms obtain normalized where n: "distinct (map pn_node_id normalized)"
    and c: "let by_id = graph_of (map (infer_dependencies hn normalized) normalized) in
        topological by_id = Inr (pl_topological_order p) \<and> pl_conflicts p = plan_conflicts by_id
        \<and> plan_waves by_id (pl_topological_order p) (pl_conflicts p) = Inr (pl_execution_waves p)
        \<and> pl_nodes p = map (node_at by_id) (sort (dict_keys by_id))"
    by (auto simp: compile_plan_def Let_def ebind_Inr_conv split: if_splits)
  define ns where "ns = map (infer_dependencies hn normalized) normalized"
  have d: "distinct (map pn_node_id ns)" using n by (simp add: ns_def o_def)
  have c': "topological (graph_of ns) = Inr (pl_topological_order p)" "pl_conflicts p = plan_conflicts (graph_of ns)"
    "plan_waves (graph_of ns) (pl_topological_order p) (pl_conflicts p) = Inr (pl_execution_waves p)"
    "graph_ok (graph_of ns)"
    using c graph_of_ok [OF n, of hn] unfolding ns_def Let_def by blast+
  have keys: "dict_keys (graph_of ns) = map pn_node_id ns" by (simp add: graph_of_def)
  have self: "map (\<lambda>n. node_at (graph_of ns) (pn_node_id n)) ns = ns"
    using node_at_graph_of [OF d] by (intro map_idI)
  have nodes: "pl_nodes p = map (node_at (graph_of ns)) (sort (map pn_node_id ns))"
    using c keys by (simp add: ns_def Let_def)
  then have "set (pl_nodes p) = set (map (\<lambda>n. node_at (graph_of ns) (pn_node_id n)) ns)"
    by (simp add: image_image)
  then have "set (pl_nodes p) = set ns" by (simp only: self)
  moreover have "map pn_node_id (pl_nodes p) = sort (map pn_node_id ns)"
    unfolding nodes map_map using node_at_graph_of [OF d] by (intro map_idI) auto
  then have "distinct (map pn_node_id (pl_nodes p))" using d by simp
  ultimately show thesis by (intro that [OF d c'(4,1-3)])
qed

section \<open>Properties\<close>

text \<open>C18: a compiled plan is executable in its order and in its waves. The order lists every node once,
  after all its dependencies; the waves partition the nodes; the dependencies of a node, declared or
  inferred from its inputs, lie in earlier waves; and no two nodes of a wave write conflicting
  targets.\<close>

theorem plan_waves_sound:
  assumes "compile_plan hn hp canon a = Inr p"
  shows "distinct (pl_topological_order p) \<and> set (pl_topological_order p) = pn_node_id ` set (pl_nodes p)
    \<and> (\<forall>i < length (pl_topological_order p). \<forall>n \<in> set (pl_nodes p). pn_node_id n = pl_topological_order p ! i \<longrightarrow>
         set (pn_depends_on n) \<subseteq> set (take i (pl_topological_order p)))
    \<and> mset (concat (pl_execution_waves p)) = mset (pl_topological_order p)
    \<and> (\<forall>w < length (pl_execution_waves p). \<forall>n \<in> set (pl_nodes p). pn_node_id n \<in> set (pl_execution_waves p ! w) \<longrightarrow>
         set (pn_depends_on n) \<subseteq> set (concat (take w (pl_execution_waves p)))
         \<and> (\<forall>m \<in> set (pl_nodes p). pn_node_id m \<in> set (pl_execution_waves p ! w) \<and> m \<noteq> n \<longrightarrow>
              (\<forall>x \<in> set (pn_write_set n). \<forall>y \<in> set (pn_write_set m). \<not> targets_conflict x y)))"
proof -
  from assms obtain ns where ns: "distinct (map pn_node_id ns)" "graph_ok (graph_of ns)"
    "topological (graph_of ns) = Inr (pl_topological_order p)" "pl_conflicts p = plan_conflicts (graph_of ns)"
    "plan_waves (graph_of ns) (pl_topological_order p) (pl_conflicts p) = Inr (pl_execution_waves p)"
    "distinct (map pn_node_id (pl_nodes p))" "set (pl_nodes p) = set ns" by (rule compile_plan_parts)
  let ?G = "graph_of ns" and ?o = "pl_topological_order p"
  have at: "node_at ?G (pn_node_id n) = n" if "n \<in> set (pl_nodes p)" for n
    using node_at_graph_of [OF ns(1)] ns(7) that by simp
  have keys: "set (dict_keys ?G) = pn_node_id ` set ns" by (auto simp: graph_of_def)
  have t: "topo_prefix ?G ?o" "set ?o = set (dict_keys ?G)" using topological_Inr [OF ns(2,3)] by auto
  have "waves_inv ?G (pl_conflicts p) [] [] []" by (simp add: waves_inv_def)
  from fill_waves_ok [OF _ this] t(1) obtain raw wo where raw: "fill_waves ?G (pl_conflicts p) ?o [] [] = Inr raw"
    "waves_inv ?G (pl_conflicts p) ?o wo raw" by force
  have "filter (\<lambda>w. w \<noteq> []) raw = raw" using raw(2) by (auto simp: waves_inv_def filter_id_conv)
  then have waves: "pl_execution_waves p = map sort raw" using ns(5) raw(1) by (simp add: plan_waves_def)
  have cs: "set (concat (map sort xs)) = set (concat xs)" "mset (concat (map sort xs)) = mset (concat xs)" for xs :: "string list list"
    by (induction xs) auto
  have free: "\<not> targets_conflict x y"
    if "w < length raw" "n \<in> set (pl_nodes p)" "m \<in> set (pl_nodes p)" "m \<noteq> n" "pn_node_id n \<in> set (raw ! w)"
      "pn_node_id m \<in> set (raw ! w)" "x \<in> set (pn_write_set n)" "y \<in> set (pn_write_set m)" for w n m x y
  proof (rule clash_complete [of ?G "pn_node_id n" "pn_node_id m"])
    show "pn_node_id n \<noteq> pn_node_id m" using that ns(6) by (metis distinct_map inj_on_eq_iff)
    then show "\<not> clash (plan_conflicts ?G) (pn_node_id n) (pn_node_id m)"
      using raw(2) that ns(4) by (auto simp: waves_inv_def)
    show "distinct (dict_keys ?G)" using ns(2) by (simp add: graph_ok_def)
  qed (use that at keys ns(7) in auto)
  have "set (pn_depends_on n) \<subseteq> set (concat (take w raw))"
    if "w < length raw" "n \<in> set (pl_nodes p)" "pn_node_id n \<in> set (raw ! w)" for w n
  proof -
    have "set (deps ?G (pn_node_id n)) \<subseteq> set (concat (take w raw))"
      using raw(2) that unfolding waves_inv_def by blast
    then show ?thesis using at [OF that(2)] by simp
  qed
  moreover have "set (pn_depends_on n) \<subseteq> set (take i ?o)"
    if "i < length ?o" "n \<in> set (pl_nodes p)" "pn_node_id n = ?o ! i" for i n
  proof -
    have "set (deps ?G (?o ! i)) \<subseteq> set (take i ?o)" using t(1) that(1) unfolding topo_prefix_def by blast
    then show ?thesis using at [OF that(2)] that(3) by simp
  qed
  moreover have "distinct ?o" "mset (concat raw) = mset ?o" using t(1) raw(2) by (auto simp: topo_prefix_def waves_inv_def)
  ultimately show ?thesis using t(2) keys ns(7) free
    by (simp add: waves cs take_map del: set_concat)
qed

definition demo_node :: "string \<Rightarrow> string list \<Rightarrow> string list \<Rightarrow> string list \<Rightarrow> plan_node" where
  "demo_node k ins outs writes = \<lparr>pn_node_id = k, pn_logical_task_id = [], pn_capability = ''edit'', pn_inputs = ins,
     pn_outputs = outs, pn_depends_on = [], pn_read_set = [], pn_write_set = writes, pn_context_refs = [''ctx-'' @ k],
     pn_tests = [], pn_acceptance_criteria_refs = [], pn_generation_sensitive = False, pn_risk = [],
     pn_rollback_strategy = [], pn_node_hash = []\<rparr>"

definition demo_plan_args :: plan_args where
  "demo_plan_args = \<lparr>pa_plan_id = ''p'', pa_goal_id = ''g'',
     pa_intent = \<lparr>in_goal = ''do  it'', in_acceptance_criteria = [''ac''], in_risks = [], in_non_goals = [],
       in_oracle = [(''kind'', JStr ''tests'')]\<rparr>,
     pa_nodes = [demo_node ''c'' [''i''] [] [''dir:s/p''], demo_node ''b'' [] [''i''] [''s/./a'']],
     pa_context_snapshot_id = ''s'', pa_context_hash = ''h'', pa_fast_generation = ''1'',
     pa_evidence_refs = [''e''], pa_revision = 1, pa_history = []\<rparr>"

definition demo_plan :: plan where
  "demo_plan = projr (compile_plan (\<lambda>_. ''n'') (\<lambda>_. ''p'') (\<lambda>_. []) demo_plan_args)"

lemma demo_plan_values:
  "case compile_plan (\<lambda>_. ''n'') (\<lambda>_. ''p'') (\<lambda>_. []) demo_plan_args of
     Inl _ \<Rightarrow> False
   | Inr p \<Rightarrow> pl_execution_waves p = [[''b''], [''c'']]
       \<and> df_invalidated_nodes (detect_drift p ''h'' ''1'' [''ctx-b''] [''e'']) = [''b'', ''c'']"
  by code_simp

lemma demo_plan_compiles:
  "compile_plan (\<lambda>_. ''n'') (\<lambda>_. ''p'') (\<lambda>_. []) demo_plan_args = Inr demo_plan"
  "pl_execution_waves demo_plan = [[''b''], [''c'']]"
  "df_invalidated_nodes (detect_drift demo_plan ''h'' ''1'' [''ctx-b''] [''e'']) = [''b'', ''c'']"
  using demo_plan_values unfolding demo_plan_def by (simp_all split: sum.splits)

theorem plan_waves_sound_witness:
  "pl_execution_waves demo_plan = [[''b''], [''c'']]
   \<and> mset (concat (pl_execution_waves demo_plan)) = mset (pl_topological_order demo_plan)"
proof -
  from demo_plan_compiles(2) plan_waves_sound [OF demo_plan_compiles(1)] show ?thesis by blast
qed

text \<open>C19: the ordering loop ends with an order exactly when there is one. For a graph with distinct node
  names and dependency sets, the sort succeeds if and only if every dependency is a node and the
  dependency relation is acyclic; so a cycle or an unknown dependency is always reported and never an
  executable plan refused.\<close>

theorem topological_iff_acyclic:
  assumes "graph_ok nodes"
  shows "(\<exists>ordered. topological nodes = Inr ordered) \<longleftrightarrow> known_deps nodes \<and> acyclic (dep_rel nodes)"
  using topological_Inr [OF assms] topological_acyclic [OF assms] topo_prefix_acyclic by blast

definition demo_cycle :: graph where
  "demo_cycle = graph_of [(demo_node ''x'' [] [] [])\<lparr>pn_depends_on := [''y'']\<rparr>, (demo_node ''y'' [] [] [])\<lparr>pn_depends_on := [''x'']\<rparr>]"

theorem topological_iff_acyclic_witness:
  "topological demo_cycle = Inl (DagCycle [''x'', ''y'']) \<and> known_deps demo_cycle \<and> \<not> acyclic (dep_rel demo_cycle)"
proof -
  have t: "topological demo_cycle = Inl (DagCycle [''x'', ''y''])" by code_simp
  have g: "graph_ok demo_cycle" "known_deps demo_cycle" by code_simp+
  from topological_iff_acyclic [OF g(1)] t g(2) show ?thesis by simp
qed

text \<open>Drift invalidates exactly what depends on the change. The closure loop ends, and the invalidated
  nodes of a compiled plan are, in topological order, those reachable along dependencies from a
  directly affected node: one that reads a changed context reference or, when the generation changed,
  is generation sensitive.\<close>

lemma drift_invalidates_exactly:
  assumes "compile_plan hn hp canon a = Inr p" and "r = detect_drift p ctx gen changed evidence"
  shows "df_invalidated_nodes r = filter (\<lambda>k. \<exists>d \<in> set (df_directly_affected r).
        (d, k) \<in> (dep_rel (graph_of (pl_nodes p)))\<^sup>*) (pl_topological_order p)
    \<and> set (df_directly_affected r) = pn_node_id ` {n \<in> set (pl_nodes p).
        set (pn_context_refs n) \<inter> set (strings_of changed) \<noteq> {}
        \<or> gen \<noteq> pl_fast_generation p \<and> pn_generation_sensitive n}
    \<and> (df_reason_code r = None \<longrightarrow> df_invalidated_nodes r = [])"
proof -
  obtain ns where "distinct (map pn_node_id (pl_nodes p))" using assms(1) by (rule compile_plan_parts)
  then have "distinct (dict_keys (graph_of (pl_nodes p)))" by (simp add: graph_of_def o_def)
  note exact = drift_closure_exact [OF this]
  have direct: "set (df_directly_affected r) = pn_node_id ` {n \<in> set (pl_nodes p).
        set (pn_context_refs n) \<inter> set (strings_of changed) \<noteq> {}
        \<or> gen \<noteq> pl_fast_generation p \<and> pn_generation_sensitive n}"
    unfolding assms(2) detect_drift_def Let_def graph_of_def
    by (simp add: filter_map o_def image_image) (rule arg_cong [of _ _ "image pn_node_id"], blast)
  have inval: "df_invalidated_nodes r = filter (\<lambda>k. \<exists>d \<in> set (df_directly_affected r).
        (d, k) \<in> (dep_rel (graph_of (pl_nodes p)))\<^sup>*) (pl_topological_order p)"
    unfolding assms(2) detect_drift_def Let_def by (simp add: exact del: set_map)
  moreover have "df_directly_affected r = []" if "df_reason_code r = None"
    using that unfolding assms(2) detect_drift_def Let_def by (auto split: if_splits)
  ultimately show ?thesis using direct by auto
qed

lemma drift_invalidates_exactly_example:
  "df_invalidated_nodes (detect_drift demo_plan ''h'' ''1'' [''ctx-b''] [''e'']) = [''b'', ''c'']
   \<and> [''b'', ''c''] = filter (\<lambda>k. \<exists>d \<in> set (df_directly_affected (detect_drift demo_plan ''h'' ''1'' [''ctx-b''] [''e''])).
        (d, k) \<in> (dep_rel (graph_of (pl_nodes demo_plan)))\<^sup>*) (pl_topological_order demo_plan)"
proof -
  from demo_plan_compiles(3) drift_invalidates_exactly [OF demo_plan_compiles(1) refl, of "''h''" "''1''" "[''ctx-b'']" "[''e'']"]
  show ?thesis by simp
qed

text \<open>Two write sets that own nested directories do not conflict, nor does the root directory conflict
  with a file in it.\<close>

lemma nested_directories_do_not_conflict:
  "\<not> targets_conflict ''dir:src'' ''dir:src/pkg''" "\<not> targets_conflict ''dir:/'' ''file:src/a.py''"
  by code_simp+

end
