(* ===== verification/Prism_Reducer.thy ===== *)
theory Prism_Reducer
  imports Loop_Prelude "HOL-Library.Multiset"
begin

text \<open>
  Deterministic reduction of task results (\<open>prism_reducer.py\<close>): validated expectations, results and
  candidates, idempotent accumulation, checkpoint and restart, and the slot and prism receipts.

  The content hashes are the functions of a \<open>reducer_hashes\<close> record. A checkpoint is a
  \<open>snapshot_doc\<close>: a field of the wrong type is \<open>None\<close>, a row that is not a mapping is \<open>None\<close> in its
  list; the replay count may be absent, an integer or anything else. Sets of task names are lists without repetition.
\<close>

section \<open>Validated values\<close>

datatype reducer_error = PrismReducerError string

definition sha_value :: "string \<Rightarrow> string \<Rightarrow> reducer_error + string" where
  "sha_value value name =
    (let result = lower (strip value)
     in if length result \<noteq> 64 \<or> \<not> set result \<subseteq> set hex_digits
        then Inl (PrismReducerError (name @ '' must be lowercase SHA-256'')) else Inr result)"

definition sha_option :: "string option \<Rightarrow> string \<Rightarrow> reducer_error + string option" where
  "sha_option value name = (case value of None \<Rightarrow> Inr None | Some v \<Rightarrow> ebind (sha_value v name) (\<lambda>h. Inr (Some h)))"

definition items_set :: "string list \<Rightarrow> string list" where
  "items_set values = sorted_set (filter (\<lambda>v. v \<noteq> []) (map strip values))"

definition required :: "(string \<times> string) list \<Rightarrow> reducer_error + unit" where
  \<comment> \<open>the loop that asks for non-blank fields: pairs of field name and value\<close>
  "required fields = (case List.find (\<lambda>f. strip (snd f) = []) fields of
     None \<Rightarrow> Inr () | Some f \<Rightarrow> Inl (PrismReducerError (fst f @ '' is required'')))"

record ExpectedTask =
  et_task_id :: string
  et_slot_id :: string
  et_owner_agent :: string
  et_fence :: int
  et_source_generation :: string
  et_depends_on :: "string list"

definition ExpectedTask_post_init :: "ExpectedTask \<Rightarrow> reducer_error + ExpectedTask" where
  "ExpectedTask_post_init e =
    ebind (required [(''task_id'', et_task_id e), (''slot_id'', et_slot_id e),
        (''owner_agent'', et_owner_agent e), (''source_generation'', et_source_generation e)]) (\<lambda>_.
      if et_fence e < 1 then Inl (PrismReducerError ''fence must be positive'')
      else
        let e' = e\<lparr>et_depends_on := items_set (et_depends_on e)\<rparr>
        in if et_task_id e' \<in> set (et_depends_on e') then Inl (PrismReducerError ''task cannot depend on itself'')
           else Inr e')"

definition RESULT_SCHEMA :: string where
  "RESULT_SCHEMA = ''simplicio.prism-task-result/v1''"

definition TERMINAL_VERDICTS :: "string list" where
  "TERMINAL_VERDICTS = [''accepted'', ''failed'', ''blocked'', ''cancelled'']"

record TaskResult =
  tr_task_id :: string
  tr_slot_id :: string
  tr_owner_agent :: string
  tr_attempt :: int
  tr_fence :: int
  tr_source_generation :: string
  tr_verdict :: string
  tr_receipt_hash :: string
  tr_artifact_hashes :: "string list"
  tr_write_set :: "string list"
  tr_impact_test_hash :: "string option"
  tr_schema :: string

definition TaskResult_post_init :: "TaskResult \<Rightarrow> reducer_error + TaskResult" where
  "TaskResult_post_init t =
    ebind (required [(''task_id'', tr_task_id t), (''slot_id'', tr_slot_id t),
        (''owner_agent'', tr_owner_agent t), (''source_generation'', tr_source_generation t)]) (\<lambda>_.
      if tr_schema t \<noteq> RESULT_SCHEMA then Inl (PrismReducerError ''unknown task result schema'')
      else if min (tr_attempt t) (tr_fence t) < 1 then Inl (PrismReducerError ''attempt and fence must be positive'')
      else if tr_verdict t \<notin> set TERMINAL_VERDICTS then Inl (PrismReducerError ''unsupported task verdict'')
      else ebind (sha_value (tr_receipt_hash t) ''receipt_hash'') (\<lambda>receipt.
        ebind (map_checked (\<lambda>v. sha_value v ''artifact_hash'') (tr_artifact_hashes t)) (\<lambda>artifacts.
          ebind (sha_option (tr_impact_test_hash t) ''impact_test_hash'') (\<lambda>impact.
            Inr (t\<lparr>tr_receipt_hash := receipt, tr_artifact_hashes := sorted_set artifacts,
                   tr_write_set := items_set (tr_write_set t), tr_impact_test_hash := impact\<rparr>)))))"

definition CANDIDATE_SCHEMA :: string where
  "CANDIDATE_SCHEMA = ''simplicio.loop.candidate/v1''"

record MergeCandidate =
  mc_task_id :: string
  mc_attempt :: int
  mc_slot_id :: string
  mc_base_tree_hash :: string
  mc_head_tree_hash :: string
  mc_tree_hash :: string
  mc_changed_paths :: "string list"
  mc_plan_hash :: string
  mc_generation :: string
  mc_operator_receipt_hash :: string
  mc_evidence_receipt_hash :: string
  mc_verification_status :: string
  mc_schema :: string

definition Candidate_post_init :: "MergeCandidate \<Rightarrow> reducer_error + MergeCandidate" where
  "Candidate_post_init c =
    ebind (required [(''task_id'', mc_task_id c), (''slot_id'', mc_slot_id c),
        (''generation'', mc_generation c), (''verification_status'', mc_verification_status c)]) (\<lambda>_.
      if mc_schema c \<noteq> CANDIDATE_SCHEMA then Inl (PrismReducerError ''unknown candidate schema'')
      else if mc_attempt c < 1 then Inl (PrismReducerError ''candidate attempt must be positive'')
      else if mc_verification_status c \<notin> {''verified'', ''failed'', ''blocked''}
      then Inl (PrismReducerError ''unsupported candidate verification status'')
      else
        ebind (sha_value (mc_base_tree_hash c) ''base_tree_hash'') (\<lambda>base.
        ebind (sha_value (mc_head_tree_hash c) ''head_tree_hash'') (\<lambda>head.
        ebind (sha_value (mc_tree_hash c) ''tree_hash'') (\<lambda>tree.
        ebind (sha_value (mc_plan_hash c) ''plan_hash'') (\<lambda>plan.
        ebind (sha_value (mc_operator_receipt_hash c) ''operator_receipt_hash'') (\<lambda>oper.
        ebind (sha_value (mc_evidence_receipt_hash c) ''evidence_receipt_hash'') (\<lambda>evidence.
          Inr (c\<lparr>mc_base_tree_hash := base, mc_head_tree_hash := head, mc_tree_hash := tree, mc_plan_hash := plan,
                 mc_operator_receipt_hash := oper, mc_evidence_receipt_hash := evidence,
                 mc_changed_paths := items_set (mc_changed_paths c)\<rparr>))))))))"

section \<open>The reducer\<close>

record PrismReducer =
  pr_expected :: "(string, ExpectedTask) dict"
  pr_results :: "(string, TaskResult) dict"
  pr_replay_count :: int

abbreviation task_deps :: "(string, ExpectedTask) dict \<Rightarrow> string \<Rightarrow> string list" where
  "task_deps expected k \<equiv> et_depends_on (the (dict_get expected k))"

definition ready_tasks :: "(string, ExpectedTask) dict \<Rightarrow> string list \<Rightarrow> string list" where
  "ready_tasks expected pending = filter (\<lambda>k. \<not> (\<exists>d \<in> set (task_deps expected k). d \<in> set pending)) pending"

lemma ready_shrinks:
  "ready_tasks expected pending \<noteq> [] \<Longrightarrow>
    length (filter (\<lambda>k. k \<notin> set (ready_tasks expected pending)) pending) < length pending"
proof -
  assume "ready_tasks expected pending \<noteq> []"
  then obtain x where "x \<in> set (ready_tasks expected pending)" by (meson list.set_sel(1))
  moreover from this have "x \<in> set pending" by (simp add: ready_tasks_def)
  ultimately show ?thesis by (intro length_filter_less [of x]) auto
qed

function assert_acyclic :: "(string, ExpectedTask) dict \<Rightarrow> string list \<Rightarrow> reducer_error + unit" where
  "assert_acyclic expected pending =
    (if pending = [] then Inr ()
     else
       let ready = ready_tasks expected pending
       in if ready = [] then Inl (PrismReducerError ''expected task graph contains a cycle'')
          else assert_acyclic expected (filter (\<lambda>k. k \<notin> set ready) pending))"
  by pat_completeness auto
termination by (relation "measure (\<lambda>(expected, pending). length pending)") (auto simp: ready_shrinks)

declare assert_acyclic.simps [simp del]

definition PrismReducer_init :: "ExpectedTask list \<Rightarrow> reducer_error + PrismReducer" where
  "PrismReducer_init tasks =
    (let expected = fold (\<lambda>e d. dict_set d (et_task_id e) e) tasks []
     in if length expected \<noteq> length tasks then Inl (PrismReducerError ''duplicate expected task'')
        else if expected = [] then Inl (PrismReducerError ''expected task set cannot be empty'')
        else if \<exists>e \<in> set tasks. \<exists>d \<in> set (et_depends_on e). \<not> in_dict d expected
        then Inl (PrismReducerError ''expected dependency is unknown'')
        else ebind (assert_acyclic expected (dict_keys expected)) (\<lambda>_.
          Inr \<lparr>pr_expected = expected, pr_results = [], pr_replay_count = 0\<rparr>))"

datatype replay_field = ReplayMissing | ReplayInt int | ReplayOther

record snapshot_doc =
  sd_schema :: string
  sd_expected :: "ExpectedTask option list option"
  sd_results :: "TaskResult option list option"
  sd_replay_count :: replay_field

record task_conflict =
  tc_left :: string
  tc_right :: string
  tc_write_set :: "string list"

record conflict_bundle =
  cb_slot_id :: string
  cb_task_ids :: "string list"
  cb_conflicts :: "task_conflict list"
  cb_candidate_refs :: "(string \<times> string) list"

record slot_reduction =
  sl_slot_id :: string
  sl_expected_task_ids :: "string list"
  sl_result_refs :: "(string \<times> string \<times> string) list"
  sl_missing_task_ids :: "string list"
  sl_blocked_by_dependency :: "string list"
  sl_conflicts :: "task_conflict list"
  sl_conflict_bundle :: "(conflict_bundle \<times> string) option"
  sl_tests_missing :: "string list"
  sl_verdict :: string
  sl_reason_code :: string
  sl_zero_loss :: bool
  sl_requires_delivery_authorization :: bool

record prism_reduction =
  px_slot_receipt_refs :: "(string \<times> string) list"
  px_verdict :: string
  px_completion_oracle_input_ready :: bool
  px_replay_count :: int

record reducer_hashes =
  rh_result :: "TaskResult \<Rightarrow> string"
  rh_snapshot :: "snapshot_doc \<Rightarrow> string"
  rh_bundle :: "conflict_bundle \<Rightarrow> string"
  rh_slot :: "slot_reduction \<Rightarrow> string"
  rh_prism :: "prism_reduction \<Rightarrow> string"

definition PrismReducer_submit ::
    "reducer_hashes \<Rightarrow> TaskResult \<Rightarrow> PrismReducer \<Rightarrow> PrismReducer \<times> (reducer_error + string)" where
  "PrismReducer_submit H result r =
    (case dict_get (pr_expected r) (tr_task_id result) of
       None \<Rightarrow> (r, Inl (PrismReducerError ''result references unknown task''))
     | Some expected \<Rightarrow>
         if tr_slot_id result \<noteq> et_slot_id expected then (r, Inl (PrismReducerError ''result crosses slot''))
         else if tr_owner_agent result \<noteq> et_owner_agent expected then (r, Inl (PrismReducerError ''result owner mismatch''))
         else if tr_fence result \<noteq> et_fence expected then (r, Inl (PrismReducerError ''result fence is stale''))
         else if tr_source_generation result \<noteq> et_source_generation expected
         then (r, Inl (PrismReducerError ''result generation is stale''))
         else (case dict_get (pr_results r) (tr_task_id result) of
             Some previous \<Rightarrow>
               if rh_result H previous \<noteq> rh_result H result
               then (r, Inl (PrismReducerError ''duplicate task result changed immutable content''))
               else (r\<lparr>pr_replay_count := pr_replay_count r + 1\<rparr>, Inr ''IDEMPOTENT_REPLAY'')
           | None \<Rightarrow> (r\<lparr>pr_results := dict_set (pr_results r) (tr_task_id result) result\<rparr>, Inr ''ACCEPTED_FOR_REDUCTION'')))"

section \<open>Checkpoints\<close>

definition SNAPSHOT_SCHEMA :: string where
  "SNAPSHOT_SCHEMA = ''simplicio.loop.reducer-snapshot/v1''"

definition sorted_expected :: "(string, ExpectedTask) dict \<Rightarrow> ExpectedTask list" where
  "sorted_expected expected = sort_key et_task_id (dict_values expected)"

definition PrismReducer_snapshot :: "reducer_hashes \<Rightarrow> PrismReducer \<Rightarrow> snapshot_doc \<times> string" where
  \<comment> \<open>the body and its hash\<close>
  "PrismReducer_snapshot H r =
    (let payload = \<lparr>sd_schema = SNAPSHOT_SCHEMA, sd_expected = Some (map Some (sorted_expected (pr_expected r))),
           sd_results = Some (map (\<lambda>k. dict_get (pr_results r) k) (sort (dict_keys (pr_results r)))),
           sd_replay_count = ReplayInt (pr_replay_count r)\<rparr>
     in (payload, rh_snapshot H payload))"

fun resubmit :: "reducer_hashes \<Rightarrow> TaskResult option list \<Rightarrow> PrismReducer \<Rightarrow> PrismReducer \<times> (reducer_error + unit)" where
  \<comment> \<open>the loop over the rows of a checkpoint\<close>
  "resubmit H [] r = (r, Inr ())"
| "resubmit H (None # rows) r = (r, Inl (PrismReducerError ''reducer snapshot result is invalid''))"
| "resubmit H (Some row # rows) r =
    (case TaskResult_post_init row of
       Inl e \<Rightarrow> (r, Inl e)
     | Inr t \<Rightarrow> (case PrismReducer_submit H t r of
           (r', Inl e) \<Rightarrow> (r', Inl e)
         | (r', Inr _) \<Rightarrow> resubmit H rows r'))"

definition PrismReducer_restore ::
    "reducer_hashes \<Rightarrow> snapshot_doc \<times> string \<Rightarrow> PrismReducer \<Rightarrow> PrismReducer \<times> (reducer_error + unit)" where
  "PrismReducer_restore H snap r =
    (let (body, supplied_hash) = snap
     in if sd_schema body \<noteq> SNAPSHOT_SCHEMA then (r, Inl (PrismReducerError ''unknown reducer snapshot schema''))
        else if rh_snapshot H body \<noteq> supplied_hash then (r, Inl (PrismReducerError ''reducer snapshot hash mismatch''))
        else case sd_expected body of
          None \<Rightarrow> (r, Inl (PrismReducerError ''reducer snapshot expected tasks missing''))
        | Some rows \<Rightarrow>
            (case map_checked ExpectedTask_post_init (List.map_filter (\<lambda>x. x) rows) of
               Inl e \<Rightarrow> (r, Inl e)
             | Inr expected \<Rightarrow>
                 if sort_key et_task_id expected \<noteq> sorted_expected (pr_expected r)
                 then (r, Inl (PrismReducerError ''reducer snapshot task contract mismatch''))
                 else (case sd_results body of
                     None \<Rightarrow> (r, Inl (PrismReducerError ''reducer snapshot results missing''))
                   | Some results \<Rightarrow>
                       (case resubmit H results (r\<lparr>pr_results := [], pr_replay_count := 0\<rparr>) of
                          (r', Inl e) \<Rightarrow> (r', Inl e)
                        | (r', Inr _) \<Rightarrow>
                            (case sd_replay_count body of
                               ReplayMissing \<Rightarrow> (r'\<lparr>pr_replay_count := 0\<rparr>, Inr ())
                             | ReplayInt n \<Rightarrow> if n < 0 then (r', Inl (PrismReducerError ''reducer snapshot replay count is invalid''))
                                         else (r'\<lparr>pr_replay_count := n\<rparr>, Inr ())
                             | ReplayOther \<Rightarrow> (r', Inl (PrismReducerError ''reducer snapshot replay count is invalid'')))))))"

section \<open>Reduction\<close>

function topological_layers :: "(string, ExpectedTask) dict \<Rightarrow> string list \<Rightarrow> string list \<Rightarrow> reducer_error + string list" where
  "topological_layers expected pending ordered =
    (if pending = [] then Inr ordered
     else
       let ready = ready_tasks expected pending
       in if ready = [] then Inl (PrismReducerError ''result graph cannot be ordered'')
          else topological_layers expected (filter (\<lambda>k. k \<notin> set ready) pending) (ordered @ sort ready))"
  by pat_completeness auto
termination by (relation "measure (\<lambda>(expected, pending, ordered). length pending)") (auto simp: ready_shrinks)

declare topological_layers.simps [simp del]

fun ordered_pairs :: "'a list \<Rightarrow> ('a \<times> 'a) list" where
  "ordered_pairs [] = []"
| "ordered_pairs (x # xs) = map (Pair x) xs @ ordered_pairs xs"

definition result_at :: "PrismReducer \<Rightarrow> string \<Rightarrow> TaskResult" where
  \<comment> \<open>\<open>self.results[task_id]\<close> for a task with a result\<close>
  "result_at r k = the (dict_get (pr_results r) k)"

definition write_overlap :: "PrismReducer \<Rightarrow> string \<Rightarrow> string \<Rightarrow> string list" where
  "write_overlap r l k = sorted_set (filter (\<lambda>w. w \<in> set (tr_write_set (result_at r k))) (tr_write_set (result_at r l)))"

definition directly_dependent :: "PrismReducer \<Rightarrow> string \<Rightarrow> string \<Rightarrow> bool" where
  "directly_dependent r l k \<longleftrightarrow> l \<in> set (task_deps (pr_expected r) k) \<or> k \<in> set (task_deps (pr_expected r) l)"

definition reducer_conflicts :: "PrismReducer \<Rightarrow> string list \<Rightarrow> task_conflict list" where
  "reducer_conflicts r task_ids = concat (map (\<lambda>(l, k).
     if write_overlap r l k = [] \<or> directly_dependent r l k then []
     else [\<lparr>tc_left = l, tc_right = k, tc_write_set = write_overlap r l k\<rparr>]) (ordered_pairs (sort task_ids)))"

definition bundle_conflicts ::
    "reducer_hashes \<Rightarrow> PrismReducer \<Rightarrow> string \<Rightarrow> task_conflict list \<Rightarrow> (conflict_bundle \<times> string) option" where
  "bundle_conflicts H r slot_id conflicts =
    (if conflicts = [] then None
     else
       let task_ids = sorted_set (concat (map (\<lambda>c. [tc_left c, tc_right c]) conflicts));
           payload = \<lparr>cb_slot_id = slot_id, cb_task_ids = task_ids, cb_conflicts = conflicts,
             cb_candidate_refs = map (\<lambda>k. (k, rh_result H (result_at r k))) task_ids\<rparr>
       in Some (payload, rh_bundle H payload))"

definition accepted :: "PrismReducer \<Rightarrow> string \<Rightarrow> bool" where
  "accepted r k \<longleftrightarrow> (case dict_get (pr_results r) k of None \<Rightarrow> False | Some t \<Rightarrow> tr_verdict t = ''accepted'')"

definition slot_tasks :: "PrismReducer \<Rightarrow> string \<Rightarrow> string list" where
  "slot_tasks r slot_id = map fst (filter (\<lambda>(k, e). et_slot_id e = slot_id) (pr_expected r))"

definition slot_verdict ::
    "string list \<Rightarrow> task_conflict list \<Rightarrow> string list \<Rightarrow> string list \<Rightarrow> string list \<Rightarrow> string \<times> string" where
  "slot_verdict missing conflicts blocked nonaccepted tests_missing =
    (if missing \<noteq> [] then (''partial'', ''MISSING_RESULTS'')
     else if conflicts \<noteq> [] then (''blocked'', ''COMPOSITION_CONFLICT'')
     else if blocked \<noteq> [] then (''blocked'', ''DEPENDENCY_NOT_ACCEPTED'')
     else if nonaccepted \<noteq> [] then (''blocked'', ''CHILD_NOT_ACCEPTED'')
     else if tests_missing \<noteq> [] then (''blocked'', ''IMPACT_TEST_RECEIPT_MISSING'')
     else (''accepted'', ''REDUCED''))"

definition reduce_slot :: "reducer_hashes \<Rightarrow> PrismReducer \<Rightarrow> string \<Rightarrow> reducer_error + slot_reduction \<times> string" where
  "reduce_slot H r slot_id =
    (let expected_ids = slot_tasks r slot_id
     in if expected_ids = [] then Inl (PrismReducerError ''unknown or empty slot'')
        else
          let present = filter (\<lambda>k. in_dict k (pr_results r)) expected_ids;
              missing = sort (filter (\<lambda>k. k \<notin> set present) expected_ids)
          in ebind (if present \<noteq> [] then topological_layers (pr_expected r) present [] else Inr []) (\<lambda>ordered.
            let conflicts = reducer_conflicts r ordered;
                blocked = filter (\<lambda>k. \<exists>d \<in> set (task_deps (pr_expected r) k). \<not> accepted r d) ordered;
                nonaccepted = sort (filter (\<lambda>k. \<not> accepted r k) present);
                tests_missing = sort (filter (\<lambda>k. accepted r k \<and> tr_impact_test_hash (result_at r k) = None) present);
                (verdict, reason_code) = slot_verdict missing conflicts blocked nonaccepted tests_missing;
                payload = \<lparr>sl_slot_id = slot_id, sl_expected_task_ids = sort expected_ids,
                  sl_result_refs = map (\<lambda>k. (k, rh_result H (result_at r k), tr_receipt_hash (result_at r k))) ordered,
                  sl_missing_task_ids = missing, sl_blocked_by_dependency = sort blocked, sl_conflicts = conflicts,
                  sl_conflict_bundle = bundle_conflicts H r slot_id conflicts, sl_tests_missing = tests_missing,
                  sl_verdict = verdict, sl_reason_code = reason_code,
                  sl_zero_loss = (length present + length missing = length expected_ids),
                  sl_requires_delivery_authorization = (verdict = ''accepted'')\<rparr>
            in Inr (payload, rh_slot H payload)))"

definition reduce_prism :: "reducer_hashes \<Rightarrow> PrismReducer \<Rightarrow> string list \<Rightarrow> reducer_error + prism_reduction \<times> string" where
  "reduce_prism H r slot_ids =
    (let unique = sorted_set slot_ids
     in if unique = [] then Inl (PrismReducerError ''at least one slot is required'')
        else ebind (map_checked (reduce_slot H r) unique) (\<lambda>slots.
          let verdict = (if \<forall>s \<in> set slots. sl_verdict (fst s) = ''accepted'' then ''accepted'' else ''blocked'');
              payload = \<lparr>px_slot_receipt_refs = map (\<lambda>s. (sl_slot_id (fst s), snd s)) slots, px_verdict = verdict,
                px_completion_oracle_input_ready = (verdict = ''accepted''), px_replay_count = pr_replay_count r\<rparr>
          in Inr (payload, rh_prism H payload)))"

section \<open>Construction is idempotent\<close>

lemma sha_value_stable: "sha_value v n = Inr r \<Longrightarrow> sha_value r n = Inr r"
  by (auto simp: sha_value_def Let_def hex_stable split: if_splits)

lemma items_set_idem [simp]: "items_set (items_set vs) = items_set vs"
proof -
  have "map strip (items_set vs) = items_set vs" by (intro map_idI) (auto simp: items_set_def)
  moreover have "filter (\<lambda>v. v \<noteq> []) (items_set vs) = items_set vs" by (auto simp: items_set_def filter_id_conv)
  ultimately have "items_set (items_set vs) = sorted_set (items_set vs)" by (simp add: items_set_def)
  then show ?thesis by (simp add: items_set_def)
qed

lemma expected_stable: "ExpectedTask_post_init e = Inr e' \<Longrightarrow> ExpectedTask_post_init e' = Inr e'"
  by (auto simp: ExpectedTask_post_init_def Let_def ebind_Inr_conv split: if_splits)

lemma sha_option_stable: "sha_option v n = Inr r \<Longrightarrow> sha_option r n = Inr r"
  by (auto simp: sha_option_def ebind_Inr_conv sha_value_stable split: option.splits)

lemma TaskResult_Inr:
  "TaskResult_post_init t = Inr t' \<longleftrightarrow>
    required [(''task_id'', tr_task_id t), (''slot_id'', tr_slot_id t),
        (''owner_agent'', tr_owner_agent t), (''source_generation'', tr_source_generation t)] = Inr ()
    \<and> tr_schema t = RESULT_SCHEMA \<and> \<not> min (tr_attempt t) (tr_fence t) < 1 \<and> tr_verdict t \<in> set TERMINAL_VERDICTS
    \<and> (\<exists>receipt artifacts impact. sha_value (tr_receipt_hash t) ''receipt_hash'' = Inr receipt
        \<and> map_checked (\<lambda>v. sha_value v ''artifact_hash'') (tr_artifact_hashes t) = Inr artifacts
        \<and> sha_option (tr_impact_test_hash t) ''impact_test_hash'' = Inr impact
        \<and> t' = t\<lparr>tr_receipt_hash := receipt, tr_artifact_hashes := sorted_set artifacts,
                   tr_write_set := items_set (tr_write_set t), tr_impact_test_hash := impact\<rparr>)"
  unfolding TaskResult_post_init_def ebind_Inr_conv guard_Inr_conv by auto

lemma result_stable:
  assumes "TaskResult_post_init t = Inr t'"
  shows "TaskResult_post_init t' = Inr t'"
proof -
  from assms obtain receipt artifacts impact where
    c: "sha_value (tr_receipt_hash t) ''receipt_hash'' = Inr receipt"
      "map_checked (\<lambda>v. sha_value v ''artifact_hash'') (tr_artifact_hashes t) = Inr artifacts"
      "sha_option (tr_impact_test_hash t) ''impact_test_hash'' = Inr impact"
    and t': "t' = t\<lparr>tr_receipt_hash := receipt, tr_artifact_hashes := sorted_set artifacts,
                   tr_write_set := items_set (tr_write_set t), tr_impact_test_hash := impact\<rparr>"
    unfolding TaskResult_Inr by blast
  have "sha_value a ''artifact_hash'' = Inr a" if "a \<in> set artifacts" for a
    using map_checked_elem [OF c(2) that] sha_value_stable by blast
  then have "map_checked (\<lambda>v. sha_value v ''artifact_hash'') (sorted_set artifacts) = Inr (sorted_set artifacts)"
    by (intro map_checked_id) simp
  then show ?thesis using assms sha_value_stable [OF c(1)] sha_option_stable [OF c(3)]
    unfolding TaskResult_Inr t' by simp
qed

interpretation expected: normalizer ExpectedTask_post_init
  by unfold_locales (rule expected_stable)

interpretation task_result: normalizer TaskResult_post_init
  by unfold_locales (rule result_stable)

section \<open>Reachable reducers\<close>

inductive reducer_reachable :: "reducer_hashes \<Rightarrow> PrismReducer \<Rightarrow> bool" for H where
  reach_init: "map_checked ExpectedTask_post_init raws = Inr tasks \<Longrightarrow> PrismReducer_init tasks = Inr r \<Longrightarrow>
    reducer_reachable H r"
| reach_submit: "reducer_reachable H r \<Longrightarrow> TaskResult_post_init raw = Inr t \<Longrightarrow>
    PrismReducer_submit H t r = (r', res) \<Longrightarrow> reducer_reachable H r'"

definition matches :: "(string, ExpectedTask) dict \<Rightarrow> TaskResult \<Rightarrow> bool" where
  "matches expected t \<longleftrightarrow> (\<exists>e. dict_get expected (tr_task_id t) = Some e \<and> tr_slot_id t = et_slot_id e
     \<and> tr_owner_agent t = et_owner_agent e \<and> tr_fence t = et_fence e
     \<and> tr_source_generation t = et_source_generation e)"

definition expected_ok :: "(string, ExpectedTask) dict \<Rightarrow> bool" where
  "expected_ok expected \<longleftrightarrow> distinct (dict_keys expected)
     \<and> (\<forall>(k, e) \<in> set expected. et_task_id e = k \<and> ExpectedTask_post_init e = Inr e
          \<and> set (et_depends_on e) \<subseteq> set (dict_keys expected))
     \<and> assert_acyclic expected (dict_keys expected) = Inr ()"

definition reducer_inv :: "PrismReducer \<Rightarrow> bool" where
  "reducer_inv r \<longleftrightarrow> expected_ok (pr_expected r) \<and> distinct (dict_keys (pr_results r)) \<and> 0 \<le> pr_replay_count r
     \<and> (\<forall>k t. dict_get (pr_results r) k = Some t \<longrightarrow>
          tr_task_id t = k \<and> TaskResult_post_init t = Inr t \<and> matches (pr_expected r) t)"

lemma submit_cases:
  "PrismReducer_submit H t r =
    (if \<not> matches (pr_expected r) t then (r, snd (PrismReducer_submit H t r))
     else case dict_get (pr_results r) (tr_task_id t) of
        Some p \<Rightarrow> if rh_result H p \<noteq> rh_result H t
                  then (r, Inl (PrismReducerError ''duplicate task result changed immutable content''))
                  else (r\<lparr>pr_replay_count := pr_replay_count r + 1\<rparr>, Inr ''IDEMPOTENT_REPLAY'')
      | None \<Rightarrow> (r\<lparr>pr_results := dict_set (pr_results r) (tr_task_id t) t\<rparr>, Inr ''ACCEPTED_FOR_REDUCTION''))"
  by (auto simp: PrismReducer_submit_def matches_def split: option.splits)

lemma submit_mismatch: "\<not> matches (pr_expected r) t \<Longrightarrow> \<exists>e. PrismReducer_submit H t r = (r, Inl e)"
  by (auto simp: PrismReducer_submit_def matches_def split: option.splits)

lemma submit_inv:
  assumes "reducer_inv r" and "TaskResult_post_init t = Inr t" and "PrismReducer_submit H t r = (r', res)"
  shows "reducer_inv r'"
proof (cases "matches (pr_expected r) t")
  case False
  then show ?thesis using submit_mismatch [OF False, of H] assms by auto
next
  case True
  show ?thesis
  proof (cases "dict_get (pr_results r) (tr_task_id t)")
    case None
    then have "r' = r\<lparr>pr_results := dict_set (pr_results r) (tr_task_id t) t\<rparr>"
      using submit_cases [of H t r] True assms(3) by simp
    moreover have "distinct (dict_keys (dict_set (pr_results r) (tr_task_id t) t))"
      using assms(1) by (intro distinct_keys_set) (simp add: reducer_inv_def)
    ultimately show ?thesis using assms(1,2) True by (auto simp: reducer_inv_def)
  next
    case (Some p)
    then show ?thesis using submit_cases [of H t r] True assms by (auto simp: reducer_inv_def split: if_splits)
  qed
qed

lemma length_set_le: "length (dict_set d k v) \<le> Suc (length d)"
  by (induction d) auto

lemma fold_dict_le: "length (fold (\<lambda>e. AList.update (f e) e) xs d) \<le> length d + length xs"
proof (induction xs arbitrary: d)
  case (Cons x xs)
  show ?case using Cons [of "dict_set d (f x) x"] length_set_le [of "f x" x d] by simp
qed simp

lemma fold_dict_build:
  "length (fold (\<lambda>e. AList.update (f e) e) xs d) = length d + length xs \<Longrightarrow>
    fold (\<lambda>e. AList.update (f e) e) xs d = d @ map (\<lambda>e. (f e, e)) xs
    \<and> (distinct (dict_keys d) \<longrightarrow> distinct (dict_keys d @ map f xs))"
proof (induction xs arbitrary: d)
  case (Cons x xs)
  have l: "length (dict_set d (f x) x) = Suc (length d)"
    using fold_dict_le [of f xs "dict_set d (f x) x"] length_set_le [of "f x" x d] Cons.prems by simp
  then have n: "f x \<notin> set (dict_keys d)" by (metis dict_keys_set_known length_map n_not_Suc_n)
  then have "dict_set d (f x) x = d @ [(f x, x)]" by (rule dict_set_new)
  then show ?case using Cons.IH [of "d @ [(f x, x)]"] Cons.prems n by auto
qed simp

lemma reducer_init_inv:
  assumes "map_checked ExpectedTask_post_init raws = Inr tasks" and "PrismReducer_init tasks = Inr r"
  shows "reducer_inv r"
proof -
  let ?E = "fold (\<lambda>e d. dict_set d (et_task_id e) e) tasks []"
  have i: "length ?E = length tasks" "\<forall>e \<in> set tasks. \<forall>d \<in> set (et_depends_on e). in_dict d ?E"
    "assert_acyclic ?E (dict_keys ?E) = Inr ()" "r = \<lparr>pr_expected = ?E, pr_results = [], pr_replay_count = 0\<rparr>"
    using assms(2) by (auto simp: PrismReducer_init_def Let_def ebind_Inr_conv split: if_splits)
  have E: "?E = map (\<lambda>e. (et_task_id e, e)) tasks" "distinct (dict_keys ?E)"
    using fold_dict_build [of et_task_id tasks "[]"] i(1) by (auto simp: o_def)
  have "ExpectedTask_post_init e = Inr e" if "e \<in> set tasks" for e
    using expected.built_fixed [OF assms(1)] that by blast
  moreover have "set (et_depends_on e) \<subseteq> set (dict_keys ?E)" if "e \<in> set tasks" for e
    using i(2) that by (auto simp: in_dict_keys)
  ultimately have "expected_ok ?E" using i(3) E(2) unfolding expected_ok_def by (subst (2) E(1)) auto
  then show ?thesis using i(4) by (simp add: reducer_inv_def)
qed

lemma reachable_reducer_inv: "reducer_reachable H r \<Longrightarrow> reducer_inv r"
proof (induction rule: reducer_reachable.induct)
  case (reach_init raws tasks r)
  then show ?case by (rule reducer_init_inv)
next
  case (reach_submit r raw t r' res)
  then show ?case using submit_inv task_result.rebuild by blast
qed

section \<open>Observations depend on the contents only\<close>

definition same_contents :: "PrismReducer \<Rightarrow> PrismReducer \<Rightarrow> bool" where
  "same_contents r r' \<longleftrightarrow> pr_expected r = pr_expected r' \<and> pr_replay_count r = pr_replay_count r'
     \<and> dict_get (pr_results r) = dict_get (pr_results r')
     \<and> distinct (dict_keys (pr_results r)) \<and> distinct (dict_keys (pr_results r'))"

lemma same_keys:
  assumes "same_contents r r'"
  shows "sort (dict_keys (pr_results r)) = sort (dict_keys (pr_results r'))"
proof (rule sorted_distinct_set_unique)
  have "dom (dict_get (pr_results r)) = dom (dict_get (pr_results r'))" using assms by (simp add: same_contents_def)
  then show "set (sort (dict_keys (pr_results r))) = set (sort (dict_keys (pr_results r')))"
    by (simp add: dom_map_of_conv_image_fst)
qed (use assms in \<open>simp_all add: same_contents_def\<close>)

lemma same_snapshot: "same_contents r r' \<Longrightarrow> PrismReducer_snapshot H r = PrismReducer_snapshot H r'"
  unfolding PrismReducer_snapshot_def using same_keys [of r r'] by (simp add: same_contents_def)

lemma same_reduce_slot:
  assumes "same_contents r r'"
  shows "reduce_slot H r s = reduce_slot H r' s"
proof -
  have eq: "pr_expected r = pr_expected r'" "dict_get (pr_results r) = dict_get (pr_results r')"
    using assms by (simp_all add: same_contents_def)
  have obs: "slot_tasks r = slot_tasks r'" "result_at r = result_at r'" "accepted r = accepted r'"
    "directly_dependent r = directly_dependent r'"
    by (simp_all add: fun_eq_iff slot_tasks_def result_at_def accepted_def directly_dependent_def eq)
  then have "write_overlap r = write_overlap r'" unfolding write_overlap_def [abs_def] by simp
  then have "reducer_conflicts r = reducer_conflicts r'" "bundle_conflicts H r = bundle_conflicts H r'"
    unfolding reducer_conflicts_def [abs_def] bundle_conflicts_def [abs_def] by (simp_all only: obs)
  then show ?thesis unfolding reduce_slot_def by (simp only: obs eq in_dict_def)
qed

lemma same_reduce_prism: "same_contents r r' \<Longrightarrow> reduce_prism H r ss = reduce_prism H r' ss"
proof -
  assume s: "same_contents r r'"
  then have "reduce_slot H r = reduce_slot H r'" by (intro ext same_reduce_slot)
  moreover have "pr_replay_count r = pr_replay_count r'" using s by (simp add: same_contents_def)
  ultimately show ?thesis unfolding reduce_prism_def by (simp only:)
qed

section \<open>Restart\<close>

lemma resubmit_fresh:
  "\<forall>t \<in> set ts. TaskResult_post_init t = Inr t \<and> matches (pr_expected r) t \<Longrightarrow>
    distinct (dict_keys (pr_results r) @ map tr_task_id ts) \<Longrightarrow>
    resubmit H (map Some ts) r = (r\<lparr>pr_results := pr_results r @ map (\<lambda>t. (tr_task_id t, t)) ts\<rparr>, Inr ())"
proof (induction ts arbitrary: r)
  case (Cons t ts)
  have n: "tr_task_id t \<notin> set (dict_keys (pr_results r))" using Cons.prems(2) by auto
  then have "dict_get (pr_results r) (tr_task_id t) = None" by (simp add: map_of_eq_None_iff)
  then have "PrismReducer_submit H t r = (r\<lparr>pr_results := pr_results r @ [(tr_task_id t, t)]\<rparr>, Inr ''ACCEPTED_FOR_REDUCTION'')"
    using submit_cases [of H t r] Cons.prems(1) dict_set_new [OF n] by simp
  then show ?case using Cons.prems Cons.IH [of "r\<lparr>pr_results := pr_results r @ [(tr_task_id t, t)]\<rparr>"] by simp
qed simp

lemma expected_values_ok:
  assumes "expected_ok E"
  shows "map_checked ExpectedTask_post_init (sorted_expected E) = Inr (sorted_expected E)"
    "sort_key et_task_id (sorted_expected E) = sorted_expected E"
proof -
  show "map_checked ExpectedTask_post_init (sorted_expected E) = Inr (sorted_expected E)"
    using assms by (intro map_checked_id) (auto simp: sorted_expected_def expected_ok_def)
  show "sort_key et_task_id (sorted_expected E) = sorted_expected E"
    unfolding sorted_expected_def by (rule sort_key_id_if_sorted) simp
qed

lemma map_filter_Some [simp]: "List.map_filter (\<lambda>x. x) (map Some xs) = xs"
  by (induction xs) (simp_all add: map_filter_simps)

lemma map_of_keyed:
  assumes "distinct (dict_keys d)"
  shows "map_of (map (\<lambda>k. (k, the (map_of d k))) (sort (dict_keys d))) = map_of d"
proof
  fix k
  have "map_of (map (\<lambda>k. (k, the (map_of d k))) xs) k = (if k \<in> set xs then Some (the (map_of d k)) else None)" for xs
    by (induction xs) auto
  then show "map_of (map (\<lambda>k. (k, the (map_of d k))) (sort (dict_keys d))) k = map_of d k"
    using map_of_eq_None_iff [of d k] dict_get_key [of d k] by (cases "map_of d k") simp_all
qed

lemma restore_snapshot:
  assumes inv: "reducer_inv r" and e: "pr_expected r0 = pr_expected r"
  obtains r' where "PrismReducer_restore H (PrismReducer_snapshot H r) r0 = (r', Inr ())" "same_contents r' r"
proof -
  let ?keys = "sort (dict_keys (pr_results r))"
  define ts where "ts = map (\<lambda>k. the (dict_get (pr_results r) k)) ?keys"
  have get: "\<exists>t. dict_get (pr_results r) k = Some t" if "k \<in> set ?keys" for k
    using dict_known_Some [of k "pr_results r"] that by simp
  have rows: "map (\<lambda>k. dict_get (pr_results r) k) ?keys = map Some ts"
    unfolding ts_def map_map using get by (intro map_cong refl) fastforce
  have ids: "tr_task_id (the (dict_get (pr_results r) k)) = k" if "k \<in> set ?keys" for k
    using get [OF that] inv by (force simp: reducer_inv_def)
  then have tid: "map tr_task_id ts = ?keys" unfolding ts_def map_map by (intro map_idI) simp
  have wf: "\<forall>t \<in> set ts. TaskResult_post_init t = Inr t \<and> matches (pr_expected r0) t"
    using get inv e by (fastforce simp: ts_def reducer_inv_def)
  have keyed: "map (\<lambda>t. (tr_task_id t, t)) ts = map (\<lambda>k. (k, the (dict_get (pr_results r) k))) ?keys"
    unfolding ts_def map_map using ids by (intro map_cong refl) simp
  let ?start = "r0\<lparr>pr_results := [], pr_replay_count := 0\<rparr>"
  have "resubmit H (map Some ts) ?start = (?start\<lparr>pr_results := map (\<lambda>t. (tr_task_id t, t)) ts\<rparr>, Inr ())"
    using resubmit_fresh [of ts ?start H] wf tid inv by (simp add: reducer_inv_def)
  then have "PrismReducer_restore H (PrismReducer_snapshot H r) r0 =
      (?start\<lparr>pr_results := map (\<lambda>t. (tr_task_id t, t)) ts, pr_replay_count := pr_replay_count r\<rparr>, Inr ())"
    using inv e expected_values_ok [of "pr_expected r"]
    by (simp add: PrismReducer_restore_def PrismReducer_snapshot_def Let_def rows reducer_inv_def)
  moreover have "same_contents (?start\<lparr>pr_results := map (\<lambda>t. (tr_task_id t, t)) ts, pr_replay_count := pr_replay_count r\<rparr>) r"
    using inv e map_of_keyed [of "pr_results r"] by (simp add: same_contents_def reducer_inv_def keyed o_def)
  ultimately show thesis by (rule that)
qed

section \<open>Order of submission\<close>

fun submit_all :: "reducer_hashes \<Rightarrow> TaskResult list \<Rightarrow> PrismReducer \<Rightarrow> PrismReducer \<times> (reducer_error + string) list" where
  "submit_all H [] r = (r, [])"
| "submit_all H (t # ts) r =
    (let (r1, x) = PrismReducer_submit H t r; (r2, xs) = submit_all H ts r1 in (r2, x # xs))"

definition consistent :: "(string, ExpectedTask) dict \<Rightarrow> (string \<Rightarrow> TaskResult option) \<Rightarrow> TaskResult list \<Rightarrow> bool" where
  "consistent E M ts \<longleftrightarrow> (\<forall>t \<in> set ts. matches E t \<and> (\<forall>p. M (tr_task_id t) = Some p \<longrightarrow> p = t)
     \<and> (\<forall>u \<in> set ts. tr_task_id u = tr_task_id t \<longrightarrow> u = t))"

lemma consistent_Cons:
  "consistent E M (t # ts) \<longleftrightarrow> matches E t \<and> (\<forall>p. M (tr_task_id t) = Some p \<longrightarrow> p = t)
     \<and> consistent E (M(tr_task_id t \<mapsto> t)) ts"
proof
  assume "consistent E M (t # ts)"
  then show "matches E t \<and> (\<forall>p. M (tr_task_id t) = Some p \<longrightarrow> p = t) \<and> consistent E (M(tr_task_id t \<mapsto> t)) ts"
    by (simp add: consistent_def)
next
  assume a: "matches E t \<and> (\<forall>p. M (tr_task_id t) = Some p \<longrightarrow> p = t) \<and> consistent E (M(tr_task_id t \<mapsto> t)) ts"
  have "u = t" if "u \<in> set ts" "tr_task_id u = tr_task_id t" for u
    using a that unfolding consistent_def by (metis fun_upd_same)
  then show "consistent E M (t # ts)" using a unfolding consistent_def
    by (metis (full_types) fun_upd_other set_ConsD)
qed

text \<open>One accepted submission, whether new or a replay.\<close>

lemma submit_ok:
  assumes inj: "inj_on (rh_result H) S" and S: "t \<in> S" "ran (dict_get (pr_results r)) \<subseteq> S"
    and d: "distinct (dict_keys (pr_results r))"
  shows "(\<exists>m. snd (PrismReducer_submit H t r) = Inr m) \<longleftrightarrow>
      matches (pr_expected r) t \<and> (\<forall>p. dict_get (pr_results r) (tr_task_id t) = Some p \<longrightarrow> p = t)" (is ?iff)
    and "PrismReducer_submit H t r = (r', Inr m) \<Longrightarrow> pr_expected r' = pr_expected r
      \<and> dict_get (pr_results r') = (dict_get (pr_results r))(tr_task_id t \<mapsto> t) \<and> distinct (dict_keys (pr_results r'))
      \<and> pr_replay_count r' + int (length (pr_results r')) = pr_replay_count r + int (length (pr_results r)) + 1"
proof -
  have same: "rh_result H p = rh_result H t \<longleftrightarrow> p = t" if "dict_get (pr_results r) k = Some p" for p k
    using inj S that by (metis inj_on_eq_iff ranI subsetD)
  show ?iff
  proof (cases "matches (pr_expected r) t")
    case False
    then show ?thesis using submit_mismatch [OF False, of H] by auto
  next
    case True
    then show ?thesis using submit_cases [of H t r] same by (auto split: option.splits)
  qed
  assume ok: "PrismReducer_submit H t r = (r', Inr m)"
  then have m: "matches (pr_expected r) t" using submit_mismatch [of r t H] by fastforce
  show "pr_expected r' = pr_expected r
      \<and> dict_get (pr_results r') = (dict_get (pr_results r))(tr_task_id t \<mapsto> t) \<and> distinct (dict_keys (pr_results r'))
      \<and> pr_replay_count r' + int (length (pr_results r')) = pr_replay_count r + int (length (pr_results r)) + 1"
  proof (cases "dict_get (pr_results r) (tr_task_id t)")
    case None
    then have n: "tr_task_id t \<notin> set (dict_keys (pr_results r))" by (simp add: map_of_eq_None_iff)
    have r': "r' = r\<lparr>pr_results := dict_set (pr_results r) (tr_task_id t) t\<rparr>"
      using ok submit_cases [of H t r] m None by simp
    have "length (dict_set (pr_results r) (tr_task_id t) t) = Suc (length (pr_results r))"
      using dict_set_new [OF n] by simp
    then show ?thesis unfolding r' using distinct_keys_set [OF d] by simp
  next
    case (Some p)
    then have "p = t" "r' = r\<lparr>pr_replay_count := pr_replay_count r + 1\<rparr>"
      using ok submit_cases [of H t r] m same [OF Some] by (auto split: if_splits)
    then show ?thesis using d Some by (simp add: fun_upd_idem)
  qed
qed

definition all_accepted :: "(reducer_error + string) list \<Rightarrow> bool" where
  "all_accepted xs \<longleftrightarrow> (\<forall>x \<in> set xs. \<not> isl x)"

definition merged :: "(string \<Rightarrow> TaskResult option) \<Rightarrow> TaskResult set \<Rightarrow> string \<Rightarrow> TaskResult \<Rightarrow> bool" where
  "merged M T k v \<longleftrightarrow> M k = Some v \<or> (M k = None \<and> v \<in> T \<and> tr_task_id v = k)"

lemma submit_all_spec:
  assumes inj: "inj_on (rh_result H) S"
  shows "set ts \<subseteq> S \<Longrightarrow> ran (dict_get (pr_results r)) \<subseteq> S \<Longrightarrow> distinct (dict_keys (pr_results r)) \<Longrightarrow>
    (all_accepted (snd (submit_all H ts r)) \<longleftrightarrow> consistent (pr_expected r) (dict_get (pr_results r)) ts)
    \<and> (consistent (pr_expected r) (dict_get (pr_results r)) ts \<longrightarrow>
        (let r' = fst (submit_all H ts r)
         in pr_expected r' = pr_expected r \<and> distinct (dict_keys (pr_results r'))
            \<and> (\<forall>k v. dict_get (pr_results r') k = Some v \<longleftrightarrow> merged (dict_get (pr_results r)) (set ts) k v)
            \<and> pr_replay_count r' + int (length (pr_results r'))
              = pr_replay_count r + int (length (pr_results r)) + int (length ts)))"
proof (induction ts arbitrary: r)
  case Nil
  then show ?case by (simp add: all_accepted_def consistent_def merged_def)
next
  case (Cons t ts)
  obtain r1 x where s: "PrismReducer_submit H t r = (r1, x)" by fastforce
  have tS: "t \<in> S" using Cons.prems(1) by simp
  note ok = submit_ok [OF inj tS Cons.prems(2,3)]
  show ?case
  proof (cases x)
    case (Inl e)
    then have "\<not> (\<exists>m. snd (PrismReducer_submit H t r) = Inr m)" using s by simp
    then have "\<not> consistent (pr_expected r) (dict_get (pr_results r)) (t # ts)"
      unfolding ok(1) consistent_Cons by blast
    moreover have "\<not> all_accepted (snd (submit_all H (t # ts) r))"
      using s Inl by (simp add: all_accepted_def split: prod.splits)
    ultimately show ?thesis by simp
  next
    case (Inr m)
    have here: "matches (pr_expected r) t \<and> (\<forall>p. dict_get (pr_results r) (tr_task_id t) = Some p \<longrightarrow> p = t)"
      using ok(1) s Inr by simp
    define M1 where "M1 = (dict_get (pr_results r))(tr_task_id t \<mapsto> t)"
    have r1: "pr_expected r1 = pr_expected r" "dict_get (pr_results r1) = M1" "distinct (dict_keys (pr_results r1))"
      "pr_replay_count r1 + int (length (pr_results r1)) = pr_replay_count r + int (length (pr_results r)) + 1"
      using ok(2) [OF s [unfolded Inr]] unfolding M1_def by auto
    have ran1: "ran (dict_get (pr_results r1)) \<subseteq> S"
      unfolding r1(2) M1_def using Cons.prems(2) tS by (auto simp: ran_def)
    have "set ts \<subseteq> S" using Cons.prems(1) by simp
    note IH = Cons.IH [OF this ran1 r1(3), unfolded r1(1,2,4) Let_def]
    have acc: "all_accepted (snd (submit_all H (t # ts) r)) \<longleftrightarrow> all_accepted (snd (submit_all H ts r1))"
      "fst (submit_all H (t # ts) r) = fst (submit_all H ts r1)"
      using s Inr by (auto simp: all_accepted_def split: prod.splits)
    have con: "consistent (pr_expected r) (dict_get (pr_results r)) (t # ts) \<longleftrightarrow> consistent (pr_expected r) M1 ts"
      using here by (simp add: consistent_Cons M1_def)
    have mer: "merged M1 (set ts) k v \<longleftrightarrow> merged (dict_get (pr_results r)) (set (t # ts)) k v"
      if "consistent (pr_expected r) (dict_get (pr_results r)) (t # ts)" for k v
      using here that unfolding M1_def
      by (cases "dict_get (pr_results r) (tr_task_id t)") (auto simp: merged_def consistent_def)
    show ?thesis unfolding acc con Let_def using IH mer con by (simp del: set_simps(2) map_of_eq_Some_iff)
  qed
qed

lemma same_length_results:
  assumes "distinct (dict_keys d)" "distinct (dict_keys d')" "dict_get d = dict_get d'"
  shows "length d = length d'"
proof -
  have "length d = card (dom (dict_get d))" "length d' = card (dom (dict_get d'))"
    using assms(1,2) distinct_card [of "dict_keys d"] distinct_card [of "dict_keys d'"]
    by (simp_all add: dom_map_of_conv_image_fst)
  with assms(3) show ?thesis by simp
qed

lemma permuted_submissions:
  assumes inj: "inj_on (rh_result H) (set ts \<union> ran (dict_get (pr_results r)))"
    and d: "distinct (dict_keys (pr_results r))" and p: "mset ts = mset ts'"
    and a: "all_accepted (snd (submit_all H ts r))"
  shows "all_accepted (snd (submit_all H ts' r)) \<and> same_contents (fst (submit_all H ts r)) (fst (submit_all H ts' r))"
proof -
  have sets: "set ts' = set ts" "length ts' = length ts" using p mset_eq_setD mset_eq_length by metis+
  have con: "consistent (pr_expected r) (dict_get (pr_results r)) ts"
    using submit_all_spec [OF inj, of ts r] a d by simp
  then have con': "consistent (pr_expected r) (dict_get (pr_results r)) ts'" by (simp add: consistent_def sets)
  let ?r = "fst (submit_all H ts r)" and ?r' = "fst (submit_all H ts' r)"
  have A: "pr_expected ?r = pr_expected r" "distinct (dict_keys (pr_results ?r))"
    "\<And>k v. dict_get (pr_results ?r) k = Some v \<longleftrightarrow> merged (dict_get (pr_results r)) (set ts) k v"
    "pr_replay_count ?r + int (length (pr_results ?r)) = pr_replay_count r + int (length (pr_results r)) + int (length ts)"
    using submit_all_spec [OF inj, of ts r] con d by (auto simp: Let_def)
  have B: "all_accepted (snd (submit_all H ts' r))" "pr_expected ?r' = pr_expected r" "distinct (dict_keys (pr_results ?r'))"
    "\<And>k v. dict_get (pr_results ?r') k = Some v \<longleftrightarrow> merged (dict_get (pr_results r)) (set ts) k v"
    "pr_replay_count ?r' + int (length (pr_results ?r')) = pr_replay_count r + int (length (pr_results r)) + int (length ts)"
    using submit_all_spec [OF inj, of ts' r] con' d by (auto simp: Let_def sets)
  have get: "dict_get (pr_results ?r) = dict_get (pr_results ?r')"
    by (rule ext, rule option.expand) (use A(3) B(4) in \<open>metis option.collapse option.distinct(1)\<close>)+
  then have "length (pr_results ?r) = length (pr_results ?r')" using A(2) B(3) by (intro same_length_results)
  then show ?thesis using A B get by (simp add: same_contents_def)
qed

section \<open>Acceptance\<close>

lemma sort_Nil_conv: "sort xs = [] \<longleftrightarrow> xs = []"
  by (metis set_empty set_sort)

lemma ready_iff: "k \<in> set (ready_tasks E p) \<longleftrightarrow> k \<in> set p \<and> set (task_deps E k) \<inter> set p = {}"
  by (auto simp: ready_tasks_def)

lemma acyclic_rank:
  "assert_acyclic E pending = Inr () \<Longrightarrow>
    \<exists>rank :: string \<Rightarrow> nat. \<forall>k \<in> set pending. \<forall>d \<in> set (task_deps E k). d \<in> set pending \<longrightarrow> rank d < rank k"
proof (induction E pending rule: assert_acyclic.induct)
  case (1 E pending)
  show ?case
  proof (cases "pending = []")
    case False
    let ?ready = "ready_tasks E pending"
    have r: "?ready \<noteq> []" "assert_acyclic E (filter (\<lambda>k. k \<notin> set ?ready) pending) = Inr ()"
      using 1(2) False by (auto simp: assert_acyclic.simps [of E pending] Let_def split: if_splits)
    from 1(1) [OF False refl r] obtain rank :: "string \<Rightarrow> nat" where rank:
      "\<forall>k \<in> set (filter (\<lambda>k. k \<notin> set ?ready) pending). \<forall>d \<in> set (task_deps E k).
         d \<in> set (filter (\<lambda>k. k \<notin> set ?ready) pending) \<longrightarrow> rank d < rank k" by blast
    show ?thesis
      by (rule exI [of _ "\<lambda>k. if k \<in> set ?ready then 0 else Suc (rank k)"]) (use rank in \<open>auto simp: ready_iff\<close>)
  qed simp
qed

lemma ready_exists:
  assumes rank: "\<forall>k \<in> set all. \<forall>d \<in> set (task_deps E k). d \<in> set all \<longrightarrow> (rank :: string \<Rightarrow> nat) d < rank k"
    and p: "set p \<subseteq> set all" "p \<noteq> []"
  shows "ready_tasks E p \<noteq> []"
proof -
  obtain k where k: "k \<in> set p" "\<forall>x \<in> set p. rank k \<le> rank x"
    using p(2) ex_min_if_finite [of "rank ` set p"] by (auto simp: not_less)
  then have "k \<in> set (ready_tasks E p)" using rank p(1) by (auto simp: ready_iff) (metis in_mono not_less)
  then show ?thesis by auto
qed

lemma topological_layers_ok:
  assumes "\<forall>k \<in> set all. \<forall>d \<in> set (task_deps E k). d \<in> set all \<longrightarrow> (rank :: string \<Rightarrow> nat) d < rank k"
    and "set p \<subseteq> set all"
  shows "\<exists>ordered'. topological_layers E p ordered = Inr (ordered @ ordered') \<and> mset ordered' = mset p"
  using assms
proof (induction E p ordered rule: topological_layers.induct)
  case (1 E p ordered)
  show ?case
  proof (cases "p = []")
    case True
    then show ?thesis by (simp add: topological_layers.simps)
  next
    case False
    let ?ready = "ready_tasks E p" and ?rest = "filter (\<lambda>k. k \<notin> set (ready_tasks E p)) p"
    have r: "?ready \<noteq> []" by (rule ready_exists [OF 1(2,3) False])
    have "set ?rest \<subseteq> set all" using 1(3) by auto
    from 1(1) [OF False refl r 1(2) this] obtain o' where
      o': "topological_layers E ?rest (ordered @ sort ?ready) = Inr ((ordered @ sort ?ready) @ o')" "mset o' = mset ?rest" by blast
    have "filter (\<lambda>k. k \<in> set ?ready) p = ?ready" by (auto simp: ready_iff ready_tasks_def intro: filter_cong)
    moreover have "mset xs = mset (filter (\<lambda>k. k \<in> R) xs) + mset (filter (\<lambda>k. k \<notin> R) xs)" for xs :: "string list" and R
      by (induction xs) auto
    ultimately have "mset p = mset ?ready + mset ?rest" by metis
    then show ?thesis using o' r False
      by (intro exI [of _ "sort ?ready @ o'"]) (simp add: topological_layers.simps [of E p] Let_def)
  qed
qed

lemma ordered_pairs_cover: "distinct xs \<Longrightarrow> a \<in> set xs \<Longrightarrow> b \<in> set xs \<Longrightarrow> a \<noteq> b \<Longrightarrow>
    (a, b) \<in> set (ordered_pairs xs) \<or> (b, a) \<in> set (ordered_pairs xs)"
  by (induction xs) auto

lemma ordered_pairs_mem: "distinct xs \<Longrightarrow> (a, b) \<in> set (ordered_pairs xs) \<Longrightarrow> a \<in> set xs \<and> b \<in> set xs \<and> a \<noteq> b"
  by (induction xs) auto

definition clean_pair :: "PrismReducer \<Rightarrow> string \<Rightarrow> string \<Rightarrow> bool" where
  "clean_pair r l k \<longleftrightarrow> directly_dependent r l k \<or> set (tr_write_set (result_at r l)) \<inter> set (tr_write_set (result_at r k)) = {}"

lemma clean_pair_sym: "clean_pair r l k \<longleftrightarrow> clean_pair r k l"
  by (auto simp: clean_pair_def directly_dependent_def)

lemma write_overlap_empty:
  "write_overlap r l k = [] \<longleftrightarrow> set (tr_write_set (result_at r l)) \<inter> set (tr_write_set (result_at r k)) = {}"
proof -
  have "write_overlap r l k = [] \<longleftrightarrow> set (write_overlap r l k) = {}" by simp
  then show ?thesis unfolding write_overlap_def set_sorted_set by auto
qed

lemma no_conflicts_iff:
  assumes "distinct ids"
  shows "reducer_conflicts r ids = [] \<longleftrightarrow> (\<forall>l \<in> set ids. \<forall>k \<in> set ids. l \<noteq> k \<longrightarrow> clean_pair r l k)"
proof -
  have "reducer_conflicts r ids = [] \<longleftrightarrow> (\<forall>(l, k) \<in> set (ordered_pairs (sort ids)). clean_pair r l k)"
    unfolding reducer_conflicts_def concat_eq_Nil_conv set_map
    by (fastforce simp: clean_pair_def write_overlap_empty split: if_splits)
  also have "\<dots> \<longleftrightarrow> (\<forall>l \<in> set ids. \<forall>k \<in> set ids. l \<noteq> k \<longrightarrow> clean_pair r l k)"
  proof -
    let ?P = "set (ordered_pairs (sort ids))"
    have "l \<in> set ids \<Longrightarrow> k \<in> set ids \<Longrightarrow> l \<noteq> k \<Longrightarrow> (l, k) \<in> ?P \<or> (k, l) \<in> ?P" for l k
      using ordered_pairs_cover [of "sort ids" l k] assms by simp
    moreover have "(l, k) \<in> ?P \<Longrightarrow> l \<in> set ids \<and> k \<in> set ids \<and> l \<noteq> k" for l k
      using ordered_pairs_mem [of "sort ids" l k] assms by simp
    ultimately show ?thesis using clean_pair_sym by blast
  qed
  finally show ?thesis .
qed

lemma reduce_slot_returns:
  fixes r slot
  defines "ids \<equiv> slot_tasks r slot"
  defines "present \<equiv> filter (\<lambda>k. in_dict k (pr_results r)) ids"
  assumes "reducer_reachable H r" and "ids \<noteq> []"
  obtains rec h ordered where "reduce_slot H r slot = Inr (rec, h)" and "sl_zero_loss rec"
    and "set ordered = set present" and "distinct ordered"
    and "sl_verdict rec = fst (slot_verdict (sort (filter (\<lambda>k. k \<notin> set present) ids)) (reducer_conflicts r ordered)
      (filter (\<lambda>k. \<exists>d \<in> set (task_deps (pr_expected r) k). \<not> accepted r d) ordered)
      (sort (filter (\<lambda>k. \<not> accepted r k) present))
      (sort (filter (\<lambda>k. accepted r k \<and> tr_impact_test_hash (result_at r k) = None) present)))"
proof -
  let ?E = "pr_expected r"
  have E: "distinct (dict_keys ?E)" "assert_acyclic ?E (dict_keys ?E) = Inr ()"
    using reachable_reducer_inv [OF assms(3)] unfolding reducer_inv_def expected_ok_def by blast+
  obtain rank :: "string \<Rightarrow> nat" where rank:
    "\<forall>k \<in> set (dict_keys ?E). \<forall>d \<in> set (task_deps ?E k). d \<in> set (dict_keys ?E) \<longrightarrow> rank d < rank k"
    using acyclic_rank [OF E(2)] by blast
  have ids: "distinct ids" "set present \<subseteq> set (dict_keys ?E)"
    using E(1) by (auto simp: present_def ids_def slot_tasks_def intro: distinct_map_filter)
  from topological_layers_ok [OF rank ids(2), of "[]"] obtain ordered where
    top: "topological_layers ?E present [] = Inr ordered" and perm: "mset ordered = mset present" by auto
  have ord: "set ordered = set present" "distinct ordered"
    using perm ids(1) mset_eq_setD mset_eq_imp_distinct_iff
    by (metis, metis distinct_filter present_def)
  have start: "(if present \<noteq> [] then topological_layers ?E present [] else Inr []) = Inr ordered"
    using top perm by (auto simp: topological_layers.simps)
  have "filter (\<lambda>k. k \<notin> set present) ids = filter (\<lambda>k. \<not> in_dict k (pr_results r)) ids"
    unfolding present_def by (rule filter_cong) auto
  then have zero: "length present + length (sort (filter (\<lambda>k. k \<notin> set present) ids)) = length ids"
    using sum_length_filter_compl [of "\<lambda>k. in_dict k (pr_results r)" ids] by (simp add: present_def)
  have "\<exists>rec h. reduce_slot H r slot = Inr (rec, h) \<and> sl_zero_loss rec \<and> sl_verdict rec = fst (slot_verdict
      (sort (filter (\<lambda>k. k \<notin> set present) ids)) (reducer_conflicts r ordered)
      (filter (\<lambda>k. \<exists>d \<in> set (task_deps (pr_expected r) k). \<not> accepted r d) ordered)
      (sort (filter (\<lambda>k. \<not> accepted r k) present))
      (sort (filter (\<lambda>k. accepted r k \<and> tr_impact_test_hash (result_at r k) = None) present)))"
    unfolding reduce_slot_def Let_def ids_def [symmetric] present_def [symmetric] start
    using assms(4) zero by (simp add: split_beta)
  then show thesis using that ord by blast
qed

section \<open>Example reducer\<close>

definition demo_hashes :: reducer_hashes where
  "demo_hashes = \<lparr>rh_result = (\<lambda>t. tr_task_id t @ tr_verdict t), rh_snapshot = sd_schema, rh_bundle = cb_slot_id,
     rh_slot = sl_verdict, rh_prism = px_verdict\<rparr>"

definition demo_tasks :: "ExpectedTask list" where
  "demo_tasks = [\<lparr>et_task_id = ''b'', et_slot_id = ''s'', et_owner_agent = ''w'', et_fence = 1,
       et_source_generation = ''g'', et_depends_on = [''a'']\<rparr>,
     \<lparr>et_task_id = ''a'', et_slot_id = ''s'', et_owner_agent = ''w'', et_fence = 1,
       et_source_generation = ''g'', et_depends_on = []\<rparr>]"

definition demo_result :: "string \<Rightarrow> TaskResult" where
  "demo_result k = \<lparr>tr_task_id = k, tr_slot_id = ''s'', tr_owner_agent = ''w'', tr_attempt = 1, tr_fence = 1,
     tr_source_generation = ''g'', tr_verdict = ''accepted'', tr_receipt_hash = replicate 64 (CHR ''a''),
     tr_artifact_hashes = [], tr_write_set = [''src/x.py''], tr_impact_test_hash = Some (replicate 64 (CHR ''b'')),
     tr_schema = RESULT_SCHEMA\<rparr>"

definition demo_reducer :: PrismReducer where
  "demo_reducer = projr (PrismReducer_init demo_tasks)"

definition demo_filled :: PrismReducer where
  "demo_filled = fst (PrismReducer_submit demo_hashes (demo_result ''b'')
     (fst (PrismReducer_submit demo_hashes (demo_result ''a'') demo_reducer)))"

lemma demo_reducer_reachable: "reducer_reachable demo_hashes demo_reducer"
proof (rule reach_init)
  show "map_checked ExpectedTask_post_init demo_tasks = Inr demo_tasks" by code_simp
  have "isl (PrismReducer_init demo_tasks) = False" by code_simp
  then show "PrismReducer_init demo_tasks = Inr demo_reducer" unfolding demo_reducer_def by simp
qed

lemma demo_filled_reachable: "reducer_reachable demo_hashes demo_filled"
proof -
  have c: "TaskResult_post_init (demo_result ''a'') = Inr (demo_result ''a'')"
    "TaskResult_post_init (demo_result ''b'') = Inr (demo_result ''b'')" by code_simp+
  show ?thesis unfolding demo_filled_def
    by (rule reach_submit [OF reach_submit [OF demo_reducer_reachable c(1) prod.collapse [symmetric]] c(2)
          prod.collapse [symmetric]])
qed

section \<open>Properties\<close>

text \<open>C20: the reduction is independent of the order of submission. If a set of results is accepted in one
  order, then every permutation of the submissions is accepted too and leads to the same checkpoint and
  the same slot and prism receipts, provided the result hash does not collide on the results involved.\<close>

theorem reducer_order_independent:
  assumes "reducer_reachable H r" and "mset ts = mset ts'"
    and "inj_on (rh_result H) (set ts \<union> ran (dict_get (pr_results r)))"
    and "all_accepted (snd (submit_all H ts r))"
  shows "all_accepted (snd (submit_all H ts' r))
    \<and> PrismReducer_snapshot H (fst (submit_all H ts' r)) = PrismReducer_snapshot H (fst (submit_all H ts r))
    \<and> reduce_slot H (fst (submit_all H ts' r)) slot = reduce_slot H (fst (submit_all H ts r)) slot
    \<and> reduce_prism H (fst (submit_all H ts' r)) slots = reduce_prism H (fst (submit_all H ts r)) slots"
proof -
  have "distinct (dict_keys (pr_results r))"
    using reachable_reducer_inv [OF assms(1)] by (simp add: reducer_inv_def)
  from permuted_submissions [OF assms(3) this assms(2,4)]
  have "all_accepted (snd (submit_all H ts' r))" and s: "same_contents (fst (submit_all H ts r)) (fst (submit_all H ts' r))"
    by simp_all
  then show ?thesis by (simp add: same_snapshot [OF s] same_reduce_slot [OF s] same_reduce_prism [OF s])
qed

theorem reducer_order_independent_witness:
  "PrismReducer_snapshot demo_hashes (fst (submit_all demo_hashes [demo_result ''b'', demo_result ''a''] demo_reducer))
     = PrismReducer_snapshot demo_hashes (fst (submit_all demo_hashes [demo_result ''a'', demo_result ''b''] demo_reducer))
   \<and> all_accepted (snd (submit_all demo_hashes [demo_result ''b'', demo_result ''a''] demo_reducer))"
proof -
  have "mset [demo_result ''a'', demo_result ''b''] = mset [demo_result ''b'', demo_result ''a'']" by simp
  moreover have "dict_get (pr_results demo_reducer) = Map.empty"
  proof -
    have "pr_results demo_reducer = []" by code_simp
    then show ?thesis by simp
  qed
  then have "inj_on (rh_result demo_hashes) (set [demo_result ''a'', demo_result ''b''] \<union> ran (dict_get (pr_results demo_reducer)))"
    by (simp add: inj_on_def demo_hashes_def demo_result_def)
  moreover have "all_accepted (snd (submit_all demo_hashes [demo_result ''a'', demo_result ''b''] demo_reducer))" by code_simp
  ultimately show ?thesis using reducer_order_independent [OF demo_reducer_reachable] by blast
qed

text \<open>C21: a checkpoint restores the reducer. Restoring the snapshot of any reachable reducer into a reducer
  with the same expected tasks succeeds, whatever that reducer held, and gives back the same results,
  the same replay count, hence the same next snapshot and the same receipts.\<close>

theorem reducer_snapshot_roundtrip:
  assumes "reducer_reachable H r" and "pr_expected r0 = pr_expected r"
  shows "\<exists>r'. PrismReducer_restore H (PrismReducer_snapshot H r) r0 = (r', Inr ())
    \<and> dict_get (pr_results r') = dict_get (pr_results r) \<and> pr_replay_count r' = pr_replay_count r
    \<and> PrismReducer_snapshot H r' = PrismReducer_snapshot H r
    \<and> reduce_slot H r' slot = reduce_slot H r slot \<and> reduce_prism H r' slots = reduce_prism H r slots"
proof -
  obtain r' where "PrismReducer_restore H (PrismReducer_snapshot H r) r0 = (r', Inr ())" "same_contents r' r"
    using reachable_reducer_inv [OF assms(1)] assms(2) by (rule restore_snapshot)
  then show ?thesis using same_snapshot same_reduce_slot same_reduce_prism
    by (intro exI [of _ r']) (simp add: same_contents_def)
qed

theorem reducer_snapshot_roundtrip_witness:
  "\<exists>r'. PrismReducer_restore demo_hashes (PrismReducer_snapshot demo_hashes demo_filled) demo_reducer = (r', Inr ())
    \<and> dict_get (pr_results r') ''b'' = Some (demo_result ''b'')"
proof -
  have e: "pr_expected demo_reducer = pr_expected demo_filled" "dict_get (pr_results demo_filled) ''b'' = Some (demo_result ''b'')"
    by code_simp+
  from reducer_snapshot_roundtrip [OF demo_filled_reachable e(1)] e(2) show ?thesis by metis
qed

text \<open>Exact acceptance. For every slot with expected tasks the reduction returns, loses no task, and
  accepts the slot exactly when every expected task has an accepted result with an impact test, all
  their dependencies, of this or another slot, are accepted, and no two tasks of the slot that do not
  directly depend on each other write the same path.\<close>

lemma slot_accepted_iff:
  assumes "reducer_reachable H r" and "slot_tasks r slot \<noteq> []"
  shows "\<exists>rec h. reduce_slot H r slot = Inr (rec, h) \<and> sl_zero_loss rec
    \<and> (sl_verdict rec = ''accepted'' \<longleftrightarrow>
        (\<forall>k \<in> set (slot_tasks r slot). accepted r k \<and> tr_impact_test_hash (result_at r k) \<noteq> None
           \<and> (\<forall>d \<in> set (task_deps (pr_expected r) k). accepted r d))
        \<and> (\<forall>l \<in> set (slot_tasks r slot). \<forall>k \<in> set (slot_tasks r slot). l \<noteq> k \<longrightarrow> clean_pair r l k))"
proof -
  let ?ids = "slot_tasks r slot"
  let ?present = "filter (\<lambda>k. in_dict k (pr_results r)) ?ids"
  obtain rec h ordered where out: "reduce_slot H r slot = Inr (rec, h)" "sl_zero_loss rec"
    and ord: "set ordered = set ?present" "distinct ordered"
    and v: "sl_verdict rec = fst (slot_verdict (sort (filter (\<lambda>k. k \<notin> set ?present) ?ids)) (reducer_conflicts r ordered)
      (filter (\<lambda>k. \<exists>d \<in> set (task_deps (pr_expected r) k). \<not> accepted r d) ordered)
      (sort (filter (\<lambda>k. \<not> accepted r k) ?present))
      (sort (filter (\<lambda>k. accepted r k \<and> tr_impact_test_hash (result_at r k) = None) ?present)))"
    using reduce_slot_returns [OF assms] by blast
  have pres: "accepted r k \<Longrightarrow> in_dict k (pr_results r)" for k
    by (auto simp: accepted_def in_dict_def split: option.splits)
  have "sl_verdict rec = ''accepted'' \<longleftrightarrow> (\<forall>k \<in> set ?ids. in_dict k (pr_results r))
      \<and> reducer_conflicts r ordered = []
      \<and> (\<forall>k \<in> set ?present. \<forall>d \<in> set (task_deps (pr_expected r) k). accepted r d)
      \<and> (\<forall>k \<in> set ?present. accepted r k)
      \<and> (\<forall>k \<in> set ?present. accepted r k \<longrightarrow> tr_impact_test_hash (result_at r k) \<noteq> None)"
    unfolding v ord(1) [symmetric] slot_verdict_def
    by (auto simp: filter_empty_conv sort_Nil_conv ord(1))
  note verdict = this [unfolded no_conflicts_iff [OF ord(2), of r, unfolded ord(1)]]
  have "sl_verdict rec = ''accepted'' \<longleftrightarrow>
        (\<forall>k \<in> set ?ids. accepted r k \<and> tr_impact_test_hash (result_at r k) \<noteq> None
           \<and> (\<forall>d \<in> set (task_deps (pr_expected r) k). accepted r d))
        \<and> (\<forall>l \<in> set ?ids. \<forall>k \<in> set ?ids. l \<noteq> k \<longrightarrow> clean_pair r l k)"
  proof (cases "\<forall>k \<in> set ?ids. in_dict k (pr_results r)")
    case True
    then have "set ?present = set ?ids" by auto
    then show ?thesis unfolding verdict using True by blast
  next
    case False
    then show ?thesis unfolding verdict using pres by blast
  qed
  with out show ?thesis by blast
qed

lemma slot_accepted_iff_example:
  "\<exists>rec h. reduce_slot demo_hashes demo_filled ''s'' = Inr (rec, h) \<and> sl_zero_loss rec \<and> sl_verdict rec = ''accepted''"
proof -
  have "slot_tasks demo_filled ''s'' \<noteq> []" by code_simp
  from slot_accepted_iff [OF demo_filled_reachable this] obtain rec h where
    "reduce_slot demo_hashes demo_filled ''s'' = Inr (rec, h)" "sl_zero_loss rec" by blast
  moreover have "map_option (sl_verdict \<circ> fst) (case reduce_slot demo_hashes demo_filled ''s'' of Inl _ \<Rightarrow> None | Inr x \<Rightarrow> Some x)
      = Some ''accepted''" by code_simp
  ultimately show ?thesis by simp
qed

text \<open>A rejected row of a checkpoint is found only after the old results were dropped.\<close>

lemma failed_restore_drops_results:
  "PrismReducer_restore demo_hashes ((fst (PrismReducer_snapshot demo_hashes demo_filled))\<lparr>sd_results := Some [None]\<rparr>,
      SNAPSHOT_SCHEMA) demo_filled
    = (demo_filled\<lparr>pr_results := [], pr_replay_count := 0\<rparr>, Inl (PrismReducerError ''reducer snapshot result is invalid''))"
  by code_simp

end
