(* ===== verification/Prism_Contracts.thy ===== *)
theory Prism_Contracts
  imports Loop_Prelude "HOL-Library.Word"
begin

text \<open>
  Canonical contracts of hierarchical execution (\<open>prism_contracts.py\<close>): executions, slots and task
  ownerships as validated, content-addressed values, admission of a task to a slot, validation of a whole
  hierarchy, and the checksummed frame in which values are persisted.

  Content hashes are the functions of a \<open>contract_hashes\<close> record; a key that the code drops before
  hashing is blanked in the hashed value. For frames, the canonical JSON bytes, their parser and the
  SHA-256 digest are the functions of a \<open>frame_codec\<close> record; a byte is an 8-bit word.
\<close>

section \<open>Validated fields\<close>

datatype contract_error = PrismContractError string

definition PRISM_SCHEMA :: string where "PRISM_SCHEMA = ''simplicio.prism-execution/v1''"
definition SLOT_SCHEMA :: string where "SLOT_SCHEMA = ''simplicio.slot-supervisor/v1''"
definition OWNERSHIP_SCHEMA :: string where "OWNERSHIP_SCHEMA = ''simplicio.task-ownership/v1''"
definition MIN_TASKS_PER_SLOT :: int where "MIN_TASKS_PER_SLOT = 10"
definition MAX_PRISM_DEPTH :: int where "MAX_PRISM_DEPTH = 4"

definition PRISM_STATES :: "string list" where
  "PRISM_STATES = [''declared'', ''running'', ''reducing'', ''completed'', ''partial'', ''blocked'', ''cancelled'']"

definition SLOT_STATES :: "string list" where
  "SLOT_STATES = [''declared'', ''ready'', ''running'', ''reducing'', ''completed'', ''partial'', ''blocked'', ''cancelled'']"

definition TASK_STATES :: "string list" where
  "TASK_STATES = [''queued'', ''ready'', ''running'', ''validating'', ''accepted'', ''failed'', ''blocked'', ''cancelled'']"

definition contract_text :: "string \<Rightarrow> string \<Rightarrow> contract_error + string" where
  "contract_text value name = (let result = strip value
     in if result = [] then Inl (PrismContractError (name @ '' is required'')) else Inr result)"

definition text_tuple :: "string list \<Rightarrow> contract_error + string list" where
  "text_tuple values = ebind (map_checked (\<lambda>v. contract_text v ''sequence value'') values) (\<lambda>vs. Inr (sorted_set vs))"

definition contract_sha :: "string \<Rightarrow> string \<Rightarrow> contract_error + string" where
  "contract_sha value name = ebind (contract_text value name) (\<lambda>v.
     let result = lower v
     in if length result \<noteq> 64 \<or> \<not> set result \<subseteq> set hex_digits
        then Inl (PrismContractError (name @ '' must be a lowercase SHA-256'')) else Inr result)"

definition opt_text :: "string option \<Rightarrow> string option" where
  \<comment> \<open>\<open>str(value or "").strip() or None\<close>\<close>
  "opt_text v = (case v of None \<Rightarrow> None | Some s \<Rightarrow> if strip s = [] then None else Some (strip s))"

definition dict_of :: "('k \<times> 'v) list \<Rightarrow> ('k, 'v) dict" where
  \<comment> \<open>\<open>dict(pairs)\<close>\<close>
  "dict_of pairs = fold (\<lambda>(k, v) d. dict_set d k v) pairs []"

definition mapping_items :: "(string, int) dict \<Rightarrow> string \<Rightarrow> contract_error + (string \<times> int) list" where
  "mapping_items value name =
    ebind (map_checked (\<lambda>(key, item).
        if item < 0 then Inl (PrismContractError (name @ ''.'' @ key @ '' must be a non-negative integer''))
        else ebind (contract_text key (name @ '' key'')) (\<lambda>k. Inr (k, item))) value) (\<lambda>items. Inr (sort items))"

section \<open>Executions, slots and ownerships\<close>

record PrismExecution =
  pe_goal_id :: string
  pe_owner_agent :: string
  pe_policy_hash :: string
  pe_config_hash :: string
  pe_source_generation :: string
  pe_reducer_ref :: string
  pe_parent_prism_id :: "string option"
  pe_budget :: "(string \<times> int) list"
  pe_child_slot_ids :: "string list"
  pe_state :: string
  pe_max_depth :: int
  pe_prism_id :: string
  pe_schema :: string

record SlotSupervisor =
  ss_parent_prism_id :: string
  ss_supervisor_agent :: string
  ss_capacity :: int
  ss_task_ids :: "string list"
  ss_child_slot_ids :: "string list"
  ss_parent_slot_id :: "string option"
  ss_resource_budget :: "(string \<times> int) list"
  ss_state :: string
  ss_slot_id :: string
  ss_schema :: string

record TaskOwnership =
  ow_task_id :: string
  ow_slot_id :: string
  ow_attempt :: int
  ow_owner_agent :: string
  ow_lease_id :: string
  ow_fence :: int
  ow_source_generation :: string
  ow_capabilities :: "string list"
  ow_allowed_transitions :: "string list"
  ow_causal_parent :: "string option"
  ow_state :: string
  ow_ownership_id :: string
  ow_schema :: string

record contract_hashes =
  ch_prism :: "PrismExecution \<Rightarrow> string"
  ch_slot :: "SlotSupervisor \<Rightarrow> string"
  ch_ownership :: "TaskOwnership \<Rightarrow> string"
  ch_slot_digest :: "SlotSupervisor \<Rightarrow> string"

definition prism_payload :: "PrismExecution \<Rightarrow> PrismExecution" where
  "prism_payload p = p\<lparr>pe_prism_id := [], pe_state := [], pe_child_slot_ids := []\<rparr>"

definition slot_payload :: "SlotSupervisor \<Rightarrow> SlotSupervisor" where
  "slot_payload s = s\<lparr>ss_slot_id := [], ss_task_ids := [], ss_child_slot_ids := [], ss_state := []\<rparr>"

definition ownership_payload :: "TaskOwnership \<Rightarrow> TaskOwnership" where
  \<comment> \<open>the shared helper drops every key named \<open>slot_id\<close>, also that of an ownership\<close>
  "ownership_payload w = w\<lparr>ow_slot_id := [], ow_ownership_id := [], ow_state := []\<rparr>"

definition PrismExecution_post_init :: "contract_hashes \<Rightarrow> PrismExecution \<Rightarrow> contract_error + PrismExecution" where
  "PrismExecution_post_init H p =
    ebind (contract_text (pe_goal_id p) ''goal_id'') (\<lambda>goal.
    ebind (contract_text (pe_owner_agent p) ''owner_agent'') (\<lambda>owner.
    ebind (contract_text (pe_source_generation p) ''source_generation'') (\<lambda>generation.
    ebind (contract_text (pe_reducer_ref p) ''reducer_ref'') (\<lambda>reducer.
    ebind (contract_sha (pe_policy_hash p) ''policy_hash'') (\<lambda>policy.
    ebind (contract_sha (pe_config_hash p) ''config_hash'') (\<lambda>config.
    ebind (text_tuple (pe_child_slot_ids p)) (\<lambda>children.
    ebind (mapping_items (dict_of (pe_budget p)) ''budget'') (\<lambda>budget.
      let p1 = p\<lparr>pe_goal_id := goal, pe_owner_agent := owner, pe_source_generation := generation, pe_reducer_ref := reducer,
             pe_policy_hash := policy, pe_config_hash := config, pe_parent_prism_id := opt_text (pe_parent_prism_id p),
             pe_child_slot_ids := children, pe_budget := budget\<rparr>;
          identity = ''prism:'' @ ch_prism H (prism_payload p1)
      in if pe_schema p1 \<noteq> PRISM_SCHEMA then Inl (PrismContractError ''unknown PrismExecution schema'')
         else if pe_state p1 \<notin> set PRISM_STATES then Inl (PrismContractError ''unsupported prism state'')
         else if \<not> (1 \<le> pe_max_depth p1 \<and> pe_max_depth p1 \<le> MAX_PRISM_DEPTH)
         then Inl (PrismContractError ''max_depth must be in [1, 4]'')
         else if pe_prism_id p1 \<noteq> [] \<and> pe_prism_id p1 \<noteq> identity
         then Inl (PrismContractError ''prism_id does not match canonical content'')
         else Inr (p1\<lparr>pe_prism_id := identity\<rparr>)))))))))"

definition SlotSupervisor_post_init :: "contract_hashes \<Rightarrow> SlotSupervisor \<Rightarrow> contract_error + SlotSupervisor" where
  "SlotSupervisor_post_init H s =
    ebind (contract_text (ss_parent_prism_id s) ''parent_prism_id'') (\<lambda>parent.
    ebind (contract_text (ss_supervisor_agent s) ''supervisor_agent'') (\<lambda>agent.
    ebind (text_tuple (ss_task_ids s)) (\<lambda>tasks.
    ebind (text_tuple (ss_child_slot_ids s)) (\<lambda>children.
    ebind (mapping_items (dict_of (ss_resource_budget s)) ''resource_budget'') (\<lambda>budget.
      let s1 = s\<lparr>ss_parent_prism_id := parent, ss_supervisor_agent := agent, ss_parent_slot_id := opt_text (ss_parent_slot_id s),
             ss_task_ids := tasks, ss_child_slot_ids := children, ss_resource_budget := budget\<rparr>;
          identity = ''slot:'' @ ch_slot H (slot_payload s1)
      in if ss_schema s1 \<noteq> SLOT_SCHEMA then Inl (PrismContractError ''unknown SlotSupervisor schema'')
         else if ss_state s1 \<notin> set SLOT_STATES then Inl (PrismContractError ''unsupported slot state'')
         else if ss_capacity s1 < MIN_TASKS_PER_SLOT then Inl (PrismContractError ''slot capacity must be at least 10'')
         else if ss_capacity s1 < int (length (ss_task_ids s1)) then Inl (PrismContractError ''slot exceeds declared task capacity'')
         else if ss_slot_id s1 \<in> set (ss_child_slot_ids s1) then Inl (PrismContractError ''slot cannot contain itself'')
         else if ss_slot_id s1 \<noteq> [] \<and> ss_slot_id s1 \<noteq> identity
         then Inl (PrismContractError ''slot_id does not match canonical content'')
         else Inr (s1\<lparr>ss_slot_id := identity\<rparr>))))))"

definition TaskOwnership_post_init :: "contract_hashes \<Rightarrow> TaskOwnership \<Rightarrow> contract_error + TaskOwnership" where
  "TaskOwnership_post_init H w =
    ebind (contract_text (ow_task_id w) ''task_id'') (\<lambda>task.
    ebind (contract_text (ow_slot_id w) ''slot_id'') (\<lambda>slot.
    ebind (contract_text (ow_owner_agent w) ''owner_agent'') (\<lambda>owner.
    ebind (contract_text (ow_lease_id w) ''lease_id'') (\<lambda>lease.
    ebind (contract_text (ow_source_generation w) ''source_generation'') (\<lambda>generation.
    ebind (text_tuple (ow_capabilities w)) (\<lambda>capabilities.
    ebind (text_tuple (ow_allowed_transitions w)) (\<lambda>transitions.
      let w1 = w\<lparr>ow_task_id := task, ow_slot_id := slot, ow_owner_agent := owner, ow_lease_id := lease,
             ow_source_generation := generation, ow_capabilities := capabilities, ow_allowed_transitions := transitions,
             ow_causal_parent := opt_text (ow_causal_parent w)\<rparr>;
          identity = ''ownership:'' @ ch_ownership H (ownership_payload w1)
      in if ow_schema w1 \<noteq> OWNERSHIP_SCHEMA then Inl (PrismContractError ''unknown TaskOwnership schema'')
         else if ow_attempt w1 < 1 then Inl (PrismContractError ''attempt must be a positive integer'')
         else if ow_fence w1 < 1 then Inl (PrismContractError ''fence must be a positive integer'')
         else if ow_capabilities w1 = [] then Inl (PrismContractError ''at least one capability is required'')
         else if ow_allowed_transitions w1 = [] then Inl (PrismContractError ''allowed_transitions cannot be empty'')
         else if \<not> set (ow_allowed_transitions w1) \<subseteq> set TASK_STATES then Inl (PrismContractError ''unknown task transition'')
         else if ow_state w1 \<notin> set TASK_STATES then Inl (PrismContractError ''unsupported task state'')
         else if ow_ownership_id w1 \<noteq> [] \<and> ow_ownership_id w1 \<noteq> identity
         then Inl (PrismContractError ''ownership_id does not match canonical content'')
         else Inr (w1\<lparr>ow_ownership_id := identity\<rparr>))))))))"

definition TaskOwnership_transition ::
    "contract_hashes \<Rightarrow> TaskOwnership \<Rightarrow> string \<Rightarrow> int \<Rightarrow> string \<Rightarrow> contract_error + TaskOwnership" where
  "TaskOwnership_transition H w state fence owner_agent =
    (if fence \<noteq> ow_fence w then Inl (PrismContractError ''stale or non-owner transition'')
     else ebind (contract_text owner_agent ''owner_agent'') (\<lambda>owner.
       if owner \<noteq> ow_owner_agent w then Inl (PrismContractError ''stale or non-owner transition'')
       else if state \<notin> set (ow_allowed_transitions w) then Inl (PrismContractError ''transition is not authorized'')
       else TaskOwnership_post_init H (w\<lparr>ow_state := state, ow_ownership_id := []\<rparr>)))"

record AdmissionReceipt =
  ar_slot_id :: string
  ar_task_id :: string
  ar_admitted :: bool
  ar_reason_code :: string
  ar_position :: "nat option"
  ar_slot_digest :: string

definition admit_task ::
    "contract_hashes \<Rightarrow> SlotSupervisor \<Rightarrow> TaskOwnership \<Rightarrow> contract_error + SlotSupervisor \<times> AdmissionReceipt" where
  "admit_task H slot w =
    (if ow_slot_id w \<noteq> ss_slot_id slot then Inl (PrismContractError ''ownership crosses slot'')
     else if ow_task_id w \<in> set (ss_task_ids slot) then Inl (PrismContractError ''duplicate task admission'')
     else if ss_capacity slot \<le> int (length (ss_task_ids slot))
     then Inr (slot, \<lparr>ar_slot_id = ss_slot_id slot, ar_task_id = ow_task_id w, ar_admitted = False,
       ar_reason_code = ''SLOT_LOGICAL_CAPACITY'', ar_position = Some (length (ss_task_ids slot) + 1),
       ar_slot_digest = ch_slot_digest H slot\<rparr>)
     else ebind (SlotSupervisor_post_init H (slot\<lparr>ss_task_ids := ss_task_ids slot @ [ow_task_id w], ss_slot_id := []\<rparr>)) (\<lambda>updated.
       Inr (updated, \<lparr>ar_slot_id = ss_slot_id slot, ar_task_id = ow_task_id w, ar_admitted = True,
         ar_reason_code = ''ADMITTED'', ar_position = Some (length (ss_task_ids updated)),
         ar_slot_digest = ch_slot_digest H updated\<rparr>)))"

section \<open>Hierarchies\<close>

function check_parent_chain ::
    "(string, string option) dict \<Rightarrow> int \<Rightarrow> string \<Rightarrow> string list \<Rightarrow> int \<Rightarrow> string option \<Rightarrow> contract_error + int" where
  "check_parent_chain parents max_depth kind seen depth cursor =
    (case cursor of
       None \<Rightarrow> Inr depth
     | Some c \<Rightarrow>
         if c = [] then Inr depth
         else if c \<in> set seen then Inl (PrismContractError (kind @ '' hierarchy contains a cycle''))
         else if max_depth < depth + 1 then Inl (PrismContractError (kind @ '' hierarchy exceeds max_depth''))
         else check_parent_chain parents max_depth kind (c # seen) (depth + 1) (Option.bind (dict_get parents c) id))"
  by pat_completeness auto
termination by (relation "measure (\<lambda>(parents, max_depth, kind, seen, depth, cursor). nat (max_depth - depth))") auto

declare check_parent_chain.simps [simp del]

abbreviation known :: "(string, 'v) dict \<Rightarrow> string option \<Rightarrow> bool" where
  \<comment> \<open>an optional reference is absent, empty or a key\<close>
  "known d ref \<equiv> (case ref of None \<Rightarrow> True | Some k \<Rightarrow> k = [] \<or> in_dict k d)"

definition check_prism :: "(string, PrismExecution) dict \<Rightarrow> (string, SlotSupervisor) dict \<Rightarrow> PrismExecution \<Rightarrow> contract_error + unit" where
  "check_prism prism_by_id slot_by_id p =
    (if \<not> known prism_by_id (pe_parent_prism_id p) then Inl (PrismContractError ''unknown parent prism'')
     else if \<exists>c \<in> set (pe_child_slot_ids p). \<not> in_dict c slot_by_id
     then Inl (PrismContractError ''prism references unknown child slot'') else Inr ())"

definition check_slot :: "(string, PrismExecution) dict \<Rightarrow> (string, SlotSupervisor) dict \<Rightarrow> SlotSupervisor \<Rightarrow> contract_error + unit" where
  "check_slot prism_by_id slot_by_id s =
    (if \<not> in_dict (ss_parent_prism_id s) prism_by_id then Inl (PrismContractError ''slot references unknown prism'')
     else if \<not> known slot_by_id (ss_parent_slot_id s) then Inl (PrismContractError ''slot references unknown parent slot'')
     else if \<exists>c \<in> set (ss_child_slot_ids s). \<not> in_dict c slot_by_id
     then Inl (PrismContractError ''slot references unknown child slot'') else Inr ())"

fun own_tasks :: "(string, SlotSupervisor) dict \<Rightarrow> string list \<Rightarrow> TaskOwnership list \<Rightarrow> contract_error + string list" where
  \<comment> \<open>the loop over the ownerships; the accumulator holds the keys of \<open>owner_by_task\<close>\<close>
  "own_tasks slot_by_id owned [] = Inr owned"
| "own_tasks slot_by_id owned (w # ws) =
    (if ow_task_id w \<in> set owned then Inl (PrismContractError ''task has multiple accountable owners'')
     else case dict_get slot_by_id (ow_slot_id w) of
       None \<Rightarrow> Inl (PrismContractError ''ownership references unknown slot'')
     | Some s \<Rightarrow>
         if ow_task_id w \<notin> set (ss_task_ids s) then Inl (PrismContractError ''ownership task is not admitted by its slot'')
         else own_tasks slot_by_id (owned @ [ow_task_id w]) ws)"

record hierarchy_report =
  hr_prisms :: "string list"
  hr_slots :: "string list"
  hr_tasks :: "string list"
  hr_max_observed_depth :: int

definition validate_hierarchy ::
    "PrismExecution list \<Rightarrow> SlotSupervisor list \<Rightarrow> TaskOwnership list \<Rightarrow> int \<Rightarrow> contract_error + hierarchy_report" where
  "validate_hierarchy prisms slots ownerships max_depth =
    (if \<not> (1 \<le> max_depth \<and> max_depth \<le> MAX_PRISM_DEPTH) then Inl (PrismContractError ''invalid hierarchy max_depth'')
     else
       let prism_by_id = dict_of (map (\<lambda>p. (pe_prism_id p, p)) prisms);
           slot_by_id = dict_of (map (\<lambda>s. (ss_slot_id s, s)) slots)
       in if length prism_by_id \<noteq> length prisms \<or> length slot_by_id \<noteq> length slots
          then Inl (PrismContractError ''duplicate prism or slot identity'')
          else
            ebind (map_checked (check_prism prism_by_id slot_by_id) prisms) (\<lambda>_.
            ebind (map_checked (check_slot prism_by_id slot_by_id) slots) (\<lambda>_.
            let prism_parents = dict_of (map (\<lambda>p. (pe_prism_id p, pe_parent_prism_id p)) prisms);
                slot_parents = dict_of (map (\<lambda>s. (ss_slot_id s, ss_parent_slot_id s)) slots)
            in
            ebind (map_checked (\<lambda>p. check_parent_chain prism_parents max_depth ''prism'' [] 0 (Some (pe_prism_id p))) prisms) (\<lambda>prism_depths.
            ebind (map_checked (\<lambda>s. check_parent_chain slot_parents max_depth ''slot'' [] 0 (Some (ss_slot_id s))) slots) (\<lambda>slot_depths.
            ebind (own_tasks slot_by_id [] ownerships) (\<lambda>owned.
              if set (concat (map ss_task_ids slots)) \<noteq> set owned
              then Inl (PrismContractError ''every admitted task requires exactly one owner'')
              else Inr \<lparr>hr_prisms = sort (dict_keys prism_by_id), hr_slots = sort (dict_keys slot_by_id),
                hr_tasks = sort owned, hr_max_observed_depth = fold max (prism_depths @ slot_depths) 0\<rparr>))))))"

section \<open>Frames\<close>

type_synonym bytes = "8 word list"

definition HBP_MAGIC :: bytes where
  \<comment> \<open>the bytes of \<open>SPH1\<close>\<close>
  "HBP_MAGIC = [83, 80, 72, 49]"

definition HBP_MAX_FRAME_BYTES :: nat where
  "HBP_MAX_FRAME_BYTES = 8 * 1024 * 1024"

record 'v frame_codec =
  fc_canonical :: "'v \<Rightarrow> bytes"
  fc_loads :: "bytes \<Rightarrow> 'v option"
  fc_is_object :: "'v \<Rightarrow> bool"
  fc_sha256 :: "bytes \<Rightarrow> bytes"

definition pack_be32 :: "nat \<Rightarrow> bytes" where
  \<comment> \<open>\<open>struct.pack(">I", n)\<close> for a number below \<open>2 ^ 32\<close>\<close>
  "pack_be32 n = map (\<lambda>i. word_of_nat (n div 256 ^ i)) [3, 2, 1, 0]"

definition unpack_be32 :: "bytes \<Rightarrow> nat" where
  "unpack_be32 bs = fold (\<lambda>b acc. 256 * acc + unat b) bs 0"

definition encode_hbp_frame :: "'v frame_codec \<Rightarrow> 'v \<Rightarrow> contract_error + bytes" where
  "encode_hbp_frame C value =
    (let payload = fc_canonical C value
     in if HBP_MAX_FRAME_BYTES < length payload then Inl (PrismContractError ''HBP frame exceeds size limit'')
        else Inr (HBP_MAGIC @ pack_be32 (length payload) @ payload @ fc_sha256 C payload))"

definition decode_hbp_frame :: "'v frame_codec \<Rightarrow> bytes \<Rightarrow> contract_error + 'v" where
  "decode_hbp_frame C frame =
    (if length frame < 40 \<or> take 4 frame \<noteq> HBP_MAGIC
     then Inl (PrismContractError ''invalid HBP magic or truncated frame'')
     else
       let size = unpack_be32 (take 4 (drop 4 frame))
       in if HBP_MAX_FRAME_BYTES < size \<or> length frame \<noteq> 8 + size + 32
          then Inl (PrismContractError ''invalid HBP frame length'')
          else
            let payload = take size (drop 8 frame)
            in if fc_sha256 C payload \<noteq> drop (length frame - 32) frame
               then Inl (PrismContractError ''HBP frame checksum mismatch'')
               else case fc_loads C payload of
                 None \<Rightarrow> Inl (PrismContractError ''invalid HBP payload'')
               | Some value \<Rightarrow>
                   if \<not> fc_is_object C value then Inl (PrismContractError ''HBP payload must be an object'')
                   else if fc_canonical C value \<noteq> payload then Inl (PrismContractError ''HBP payload is not canonical'')
                   else Inr value)"

record legacy_task =
  lt_legacy_schema :: string
  lt_task_id :: string
  lt_authoritative :: bool
  lt_reason_code :: string

definition read_legacy_task :: "(string, string) dict \<Rightarrow> legacy_task" where
  "read_legacy_task value = \<lparr>lt_legacy_schema = dict_get_or value ''schema'' [], lt_task_id = dict_get_or value ''task_id'' [],
     lt_authoritative = False, lt_reason_code = ''LEGACY_NOT_AUTHORITATIVE''\<rparr>"

section \<open>Canonical form\<close>

definition clean :: "string \<Rightarrow> bool" where
  "clean t \<longleftrightarrow> t \<noteq> [] \<and> strip t = t"

definition clean_tuple :: "string list \<Rightarrow> bool" where
  "clean_tuple ts \<longleftrightarrow> sorted ts \<and> distinct ts \<and> (\<forall>t \<in> set ts. clean t)"

definition clean_budget :: "(string \<times> int) list \<Rightarrow> bool" where
  "clean_budget items \<longleftrightarrow> sorted items \<and> (\<forall>(k, v) \<in> set items. clean k \<and> 0 \<le> v)"

lemma contract_text_Inr: "contract_text v n = Inr t \<longleftrightarrow> t = strip v \<and> clean t"
  by (auto simp: contract_text_def clean_def Let_def)

lemma contract_text_clean: "clean t \<Longrightarrow> contract_text t n = Inr t"
  by (simp add: contract_text_def clean_def Let_def)

lemma text_tuple_clean: "text_tuple vs = Inr ts \<Longrightarrow> clean_tuple ts"
proof -
  assume "text_tuple vs = Inr ts"
  then obtain xs where "map_checked (\<lambda>v. contract_text v ''sequence value'') vs = Inr xs" "ts = sorted_set xs"
    by (auto simp: text_tuple_def ebind_Inr_conv)
  moreover from map_checked_elem [OF this(1)] have "\<forall>x \<in> set xs. clean x" by (auto simp: contract_text_Inr)
  ultimately show ?thesis by (simp add: clean_tuple_def)
qed

lemma text_tuple_of_clean: "\<forall>v \<in> set vs. clean v \<Longrightarrow> text_tuple vs = Inr (sorted_set vs)"
  by (simp add: text_tuple_def map_checked_id contract_text_clean)

lemma sorted_set_clean: "clean_tuple ts \<Longrightarrow> sorted_set ts = ts"
  by (simp add: clean_tuple_def sorted_set_def distinct_remdups_id sort_key_id_if_sorted)

lemma text_tuple_stable: "clean_tuple ts \<Longrightarrow> text_tuple ts = Inr ts"
  using text_tuple_of_clean [of ts] sorted_set_clean [of ts] by (simp add: clean_tuple_def)

lemma opt_text_idem [simp]: "opt_text (opt_text v) = opt_text v"
  by (simp add: opt_text_def split: option.splits)

lemma dict_of_snoc: "dict_of (ps @ [(k, v)]) = dict_set (dict_of ps) k v"
  by (simp add: dict_of_def)

lemma set_keys_set: "set (dict_keys (dict_set d k v)) = insert k (set (dict_keys d))"
  by (induction d) auto

lemma dict_of_keys: "set (dict_keys (dict_of ps)) = set (map fst ps)"
proof (induction ps rule: rev_induct)
  case (snoc p ps)
  then show ?case by (cases p) (simp only: dict_of_snoc set_keys_set map_append set_append list.map list.set fst_conv Un_insert_right sup_bot_right)
qed (simp add: dict_of_def)

lemma dict_of_distinct: "distinct (map fst ps) \<Longrightarrow> dict_of ps = ps"
proof (induction ps rule: rev_induct)
  case (snoc p ps)
  then show ?case by (cases p) (simp add: dict_of_snoc dict_set_new)
qed (simp add: dict_of_def)

lemma mapping_items_clean: "mapping_items d n = Inr items \<Longrightarrow> clean_budget items"
proof -
  let ?f = "\<lambda>(key, item). if item < 0 then Inl (PrismContractError (n @ ''.'' @ key @ '' must be a non-negative integer''))
        else ebind (contract_text key (n @ '' key'')) (\<lambda>k. Inr (k, item))"
  assume "mapping_items d n = Inr items"
  then obtain xs where xs: "map_checked ?f d = Inr xs" "items = sort xs" by (auto simp: mapping_items_def ebind_Inr_conv)
  have "clean k \<and> 0 \<le> v" if "(k, v) \<in> set xs" for k v
    using map_checked_elem [OF xs(1) that] by (auto simp: ebind_Inr_conv contract_text_Inr split: if_splits)
  then show ?thesis using xs(2) by (auto simp: clean_budget_def)
qed

lemma mapping_items_stable: "clean_budget items \<Longrightarrow> mapping_items items n = Inr items"
proof -
  assume c: "clean_budget items"
  let ?f = "\<lambda>(key, item). if item < 0 then Inl (PrismContractError (n @ ''.'' @ key @ '' must be a non-negative integer''))
        else ebind (contract_text key (n @ '' key'')) (\<lambda>k. Inr (k, item))"
  have "map_checked ?f items = Inr items"
    using c by (intro map_checked_id) (auto simp: clean_budget_def contract_text_clean)
  then show ?thesis using c by (simp add: mapping_items_def clean_budget_def sort_key_id_if_sorted)
qed

lemma contract_sha_stable: "contract_sha v n = Inr r \<Longrightarrow> contract_sha r m = Inr r"
proof -
  assume r: "contract_sha v n = Inr r"
  then have "length r = 64" "set r \<subseteq> set hex_digits" by (auto simp: contract_sha_def ebind_Inr_conv Let_def split: if_splits)
  moreover from this have "lower (strip r) = r" by (simp add: hex_stable)
  moreover have "strip r = r"
  proof -
    have "\<forall>c \<in> set hex_digits. \<not> py_space c" by code_simp
    then show ?thesis using calculation(2) by (intro strip_no_space) blast
  qed
  ultimately show ?thesis by (auto simp: contract_sha_def contract_text_def Let_def)
qed

definition slot_wf :: "contract_hashes \<Rightarrow> SlotSupervisor \<Rightarrow> bool" where
  "slot_wf H s \<longleftrightarrow> clean (ss_parent_prism_id s) \<and> clean (ss_supervisor_agent s) \<and> opt_text (ss_parent_slot_id s) = ss_parent_slot_id s
     \<and> clean_tuple (ss_task_ids s) \<and> clean_tuple (ss_child_slot_ids s) \<and> clean_budget (ss_resource_budget s)
     \<and> ss_schema s = SLOT_SCHEMA \<and> ss_state s \<in> set SLOT_STATES
     \<and> MIN_TASKS_PER_SLOT \<le> ss_capacity s \<and> int (length (ss_task_ids s)) \<le> ss_capacity s
     \<and> ss_slot_id s = ''slot:'' @ ch_slot H (slot_payload s)"

definition ownership_wf :: "contract_hashes \<Rightarrow> TaskOwnership \<Rightarrow> bool" where
  "ownership_wf H w \<longleftrightarrow> clean (ow_task_id w) \<and> clean (ow_slot_id w) \<and> clean (ow_owner_agent w) \<and> clean (ow_lease_id w)
     \<and> clean (ow_source_generation w) \<and> clean_tuple (ow_capabilities w) \<and> clean_tuple (ow_allowed_transitions w)
     \<and> opt_text (ow_causal_parent w) = ow_causal_parent w \<and> ow_schema w = OWNERSHIP_SCHEMA
     \<and> 1 \<le> ow_attempt w \<and> 1 \<le> ow_fence w \<and> ow_capabilities w \<noteq> [] \<and> ow_allowed_transitions w \<noteq> []
     \<and> set (ow_allowed_transitions w) \<subseteq> set TASK_STATES \<and> ow_state w \<in> set TASK_STATES
     \<and> ow_ownership_id w = ''ownership:'' @ ch_ownership H (ownership_payload w)"

lemma slot_payload_dynamic [simp]:
  "slot_payload (s\<lparr>ss_slot_id := i\<rparr>) = slot_payload s" "slot_payload (s\<lparr>ss_task_ids := ts\<rparr>) = slot_payload s"
  by (simp_all add: slot_payload_def)

lemma ownership_payload_dynamic [simp]:
  "ownership_payload (w\<lparr>ow_ownership_id := i\<rparr>) = ownership_payload w" "ownership_payload (w\<lparr>ow_state := st\<rparr>) = ownership_payload w"
  by (simp_all add: ownership_payload_def)

lemma slot_constructed_wf: "SlotSupervisor_post_init H s = Inr s' \<Longrightarrow> slot_wf H s'"
  by (auto simp: SlotSupervisor_post_init_def slot_wf_def ebind_Inr_conv Let_def contract_text_Inr
      text_tuple_clean mapping_items_clean split: if_splits)

lemma ownership_constructed_wf: "TaskOwnership_post_init H w = Inr w' \<Longrightarrow> ownership_wf H w'"
  by (auto simp: TaskOwnership_post_init_def ownership_wf_def ebind_Inr_conv Let_def contract_text_Inr
      text_tuple_clean split: if_splits)

lemma ownership_rebuild:
  assumes "ownership_wf H w" and "state \<in> set TASK_STATES" and "i = [] \<or> i = ow_ownership_id w"
  shows "TaskOwnership_post_init H (w\<lparr>ow_state := state, ow_ownership_id := i\<rparr>) = Inr (w\<lparr>ow_state := state\<rparr>)"
proof -
  have "w\<lparr>ow_task_id := ow_task_id w, ow_slot_id := ow_slot_id w, ow_owner_agent := ow_owner_agent w, ow_lease_id := ow_lease_id w,
     ow_source_generation := ow_source_generation w, ow_capabilities := ow_capabilities w,
     ow_allowed_transitions := ow_allowed_transitions w, ow_causal_parent := ow_causal_parent w, ow_state := state,
     ow_ownership_id := ow_ownership_id w\<rparr> = w\<lparr>ow_state := state\<rparr>" by simp
  then show ?thesis using assms
    by (auto simp: TaskOwnership_post_init_def ownership_wf_def contract_text_clean text_tuple_stable Let_def)
qed

lemma ownership_stable: "TaskOwnership_post_init H w = Inr w' \<Longrightarrow> TaskOwnership_post_init H w' = Inr w'"
  using ownership_rebuild [OF ownership_constructed_wf, of H w w' "ow_state w'" "ow_ownership_id w'"]
    ownership_constructed_wf [of H w w'] by (simp add: ownership_wf_def)

interpretation ownership: normalizer "TaskOwnership_post_init H" for H
  by unfold_locales (rule ownership_stable)

lemma slot_rebuild:
  assumes "slot_wf H s" and "distinct (map fst (ss_resource_budget s))" and "clean t"
    and "int (length (sorted_set (ss_task_ids s @ [t]))) \<le> ss_capacity s"
  shows "SlotSupervisor_post_init H (s\<lparr>ss_task_ids := ss_task_ids s @ [t], ss_slot_id := []\<rparr>)
    = Inr (s\<lparr>ss_task_ids := sorted_set (ss_task_ids s @ [t])\<rparr>)"
proof -
  have "text_tuple (ss_task_ids s @ [t]) = Inr (sorted_set (ss_task_ids s @ [t]))"
    using assms(1,3) by (intro text_tuple_of_clean) (auto simp: slot_wf_def clean_tuple_def)
  moreover have "[] \<notin> set (ss_child_slot_ids s)" using assms(1) by (auto simp: slot_wf_def clean_tuple_def clean_def)
  ultimately show ?thesis using assms
    by (auto simp: SlotSupervisor_post_init_def slot_wf_def contract_text_clean text_tuple_stable
        dict_of_distinct mapping_items_stable Let_def)
qed

section \<open>Frame layout\<close>

lemma unat_byte: "unat (word_of_nat n :: 8 word) = n mod 256"
  by (simp add: unat_of_nat)

lemma unpack_pack:
  assumes "n < 2 ^ 32"
  shows "unpack_be32 (pack_be32 n) = n"
proof -
  have "n div 65536 = n div 256 div 256" "n div 16777216 = n div 256 div 256 div 256"
    by (simp_all add: div_mult2_eq [symmetric])
  moreover have "n div 256 div 256 div 256 < 256" using assms by (simp add: div_mult2_eq [symmetric] less_mult_imp_div_less)
  ultimately show ?thesis
    using div_mult_mod_eq [of n 256] div_mult_mod_eq [of "n div 256" 256] div_mult_mod_eq [of "n div 256 div 256" 256]
    by (simp add: unpack_be32_def pack_be32_def unat_byte del: div_mult_mod_eq)
qed

lemma pack_unpack: "length bs = 4 \<Longrightarrow> pack_be32 (unpack_be32 bs) = bs"
proof -
  assume "length bs = 4"
  then obtain a b c d where bs: "bs = [a, b, c, d]" by (auto simp: numeral_eq_Suc length_Suc_conv)
  have less: "unat x < 256" for x :: "8 word" using unsigned_less [of x] by simp
  define n where "n = unpack_be32 bs"
  have n: "n = 256 * (256 * (256 * unat a + unat b) + unat c) + unat d" by (simp add: n_def bs unpack_be32_def)
  have split: "(256 * k + unat x) div 256 = k" "(256 * k + unat x) mod 256 = unat x" for k and x :: "8 word"
    using less [of x] by simp_all
  have "n div 256 = 256 * (256 * unat a + unat b) + unat c" "n mod 256 = unat d" unfolding n by (rule split)+
  moreover from this have "n div 65536 = 256 * unat a + unat b" "n div 256 mod 256 = unat c"
    using split [of "256 * unat a + unat b" c] div_mult2_eq [of n 256 256] by simp_all
  moreover from this have "n div 16777216 = unat a" "n div 65536 mod 256 = unat b"
    using split [of "unat a" b] div_mult2_eq [of n 65536 256] by simp_all
  moreover have "map unat (pack_be32 n) = [n div 16777216 mod 256, n div 65536 mod 256, n div 256 mod 256, n mod 256]"
    by (simp add: pack_be32_def unat_byte)
  ultimately have "map unat (pack_be32 n) = map unat bs" using less [of a] by (simp only: bs list.map mod_less)
  moreover have "inj (unat :: 8 word \<Rightarrow> nat)" by (simp add: inj_def word_unat_eq_iff)
  ultimately show ?thesis unfolding n_def [symmetric] by (rule map_injective)
qed

lemma pack_length [simp]: "length (pack_be32 n) = 4"
  by (simp add: pack_be32_def)

lemma frame_parts:
  assumes "length f = 40 + n" and "take 4 f = m"
  shows "f = m @ take 4 (drop 4 f) @ take n (drop 8 f) @ drop (length f - 32) f"
proof -
  have "drop (length f - 32) f = drop n (drop 8 f)" using assms(1) by (simp add: add.commute)
  moreover have "take 4 (drop 4 f) @ drop 8 f = drop 4 f" by (metis append_take_drop_id drop_drop numeral_Bit0)
  ultimately show ?thesis using assms(2) by (metis append_assoc append_take_drop_id)
qed

lemma decode_Inr:
  assumes "decode_hbp_frame C f = Inr v"
    and size: "unpack_be32 (take 4 (drop 4 f)) = n" and p: "take n (drop 8 f) = p"
  shows "length f = 40 + n" "take 4 f = HBP_MAGIC" "n \<le> HBP_MAX_FRAME_BYTES" "fc_sha256 C p = drop (length f - 32) f"
    "fc_is_object C v" "fc_canonical C v = p"
  using assms(1) unfolding decode_hbp_frame_def Let_def size p
  by (simp_all split: if_split_asm option.split_asm)

lemma decode_sound:
  assumes "decode_hbp_frame C f = Inr v"
  shows "encode_hbp_frame C v = Inr f \<and> fc_is_object C v"
proof -
  obtain n where n: "unpack_be32 (take 4 (drop 4 f)) = n" by simp
  obtain p where p: "take n (drop 8 f) = p" by simp
  note d = decode_Inr [OF assms n p]
  have "length p = n" using d(1) p by auto
  moreover have "pack_be32 n = take 4 (drop 4 f)" using d(1) pack_unpack [of "take 4 (drop 4 f)"] n by simp
  moreover have "f = HBP_MAGIC @ take 4 (drop 4 f) @ p @ drop (length f - 32) f"
    using frame_parts [OF d(1,2)] p by simp
  ultimately have "f = HBP_MAGIC @ pack_be32 (length p) @ p @ fc_sha256 C p" unfolding d(4) by (simp only:)
  then show ?thesis using d(3,5) \<open>length p = n\<close> unfolding encode_hbp_frame_def Let_def d(6) by simp
qed

lemma decode_complete:
  assumes "\<And>b. length (fc_sha256 C b) = 32" and "fc_loads C (fc_canonical C v) = Some v" and "fc_is_object C v"
    and "encode_hbp_frame C v = Inr f"
  shows "decode_hbp_frame C f = Inr v"
proof -
  let ?p = "fc_canonical C v"
  have f: "f = HBP_MAGIC @ pack_be32 (length ?p) @ ?p @ fc_sha256 C ?p" and small: "length ?p \<le> HBP_MAX_FRAME_BYTES"
    using assms(4) by (auto simp: encode_hbp_frame_def Let_def split: if_splits)
  have "unpack_be32 (pack_be32 (length ?p)) = length ?p" using small by (intro unpack_pack) (simp add: HBP_MAX_FRAME_BYTES_def)
  moreover have "length HBP_MAGIC = 4" by (simp add: HBP_MAGIC_def)
  moreover have "take 4 f = HBP_MAGIC" "take 4 (drop 4 f) = pack_be32 (length ?p)" "take (length ?p) (drop 8 f) = ?p"
    "length f = 8 + length ?p + 32" "drop (length f - 32) f = fc_sha256 C ?p"
    unfolding f using \<open>length HBP_MAGIC = 4\<close> assms(1) by simp_all
  ultimately show ?thesis using assms(2,3) small by (simp add: decode_hbp_frame_def Let_def)
qed

section \<open>Parent chains\<close>

fun ancestor :: "(string, string option) dict \<Rightarrow> nat \<Rightarrow> string option \<Rightarrow> string option" where
  \<comment> \<open>the node \<open>n\<close> steps up the parent links; an empty name ends the chain\<close>
  "ancestor parents 0 c = (if c = Some [] then None else c)"
| "ancestor parents (Suc n) c = (case c of None \<Rightarrow> None | Some k \<Rightarrow>
     if k = [] then None else ancestor parents n (Option.bind (dict_get parents k) id))"

lemma ancestor_None [simp]: "ancestor parents n None = None" "ancestor parents n (Some []) = None"
  by (cases n; simp)+

lemma ancestor_add: "ancestor parents (m + n) c = ancestor parents n (ancestor parents m c)"
proof (induction m arbitrary: c)
  case 0
  then show ?case by (cases n) (auto split: option.splits)
next
  case (Suc m)
  then show ?case by (cases c) auto
qed

lemma ancestor_mono: "ancestor parents m c = None \<Longrightarrow> m \<le> n \<Longrightarrow> ancestor parents n c = None"
  by (metis ancestor_None(1) ancestor_add le_add_diff_inverse)

lemma ancestor_loop:
  assumes "ancestor parents (Suc m) c = ancestor parents 0 c" and "ancestor parents 0 c \<noteq> None"
  shows "ancestor parents n c \<noteq> None"
proof -
  have "ancestor parents (k * Suc m) c = ancestor parents 0 c" for k
  proof (induction k)
    case (Suc k)
    have "Suc k * Suc m = k * Suc m + Suc m" by simp
    then have "ancestor parents (Suc k * Suc m) c = ancestor parents (Suc m) (ancestor parents 0 c)"
      by (simp only: ancestor_add Suc)
    also have "\<dots> = ancestor parents (Suc m) c" using ancestor_add [of parents 0 "Suc m" c] by (simp only: add_0)
    finally show ?case using assms(1) by simp
  qed simp
  then have "ancestor parents (n * Suc m) c \<noteq> None" using assms(2) by simp
  then show ?thesis using ancestor_mono [of parents n c "n * Suc m"] by (metis le_add1 mult_Suc_right)
qed

lemma chain_step:
  assumes "k \<noteq> []" and "ancestor parents (Suc m) (Some k) = None" and "j < m"
  shows "ancestor parents j (Option.bind (dict_get parents k) id) \<noteq> Some k"
proof
  assume "ancestor parents j (Option.bind (dict_get parents k) id) = Some k"
  then have "ancestor parents (Suc j) (Some k) = ancestor parents 0 (Some k)" using assms(1) by simp
  from ancestor_loop [OF this, of "Suc m"] assms(1,2) show False by simp
qed

lemma check_parent_chain_Inr:
  "check_parent_chain parents md kind seen depth c = Inr d \<longleftrightarrow>
    (\<exists>n. d = depth + int n \<and> ancestor parents n c = None \<and> (n = 0 \<or> depth + int n \<le> md)
       \<and> (\<forall>i < n. ancestor parents i c \<noteq> None \<and> ancestor parents i c \<notin> Some ` set seen))"
proof (induction parents md kind seen depth c rule: check_parent_chain.induct)
  case (1 parents md kind seen depth cursor)
  show ?case
  proof (cases "cursor = None \<or> cursor = Some []")
    case True
    then have "ancestor parents n cursor = None" for n by auto
    moreover have "(\<forall>i < n. False) \<longleftrightarrow> n = 0" for n :: nat by auto
    ultimately show ?thesis using True by (auto simp: check_parent_chain.simps [of parents md kind seen depth cursor] simp del: not_less)
  next
    case False
    then obtain k where k: "cursor = Some k" "k \<noteq> []" by auto
    let ?up = "Option.bind (dict_get parents k) id"
    have all: "(\<forall>i < n. ancestor parents i cursor \<noteq> None \<and> ancestor parents i cursor \<notin> Some ` set seen)
        \<and> ancestor parents n cursor = None \<longleftrightarrow>
      (\<exists>m. n = Suc m \<and> k \<notin> set seen \<and> ancestor parents m ?up = None
         \<and> (\<forall>i < m. ancestor parents i ?up \<noteq> None \<and> ancestor parents i ?up \<notin> Some ` set (k # seen)))" for n
    proof (cases n)
      case (Suc m)
      have "ancestor parents i ?up \<noteq> Some k" if "i < m" "ancestor parents m ?up = None" for i
        using chain_step [OF k(2) _ that(1)] that(2) k by simp
      then show ?thesis unfolding Suc All_less_Suc2 using k by auto
    qed (use k in auto)
    show ?thesis
    proof (cases "k \<in> set seen \<or> md < depth + 1")
      case True
      then have "check_parent_chain parents md kind seen depth cursor \<noteq> Inr d"
        using k by (auto simp: check_parent_chain.simps [of parents md kind seen depth "Some k"])
      moreover have False if n: "ancestor parents n cursor = None" "n = 0 \<or> depth + int n \<le> md"
        "\<forall>i < n. ancestor parents i cursor \<noteq> None \<and> ancestor parents i cursor \<notin> Some ` set seen" for n
      proof -
        obtain m where "n = Suc m" "k \<notin> set seen" using all [of n] n by blast
        then show False using True n(2) by auto
      qed
      ultimately show ?thesis by blast
    next
      case False
      then have "check_parent_chain parents md kind seen depth cursor
          = check_parent_chain parents md kind (k # seen) (depth + 1) ?up"
        using k by (simp add: check_parent_chain.simps [of parents md kind seen depth "Some k"])
      moreover have "k \<notin> set seen" "\<not> md < depth + 1" using False by auto
      note "1.IH" [OF k(1) k(2) this]
      moreover have "(\<exists>m. d = depth + 1 + int m \<and> ancestor parents m ?up = None \<and> (m = 0 \<or> depth + 1 + int m \<le> md)
           \<and> (\<forall>i < m. ancestor parents i ?up \<noteq> None \<and> ancestor parents i ?up \<notin> Some ` set (k # seen))) \<longleftrightarrow>
        (\<exists>n. d = depth + int n \<and> ancestor parents n cursor = None \<and> (n = 0 \<or> depth + int n \<le> md)
           \<and> (\<forall>i < n. ancestor parents i cursor \<noteq> None \<and> ancestor parents i cursor \<notin> Some ` set seen))" (is "?L \<longleftrightarrow> ?R")
      proof
        assume ?L
        then obtain m where m: "d = depth + 1 + int m" "m = 0 \<or> depth + 1 + int m \<le> md" "ancestor parents m ?up = None"
          "\<forall>i < m. ancestor parents i ?up \<noteq> None \<and> ancestor parents i ?up \<notin> Some ` set (k # seen)" by blast
        then show ?R using all [of "Suc m"] False by (intro exI [of _ "Suc m"]) auto
      next
        assume ?R
        then obtain n where n: "d = depth + int n" "n = 0 \<or> depth + int n \<le> md" "ancestor parents n cursor = None"
          "\<forall>i < n. ancestor parents i cursor \<noteq> None \<and> ancestor parents i cursor \<notin> Some ` set seen" by blast
        then obtain m where "n = Suc m" "ancestor parents m ?up = None"
          "\<forall>i < m. ancestor parents i ?up \<noteq> None \<and> ancestor parents i ?up \<notin> Some ` set (k # seen)" using all [of n] by blast
        then show ?L using n(1,2) by (intro exI [of _ m]) simp
      qed
      ultimately show ?thesis by simp
    qed
  qed
qed

lemma check_parent_chain_ok:
  assumes "0 \<le> md"
  shows "(\<exists>d. check_parent_chain parents md kind [] 0 c = Inr d) \<longleftrightarrow> ancestor parents (nat md) c = None"
    and "check_parent_chain parents md kind [] 0 c = Inr d \<Longrightarrow> d \<le> md"
proof -
  show "(\<exists>d. check_parent_chain parents md kind [] 0 c = Inr d) \<longleftrightarrow> ancestor parents (nat md) c = None"
  proof
    assume "ancestor parents (nat md) c = None"
    then obtain n where "n \<le> nat md" "ancestor parents n c = None" "\<forall>i < n. ancestor parents i c \<noteq> None"
      using exists_least_iff [of "\<lambda>n. ancestor parents n c = None"] by (meson leI)
    then show "\<exists>d. check_parent_chain parents md kind [] 0 c = Inr d"
      using assms by (auto simp: check_parent_chain_Inr intro!: exI [of _ n])
  next
    assume "\<exists>d. check_parent_chain parents md kind [] 0 c = Inr d"
    then obtain n where "ancestor parents n c = None" "n = 0 \<or> int n \<le> md" by (auto simp: check_parent_chain_Inr)
    then show "ancestor parents (nat md) c = None" by (auto intro: ancestor_mono)
  qed
  show "check_parent_chain parents md kind [] 0 c = Inr d \<Longrightarrow> d \<le> md" using assms by (auto simp: check_parent_chain_Inr)
qed

lemma distinct_dict_of: "distinct (dict_keys (dict_of ps))"
proof (induction ps rule: rev_induct)
  case (snoc p ps)
  then show ?case by (cases p) (simp add: dict_of_snoc)
qed (simp add: dict_of_def)

lemma length_dict_of: "length (dict_of ps) = length ps \<longleftrightarrow> distinct (map fst ps)"
  by (metis card_distinct dict_of_keys distinct_card distinct_dict_of length_map)

lemma map_checked_unit: "(\<exists>ys. map_checked f xs = Inr ys) \<longleftrightarrow> (\<forall>x \<in> set xs. \<exists>y. f x = Inr y)"
proof (induction xs)
  case (Cons x xs)
  then show ?case by (cases "f x"; cases "map_checked f xs") auto
qed simp

lemma own_tasks_Inr:
  "own_tasks sb owned ws = Inr out \<longleftrightarrow> out = owned @ map ow_task_id ws \<and> distinct (map ow_task_id ws)
     \<and> set owned \<inter> ow_task_id ` set ws = {}
     \<and> (\<forall>w \<in> set ws. \<exists>s. dict_get sb (ow_slot_id w) = Some s \<and> ow_task_id w \<in> set (ss_task_ids s))"
proof (induction ws arbitrary: owned)
  case (Cons w ws)
  then show ?case by (auto split: option.splits)
qed auto

lemma fold_max_bound: "fold max xs (a :: int) \<le> b \<longleftrightarrow> a \<le> b \<and> (\<forall>x \<in> set xs. x \<le> b)"
  by (induction xs arbitrary: a) auto

definition hierarchy_ok ::
    "PrismExecution list \<Rightarrow> SlotSupervisor list \<Rightarrow> TaskOwnership list \<Rightarrow> int \<Rightarrow> bool" where
  "hierarchy_ok prisms slots ownerships max_depth \<longleftrightarrow>
    1 \<le> max_depth \<and> max_depth \<le> MAX_PRISM_DEPTH
    \<and> distinct (map pe_prism_id prisms) \<and> distinct (map ss_slot_id slots)
    \<and> (\<forall>p \<in> set prisms. (pe_parent_prism_id p \<in> {None, Some []} \<or> the (pe_parent_prism_id p) \<in> pe_prism_id ` set prisms)
         \<and> set (pe_child_slot_ids p) \<subseteq> ss_slot_id ` set slots)
    \<and> (\<forall>s \<in> set slots. ss_parent_prism_id s \<in> pe_prism_id ` set prisms
         \<and> (ss_parent_slot_id s \<in> {None, Some []} \<or> the (ss_parent_slot_id s) \<in> ss_slot_id ` set slots)
         \<and> set (ss_child_slot_ids s) \<subseteq> ss_slot_id ` set slots)
    \<and> (\<forall>p \<in> set prisms. ancestor (map (\<lambda>p. (pe_prism_id p, pe_parent_prism_id p)) prisms) (nat max_depth) (Some (pe_prism_id p)) = None)
    \<and> (\<forall>s \<in> set slots. ancestor (map (\<lambda>s. (ss_slot_id s, ss_parent_slot_id s)) slots) (nat max_depth) (Some (ss_slot_id s)) = None)
    \<and> distinct (map ow_task_id ownerships)
    \<and> (\<forall>w \<in> set ownerships. \<exists>s \<in> set slots. ss_slot_id s = ow_slot_id w \<and> ow_task_id w \<in> set (ss_task_ids s))
    \<and> (\<forall>s \<in> set slots. set (ss_task_ids s) \<subseteq> ow_task_id ` set ownerships)"

lemma in_dict_keyed: "in_dict k (map (\<lambda>x. (f x, g x)) xs) \<longleftrightarrow> k \<in> f ` set xs"
  by (auto simp: in_dict_keys)

lemma get_keyed: "distinct (map f xs) \<Longrightarrow> dict_get (map (\<lambda>x. (f x, x)) xs) k = Some x \<longleftrightarrow> x \<in> set xs \<and> f x = k"
  by (induction xs) (auto simp: rev_image_eqI)

lemma known_keyed: "known (map (\<lambda>x. (f x, g x)) xs) ref \<longleftrightarrow> ref \<in> {None, Some []} \<or> the ref \<in> f ` set xs"
  by (cases ref) (auto simp: in_dict_keyed)

lemma validate_hierarchy_Inr:
  fixes prisms slots
  defines "pb \<equiv> map (\<lambda>p. (pe_prism_id p, p)) prisms" and "sb \<equiv> map (\<lambda>s. (ss_slot_id s, s)) slots"
  defines "pp \<equiv> map (\<lambda>p. (pe_prism_id p, pe_parent_prism_id p)) prisms" and "sp \<equiv> map (\<lambda>s. (ss_slot_id s, ss_parent_slot_id s)) slots"
  shows "validate_hierarchy prisms slots ws md = Inr rep \<longleftrightarrow>
    1 \<le> md \<and> md \<le> MAX_PRISM_DEPTH \<and> distinct (map pe_prism_id prisms) \<and> distinct (map ss_slot_id slots)
    \<and> (\<exists>us. map_checked (check_prism pb sb) prisms = Inr us) \<and> (\<exists>us. map_checked (check_slot pb sb) slots = Inr us)
    \<and> (\<exists>pd sd. map_checked (\<lambda>p. check_parent_chain pp md ''prism'' [] 0 (Some (pe_prism_id p))) prisms = Inr pd
        \<and> map_checked (\<lambda>s. check_parent_chain sp md ''slot'' [] 0 (Some (ss_slot_id s))) slots = Inr sd
        \<and> own_tasks sb [] ws = Inr (map ow_task_id ws)
        \<and> set (concat (map ss_task_ids slots)) = ow_task_id ` set ws
        \<and> rep = \<lparr>hr_prisms = sort (map pe_prism_id prisms), hr_slots = sort (map ss_slot_id slots),
             hr_tasks = sort (map ow_task_id ws), hr_max_observed_depth = fold max (pd @ sd) 0\<rparr>)"
proof (cases "distinct (map pe_prism_id prisms) \<and> distinct (map ss_slot_id slots)")
  case True
  then have d: "dict_of pb = pb" "dict_of sb = sb" "dict_of pp = pp" "dict_of sp = sp"
    by (auto intro!: dict_of_distinct simp: pb_def sb_def pp_def sp_def comp_def)
  have l: "length pb = length prisms" "length sb = length slots" "dict_keys pb = map pe_prism_id prisms"
    "dict_keys sb = map ss_slot_id slots" by (simp_all add: pb_def sb_def comp_def)
  consider "own_tasks sb [] ws = Inr (map ow_task_id ws)" | e where "own_tasks sb [] ws = Inl e"
    using own_tasks_Inr [of sb "[]" ws] by (cases "own_tasks sb [] ws") auto
  then show ?thesis
  proof cases
    case 1
    show ?thesis
      unfolding validate_hierarchy_def Let_def pb_def [symmetric] sb_def [symmetric] pp_def [symmetric] sp_def [symmetric] d l
        guard_Inr_conv ebind_Inr_conv 1
      using True by (auto simp del: set_concat)
  next
    case 2
    then show ?thesis
      unfolding validate_hierarchy_def Let_def pb_def [symmetric] sb_def [symmetric] pp_def [symmetric] sp_def [symmetric] d l
        guard_Inr_conv ebind_Inr_conv by simp
  qed
next
  case False
  then show ?thesis using length_dict_of [of pb] length_dict_of [of sb]
    unfolding validate_hierarchy_def Let_def pb_def [symmetric] sb_def [symmetric]
    by (auto simp: pb_def sb_def comp_def)
qed

section \<open>Properties\<close>



definition demo_codec :: "bool frame_codec" where
  "demo_codec = \<lparr>fc_canonical = (\<lambda>b. if b then [123, 125] else [48]), fc_loads = (\<lambda>p. if p = [123, 125] then Some True else Some False),
     fc_is_object = (\<lambda>b. b), fc_sha256 = (\<lambda>p. replicate 32 7)\<rparr>"


text \<open>C25: admission to a slot. For a constructed slot whose budget keys are distinct and a constructed
  ownership, admission fails exactly when the ownership names another slot or the task is already
  admitted. Otherwise the slot keeps its identity and its canonical form, never exceeds its capacity, and
  gains exactly the new task if it had room and nothing if it was full.\<close>

theorem admit_task_exact:
  assumes "SlotSupervisor_post_init H s0 = Inr s" and "distinct (map fst (ss_resource_budget s))"
    and "TaskOwnership_post_init H w0 = Inr w"
  shows "((\<exists>s' r. admit_task H s w = Inr (s', r)) \<longleftrightarrow> ow_slot_id w = ss_slot_id s \<and> ow_task_id w \<notin> set (ss_task_ids s))
    \<and> (\<forall>s' r. admit_task H s w = Inr (s', r) \<longrightarrow> slot_wf H s' \<and> ss_slot_id s' = ss_slot_id s
         \<and> (ar_admitted r \<longleftrightarrow> int (length (ss_task_ids s)) < ss_capacity s)
         \<and> set (ss_task_ids s') = set (ss_task_ids s) \<union> (if ar_admitted r then {ow_task_id w} else {}))"
proof (cases "ow_slot_id w = ss_slot_id s \<and> ow_task_id w \<notin> set (ss_task_ids s) \<and> int (length (ss_task_ids s)) < ss_capacity s")
  case True
  have wf: "slot_wf H s" and t: "clean (ow_task_id w)"
    using slot_constructed_wf [OF assms(1)] ownership_constructed_wf [OF assms(3)] by (auto simp: ownership_wf_def)
  have len: "length (sorted_set (ss_task_ids s @ [ow_task_id w])) = Suc (length (ss_task_ids s))"
    using True wf by (simp add: sorted_set_def slot_wf_def clean_tuple_def distinct_remdups_id)
  let ?s' = "s\<lparr>ss_task_ids := sorted_set (ss_task_ids s @ [ow_task_id w])\<rparr>"
  have "SlotSupervisor_post_init H (s\<lparr>ss_task_ids := ss_task_ids s @ [ow_task_id w], ss_slot_id := []\<rparr>) = Inr ?s'"
    by (rule slot_rebuild [OF wf assms(2) t]) (use True len in simp)
  moreover from slot_constructed_wf [OF this] have "slot_wf H ?s'" .
  ultimately show ?thesis using True by (auto simp: admit_task_def)
next
  case False
  then show ?thesis using slot_constructed_wf [OF assms(1)] by (auto simp: admit_task_def split: if_splits)
qed

definition demo_contract_hashes :: contract_hashes where
  "demo_contract_hashes = \<lparr>ch_prism = pe_goal_id, ch_slot = (\<lambda>s. ss_supervisor_agent s @ concat (map fst (ss_resource_budget s))),
     ch_ownership = ow_task_id, ch_slot_digest = ss_slot_id\<rparr>"

definition demo_slot :: "(string \<times> int) list \<Rightarrow> SlotSupervisor" where
  "demo_slot budget = \<lparr>ss_parent_prism_id = ''p'', ss_supervisor_agent = ''a'', ss_capacity = 10, ss_task_ids = [],
     ss_child_slot_ids = [], ss_parent_slot_id = None, ss_resource_budget = budget, ss_state = ''ready'', ss_slot_id = [],
     ss_schema = SLOT_SCHEMA\<rparr>"

definition demo_owner :: "string \<Rightarrow> string \<Rightarrow> TaskOwnership" where
  "demo_owner task slot = \<lparr>ow_task_id = task, ow_slot_id = slot, ow_attempt = 1, ow_owner_agent = ''w'', ow_lease_id = ''l'',
     ow_fence = 1, ow_source_generation = ''g'', ow_capabilities = [''edit''], ow_allowed_transitions = [''running''],
     ow_causal_parent = None, ow_state = ''queued'', ow_ownership_id = [], ow_schema = OWNERSHIP_SCHEMA\<rparr>"

theorem admit_task_exact_witness:
  "\<exists>s' r. admit_task demo_contract_hashes ((demo_slot [])\<lparr>ss_slot_id := ''slot:a''\<rparr>) ((demo_owner ''t'' ''slot:a'')\<lparr>ow_ownership_id := ''ownership:t''\<rparr>)
     = Inr (s', r) \<and> set (ss_task_ids s') = {''t''}"
proof -
  have c: "SlotSupervisor_post_init demo_contract_hashes (demo_slot []) = Inr ((demo_slot [])\<lparr>ss_slot_id := ''slot:a''\<rparr>)"
    "distinct (map fst (ss_resource_budget ((demo_slot [])\<lparr>ss_slot_id := ''slot:a''\<rparr>)))"
    "TaskOwnership_post_init demo_contract_hashes (demo_owner ''t'' ''slot:a'') = Inr ((demo_owner ''t'' ''slot:a'')\<lparr>ow_ownership_id := ''ownership:t''\<rparr>)"
    by code_simp+
  show ?thesis using admit_task_exact [OF c] by (force simp: demo_slot_def demo_owner_def)
qed

text \<open>C26: ownerships are canonical and only their owner moves them. Constructing a constructed ownership again
  changes nothing; a transition succeeds exactly for the holder of the fence, named by the owner, to an
  authorised state, and its result is well-formed and differs in the state only.\<close>

theorem ownership_canonical:
  assumes "TaskOwnership_post_init H w0 = Inr w"
  shows "ownership_wf H w \<and> TaskOwnership_post_init H w = Inr w
    \<and> ((\<exists>w'. TaskOwnership_transition H w state fence owner = Inr w') \<longleftrightarrow>
         fence = ow_fence w \<and> strip owner = ow_owner_agent w \<and> state \<in> set (ow_allowed_transitions w))
    \<and> (\<forall>w'. TaskOwnership_transition H w state fence owner = Inr w' \<longrightarrow> w' = w\<lparr>ow_state := state\<rparr> \<and> ownership_wf H w')"
proof -
  have wf: "ownership_wf H w" by (rule ownership_constructed_wf [OF assms])
  moreover have "TaskOwnership_post_init H w = Inr w" by (rule ownership.rebuild [OF assms])
  moreover have ok: "TaskOwnership_post_init H (w\<lparr>ow_state := state, ow_ownership_id := []\<rparr>) = Inr (w\<lparr>ow_state := state\<rparr>)"
    if "state \<in> set (ow_allowed_transitions w)" using ownership_rebuild [OF wf, of state "[]"] that wf by (auto simp: ownership_wf_def)
  moreover have "contract_text owner n = Inr (strip owner)" if "strip owner = ow_owner_agent w" for n
    using that wf by (simp add: contract_text_Inr ownership_wf_def)
  ultimately show ?thesis using ownership_constructed_wf
    by (auto simp: TaskOwnership_transition_def ebind_Inr_conv contract_text_Inr split: if_splits)
qed

theorem ownership_canonical_witness:
  "\<exists>w'. TaskOwnership_transition demo_contract_hashes ((demo_owner ''t'' ''s'')\<lparr>ow_ownership_id := ''ownership:t''\<rparr>) ''running'' 1 '' w '' = Inr w'
     \<and> ow_state w' = ''running''"
proof -
  have c: "TaskOwnership_post_init demo_contract_hashes (demo_owner ''t'' ''s'') = Inr ((demo_owner ''t'' ''s'')\<lparr>ow_ownership_id := ''ownership:t''\<rparr>)"
    and "strip '' w '' = ''w''" by code_simp+
  then show ?thesis using ownership_canonical [OF c, of "''running''" 1 "'' w ''"] by (auto simp: demo_owner_def)
qed

text \<open>An ownership identity does not depend on the slot: the same task owned in two slots has one identity.\<close>

lemma ownership_id_ignores_slot:
  "map_option ow_ownership_id (case TaskOwnership_post_init demo_contract_hashes (demo_owner ''t'' ''slot:a'') of Inl _ \<Rightarrow> None | Inr w \<Rightarrow> Some w) = Some ''ownership:t''"
  "ownership_payload (w\<lparr>ow_slot_id := a\<rparr>) = ownership_payload w"
  by (code_simp, simp add: ownership_payload_def)

text \<open>A slot built without a given identity may list itself as a child, and the hierarchy check accepts it.\<close>

lemma slot_may_contain_itself:
  "SlotSupervisor_post_init demo_contract_hashes ((demo_slot [])\<lparr>ss_child_slot_ids := [''slot:a'']\<rparr>)
     = Inr ((demo_slot [])\<lparr>ss_child_slot_ids := [''slot:a''], ss_slot_id := ''slot:a''\<rparr>)"
  by code_simp

text \<open>Budget keys that differ in surrounding blanks only are both kept; the next admission merges them and
  thereby changes the identity of the slot.\<close>

lemma colliding_budget_changes_identity:
  "map_option (\<lambda>s. (ss_slot_id s, case admit_task demo_contract_hashes s (demo_owner ''t'' (ss_slot_id s)) of Inl _ \<Rightarrow> [] | Inr (s', r) \<Rightarrow> ss_slot_id s'))
     (case SlotSupervisor_post_init demo_contract_hashes (demo_slot [('' b'', 1), (''b'', 2)]) of Inl _ \<Rightarrow> None | Inr s \<Rightarrow> Some s)
   = Some (''slot:abb'', ''slot:ab'')"
  by code_simp

end
