(* ===== verification/Prism_Scheduler.thy ===== *)
theory Prism_Scheduler
  imports Prism_Contracts "HOL-Library.Multiset"
begin

text \<open>
  The hierarchical scheduler (\<open>prism_scheduler.py\<close>): validated policies, resource vectors,
  observations and tasks, the admission controller with its physical accounts, and the scheduler that
  keeps the ready set, runs batches, completes and cancels tasks, and checkpoints its states.

  The clock read by an admission decision is the function \<open>now\<close> of the task decided on. A worker is the
  function \<open>worker\<close> from a task to what awaiting it gives; \<open>finish_order\<close> is the order in which the tasks of one
  task group finish, and \<open>perf\<close> gives the two readings of the performance counter around a task. Content
  hashes are the functions of a \<open>scheduler_hashes\<close> record, besides the contract hashes.
\<close>

section \<open>Policies, resources, observations and tasks\<close>

datatype sched_failure = PrismSchedulerError string | FromContract contract_error | MissingKey string

definition TASK_KINDS :: "string list" where
  "TASK_KINDS = [''implementation'', ''recovery'', ''validation'', ''review'', ''integration'']"

definition TERMINAL :: "string list" where
  "TERMINAL = [''accepted'', ''failed'', ''blocked'', ''cancelled'']"

definition positive_int :: "int \<Rightarrow> string \<Rightarrow> int option \<Rightarrow> sched_failure + int" where
  "positive_int value name maximum =
    (if value < 1 then Inl (PrismSchedulerError (name @ '' must be a positive integer''))
     else if \<exists>m \<in> set_option maximum. m < value
     then Inl (PrismSchedulerError (name @ '' exceeds '' @ show_int (the maximum))) else Inr value)"

record PrismPolicy =
  po_max_tasks_per_slot :: int
  po_max_active_slots :: "int option"
  po_global_worker_limit :: int
  po_max_depth :: int
  po_adaptive_concurrency :: bool
  po_recovery_reserve :: int
  po_validation_reserve :: int

definition PrismPolicy_post_init :: "PrismPolicy \<Rightarrow> sched_failure + PrismPolicy" where
  "PrismPolicy_post_init p =
    ebind (positive_int (po_max_tasks_per_slot p) ''max_tasks_per_slot'' None) (\<lambda>_.
      if po_max_tasks_per_slot p < MIN_TASKS_PER_SLOT
      then Inl (PrismSchedulerError ''max_tasks_per_slot must be at least 10'')
      else
        ebind (case po_max_active_slots p of None \<Rightarrow> Inr 1 | Some n \<Rightarrow> positive_int n ''max_active_slots'' None) (\<lambda>_.
        ebind (positive_int (po_global_worker_limit p) ''global_worker_limit'' None) (\<lambda>_.
        ebind (positive_int (po_max_depth p) ''max_depth'' (Some MAX_PRISM_DEPTH)) (\<lambda>_.
          if min (po_recovery_reserve p) (po_validation_reserve p) < 0
          then Inl (PrismSchedulerError ''reserved capacity cannot be negative'')
          else if po_global_worker_limit p \<le> po_recovery_reserve p + po_validation_reserve p
          then Inl (PrismSchedulerError ''reserved capacity must leave an implementation worker'')
          else Inr p))))"

record ResourceVector =
  rv_workers :: int
  rv_cpu_millis :: int
  rv_rss_bytes :: int
  rv_io_units :: int
  rv_provider_requests :: int
  rv_tokens :: int
  rv_disk_bytes :: int
  rv_model_slots :: int
  rv_network_queue :: int
  rv_context_tokens :: int
  rv_evidence_bytes :: int

definition RV_FIELDS :: "(string \<times> (ResourceVector \<Rightarrow> int)) list" where
  \<comment> \<open>the fields of the dataclass in their order\<close>
  "RV_FIELDS = [(''workers'', rv_workers), (''cpu_millis'', rv_cpu_millis), (''rss_bytes'', rv_rss_bytes),
     (''io_units'', rv_io_units), (''provider_requests'', rv_provider_requests), (''tokens'', rv_tokens),
     (''disk_bytes'', rv_disk_bytes), (''model_slots'', rv_model_slots), (''network_queue'', rv_network_queue),
     (''context_tokens'', rv_context_tokens), (''evidence_bytes'', rv_evidence_bytes)]"

definition no_resources :: "int \<Rightarrow> ResourceVector" where
  \<comment> \<open>\<open>ResourceVector(workers=n)\<close>\<close>
  "no_resources n = \<lparr>rv_workers = n, rv_cpu_millis = 0, rv_rss_bytes = 0, rv_io_units = 0, rv_provider_requests = 0,
     rv_tokens = 0, rv_disk_bytes = 0, rv_model_slots = 0, rv_network_queue = 0, rv_context_tokens = 0, rv_evidence_bytes = 0\<rparr>"

definition ResourceVector_post_init :: "ResourceVector \<Rightarrow> sched_failure + ResourceVector" where
  "ResourceVector_post_init v = (case List.find (\<lambda>(name, get). get v < 0) RV_FIELDS of
     None \<Rightarrow> Inr v | Some (name, _) \<Rightarrow> Inl (PrismSchedulerError (''resource '' @ name @ '' must be non-negative'')))"

definition rv_plus :: "ResourceVector \<Rightarrow> ResourceVector \<Rightarrow> ResourceVector" where
  \<comment> \<open>the validation of the sum cannot fail when both operands are valid\<close>
  "rv_plus a b = \<lparr>rv_workers = rv_workers a + rv_workers b, rv_cpu_millis = rv_cpu_millis a + rv_cpu_millis b,
     rv_rss_bytes = rv_rss_bytes a + rv_rss_bytes b, rv_io_units = rv_io_units a + rv_io_units b,
     rv_provider_requests = rv_provider_requests a + rv_provider_requests b, rv_tokens = rv_tokens a + rv_tokens b,
     rv_disk_bytes = rv_disk_bytes a + rv_disk_bytes b, rv_model_slots = rv_model_slots a + rv_model_slots b,
     rv_network_queue = rv_network_queue a + rv_network_queue b, rv_context_tokens = rv_context_tokens a + rv_context_tokens b,
     rv_evidence_bytes = rv_evidence_bytes a + rv_evidence_bytes b\<rparr>"

definition rv_fits :: "ResourceVector \<Rightarrow> ResourceVector \<Rightarrow> bool \<times> string" where
  "rv_fits v limit = (case List.find (\<lambda>(name, get). get limit \<noteq> 0 \<and> get limit < get v) RV_FIELDS of
     None \<Rightarrow> (True, []) | Some (name, _) \<Rightarrow> (False, name))"

record BudgetObservation =
  bo_limit :: ResourceVector
  bo_measured :: "string list"
  bo_unavailable :: "string list"
  bo_null_reasons :: "(string, string) dict"
  bo_provider_retry_after_ns :: "int option"
  bo_observed_at_ns :: int
  bo_device_workers :: "(string \<times> int) list"

definition BudgetObservation_post_init :: "BudgetObservation \<Rightarrow> sched_failure + BudgetObservation" where
  "BudgetObservation_post_init b =
    (if \<exists>n \<in> set_option (bo_provider_retry_after_ns b). n < 0
     then Inl (PrismSchedulerError ''provider_retry_after_ns cannot be negative'')
     else
       let b1 = b\<lparr>bo_measured := sorted_set (bo_measured b), bo_unavailable := sorted_set (bo_unavailable b)\<rparr>
       in if \<exists>k \<in> set (dict_keys (bo_null_reasons b1)). k \<notin> set (bo_unavailable b1)
          then Inl (PrismSchedulerError ''null_reasons require unavailable metrics'')
          else case List.find (\<lambda>(name, reason). strip reason = []) (bo_null_reasons b1) of
            Some (name, _) \<Rightarrow> Inl (PrismSchedulerError (''empty null_reason for '' @ name))
          | None \<Rightarrow>
              if \<exists>(device, workers) \<in> set (bo_device_workers b1). device = [] \<or> workers < 1
              then Inl (PrismSchedulerError ''invalid device worker capacity'') else Inr b1)"

record ScheduledTask =
  st_task_id :: string
  st_slot_id :: string
  st_ownership :: TaskOwnership
  st_depends_on :: "string list"
  st_hard_conflicts :: "string list"
  st_soft_contention :: "string list"
  st_exclusive_resources :: "string list"
  st_priority :: int
  st_kind :: string
  st_resources :: ResourceVector

definition task_names :: "string list \<Rightarrow> string list" where
  "task_names values = sorted_set (filter (\<lambda>v. v \<noteq> []) (map strip values))"

definition ScheduledTask_post_init :: "ScheduledTask \<Rightarrow> sched_failure + ScheduledTask" where
  "ScheduledTask_post_init t =
    (if st_task_id t \<noteq> ow_task_id (st_ownership t) \<or> st_slot_id t \<noteq> ow_slot_id (st_ownership t)
     then Inl (PrismSchedulerError ''task identity does not match ownership'')
     else
       let t1 = t\<lparr>st_depends_on := task_names (st_depends_on t), st_hard_conflicts := task_names (st_hard_conflicts t),
              st_soft_contention := task_names (st_soft_contention t),
              st_exclusive_resources := task_names (st_exclusive_resources t)\<rparr>
       in if st_kind t1 \<notin> set TASK_KINDS then Inl (PrismSchedulerError ''unknown task kind'')
          else if rv_workers (st_resources t1) < 1
          then Inl (PrismSchedulerError ''each active task consumes at least one worker'')
          else if st_task_id t1 \<in> set (st_depends_on t1) \<or> st_task_id t1 \<in> set (st_hard_conflicts t1)
          then Inl (PrismSchedulerError ''task cannot depend on or conflict with itself'')
          else Inr t1)"

section \<open>Admission controller\<close>

datatype admission_evidence =
    CapacityUnavailable "string list" "(string, string) dict" ResourceVector
  | RetryAfter int
  | ExclusiveBusy "string list"
  | ReservedCapacity int int
  | Pressure ResourceVector ResourceVector
  | Granted "string list" "(string, string) dict" ResourceVector "(string \<times> int) list"

record PrismAdmissionDecision =
  ad_task_id :: string
  ad_slot_id :: string
  ad_admitted :: bool
  ad_reason_code :: string
  ad_evidence :: admission_evidence

record AdmissionController =
  ac_policy :: PrismPolicy
  ac_observation :: BudgetObservation
  ac_active :: "(string, ScheduledTask) dict"
  ac_per_slot :: "(string, int) dict"
  ac_exclusive :: "(string, string) dict"
  ac_decisions :: "PrismAdmissionDecision list"

definition AdmissionController_init :: "PrismPolicy \<Rightarrow> BudgetObservation option \<Rightarrow> AdmissionController" where
  "AdmissionController_init policy observation =
    \<lparr>ac_policy = policy,
     ac_observation = (case observation of Some b \<Rightarrow> b | None \<Rightarrow>
       \<lparr>bo_limit = no_resources (po_global_worker_limit policy), bo_measured = [], bo_unavailable = [], bo_null_reasons = [],
        bo_provider_retry_after_ns = None, bo_observed_at_ns = 0, bo_device_workers = []\<rparr>),
     ac_active = [], ac_per_slot = [], ac_exclusive = [], ac_decisions = []\<rparr>"

definition AdmissionController_update :: "BudgetObservation \<Rightarrow> AdmissionController \<Rightarrow> AdmissionController" where
  "AdmissionController_update b c = c\<lparr>ac_observation := b\<rparr>"

definition controller_usage :: "AdmissionController \<Rightarrow> ResourceVector" where
  "controller_usage c = fold (\<lambda>t usage. rv_plus usage (st_resources t)) (dict_values (ac_active c)) (no_resources 0)"

definition upper_char :: "char \<Rightarrow> char" where
  \<comment> \<open>\<open>str.upper\<close> on the letters of field names\<close>
  "upper_char ch = (let n = (of_char ch :: nat) in if 97 \<le> n \<and> n \<le> 122 then char_of (n - 32) else ch)"

definition record_decision ::
    "ScheduledTask \<Rightarrow> bool \<Rightarrow> string \<Rightarrow> admission_evidence \<Rightarrow> AdmissionController \<Rightarrow> AdmissionController \<times> PrismAdmissionDecision" where
  "record_decision task admitted reason evidence c =
    (let decision = \<lparr>ad_task_id = st_task_id task, ad_slot_id = st_slot_id task, ad_admitted = admitted,
           ad_reason_code = reason, ad_evidence = evidence\<rparr>
     in (c\<lparr>ac_decisions := ac_decisions c @ [decision]\<rparr>, decision))"

definition effective_limit :: "BudgetObservation \<Rightarrow> ResourceVector" where
  "effective_limit b = (let limit = bo_limit b
     in if bo_unavailable b \<noteq> [] then limit\<lparr>rv_workers := min (rv_workers limit) 1\<rparr> else limit)"

definition implementation_active :: "AdmissionController \<Rightarrow> int" where
  "implementation_active c = int (length (filter (\<lambda>t. st_kind t = ''implementation'') (dict_values (ac_active c))))"

definition controller_decide ::
    "int \<Rightarrow> ScheduledTask \<Rightarrow> AdmissionController \<Rightarrow> AdmissionController \<times> (sched_failure + PrismAdmissionDecision)" where
  "controller_decide now_ns task c =
    (let b = ac_observation c; limit = effective_limit b;
         reserve = po_recovery_reserve (ac_policy c) + po_validation_reserve (ac_policy c);
         requested = rv_plus (controller_usage c) (st_resources task);
         decided = (\<lambda>(c', d). (c', Inr d))
     in if in_dict (st_task_id task) (ac_active c) then (c, Inl (PrismSchedulerError ''task is already physically active''))
        else if ''workers'' \<in> set (bo_unavailable b)
        then decided (record_decision task False ''PHYSICAL_CAPACITY_UNAVAILABLE''
               (CapacityUnavailable (bo_unavailable b) (bo_null_reasons b) (bo_limit b)) c)
        else if (\<exists>n \<in> set_option (bo_provider_retry_after_ns b). now_ns < n) \<and> rv_provider_requests (st_resources task) \<noteq> 0
        then decided (record_decision task False ''PROVIDER_RETRY_AFTER'' (RetryAfter (the (bo_provider_retry_after_ns b))) c)
        else if \<exists>r \<in> set (st_exclusive_resources task). in_dict r (ac_exclusive c)
        then decided (record_decision task False ''EXCLUSIVE_RESOURCE_BUSY'' (ExclusiveBusy (st_exclusive_resources task)) c)
        else if st_kind task = ''implementation'' \<and> max 1 (rv_workers limit - reserve) \<le> implementation_active c
        then decided (record_decision task False ''RESERVED_CAPACITY'' (ReservedCapacity (implementation_active c) reserve) c)
        else if \<not> fst (rv_fits requested limit)
        then decided (record_decision task False (map upper_char (snd (rv_fits requested limit)) @ ''_PRESSURE'') (Pressure requested limit) c)
        else decided (record_decision task True
               (if bo_unavailable b \<noteq> [] then ''METRIC_UNAVAILABLE_CONSERVATIVE'' else ''ADMITTED'')
               (Granted (bo_unavailable b) (bo_null_reasons b) limit (bo_device_workers b)) c))"

definition controller_acquire ::
    "ScheduledTask \<Rightarrow> PrismAdmissionDecision \<Rightarrow> AdmissionController \<Rightarrow> sched_failure + AdmissionController" where
  "controller_acquire task decision c =
    (if \<not> ad_admitted decision \<or> ad_task_id decision \<noteq> st_task_id task
     then Inl (PrismSchedulerError ''only the matching admitted decision may acquire'')
     else if in_dict (st_task_id task) (ac_active c) then Inl (PrismSchedulerError ''duplicate physical acquire'')
     else Inr (c\<lparr>ac_active := dict_set (ac_active c) (st_task_id task) task,
            ac_per_slot := dict_set (ac_per_slot c) (st_slot_id task) (dict_get_or (ac_per_slot c) (st_slot_id task) 0 + 1),
            ac_exclusive := fold (\<lambda>r d. dict_set d r (st_task_id task)) (st_exclusive_resources task) (ac_exclusive c)\<rparr>))"

definition controller_release :: "string \<Rightarrow> AdmissionController \<Rightarrow> AdmissionController \<times> (sched_failure + unit)" where
  "controller_release task_id c =
    (case dict_get (ac_active c) task_id of
       None \<Rightarrow> (c, Inl (PrismSchedulerError ''cannot release an inactive task''))
     | Some task \<Rightarrow>
         let c1 = c\<lparr>ac_active := dict_pop (ac_active c) task_id\<rparr>
         in case dict_get (ac_per_slot c1) (st_slot_id task) of
              None \<Rightarrow> (c1, Inl (MissingKey (st_slot_id task)))
            | Some n \<Rightarrow>
                (c1\<lparr>ac_per_slot := dict_set (ac_per_slot c1) (st_slot_id task) (n - 1),
                   ac_exclusive := fold (\<lambda>r d. if dict_get d r = Some task_id then dict_pop d r else d)
                     (st_exclusive_resources task) (ac_exclusive c1)\<rparr>, Inr ()))"

section \<open>Scheduler\<close>

record PrismScheduler =
  ps_policy :: PrismPolicy
  ps_controller :: AdmissionController
  ps_slots :: "(string, SlotSupervisor) dict"
  ps_children :: "(string, string list) dict"
  ps_tasks :: "(string, ScheduledTask) dict"
  ps_states :: "(string, string) dict"
  ps_queued_reasons :: "(string, string) dict"
  ps_served :: "(string, int) dict"
  ps_decisions :: "PrismAdmissionDecision list"
  ps_timings :: "(string, int \<times> int option) dict"
  ps_max_overlap :: nat
  ps_affected_ready_sets :: "string list"

definition PrismScheduler_init :: "PrismPolicy \<Rightarrow> BudgetObservation option \<Rightarrow> PrismScheduler" where
  "PrismScheduler_init policy observation =
    \<lparr>ps_policy = policy, ps_controller = AdmissionController_init policy observation, ps_slots = [], ps_children = [],
     ps_tasks = [], ps_states = [], ps_queued_reasons = [], ps_served = [], ps_decisions = [], ps_timings = [],
     ps_max_overlap = 0, ps_affected_ready_sets = []\<rparr>"

definition set_add :: "'a \<Rightarrow> 'a list \<Rightarrow> 'a list" where
  "set_add x xs = (if x \<in> set xs then xs else xs @ [x])"

definition register_slot :: "SlotSupervisor \<Rightarrow> PrismScheduler \<Rightarrow> sched_failure + PrismScheduler" where
  "register_slot slot s =
    (let parent = (case ss_parent_slot_id slot of Some p \<Rightarrow> if p = [] then None else Some p | None \<Rightarrow> None)
     in if in_dict (ss_slot_id slot) (ps_slots s) then Inl (PrismSchedulerError ''duplicate slot'')
        else if \<exists>m \<in> set_option (po_max_active_slots (ps_policy s)). m \<le> int (length (ps_slots s))
        then Inl (PrismSchedulerError ''max_active_slots exceeded'')
        else if ss_capacity slot < po_max_tasks_per_slot (ps_policy s)
        then Inl (PrismSchedulerError ''slot capacity is below scheduler minimum'')
        else if \<exists>p \<in> set_option parent. \<not> in_dict p (ps_slots s)
        then Inl (PrismSchedulerError ''parent slot must be registered first'')
        else Inr (s\<lparr>ps_slots := dict_set (ps_slots s) (ss_slot_id slot) slot,
               ps_children := (case parent of None \<Rightarrow> ps_children s
                 | Some p \<Rightarrow> dict_set (ps_children s) p (set_add (ss_slot_id slot) (dict_get_or (ps_children s) p [])))\<rparr>))"

definition PrismScheduler_submit ::
    "contract_hashes \<Rightarrow> ScheduledTask \<Rightarrow> PrismScheduler \<Rightarrow> sched_failure + PrismScheduler \<times> Prism_Contracts.AdmissionReceipt" where
  "PrismScheduler_submit H task s =
    (if in_dict (st_task_id task) (ps_tasks s) then Inl (PrismSchedulerError ''duplicate task'')
     else case dict_get (ps_slots s) (st_slot_id task) of
       None \<Rightarrow> Inl (PrismSchedulerError ''task references unknown slot'')
     | Some slot \<Rightarrow>
         if \<exists>d \<in> set (st_depends_on task). \<not> in_dict d (ps_tasks s)
         then Inl (PrismSchedulerError ''dependency must be submitted first'')
         else (case admit_task H slot (st_ownership task) of
             Inl e \<Rightarrow> Inl (FromContract e)
           | Inr (updated, receipt) \<Rightarrow>
               let s1 = s\<lparr>ps_tasks := dict_set (ps_tasks s) (st_task_id task) task,
                      ps_states := dict_set (ps_states s) (st_task_id task) ''queued''\<rparr>
               in Inr (if ar_admitted receipt
                    then s1\<lparr>ps_slots := dict_set (ps_slots s1) (ss_slot_id slot) updated,
                           ps_queued_reasons := dict_set (ps_queued_reasons s1) (st_task_id task) ''READY_CHECK_PENDING''\<rparr>
                    else s1\<lparr>ps_queued_reasons := dict_set (ps_queued_reasons s1) (st_task_id task) (ar_reason_code receipt)\<rparr>,
                  receipt)))"

definition apply_delta :: "string list \<Rightarrow> PrismScheduler \<Rightarrow> sched_failure + PrismScheduler \<times> string list" where
  "apply_delta task_ids s =
    (if \<exists>k \<in> set task_ids. \<not> in_dict k (ps_tasks s) then Inl (PrismSchedulerError ''delta references unknown tasks'')
     else
       let affected = remdups (task_ids @ map st_task_id (filter (\<lambda>t. \<exists>d \<in> set (st_depends_on t). d \<in> set task_ids) (dict_values (ps_tasks s))))
       in Inr (s\<lparr>ps_affected_ready_sets := remdups (ps_affected_ready_sets s @ affected)\<rparr>, sort affected))"

definition task_ready :: "PrismScheduler \<Rightarrow> ScheduledTask \<Rightarrow> bool" where
  "task_ready s task \<longleftrightarrow>
    dict_get (ps_states s) (st_task_id task) = Some ''queued''
    \<and> dict_get (ps_queued_reasons s) (st_task_id task) \<noteq> Some ''SLOT_LOGICAL_CAPACITY''
    \<and> \<not> (\<exists>d \<in> set (st_depends_on task). dict_get (ps_states s) d \<noteq> Some ''accepted'')
    \<and> \<not> (\<exists>k \<in> set (st_hard_conflicts task). in_dict k (ac_active (ps_controller s)))
    \<and> \<not> (\<exists>a \<in> set (dict_values (ac_active (ps_controller s))). st_task_id task \<in> set (st_hard_conflicts a))"

definition ready_set :: "PrismScheduler \<Rightarrow> string list" where
  "ready_set s = map st_task_id (sort_key
     (\<lambda>t. (dict_get_or (ps_served s) (st_slot_id t) 0, - st_priority t, st_slot_id t, st_task_id t))
     (filter (task_ready s) (dict_values (ps_tasks s))))"

fun batch_loop :: "(string \<Rightarrow> int) \<Rightarrow> string list \<Rightarrow> PrismScheduler \<Rightarrow> ScheduledTask list \<Rightarrow>
    PrismScheduler \<times> (sched_failure + ScheduledTask list)" where
  \<comment> \<open>the loop of \<open>next_batch\<close> over the ready set it computed first\<close>
  "batch_loop now [] s selected = (s, Inr selected)"
| "batch_loop now (task_id # ids) s selected =
    (case dict_get (ps_tasks s) task_id of
       None \<Rightarrow> (s, Inl (MissingKey task_id))
     | Some task \<Rightarrow>
         if \<not> task_ready s task
         then batch_loop now ids (s\<lparr>ps_queued_reasons := dict_set (ps_queued_reasons s) task_id ''HARD_CONFLICT_ACTIVE''\<rparr>) selected
         else (case controller_decide (now task_id) task (ps_controller s) of
             (c, Inl e) \<Rightarrow> (s\<lparr>ps_controller := c\<rparr>, Inl e)
           | (c, Inr decision) \<Rightarrow>
               let s1 = s\<lparr>ps_controller := c, ps_decisions := ps_decisions s @ [decision]\<rparr>
               in if \<not> ad_admitted decision
                  then batch_loop now ids (s1\<lparr>ps_queued_reasons := dict_set (ps_queued_reasons s1) task_id (ad_reason_code decision)\<rparr>) selected
                  else (case controller_acquire task decision c of
                      Inl e \<Rightarrow> (s1, Inl e)
                    | Inr c2 \<Rightarrow> batch_loop now ids (s1\<lparr>ps_controller := c2, ps_states := dict_set (ps_states s1) task_id ''running'',
                        ps_queued_reasons := dict_pop (ps_queued_reasons s1) task_id,
                        ps_served := dict_set (ps_served s1) (st_slot_id task) (dict_get_or (ps_served s1) (st_slot_id task) 0 + 1)\<rparr>)
                        (selected @ [task]))))"

definition next_batch :: "(string \<Rightarrow> int) \<Rightarrow> PrismScheduler \<Rightarrow> PrismScheduler \<times> (sched_failure + ScheduledTask list)" where
  "next_batch now s =
    (case batch_loop now (ready_set s) s [] of
       (s1, Inl e) \<Rightarrow> (s1, Inl e)
     | (s1, Inr selected) \<Rightarrow>
         (s1\<lparr>ps_max_overlap := max (ps_max_overlap s1) (length (ac_active (ps_controller s1)))\<rparr>, Inr selected))"

definition PrismScheduler_complete ::
    "string \<Rightarrow> string \<Rightarrow> string \<Rightarrow> int \<Rightarrow> PrismScheduler \<Rightarrow> PrismScheduler \<times> (sched_failure + unit)" where
  "PrismScheduler_complete task_id state owner_agent fence s =
    (if state \<notin> set TERMINAL then (s, Inl (PrismSchedulerError ''completion state must be terminal''))
     else case dict_get (ps_tasks s) task_id of
       None \<Rightarrow> (s, Inl (PrismSchedulerError ''task is not active''))
     | Some task \<Rightarrow>
         if dict_get (ps_states s) task_id \<noteq> Some ''running'' then (s, Inl (PrismSchedulerError ''task is not active''))
         else if ow_owner_agent (st_ownership task) \<noteq> owner_agent \<or> ow_fence (st_ownership task) \<noteq> fence
         then (s, Inl (PrismSchedulerError ''stale or non-owner completion''))
         else (case controller_release task_id (ps_controller s) of
             (c, Inl e) \<Rightarrow> (s\<lparr>ps_controller := c\<rparr>, Inl e)
           | (c, Inr _) \<Rightarrow> (s\<lparr>ps_controller := c, ps_states := dict_set (ps_states s) task_id state\<rparr>, Inr ())))"

section \<open>Cancellation\<close>

lemma fresh_shrinks:
  fixes children :: "(string, string list) dict"
  defines "reach_set \<equiv> set (concat (dict_values children))"
  assumes "fresh = filter (\<lambda>c. c \<notin> set targets) (remdups (dict_get_or children parent []))" and "fresh \<noteq> []"
  shows "card (reach_set - set (targets @ fresh)) < card (reach_set - set targets)"
proof -
  obtain c where c: "c \<in> set fresh" using assms(3) by (meson list.set_sel(1))
  then have "c \<in> set (dict_get_or children parent [])" "c \<notin> set targets" unfolding assms(2) by auto
  then have "c \<in> reach_set" unfolding reach_set_def dict_get_or_def
    by (cases "dict_get children parent") (force dest: dict_get_in_values)+
  moreover have "finite reach_set" by (simp add: reach_set_def)
  ultimately show ?thesis using c \<open>c \<notin> set targets\<close> by (intro psubset_card_mono) auto
qed

function slot_closure :: "(string, string list) dict \<Rightarrow> string list \<Rightarrow> string list \<Rightarrow> string list" where
  \<comment> \<open>the loop of \<open>cancel_slot\<close>: \<open>targets\<close>, and \<open>frontier\<close> with its last element first\<close>
  "slot_closure children targets [] = targets"
| "slot_closure children targets (parent # frontier) =
    (let fresh = filter (\<lambda>c. c \<notin> set targets) (remdups (dict_get_or children parent []))
     in slot_closure children (targets @ fresh) (rev fresh @ frontier))"
  by pat_completeness auto
termination
proof (relation "measures [\<lambda>(children, targets, frontier). card (set (concat (dict_values children)) - set targets),
    \<lambda>(children, targets, frontier). length frontier]", goal_cases)
  case (2 children targets parent frontier fresh)
  then show ?case using fresh_shrinks [OF 2] by (cases "fresh = []") auto
qed simp

fun cancel_tasks :: "string list \<Rightarrow> (string \<times> ScheduledTask) list \<Rightarrow> PrismScheduler \<Rightarrow> string list \<Rightarrow>
    PrismScheduler \<times> (sched_failure + string list)" where
  "cancel_tasks targets [] s cancelled = (s, Inr (sort cancelled))"
| "cancel_tasks targets ((task_id, task) # rest) s cancelled =
    (if st_slot_id task \<notin> set targets then cancel_tasks targets rest s cancelled
     else case dict_get (ps_states s) task_id of
       None \<Rightarrow> (s, Inl (MissingKey task_id))
     | Some state \<Rightarrow>
         if state \<in> set TERMINAL then cancel_tasks targets rest s cancelled
         else (case (if state = ''running'' then controller_release task_id (ps_controller s) else (ps_controller s, Inr ())) of
             (c, Inl e) \<Rightarrow> (s\<lparr>ps_controller := c\<rparr>, Inl e)
           | (c, Inr _) \<Rightarrow> cancel_tasks targets rest
               (s\<lparr>ps_controller := c, ps_states := dict_set (ps_states s) task_id ''cancelled''\<rparr>) (cancelled @ [task_id])))"

definition cancel_slot :: "string \<Rightarrow> PrismScheduler \<Rightarrow> PrismScheduler \<times> (sched_failure + string list)" where
  "cancel_slot slot_id s =
    (if \<not> in_dict slot_id (ps_slots s) then (s, Inl (PrismSchedulerError ''unknown slot''))
     else cancel_tasks (slot_closure (ps_children s) [slot_id] [slot_id]) (ps_tasks s) s [])"

section \<open>Execution\<close>

datatype worker_outcome = WorkerReturned string | WorkerCancelled | WorkerRaised

fun outcome_state :: "worker_outcome \<Rightarrow> string" where
  "outcome_state (WorkerReturned result) = (if result \<in> set TERMINAL then result else ''failed'')"
| "outcome_state WorkerCancelled = ''cancelled''"
| "outcome_state WorkerRaised = ''failed''"

definition finish_one ::
    "(ScheduledTask \<Rightarrow> worker_outcome) \<Rightarrow> (string \<Rightarrow> int \<times> int) \<Rightarrow> ScheduledTask \<Rightarrow> PrismScheduler \<Rightarrow> PrismScheduler \<times> (sched_failure + unit)" where
  \<comment> \<open>\<open>run_one\<close>, once its worker has returned or raised\<close>
  "finish_one worker perf task s =
    (let s1 = s\<lparr>ps_timings := dict_set (ps_timings s) (st_task_id task) (fst (perf (st_task_id task)), Some (snd (perf (st_task_id task))))\<rparr>
     in if dict_get (ps_states s1) (st_task_id task) = Some ''running''
        then PrismScheduler_complete (st_task_id task) (outcome_state (worker task))
          (ow_owner_agent (st_ownership task)) (ow_fence (st_ownership task)) s1
        else (s1, Inr ()))"

fun finish_all ::
    "(ScheduledTask \<Rightarrow> worker_outcome) \<Rightarrow> (string \<Rightarrow> int \<times> int) \<Rightarrow> ScheduledTask list \<Rightarrow> PrismScheduler \<Rightarrow> PrismScheduler \<times> (sched_failure + unit)" where
  "finish_all worker perf [] s = (s, Inr ())"
| "finish_all worker perf (t # ts) s =
    (case finish_one worker perf t s of
       (s1, Inl e) \<Rightarrow> (s1, Inl e)
     | (s1, Inr _) \<Rightarrow> finish_all worker perf ts s1)"

definition block_one :: "string \<times> string \<Rightarrow> PrismScheduler \<Rightarrow> PrismScheduler" where
  "block_one = (\<lambda>(k, state) s'. if state = ''queued''
       then s'\<lparr>ps_states := dict_set (ps_states s') k ''blocked'',
              ps_queued_reasons := dict_set (ps_queued_reasons s') k ''UNSATISFIED_DEPENDENCY_OR_BUDGET''\<rparr>
       else s')"

definition block_queued :: "PrismScheduler \<Rightarrow> PrismScheduler" where
  "block_queued s = fold block_one (ps_states s) s"

partial_function (option) execute ::
    "(ScheduledTask \<Rightarrow> worker_outcome) \<Rightarrow> (nat \<Rightarrow> string \<Rightarrow> int) \<Rightarrow> (nat \<Rightarrow> string \<Rightarrow> int \<times> int) \<Rightarrow>
     (nat \<Rightarrow> ScheduledTask list \<Rightarrow> ScheduledTask list) \<Rightarrow> nat \<Rightarrow> PrismScheduler \<Rightarrow> (PrismScheduler \<times> (sched_failure + unit)) option" where
  \<comment> \<open>the loop of \<open>execute\<close> in round \<open>n\<close>; \<open>None\<close> is a loop that never ends\<close>
  "execute worker now perf finish_order n s =
    (if \<forall>state \<in> set (dict_values (ps_states s)). state \<in> set TERMINAL then Some (s, Inr ())
     else case next_batch (now n) s of
       (s1, Inl e) \<Rightarrow> Some (s1, Inl e)
     | (s1, Inr batch) \<Rightarrow>
         if batch = [] then Some (block_queued s1, Inr ())
         else (case finish_all worker (perf n) (finish_order n batch) s1 of
             (s2, Inl e) \<Rightarrow> Some (s2, Inl e)
           | (s2, Inr _) \<Rightarrow> execute worker now perf finish_order (Suc n) s2))"

section \<open>Checkpoints\<close>

definition SCHEDULER_SNAPSHOT_SCHEMA :: string where
  "SCHEDULER_SNAPSHOT_SCHEMA = ''simplicio.prism-scheduler-snapshot/v1''"

record scheduler_snapshot =
  sn_schema :: string
  sn_policy :: PrismPolicy
  sn_slots :: "string list"
  sn_slot_records :: "SlotSupervisor option list option"
  sn_task_records :: "ScheduledTask option list option"
  sn_states :: "(string, string) dict option"
  sn_queued_reasons :: "(string, string) dict option"
  sn_active :: "string list"
  sn_decisions :: "PrismAdmissionDecision list"
  sn_affected_ready_sets :: "string list"
  sn_logical_tasks :: nat
  sn_logical_slots :: nat
  sn_max_temporal_overlap :: nat
  sn_timings :: "(string, int \<times> int option) dict"

record scheduler_hashes =
  sh_snapshot :: "scheduler_snapshot \<Rightarrow> string"
  sh_task :: "ScheduledTask \<Rightarrow> string"

definition sorted_dict :: "(string, 'v) dict \<Rightarrow> (string, 'v) dict" where
  \<comment> \<open>\<open>dict(sorted(d.items()))\<close>; keys are unique\<close>
  "sorted_dict d = sort_key fst d"

definition PrismScheduler_snapshot :: "scheduler_hashes \<Rightarrow> PrismScheduler \<Rightarrow> scheduler_snapshot \<times> string" where
  "PrismScheduler_snapshot G s =
    (let payload = \<lparr>sn_schema = SCHEDULER_SNAPSHOT_SCHEMA, sn_policy = ps_policy s, sn_slots = sort (dict_keys (ps_slots s)),
           sn_slot_records = Some (map (\<lambda>k. dict_get (ps_slots s) k) (sort (dict_keys (ps_slots s)))),
           sn_task_records = Some (map (\<lambda>k. dict_get (ps_tasks s) k) (sort (dict_keys (ps_tasks s)))),
           sn_states = Some (sorted_dict (ps_states s)), sn_queued_reasons = Some (sorted_dict (ps_queued_reasons s)),
           sn_active = sort (dict_keys (ac_active (ps_controller s))), sn_decisions = ps_decisions s,
           sn_affected_ready_sets = sort (ps_affected_ready_sets s), sn_logical_tasks = length (ps_tasks s),
           sn_logical_slots = length (ps_slots s), sn_max_temporal_overlap = ps_max_overlap s,
           sn_timings = sorted_dict (ps_timings s)\<rparr>
     in (payload, sh_snapshot G payload))"

definition restore_states :: "scheduler_hashes \<Rightarrow> scheduler_snapshot \<times> string \<Rightarrow> PrismScheduler \<Rightarrow> sched_failure + PrismScheduler" where
  "restore_states G snap s =
    (let (body, digest) = snap
     in if sn_schema body \<noteq> SCHEDULER_SNAPSHOT_SCHEMA \<or> sh_snapshot G body \<noteq> digest
        then Inl (PrismSchedulerError ''snapshot digest mismatch'')
        else case sn_states body of
          None \<Rightarrow> Inl (PrismSchedulerError ''snapshot task set mismatch'')
        | Some states \<Rightarrow>
            if set (dict_keys states) \<noteq> set (dict_keys (ps_tasks s)) then Inl (PrismSchedulerError ''snapshot task set mismatch'')
            else (case sn_slot_records body of
                None \<Rightarrow> Inl (PrismSchedulerError ''snapshot slot hierarchy mismatch'')
              | Some slot_records \<Rightarrow>
                  if set (map ss_slot_id (List.map_filter (\<lambda>x. x) slot_records)) \<noteq> set (dict_keys (ps_slots s))
                  then Inl (PrismSchedulerError ''snapshot slot hierarchy mismatch'')
                  else (case sn_task_records body of
                      None \<Rightarrow> Inl (PrismSchedulerError ''snapshot task records missing'')
                    | Some task_records \<Rightarrow>
                        if length task_records \<noteq> length (ps_tasks s) then Inl (PrismSchedulerError ''snapshot task records missing'')
                        else
                          let actual = dict_of (map (\<lambda>t. (st_task_id t, t)) (List.map_filter (\<lambda>x. x) task_records))
                          in if set (dict_keys actual) \<noteq> set (dict_keys (ps_tasks s))
                                \<or> (\<exists>k \<in> set (dict_keys (ps_tasks s)).
                                      map_option (sh_task G) (dict_get actual k) \<noteq> map_option (sh_task G) (dict_get (ps_tasks s) k))
                             then Inl (PrismSchedulerError ''snapshot task definition mismatch'')
                             else if ''running'' \<in> set (dict_values states)
                             then Inl (PrismSchedulerError ''running state requires lease reconciliation'')
                             else Inr (s\<lparr>ps_states := states,
                                    ps_queued_reasons := (case sn_queued_reasons body of None \<Rightarrow> [] | Some d \<Rightarrow> d)\<rparr>))))"

section \<open>Facts about resources\<close>

lemma rv_fits_iff: "fst (rv_fits v limit) \<longleftrightarrow> (\<forall>(name, get) \<in> set RV_FIELDS. get limit = 0 \<or> get v \<le> get limit)"
proof -
  have "fst (rv_fits v limit) \<longleftrightarrow> List.find (\<lambda>(name, get). get limit \<noteq> 0 \<and> get limit < get v) RV_FIELDS = None"
    unfolding rv_fits_def by (simp split: option.split prod.split)
  also have "\<dots> \<longleftrightarrow> (\<forall>(name, get) \<in> set RV_FIELDS. get limit = 0 \<or> get v \<le> get limit)"
    unfolding find_None_iff by (auto simp: not_less)
  finally show ?thesis .
qed

lemma rv_plus_field: "(name, get) \<in> set RV_FIELDS \<Longrightarrow> get (rv_plus a b) = get a + get b"
  by (auto simp: RV_FIELDS_def rv_plus_def)

lemma no_resources_field: "(name, get) \<in> set RV_FIELDS \<Longrightarrow> get (no_resources 0) = 0"
  by (auto simp: RV_FIELDS_def no_resources_def)

lemma rv_valid: "ResourceVector_post_init v = Inr w \<longleftrightarrow> w = v \<and> (\<forall>(name, get) \<in> set RV_FIELDS. 0 \<le> get v)"
proof -
  have "ResourceVector_post_init v = Inr w \<longleftrightarrow> w = v \<and> List.find (\<lambda>(name, get). get v < 0) RV_FIELDS = None"
    unfolding ResourceVector_post_init_def by (auto split: option.split prod.split)
  also have "\<dots> \<longleftrightarrow> w = v \<and> (\<forall>(name, get) \<in> set RV_FIELDS. 0 \<le> get v)"
    unfolding find_None_iff by (auto simp: not_less)
  finally show ?thesis .
qed

lemma rv_plus_valid: "ResourceVector_post_init a = Inr a \<Longrightarrow> ResourceVector_post_init b = Inr b \<Longrightarrow>
    ResourceVector_post_init (rv_plus a b) = Inr (rv_plus a b)"
  by (fastforce simp: rv_valid rv_plus_field)

lemma usage_field:
  assumes "(name, get) \<in> set RV_FIELDS"
  shows "get (controller_usage c) = dict_sum (\<lambda>t. get (st_resources t)) (ac_active c)"
proof -
  have "get (fold (\<lambda>t usage. rv_plus usage (st_resources t)) (dict_values d) u) = get u + dict_sum (\<lambda>t. get (st_resources t)) d"
    for d :: "(string, ScheduledTask) dict" and u
    by (induction d arbitrary: u) (simp_all add: rv_plus_field [OF assms])
  then show ?thesis by (simp add: controller_usage_def no_resources_field [OF assms])
qed

section \<open>Invariant of the controller\<close>

definition controller_inv :: "AdmissionController \<Rightarrow> bool" where
  "controller_inv c \<longleftrightarrow> distinct (dict_keys (ac_active c))
     \<and> (\<forall>k t. dict_get (ac_active c) k = Some t \<longrightarrow> st_task_id t = k \<and> in_dict (st_slot_id t) (ac_per_slot c))
     \<and> (\<forall>r k. dict_get (ac_exclusive c) r = Some k \<longleftrightarrow>
          (\<exists>t. dict_get (ac_active c) k = Some t \<and> r \<in> set (st_exclusive_resources t)))
     \<and> (\<forall>slot. dict_get_or (ac_per_slot c) slot 0 = dict_sum (\<lambda>t. if st_slot_id t = slot then 1 else 0) (ac_active c))"

lemma fold_set_all: "dict_get (fold (\<lambda>r d. dict_set d r k) rs ex) r = (if r \<in> set rs then Some k else dict_get ex r)"
  by (induction rs arbitrary: ex) auto

lemma fold_pop_owned:
  "dict_get (fold (\<lambda>r d. if dict_get d r = Some k then dict_pop d r else d) rs ex) r
     = (if r \<in> set rs \<and> dict_get ex r = Some k then None else dict_get ex r)"
  by (induction rs arbitrary: ex) auto

lemma acquire_inv:
  assumes "controller_inv c" and "controller_acquire t d c = Inr c'"
    and "\<forall>r \<in> set (st_exclusive_resources t). \<not> in_dict r (ac_exclusive c)"
  shows "controller_inv c'"
proof -
  have new: "dict_get (ac_active c) (st_task_id t) = None" and c': "c' = c\<lparr>ac_active := dict_set (ac_active c) (st_task_id t) t,
      ac_per_slot := dict_set (ac_per_slot c) (st_slot_id t) (dict_get_or (ac_per_slot c) (st_slot_id t) 0 + 1),
      ac_exclusive := fold (\<lambda>r d. dict_set d r (st_task_id t)) (st_exclusive_resources t) (ac_exclusive c)\<rparr>"
    using assms(2) by (auto simp: controller_acquire_def in_dict_def split: if_splits)
  have "st_task_id t \<notin> set (dict_keys (ac_active c))" using new by (metis map_of_eq_None_iff list.set_map)
  then have sum: "dict_sum f (dict_set (ac_active c) (st_task_id t) t) = dict_sum f (ac_active c) + f t" for f :: "ScheduledTask \<Rightarrow> int"
    by (rule dict_sum_set_new)
  have "dict_get (ac_exclusive c) r \<noteq> Some (st_task_id t)" for r
    using assms(1) new by (auto simp: controller_inv_def)
  then show ?thesis using assms(1,3) new unfolding c' controller_inv_def
    by (auto simp: sum fold_set_all in_dict_def)
qed

lemma release_ok:
  assumes "controller_inv c" and "dict_get (ac_active c) k = Some t"
  obtains c' where "controller_release k c = (c', Inr ())" and "controller_inv c'" and "ac_active c' = dict_pop (ac_active c) k"
    and "ac_policy c' = ac_policy c" and "ac_observation c' = ac_observation c" and "ac_decisions c' = ac_decisions c"
proof -
  obtain n where n: "dict_get (ac_per_slot c) (st_slot_id t) = Some n" using assms unfolding controller_inv_def in_dict_def by blast
  let ?c = "c\<lparr>ac_active := dict_pop (ac_active c) k, ac_per_slot := dict_set (ac_per_slot c) (st_slot_id t) (n - 1),
     ac_exclusive := fold (\<lambda>r d. if dict_get d r = Some k then dict_pop d r else d) (st_exclusive_resources t) (ac_exclusive c)\<rparr>"
  have d: "distinct (dict_keys (ac_active c))" using assms(1) by (simp add: controller_inv_def)
  have sum: "dict_sum f (dict_pop (ac_active c) k) = dict_sum f (ac_active c) - f t" for f :: "ScheduledTask \<Rightarrow> int"
    by (rule dict_sum_pop [OF d assms(2)])
  have ids: "\<And>k t. dict_get (ac_active c) k = Some t \<Longrightarrow> st_task_id t = k \<and> in_dict (st_slot_id t) (ac_per_slot c)"
    and ex: "\<And>r k. dict_get (ac_exclusive c) r = Some k \<longleftrightarrow> (\<exists>t. dict_get (ac_active c) k = Some t \<and> r \<in> set (st_exclusive_resources t))"
    and per: "\<And>slot. dict_get_or (ac_per_slot c) slot 0 = dict_sum (\<lambda>t. if st_slot_id t = slot then 1 else 0) (ac_active c)"
    using assms(1) unfolding controller_inv_def by blast+
  have "controller_inv ?c"
    unfolding controller_inv_def
  proof (intro conjI allI impI)
    show "distinct (dict_keys (ac_active ?c))" using d by simp
    fix slot show "dict_get_or (ac_per_slot ?c) slot 0 = dict_sum (\<lambda>t. if st_slot_id t = slot then 1 else 0) (ac_active ?c)"
      using per [of slot] n by (auto simp: sum dict_get_or_Some)
  next
    fix k' t' assume "dict_get (ac_active ?c) k' = Some t'"
    then have "dict_get (ac_active c) k' = Some t'" by (simp del: map_of_eq_Some_iff split: if_splits)
    from ids [OF this] show "st_task_id t' = k'" "in_dict (st_slot_id t') (ac_per_slot ?c)" by (auto simp: in_dict_def)
  next
    fix r k'
    show "dict_get (ac_exclusive ?c) r = Some k' \<longleftrightarrow> (\<exists>t. dict_get (ac_active ?c) k' = Some t \<and> r \<in> set (st_exclusive_resources t))"
      using ex [of r k'] ex [of r k] assms(2) by (cases "k' = k") (simp_all del: map_of_eq_Some_iff add: fold_pop_owned, auto simp del: map_of_eq_Some_iff)
  qed
  moreover have "controller_release k c = (?c, Inr ())" using assms(2) n by (simp add: controller_release_def Let_def)
  ultimately show thesis using that by simp
qed

definition admissible :: "int \<Rightarrow> ScheduledTask \<Rightarrow> AdmissionController \<Rightarrow> bool" where
  "admissible now_ns t c \<longleftrightarrow>
    ''workers'' \<notin> set (bo_unavailable (ac_observation c))
    \<and> (rv_provider_requests (st_resources t) = 0 \<or> (\<forall>n \<in> set_option (bo_provider_retry_after_ns (ac_observation c)). n \<le> now_ns))
    \<and> (\<forall>r \<in> set (st_exclusive_resources t). \<not> in_dict r (ac_exclusive c))
    \<and> (st_kind t = ''implementation'' \<longrightarrow> implementation_active c
         < max 1 (rv_workers (effective_limit (ac_observation c)) - po_recovery_reserve (ac_policy c) - po_validation_reserve (ac_policy c)))
    \<and> fst (rv_fits (rv_plus (controller_usage c) (st_resources t)) (effective_limit (ac_observation c)))"

lemma decide_ok:
  assumes "\<not> in_dict (st_task_id t) (ac_active c)"
  obtains d where "controller_decide now_ns t c = (c\<lparr>ac_decisions := ac_decisions c @ [d]\<rparr>, Inr d)"
    and "ad_task_id d = st_task_id t" and "ad_admitted d \<longleftrightarrow> admissible now_ns t c"
proof -
  define d where "d = projr (snd (controller_decide now_ns t c))"
  have "controller_decide now_ns t c = (c\<lparr>ac_decisions := ac_decisions c @ [d]\<rparr>, Inr d) \<and> ad_task_id d = st_task_id t"
    using assms unfolding d_def controller_decide_def record_decision_def by (simp add: Let_def)
  moreover have "ad_admitted d \<longleftrightarrow> admissible now_ns t c"
    using assms unfolding d_def controller_decide_def record_decision_def admissible_def
    by (auto simp: Let_def algebra_simps)
  ultimately show thesis using that by blast
qed

section \<open>Invariant of the scheduler\<close>

lemma task_names_idem [simp]: "task_names (task_names vs) = task_names vs"
proof -
  have "map strip (task_names vs) = task_names vs" by (intro map_idI) (auto simp: task_names_def)
  moreover have "filter (\<lambda>v. v \<noteq> []) (task_names vs) = task_names vs" by (auto simp: task_names_def filter_id_conv)
  ultimately have "task_names (task_names vs) = sorted_set (task_names vs)" by (simp add: task_names_def)
  then show ?thesis by (simp add: task_names_def)
qed

interpretation scheduled_task: normalizer ScheduledTask_post_init
  by unfold_locales (auto simp: ScheduledTask_post_init_def Let_def split: if_splits)

definition task_ok :: "ScheduledTask \<Rightarrow> bool" where
  "task_ok t \<longleftrightarrow> ScheduledTask_post_init t = Inr t \<and> ResourceVector_post_init (st_resources t) = Inr (st_resources t)"

lemma constructed_task:
  assumes "ScheduledTask_post_init t0 = Inr t"
  shows "st_task_id t \<notin> set (st_hard_conflicts t)" "st_task_id t \<notin> set (st_depends_on t)" "1 \<le> rv_workers (st_resources t)"
    "st_slot_id t = ow_slot_id (st_ownership t)" "st_task_id t = ow_task_id (st_ownership t)"
  using assms by (auto simp: ScheduledTask_post_init_def Let_def split: if_splits)

lemmas task_okD = constructed_task [of t t for t]

definition slots_inv :: "contract_hashes \<Rightarrow> PrismScheduler \<Rightarrow> bool" where
  "slots_inv H s \<longleftrightarrow> distinct (dict_keys (ps_slots s)) \<and> (\<forall>k slot. dict_get (ps_slots s) k = Some slot \<longrightarrow> slot_wf H slot)
     \<and> (\<forall>p c. c \<in> set (dict_get_or (ps_children s) p []) \<longleftrightarrow>
          (\<exists>slot. dict_get (ps_slots s) c = Some slot \<and> ss_parent_slot_id slot = Some p))"

definition TASK_PHASES :: "string list" where
  "TASK_PHASES = ''queued'' # ''running'' # TERMINAL"

definition tasks_wf :: "PrismScheduler \<Rightarrow> bool" where
  "tasks_wf s \<longleftrightarrow> distinct (dict_keys (ps_tasks s)) \<and> distinct (dict_keys (ps_states s))
     \<and> (\<forall>k. in_dict k (ps_states s) \<longleftrightarrow> in_dict k (ps_tasks s))
     \<and> (\<forall>k st. dict_get (ps_states s) k = Some st \<longrightarrow> st \<in> set TASK_PHASES)
     \<and> (\<forall>k t. dict_get (ps_tasks s) k = Some t \<longrightarrow> st_task_id t = k \<and> task_ok t \<and> (\<forall>d \<in> set (st_depends_on t). in_dict d (ps_tasks s)))"

definition deps_inv :: "PrismScheduler \<Rightarrow> bool" where
  "deps_inv s \<longleftrightarrow> (\<forall>k t. dict_get (ps_tasks s) k = Some t \<longrightarrow> dict_get (ps_states s) k \<in> {Some ''running'', Some ''accepted''} \<longrightarrow>
          (\<forall>d \<in> set (st_depends_on t). dict_get (ps_states s) d = Some ''accepted''))"

definition active_inv :: "PrismScheduler \<Rightarrow> bool" where
  "active_inv s \<longleftrightarrow> controller_inv (ps_controller s)
     \<and> (\<forall>k t. dict_get (ac_active (ps_controller s)) k = Some t \<longleftrightarrow>
          dict_get (ps_tasks s) k = Some t \<and> dict_get (ps_states s) k = Some ''running'')
     \<and> (\<forall>k t k'. dict_get (ac_active (ps_controller s)) k = Some t \<longrightarrow> in_dict k' (ac_active (ps_controller s)) \<longrightarrow>
          k' \<notin> set (st_hard_conflicts t))"

definition same_core :: "PrismScheduler \<Rightarrow> PrismScheduler \<Rightarrow> bool" where
  "same_core s s' \<longleftrightarrow> ps_tasks s' = ps_tasks s \<and> ps_states s' = ps_states s \<and> ps_slots s' = ps_slots s \<and> ps_children s' = ps_children s
     \<and> ac_active (ps_controller s') = ac_active (ps_controller s) \<and> ac_per_slot (ps_controller s') = ac_per_slot (ps_controller s)
     \<and> ac_exclusive (ps_controller s') = ac_exclusive (ps_controller s)"

definition sched_ok :: "contract_hashes \<Rightarrow> PrismScheduler \<Rightarrow> bool" where
  "sched_ok H s \<longleftrightarrow> slots_inv H s \<and> tasks_wf s \<and> deps_inv s \<and> active_inv s"

lemma sched_ok_core: "same_core s s' \<Longrightarrow> sched_ok H s \<Longrightarrow> sched_ok H s'"
  unfolding sched_ok_def slots_inv_def tasks_wf_def deps_inv_def active_inv_def controller_inv_def same_core_def by (elim conjE) (simp only: simp_thms)

lemma slots_inv_frame: "ps_slots s' = ps_slots s \<Longrightarrow> ps_children s' = ps_children s \<Longrightarrow> slots_inv H s \<Longrightarrow> slots_inv H s'"
  by (simp add: slots_inv_def)

lemma active_iff:
  "active_inv s \<Longrightarrow> in_dict k (ac_active (ps_controller s)) \<longleftrightarrow> in_dict k (ps_tasks s) \<and> dict_get (ps_states s) k = Some ''running''"
  unfolding active_inv_def in_dict_def by (metis not_None_eq)

lemma ready_not_active: "active_inv s \<Longrightarrow> task_ready s t \<Longrightarrow> \<not> in_dict (st_task_id t) (ac_active (ps_controller s))"
  by (simp add: active_iff task_ready_def)

lemma tasks_wf_state:
  assumes "tasks_wf s" and "in_dict k (ps_states s)" and "ps_tasks s' = ps_tasks s" and "ps_states s' = dict_set (ps_states s) k v"
    and "v \<in> set TASK_PHASES"
  shows "tasks_wf s'"
proof -
  have "in_dict k' (ps_states s') \<longleftrightarrow> in_dict k' (ps_states s)" for k' using assms(2) by (simp add: assms(4) in_dict_def)
  moreover have "\<forall>k' st. dict_get (ps_states s') k' = Some st \<longrightarrow> st \<in> set TASK_PHASES"
    using assms(1,5) unfolding tasks_wf_def assms(4) by (auto split: if_splits simp del: map_of_eq_Some_iff)
  ultimately show ?thesis using assms(1) by (simp add: tasks_wf_def assms(3,4) del: map_of_eq_Some_iff)
qed

lemma deps_inv_state:
  assumes "deps_inv s" and "dict_get (ps_states s) k \<noteq> Some ''accepted''"
    and "\<And>t. dict_get (ps_tasks s) k = Some t \<Longrightarrow> v \<in> {''running'', ''accepted''} \<Longrightarrow>
      \<forall>d \<in> set (st_depends_on t). dict_get (ps_states s) d = Some ''accepted''"
    and "ps_tasks s' = ps_tasks s" and "ps_states s' = dict_set (ps_states s) k v"
  shows "deps_inv s'"
  unfolding deps_inv_def assms(4)
proof (intro allI impI ballI)
  fix k' t d
  assume t: "dict_get (ps_tasks s) k' = Some t" "dict_get (ps_states s') k' \<in> {Some ''running'', Some ''accepted''}" "d \<in> set (st_depends_on t)"
  have "dict_get (ps_states s) d = Some ''accepted''"
  proof (cases "k' = k")
    case True
    then have "v \<in> {''running'', ''accepted''}" using t(2) by (auto simp: assms(5))
    then show ?thesis using assms(3) t(1,3) True by blast
  next
    case False
    then have "dict_get (ps_states s) k' \<in> {Some ''running'', Some ''accepted''}" using t(2) by (simp add: assms(5))
    then show ?thesis using assms(1) t(1,3) unfolding deps_inv_def by blast
  qed
  then show "dict_get (ps_states s') d = Some ''accepted''" using assms(2) by (auto simp: assms(5))
qed

text \<open>A task starts: it becomes active and running.\<close>

lemma start_task_ok:
  assumes ok: "sched_ok H s" and t: "dict_get (ps_tasks s) k = Some t" and ready: "task_ready s t"
    and free: "\<forall>r \<in> set (st_exclusive_resources t). \<not> in_dict r (ac_exclusive (ps_controller s))"
    and acq: "controller_acquire t d (ps_controller s) = Inr c"
    and s': "ps_tasks s' = ps_tasks s" "ps_states s' = dict_set (ps_states s) k ''running''" "ps_slots s' = ps_slots s"
      "ps_children s' = ps_children s" "ac_active (ps_controller s') = ac_active c" "ac_per_slot (ps_controller s') = ac_per_slot c"
      "ac_exclusive (ps_controller s') = ac_exclusive c"
  shows "sched_ok H s'"
proof -
  have wf: "tasks_wf s" and act: "active_inv s" using ok by (simp_all add: sched_ok_def)
  have id: "st_task_id t = k" and tok: "task_ok t" using wf t by (auto simp: tasks_wf_def simp del: map_of_eq_Some_iff)
  have queued: "dict_get (ps_states s) k = Some ''queued''" using ready id by (simp add: task_ready_def)
  have active: "ac_active c = dict_set (ac_active (ps_controller s)) k t"
    using acq id by (auto simp: controller_acquire_def split: if_splits)
  have "controller_inv c" using acquire_inv [OF _ acq free] act by (simp add: active_inv_def)
  then have cinv: "controller_inv (ps_controller s')" by (simp add: controller_inv_def s')
  have A: "dict_get (ac_active (ps_controller s)) k' = Some t' \<longleftrightarrow> dict_get (ps_tasks s) k' = Some t' \<and> dict_get (ps_states s) k' = Some ''running''"
    for k' t' using act unfolding active_inv_def by blast
  have "dict_get (ac_active (ps_controller s')) k' = Some t' \<longleftrightarrow>
      dict_get (ps_tasks s') k' = Some t' \<and> dict_get (ps_states s') k' = Some ''running''" for k' t'
    using A [of k' t'] t by (simp add: s' active del: map_of_eq_Some_iff)
  moreover have "k'' \<notin> set (st_hard_conflicts t')" if "dict_get (ac_active (ps_controller s')) k' = Some t'"
    "in_dict k'' (ac_active (ps_controller s'))" for k' k'' t'
  proof -
    have old: "k'' \<notin> set (st_hard_conflicts t')" if "dict_get (ac_active (ps_controller s)) k' = Some t'" "in_dict k'' (ac_active (ps_controller s))"
      using that act unfolding active_inv_def by blast
    have "k \<notin> set (st_hard_conflicts t)" using task_okD(1) tok id by (auto simp: task_ok_def)
    moreover have "\<forall>x \<in> set (st_hard_conflicts t). \<not> in_dict x (ac_active (ps_controller s))"
      "\<forall>a \<in> set (dict_values (ac_active (ps_controller s))). k \<notin> set (st_hard_conflicts a)"
      using ready id unfolding task_ready_def by blast+
    moreover have "t' \<in> set (dict_values (ac_active (ps_controller s)))" if "dict_get (ac_active (ps_controller s)) k' = Some t'"
      using that by (rule dict_get_in_values)
    ultimately show ?thesis using that old
      by (cases "k' = k"; cases "k'' = k") (auto simp: s' active in_dict_def simp del: map_of_eq_Some_iff)
  qed
  ultimately have "active_inv s'" using cinv unfolding active_inv_def by blast
  moreover have "tasks_wf s'" by (rule tasks_wf_state [OF wf _ s'(1,2)]) (use queued in \<open>simp_all add: in_dict_def TASK_PHASES_def\<close>)
  moreover have "deps_inv s'"
  proof (rule deps_inv_state [OF _ _ _ s'(1,2)])
    show "deps_inv s" using ok by (simp add: sched_ok_def)
    show "dict_get (ps_states s) k \<noteq> Some ''accepted''" using queued by simp
    show "\<forall>d \<in> set (st_depends_on t'). dict_get (ps_states s) d = Some ''accepted''" if "dict_get (ps_tasks s) k = Some t'" for t'
      using that t ready unfolding task_ready_def by auto
  qed
  moreover have "slots_inv H s'" using ok s'(3,4) by (auto simp: sched_ok_def intro: slots_inv_frame)
  ultimately show ?thesis by (simp add: sched_ok_def)
qed

text \<open>A task ends: it leaves the controller, if it was running, and its state becomes terminal.\<close>

lemma end_task_ok:
  assumes ok: "sched_ok H s" and old: "dict_get (ps_states s) k = Some st" and st: "st \<noteq> ''accepted''"
    and v: "v \<noteq> ''running''" "v = ''accepted'' \<Longrightarrow> st = ''running''" "v \<in> set TERMINAL"
    and s': "ps_tasks s' = ps_tasks s" "ps_states s' = dict_set (ps_states s) k v" "ps_slots s' = ps_slots s"
      "ps_children s' = ps_children s" "ac_active (ps_controller s') = dict_pop (ac_active (ps_controller s)) k"
    and c: "controller_inv (ps_controller s')"
  shows "sched_ok H s'"
proof -
  have act: "active_inv s" and wf: "tasks_wf s" using ok by (simp_all add: sched_ok_def)
  have A: "dict_get (ac_active (ps_controller s)) k' = Some t' \<longleftrightarrow> dict_get (ps_tasks s) k' = Some t' \<and> dict_get (ps_states s) k' = Some ''running''"
    for k' t' using act unfolding active_inv_def by blast
  have "dict_get (ac_active (ps_controller s')) k' = Some t' \<longleftrightarrow>
      dict_get (ps_tasks s') k' = Some t' \<and> dict_get (ps_states s') k' = Some ''running''" for k' t'
    using A [of k' t'] v(1) by (simp add: s' del: map_of_eq_Some_iff)
  moreover have "k'' \<notin> set (st_hard_conflicts t')" if a: "dict_get (ac_active (ps_controller s')) k' = Some t'"
    "in_dict k'' (ac_active (ps_controller s'))" for k' k'' t'
  proof -
    have "dict_get (ac_active (ps_controller s)) k' = Some t'" "in_dict k'' (ac_active (ps_controller s))"
      using a by (auto simp: s' in_dict_def split: if_splits simp del: map_of_eq_Some_iff)
    then show ?thesis using act unfolding active_inv_def by blast
  qed
  ultimately have "active_inv s'" using c unfolding active_inv_def by blast
  moreover have "tasks_wf s'" by (rule tasks_wf_state [OF wf _ s'(1,2)]) (use old v(3) in \<open>simp_all add: in_dict_def TASK_PHASES_def\<close>)
  moreover have "deps_inv s'"
  proof (rule deps_inv_state [OF _ _ _ s'(1,2)])
    show deps: "deps_inv s" using ok by (simp add: sched_ok_def)
    show "dict_get (ps_states s) k \<noteq> Some ''accepted''" using old st by simp
    show "\<forall>d \<in> set (st_depends_on t). dict_get (ps_states s) d = Some ''accepted''"
      if "dict_get (ps_tasks s) k = Some t" "v \<in> {''running'', ''accepted''}" for t
      using that deps v(1,2) old unfolding deps_inv_def by blast
  qed
  moreover have "slots_inv H s'" using ok s'(3,4) by (auto simp: sched_ok_def intro: slots_inv_frame)
  ultimately show ?thesis by (simp add: sched_ok_def)
qed

definition limits_kept :: "PrismScheduler \<Rightarrow> PrismScheduler \<Rightarrow> bool" where
  "limits_kept s s' \<longleftrightarrow> ps_tasks s' = ps_tasks s \<and> ps_slots s' = ps_slots s \<and> ps_children s' = ps_children s \<and> ps_policy s' = ps_policy s
     \<and> ac_policy (ps_controller s') = ac_policy (ps_controller s) \<and> ac_observation (ps_controller s') = ac_observation (ps_controller s)"

lemma limits_kept_trans: "limits_kept s s' \<Longrightarrow> limits_kept s' s'' \<Longrightarrow> limits_kept s s''"
  by (simp add: limits_kept_def)

definition within_limit :: "PrismScheduler \<Rightarrow> bool" where
  "within_limit s \<longleftrightarrow> fst (rv_fits (controller_usage (ps_controller s)) (effective_limit (ac_observation (ps_controller s))))"

definition reserve_kept :: "PrismScheduler \<Rightarrow> bool" where
  "reserve_kept s \<longleftrightarrow> implementation_active (ps_controller s)
     \<le> max 1 (rv_workers (effective_limit (ac_observation (ps_controller s)))
          - po_recovery_reserve (ac_policy (ps_controller s)) - po_validation_reserve (ac_policy (ps_controller s)))"

lemma usage_acquire:
  assumes "controller_acquire t d c = Inr c'"
  shows "fst (rv_fits (controller_usage c') l) \<longleftrightarrow> fst (rv_fits (rv_plus (controller_usage c) (st_resources t)) l)"
    and "implementation_active c' = implementation_active c + (if st_kind t = ''implementation'' then 1 else 0)"
proof -
  have new: "st_task_id t \<notin> set (dict_keys (ac_active c))" and c': "ac_active c' = dict_set (ac_active c) (st_task_id t) t"
    using assms by (auto simp: controller_acquire_def in_dict_keys split: if_splits)
  have "snd p (controller_usage c') = snd p (rv_plus (controller_usage c) (st_resources t))" if "p \<in> set RV_FIELDS" for p
  proof -
    have p: "(fst p, snd p) \<in> set RV_FIELDS" using that by simp
    show ?thesis unfolding usage_field [OF p] rv_plus_field [OF p] c' by (rule dict_sum_set_new [OF new])
  qed
  then show "fst (rv_fits (controller_usage c') l) \<longleftrightarrow> fst (rv_fits (rv_plus (controller_usage c) (st_resources t)) l)"
    unfolding rv_fits_iff by (simp add: split_beta)
  show "implementation_active c' = implementation_active c + (if st_kind t = ''implementation'' then 1 else 0)"
    unfolding implementation_active_def c' dict_set_new [OF new] by simp
qed

definition started :: "PrismScheduler \<Rightarrow> ScheduledTask list \<Rightarrow> PrismScheduler \<Rightarrow> bool" where
  \<comment> \<open>what a batch of newly started tasks changed\<close>
  "started s new s' \<longleftrightarrow>
    (\<forall>k. dict_get (ps_states s') k = (if k \<in> st_task_id ` set new then Some ''running'' else dict_get (ps_states s) k))
    \<and> (\<forall>t \<in> set new. dict_get (ps_tasks s) (st_task_id t) = Some t \<and> dict_get (ps_states s) (st_task_id t) = Some ''queued'')
    \<and> distinct (map st_task_id new)
    \<and> (new = [] \<longrightarrow> ac_active (ps_controller s') = ac_active (ps_controller s))
    \<and> implementation_active (ps_controller s') = implementation_active (ps_controller s) + int (length (filter (\<lambda>t. st_kind t = ''implementation'') new))
    \<and> (new \<noteq> [] \<longrightarrow> within_limit s') \<and> ((\<exists>t \<in> set new. st_kind t = ''implementation'') \<longrightarrow> reserve_kept s')"

lemma started_nil:
  assumes "ps_states s' = ps_states s" and "ac_active (ps_controller s') = ac_active (ps_controller s)"
  shows "started s [] s'"
  using assms by (simp add: started_def implementation_active_def)

lemma started_frame:
  assumes "same_core s s1" and "limits_kept s s1" and "started s1 new s'"
  shows "started s new s'"
  using assms unfolding started_def same_core_def limits_kept_def implementation_active_def
  by (elim conjE) (simp only: simp_thms)

lemma started_cons:
  assumes t: "dict_get (ps_tasks s) (st_task_id t) = Some t" "dict_get (ps_states s) (st_task_id t) = Some ''queued''"
    and s1: "limits_kept s s1" "ps_states s1 = dict_set (ps_states s) (st_task_id t) ''running''" "within_limit s1"
      "st_kind t = ''implementation'' \<Longrightarrow> reserve_kept s1"
      "implementation_active (ps_controller s1) = implementation_active (ps_controller s) + (if st_kind t = ''implementation'' then 1 else 0)"
    and new: "started s1 new s'" and s': "limits_kept s1 s'"
  shows "started s (t # new) s'"
proof -
  have "t' \<in> set new \<Longrightarrow> st_task_id t' \<noteq> st_task_id t" for t'
    using new s1(2) by (auto simp: started_def)
  then have fresh: "st_task_id t \<notin> st_task_id ` set new" by (metis imageE)
  have "within_limit s'"
  proof (cases "new = []")
    case True
    then show ?thesis using s1(3) new s' by (simp add: within_limit_def controller_usage_def started_def limits_kept_def)
  qed (use new in \<open>simp add: started_def\<close>)
  moreover have "reserve_kept s'" if "\<exists>t \<in> set (t # new). st_kind t = ''implementation''"
  proof (cases "\<exists>t \<in> set new. st_kind t = ''implementation''")
    case False
    then have "filter (\<lambda>t. st_kind t = ''implementation'') new = []" by (simp add: filter_empty_conv)
    then show ?thesis using that False s1(4) new s' by (simp add: reserve_kept_def started_def limits_kept_def)
  qed (use new in \<open>simp add: started_def\<close>)
  moreover have "\<forall>k. dict_get (ps_states s') k = (if k \<in> st_task_id ` set (t # new) then Some ''running'' else dict_get (ps_states s) k)"
    using new s1(2) by (auto simp: started_def)
  moreover have "dict_get (ps_tasks s) (st_task_id t') = Some t' \<and> dict_get (ps_states s) (st_task_id t') = Some ''queued''"
    if "t' \<in> set (t # new)" for t'
  proof (cases "t' = t")
    case False
    then have "t' \<in> set new" using that by simp
    then have "dict_get (ps_tasks s1) (st_task_id t') = Some t'" "dict_get (ps_states s1) (st_task_id t') = Some ''queued''"
      using new unfolding started_def by blast+
    then show ?thesis using s1(1,2) by (auto simp: limits_kept_def split: if_splits)
  qed (use t in simp)
  moreover have "distinct (map st_task_id (t # new))" using new fresh by (simp add: started_def)
  moreover have "implementation_active (ps_controller s') = implementation_active (ps_controller s)
      + int (length (filter (\<lambda>t. st_kind t = ''implementation'') (t # new)))" using new s1(5) by (simp add: started_def)
  ultimately show ?thesis unfolding started_def by blast
qed

lemma decide_reason:
  assumes "controller_decide n t c = (c', Inr d)"
  shows "ad_reason_code d \<noteq> ''SLOT_LOGICAL_CAPACITY''"
proof -
  have p: "xs @ ''_PRESSURE'' \<noteq> ''SLOT_LOGICAL_CAPACITY''" for xs :: string
  proof
    assume "xs @ ''_PRESSURE'' = ''SLOT_LOGICAL_CAPACITY''"
    then have "last (xs @ ''_PRESSURE'') = last ''SLOT_LOGICAL_CAPACITY''" by (simp only:)
    then show False by simp
  qed
  show ?thesis using assms p unfolding controller_decide_def record_decision_def Let_def
    by (simp split: if_split_asm) (elim conjE, hypsubst, simp)+
qed

text \<open>One round of the batch loop either skips its task or starts it.\<close>

lemma batch_skip:
  assumes ok: "sched_ok H s" and t: "dict_get (ps_tasks s) k = Some t"
    and no: "task_ready s t \<Longrightarrow> \<not> admissible (now k) t (ps_controller s)"
  obtains s1 where "\<And>ids sel. batch_loop now (k # ids) s sel = batch_loop now ids s1 sel" and "same_core s s1" and "limits_kept s s1"
    and "\<And>k'. k' \<noteq> k \<Longrightarrow> dict_get (ps_queued_reasons s1) k' = dict_get (ps_queued_reasons s) k'"
    and "dict_get (ps_queued_reasons s1) k \<noteq> Some ''SLOT_LOGICAL_CAPACITY''"
proof (cases "task_ready s t")
  case False
  let ?s1 = "s\<lparr>ps_queued_reasons := dict_set (ps_queued_reasons s) k ''HARD_CONFLICT_ACTIVE''\<rparr>"
  show thesis by (rule that [of ?s1]) (use t False in \<open>simp_all add: same_core_def limits_kept_def\<close>)
next
  case True
  let ?c = "ps_controller s"
  have "active_inv s" using ok by (simp add: sched_ok_def)
  then obtain d where d: "controller_decide (now k) t ?c = (?c\<lparr>ac_decisions := ac_decisions ?c @ [d]\<rparr>, Inr d)"
    "ad_admitted d \<longleftrightarrow> admissible (now k) t ?c"
    using decide_ok [OF ready_not_active [OF _ True]] by metis
  let ?s1 = "s\<lparr>ps_controller := ?c\<lparr>ac_decisions := ac_decisions ?c @ [d]\<rparr>, ps_decisions := ps_decisions s @ [d],
     ps_queued_reasons := dict_set (ps_queued_reasons s) k (ad_reason_code d)\<rparr>"
  show thesis
    by (rule that [of ?s1]) (use t True d no decide_reason [OF d(1)] in \<open>simp_all add: same_core_def limits_kept_def Let_def\<close>)
qed

lemma batch_start:
  assumes ok: "sched_ok H s" and t: "dict_get (ps_tasks s) k = Some t"
    and ready: "task_ready s t" and adm: "admissible (now k) t (ps_controller s)"
  obtains s2 where "\<And>ids sel. batch_loop now (k # ids) s sel = batch_loop now ids s2 (sel @ [t])" and "sched_ok H s2"
    and "limits_kept s s2" and "ps_states s2 = dict_set (ps_states s) k ''running''" and "within_limit s2"
    and "st_kind t = ''implementation'' \<Longrightarrow> reserve_kept s2"
    and "implementation_active (ps_controller s2) = implementation_active (ps_controller s) + (if st_kind t = ''implementation'' then 1 else 0)"
    and "ps_queued_reasons s2 = dict_pop (ps_queued_reasons s) k"
proof -
  let ?c = "ps_controller s"
  have act: "active_inv s" using ok by (simp add: sched_ok_def)
  obtain d where d: "controller_decide (now k) t ?c = (?c\<lparr>ac_decisions := ac_decisions ?c @ [d]\<rparr>, Inr d)"
    "ad_task_id d = st_task_id t" "ad_admitted d"
    using decide_ok [OF ready_not_active [OF act ready]] adm by metis
  let ?c1 = "?c\<lparr>ac_decisions := ac_decisions ?c @ [d]\<rparr>"
  obtain c2 where acq: "controller_acquire t d ?c1 = Inr c2"
    using d(2,3) ready_not_active [OF act ready] by (simp add: controller_acquire_def)
  let ?s2 = "s\<lparr>ps_decisions := ps_decisions s @ [d], ps_controller := c2, ps_states := dict_set (ps_states s) k ''running'',
      ps_queued_reasons := dict_pop (ps_queued_reasons s) k,
      ps_served := dict_set (ps_served s) (st_slot_id t) (dict_get_or (ps_served s) (st_slot_id t) 0 + 1)\<rparr>"
  have run: "batch_loop now (k # ids) s sel = batch_loop now ids ?s2 (sel @ [t])" for ids sel
    using t ready d(1,3) acq by (simp add: Let_def)
  have c2: "ac_policy c2 = ac_policy ?c" "ac_observation c2 = ac_observation ?c"
    using acq by (auto simp: controller_acquire_def split: if_splits)
  have ok1: "sched_ok H (s\<lparr>ps_controller := ?c1\<rparr>)" by (rule sched_ok_core [OF _ ok]) (simp add: same_core_def)
  have "sched_ok H ?s2"
  proof (rule start_task_ok [OF ok1 _ _ _ _ _ _ _ _ _ _ _])
    show "controller_acquire t d (ps_controller (s\<lparr>ps_controller := ?c1\<rparr>)) = Inr c2" using acq by simp
    show "\<forall>r \<in> set (st_exclusive_resources t). \<not> in_dict r (ac_exclusive (ps_controller (s\<lparr>ps_controller := ?c1\<rparr>)))"
      using adm by (simp add: admissible_def)
    show "task_ready (s\<lparr>ps_controller := ?c1\<rparr>) t" using ready by (simp add: task_ready_def)
  qed (use t in simp_all)
  moreover have "limits_kept s ?s2" by (simp add: limits_kept_def c2)
  moreover have usage: "controller_usage ?c1 = controller_usage ?c" "implementation_active ?c1 = implementation_active ?c"
    by (simp_all add: controller_usage_def implementation_active_def)
  have "within_limit ?s2" using adm usage_acquire(1) [OF acq] by (simp add: within_limit_def admissible_def c2 usage)
  moreover have "st_kind t = ''implementation'' \<Longrightarrow> reserve_kept ?s2"
    using adm usage_acquire(2) [OF acq] by (simp add: reserve_kept_def admissible_def c2 usage)
  moreover have "implementation_active (ps_controller ?s2) = implementation_active ?c + (if st_kind t = ''implementation'' then 1 else 0)"
    using usage_acquire(2) [OF acq] by (simp add: usage)
  ultimately show thesis using that [of ?s2] run by simp
qed

definition capacity_kept :: "PrismScheduler \<Rightarrow> PrismScheduler \<Rightarrow> bool" where
  \<comment> \<open>no task is newly refused for logical capacity\<close>
  "capacity_kept s s' \<longleftrightarrow> (\<forall>k. dict_get (ps_queued_reasons s') k = Some ''SLOT_LOGICAL_CAPACITY'' \<longrightarrow>
     dict_get (ps_queued_reasons s) k = Some ''SLOT_LOGICAL_CAPACITY'')"

lemma batch_loop_ok:
  assumes "sched_ok H s" and "\<forall>k \<in> set ids. in_dict k (ps_tasks s)"
  shows "\<exists>s' new. batch_loop now ids s sel = (s', Inr (sel @ new)) \<and> sched_ok H s' \<and> limits_kept s s' \<and> started s new s' \<and> capacity_kept s s'"
  using assms
proof (induction ids arbitrary: s sel)
  case Nil
  then show ?case using started_nil [of s s] by (auto simp: limits_kept_def capacity_kept_def)
next
  case (Cons k ids)
  obtain t where t: "dict_get (ps_tasks s) k = Some t" using Cons.prems(2) by (auto simp: in_dict_def)
  have id: "st_task_id t = k" using Cons.prems(1) t by (simp add: sched_ok_def tasks_wf_def del: map_of_eq_Some_iff)
  show ?case
  proof (cases "task_ready s t \<and> admissible (now k) t (ps_controller s)")
    case False
    then obtain s1 where s1: "\<And>ids sel. batch_loop now (k # ids) s sel = batch_loop now ids s1 sel" "same_core s s1" "limits_kept s s1"
      "\<And>k'. k' \<noteq> k \<Longrightarrow> dict_get (ps_queued_reasons s1) k' = dict_get (ps_queued_reasons s) k'"
      "dict_get (ps_queued_reasons s1) k \<noteq> Some ''SLOT_LOGICAL_CAPACITY''"
      using batch_skip [OF Cons.prems(1) t] by metis
    have "\<forall>k \<in> set ids. in_dict k (ps_tasks s1)" using s1(2) Cons.prems(2) by (simp add: same_core_def)
    moreover have "capacity_kept s s'" if "capacity_kept s1 s'" for s'
      using that s1(4,5) unfolding capacity_kept_def by metis
    ultimately show ?thesis using Cons.IH [OF sched_ok_core [OF s1(2) Cons.prems(1)], of sel] s1(1) started_frame [OF s1(2,3)]
      limits_kept_trans [OF s1(3)] by metis
  next
    case True
    then obtain s2 where s2: "\<And>ids sel. batch_loop now (k # ids) s sel = batch_loop now ids s2 (sel @ [t])" "sched_ok H s2" "limits_kept s s2"
      "ps_states s2 = dict_set (ps_states s) k ''running''" "within_limit s2" "st_kind t = ''implementation'' \<Longrightarrow> reserve_kept s2"
      "implementation_active (ps_controller s2) = implementation_active (ps_controller s) + (if st_kind t = ''implementation'' then 1 else 0)"
      "ps_queued_reasons s2 = dict_pop (ps_queued_reasons s) k"
      using batch_start [OF Cons.prems(1) t] by metis
    have "\<forall>k \<in> set ids. in_dict k (ps_tasks s2)" using Cons.prems(2) s2(3) by (simp add: limits_kept_def)
    from Cons.IH [OF s2(2) this, of "sel @ [t]"] obtain s' new where
      n: "batch_loop now ids s2 (sel @ [t]) = (s', Inr ((sel @ [t]) @ new))" "sched_ok H s'" "limits_kept s2 s'" "started s2 new s'"
      "capacity_kept s2 s'" by blast
    have "started s (t # new) s'"
    proof (rule started_cons [OF _ _ s2(3) _ s2(5,6,7) n(4,3)])
      show "dict_get (ps_tasks s) (st_task_id t) = Some t" using t id by simp
      show "dict_get (ps_states s) (st_task_id t) = Some ''queued''" using True by (simp add: task_ready_def)
      show "ps_states s2 = dict_set (ps_states s) (st_task_id t) ''running''" using id s2(4) by simp
    qed
    moreover have "capacity_kept s s'" using n(5) s2(8) by (auto simp: capacity_kept_def split: if_splits simp del: map_of_eq_Some_iff)
    ultimately show ?thesis using n(1,2) limits_kept_trans [OF s2(3) n(3)] unfolding s2(1) by auto
  qed
qed

lemma admissible_core:
  assumes "same_core s s'" and "limits_kept s s'"
  shows "admissible n t (ps_controller s') \<longleftrightarrow> admissible n t (ps_controller s)"
  using assms unfolding admissible_def same_core_def limits_kept_def controller_usage_def implementation_active_def
  by (elim conjE) (simp only: simp_thms)

lemma batch_loop_idle:
  assumes "sched_ok H s" and "\<forall>k \<in> set ids. in_dict k (ps_tasks s)" and "distinct ids"
    and "batch_loop now ids s sel = (s', Inr sel)" and "k \<in> set ids" and "dict_get (ps_tasks s) k = Some t" and "task_ready s t"
  shows "\<not> admissible (now k) t (ps_controller s)"
  using assms
proof (induction ids arbitrary: s)
  case (Cons k0 ids)
  obtain t0 where t0: "dict_get (ps_tasks s) k0 = Some t0" using Cons.prems(2) by (auto simp: in_dict_def)
  have no: "\<not> admissible (now k0) t0 (ps_controller s)" if r: "task_ready s t0"
  proof
    assume "admissible (now k0) t0 (ps_controller s)"
    then obtain s2 where s2: "\<And>ids sel. batch_loop now (k0 # ids) s sel = batch_loop now ids s2 (sel @ [t0])" "sched_ok H s2" "limits_kept s s2"
      using batch_start [OF Cons.prems(1) t0 r] by metis
    have "\<forall>k \<in> set ids. in_dict k (ps_tasks s2)" using Cons.prems(2) s2(3) by (simp add: limits_kept_def)
    from batch_loop_ok [OF s2(2) this, of now "sel @ [t0]"] show False using Cons.prems(4) s2(1) by auto
  qed
  show ?case
  proof (cases "k = k0")
    case True
    then show ?thesis using no t0 Cons.prems(6,7) by simp
  next
    case False
    obtain s1 where s1: "\<And>ids sel. batch_loop now (k0 # ids) s sel = batch_loop now ids s1 sel" "same_core s s1" "limits_kept s s1"
      "\<And>k'. k' \<noteq> k0 \<Longrightarrow> dict_get (ps_queued_reasons s1) k' = dict_get (ps_queued_reasons s) k'"
      using batch_skip [OF Cons.prems(1) t0, of now] no by metis
    have "st_task_id t = k" using Cons.prems(1,6) by (simp add: sched_ok_def tasks_wf_def del: map_of_eq_Some_iff)
    then have "task_ready s1 t" using Cons.prems(7) s1(2,4) False by (simp add: task_ready_def same_core_def)
    moreover have "\<forall>k \<in> set ids. in_dict k (ps_tasks s1)" "dict_get (ps_tasks s1) k = Some t"
      using s1(2) Cons.prems(2,6) by (simp_all add: same_core_def)
    ultimately have "\<not> admissible (now k) t (ps_controller s1)"
      using Cons.IH [OF sched_ok_core [OF s1(2) Cons.prems(1)]] Cons.prems(3-5) s1(1) False by simp
    then show ?thesis using admissible_core [OF s1(2,3)] by simp
  qed
qed simp

lemma admissible_active:
  assumes "controller_inv c" and "controller_inv c'" and "ac_active c' = ac_active c" and "ac_policy c' = ac_policy c"
    and "ac_observation c' = ac_observation c"
  shows "admissible n t c' \<longleftrightarrow> admissible n t c"
proof -
  have ex: "in_dict r (ac_exclusive x) \<longleftrightarrow> (\<exists>k u. dict_get (ac_active x) k = Some u \<and> r \<in> set (st_exclusive_resources u))"
    if "controller_inv x" for r x
    using that unfolding controller_inv_def in_dict_def by (metis not_None_eq)
  show ?thesis unfolding admissible_def controller_usage_def implementation_active_def ex [OF assms(1)] ex [OF assms(2)] assms(3-5) ..
qed

lemma ready_set_known:
  assumes "tasks_wf s" and "k \<in> set (ready_set s)"
  obtains t where "dict_get (ps_tasks s) k = Some t" and "task_ready s t" and "st_task_id t = k"
proof -
  obtain t where t: "t \<in> set (dict_values (ps_tasks s))" "task_ready s t" "k = st_task_id t"
    using assms(2) by (auto simp: ready_set_def)
  obtain k' where "dict_get (ps_tasks s) k' = Some t"
    using dict_values_get [OF _ t(1)] assms(1) by (auto simp: tasks_wf_def simp del: map_of_eq_Some_iff)
  then show thesis using that t assms(1) by (simp add: tasks_wf_def del: map_of_eq_Some_iff)
qed

lemma ready_set_mem:
  assumes "tasks_wf s" and "dict_get (ps_tasks s) k = Some t" and "task_ready s t"
  shows "k \<in> set (ready_set s)"
proof -
  have "st_task_id t = k" using assms(1,2) by (simp add: tasks_wf_def del: map_of_eq_Some_iff)
  then show ?thesis using dict_get_in_values [OF assms(2)] assms(3) by (force simp: ready_set_def)
qed

lemma distinct_ready_set:
  assumes "tasks_wf s"
  shows "distinct (ready_set s)"
proof -
  have "map st_task_id (dict_values (ps_tasks s)) = dict_keys (ps_tasks s)"
    using assms by (auto simp: tasks_wf_def)
  then have "distinct (map st_task_id (dict_values (ps_tasks s)))" using assms unfolding tasks_wf_def by metis
  then have "distinct (map st_task_id (filter (task_ready s) (dict_values (ps_tasks s))))" by (rule distinct_map_filter)
  then show ?thesis unfolding ready_set_def distinct_map by simp
qed

lemma next_batch_ok:
  assumes "sched_ok H s"
  obtains s' batch where "next_batch now s = (s', Inr batch)" and "sched_ok H s'" and "limits_kept s s'" and "started s batch s'"
    and "capacity_kept s s'"
    and "\<And>k t. batch = [] \<Longrightarrow> dict_get (ps_tasks s) k = Some t \<Longrightarrow> task_ready s t \<Longrightarrow> \<not> admissible (now k) t (ps_controller s)"
proof -
  have wf: "tasks_wf s" using assms by (simp add: sched_ok_def)
  have known: "\<forall>k \<in> set (ready_set s). in_dict k (ps_tasks s)" using ready_set_known [OF wf] by (metis in_dict_def option.distinct(1))
  from batch_loop_ok [OF assms known, of now "[]"] obtain s1 batch where
    b: "batch_loop now (ready_set s) s [] = (s1, Inr batch)" "sched_ok H s1" "limits_kept s s1" "started s batch s1" "capacity_kept s s1" by auto
  let ?s' = "s1\<lparr>ps_max_overlap := max (ps_max_overlap s1) (length (ac_active (ps_controller s1)))\<rparr>"
  have "next_batch now s = (?s', Inr batch)" using b(1) by (simp add: next_batch_def)
  moreover have "sched_ok H ?s'" by (rule sched_ok_core [OF _ b(2)]) (simp add: same_core_def)
  moreover have "limits_kept s ?s'" using b(3) by (simp add: limits_kept_def)
  moreover have "within_limit ?s' \<longleftrightarrow> within_limit s1" "reserve_kept ?s' \<longleftrightarrow> reserve_kept s1"
    by (simp_all add: within_limit_def reserve_kept_def)
  then have "started s batch ?s'" using b(4) unfolding started_def by simp
  moreover have "capacity_kept s ?s'" using b(5) by (simp add: capacity_kept_def)
  moreover have "\<not> admissible (now k) t (ps_controller s)" if "batch = []" "dict_get (ps_tasks s) k = Some t" "task_ready s t" for k t
    using batch_loop_idle [OF assms known distinct_ready_set [OF wf] _ ready_set_mem [OF wf that(2,3)] that(2,3)] b(1) that(1) by simp
  ultimately show thesis by (rule that)
qed

lemma next_batch_facts:
  assumes "sched_ok H s" and "next_batch now s = (s', Inr batch)"
  shows "sched_ok H s'" "limits_kept s s'" "started s batch s'" "capacity_kept s s'"
    "batch = [] \<Longrightarrow> dict_get (ps_tasks s) k = Some t \<Longrightarrow> task_ready s t \<Longrightarrow> \<not> admissible (now k) t (ps_controller s)"
  by (rule next_batch_ok [OF assms(1), of now]; use assms(2) in simp)+

lemma complete_cases:
  assumes "sched_ok H s"
  shows "(\<exists>e. PrismScheduler_complete k v owner fence s = (s, Inl e)) \<or>
    (\<exists>s'. PrismScheduler_complete k v owner fence s = (s', Inr ()) \<and> sched_ok H s' \<and> limits_kept s s'
       \<and> ps_states s' = dict_set (ps_states s) k v \<and> ps_queued_reasons s' = ps_queued_reasons s \<and> v \<in> set TERMINAL \<and> dict_get (ps_states s) k = Some ''running'')"
proof (cases "v \<in> set TERMINAL \<and> in_dict k (ps_tasks s) \<and> dict_get (ps_states s) k = Some ''running''")
  case False
  then show ?thesis by (cases "dict_get (ps_tasks s) k") (auto simp: PrismScheduler_complete_def in_dict_def)
next
  case True
  then obtain t where t: "dict_get (ps_tasks s) k = Some t" by (auto simp: in_dict_def)
  have act: "active_inv s" using assms by (simp add: sched_ok_def)
  then have "dict_get (ac_active (ps_controller s)) k = Some t" "controller_inv (ps_controller s)"
    using True t unfolding active_inv_def by blast+
  then obtain c where c: "controller_release k (ps_controller s) = (c, Inr ())" "controller_inv c"
    "ac_active c = dict_pop (ac_active (ps_controller s)) k" "ac_policy c = ac_policy (ps_controller s)"
    "ac_observation c = ac_observation (ps_controller s)" using release_ok by metis
  let ?s' = "s\<lparr>ps_controller := c, ps_states := dict_set (ps_states s) k v\<rparr>"
  have v: "v \<noteq> ''running''" "v \<in> set TERMINAL" using True by (auto simp: TERMINAL_def)
  have "sched_ok H ?s'" by (rule end_task_ok [OF assms, of k "''running''" v]) (use True v c in simp_all)
  moreover have "limits_kept s ?s'" using c by (simp add: limits_kept_def)
  moreover have "PrismScheduler_complete k v owner fence s \<in> {(?s', Inr ()), (s, Inl (PrismSchedulerError ''stale or non-owner completion''))}"
    using True t c(1) by (simp add: PrismScheduler_complete_def)
  ultimately show ?thesis using True by auto
qed

section \<open>Execution ends\<close>

lemma finish_all_ok:
  assumes "sched_ok H s" and "\<forall>t \<in> set ts. dict_get (ps_tasks s) (st_task_id t) = Some t" and "distinct (map st_task_id ts)"
  shows "\<exists>s'. finish_all worker perf ts s = (s', Inr ()) \<and> sched_ok H s' \<and> limits_kept s s' \<and> ps_queued_reasons s' = ps_queued_reasons s
    \<and> (\<forall>k. dict_get (ps_states s') k = (if dict_get (ps_states s) k = Some ''running'' \<and> k \<in> st_task_id ` set ts
          then Some (outcome_state (worker (the (dict_get (ps_tasks s) k)))) else dict_get (ps_states s) k))"
  using assms
proof (induction ts arbitrary: s)
  case Nil
  then show ?case by (simp add: limits_kept_def)
next
  case (Cons t ts)
  let ?k = "st_task_id t"
  define s0 where "s0 = s\<lparr>ps_timings := dict_set (ps_timings s) ?k (fst (perf ?k), Some (snd (perf ?k)))\<rparr>"
  have s0: "sched_ok H s0" "limits_kept s s0" "ps_states s0 = ps_states s" "ps_tasks s0 = ps_tasks s" "ps_queued_reasons s0 = ps_queued_reasons s"
    using sched_ok_core [OF _ Cons.prems(1), of s0] by (simp_all add: s0_def same_core_def limits_kept_def)
  have "\<exists>s1. finish_one worker perf t s = (s1, Inr ()) \<and> sched_ok H s1 \<and> limits_kept s s1 \<and> ps_queued_reasons s1 = ps_queued_reasons s
    \<and> (\<forall>k. dict_get (ps_states s1) k = (if dict_get (ps_states s) k = Some ''running'' \<and> k = ?k
          then Some (outcome_state (worker t)) else dict_get (ps_states s) k))"
  proof (cases "dict_get (ps_states s) ?k = Some ''running''")
    case True
    let ?r = "PrismScheduler_complete ?k (outcome_state (worker t)) (ow_owner_agent (st_ownership t)) (ow_fence (st_ownership t)) s0"
    have t: "dict_get (ps_tasks s0) ?k = Some t" using Cons.prems(2) s0(4) by simp
    have "outcome_state (worker t) \<in> set TERMINAL" by (cases "worker t") (auto simp: TERMINAL_def)
    then have "snd ?r = snd (controller_release ?k (ps_controller s0)) \<or> snd ?r = Inr ()"
      using t True s0(3) by (auto simp: PrismScheduler_complete_def split: prod.splits sum.splits)
    moreover have "snd (controller_release ?k (ps_controller s0)) = Inr ()"
    proof -
      have "dict_get (ac_active (ps_controller s0)) ?k = Some t" "controller_inv (ps_controller s0)"
        using s0(1,3) True t unfolding sched_ok_def active_inv_def by simp_all
      then show ?thesis by (metis release_ok snd_conv)
    qed
    ultimately have "snd ?r = Inr ()" by auto
    with complete_cases [OF s0(1), of ?k "outcome_state (worker t)" "ow_owner_agent (st_ownership t)" "ow_fence (st_ownership t)"]
    obtain s1 where s1: "?r = (s1, Inr ())" "sched_ok H s1" "limits_kept s0 s1" "ps_states s1 = dict_set (ps_states s0) ?k (outcome_state (worker t))"
      "ps_queued_reasons s1 = ps_queued_reasons s0" by auto
    have "finish_one worker perf t s = (s1, Inr ())" using s1(1) True s0(3) by (simp add: finish_one_def s0_def [symmetric] Let_def)
    then show ?thesis using s1 s0 True limits_kept_trans by (intro exI [of _ s1]) auto
  next
    case False
    then show ?thesis using s0 by (intro exI [of _ s0]) (auto simp: finish_one_def Let_def s0_def)
  qed
  then obtain s1 where f: "finish_one worker perf t s = (s1, Inr ())" "sched_ok H s1" "limits_kept s s1"
    "\<And>k. dict_get (ps_states s1) k = (if dict_get (ps_states s) k = Some ''running'' \<and> k = ?k
          then Some (outcome_state (worker t)) else dict_get (ps_states s) k)" "ps_queued_reasons s1 = ps_queued_reasons s" by blast
  have "\<forall>t \<in> set ts. dict_get (ps_tasks s1) (st_task_id t) = Some t" "distinct (map st_task_id ts)"
    using Cons.prems(2,3) f(3) by (simp_all add: limits_kept_def)
  from Cons.IH [OF f(2) this] obtain s' where r: "finish_all worker perf ts s1 = (s', Inr ())" "sched_ok H s'" "limits_kept s1 s'"
    "\<And>k. dict_get (ps_states s') k = (if dict_get (ps_states s1) k = Some ''running'' \<and> k \<in> st_task_id ` set ts
          then Some (outcome_state (worker (the (dict_get (ps_tasks s1) k)))) else dict_get (ps_states s1) k)"
    "ps_queued_reasons s' = ps_queued_reasons s1" by blast
  have "outcome_state w \<noteq> ''running''" for w by (cases w) (auto simp: TERMINAL_def)
  moreover have "?k \<notin> st_task_id ` set ts" using Cons.prems(3) by simp
  moreover have "dict_get (ps_tasks s) ?k = Some t" "ps_tasks s1 = ps_tasks s" using Cons.prems(2) f(3) by (simp_all add: limits_kept_def)
  ultimately have "dict_get (ps_states s') k = (if dict_get (ps_states s) k = Some ''running'' \<and> k \<in> st_task_id ` set (t # ts)
      then Some (outcome_state (worker (the (dict_get (ps_tasks s) k)))) else dict_get (ps_states s) k)" for k
    unfolding r(4) f(4) by (cases "k = ?k") auto
  then show ?case using f(1,5) r(1,2,5) limits_kept_trans [OF f(3) r(3)] by simp
qed

lemma block_fold_ok:
  assumes "sched_ok H s" and "distinct (map fst ps)" and "\<forall>(k, st) \<in> set ps. dict_get (ps_states s) k = Some st"
  shows "sched_ok H (fold block_one ps s) \<and> limits_kept s (fold block_one ps s)
    \<and> ps_controller (fold block_one ps s) = ps_controller s
    \<and> (\<forall>k. dict_get (ps_states (fold block_one ps s)) k = (if (k, ''queued'') \<in> set ps then Some ''blocked'' else dict_get (ps_states s) k))"
  using assms
proof (induction ps arbitrary: s)
  case Nil
  then show ?case by (simp add: limits_kept_def)
next
  case (Cons p ps)
  obtain k st where p: "p = (k, st)" by (cases p)
  show ?case
  proof (cases "st = ''queued''")
    case False
    then have "block_one p s = s" by (simp add: block_one_def p)
    then show ?thesis using Cons p False by auto
  next
    case True
    let ?s1 = "block_one p s"
    have q: "dict_get (ps_states s) k = Some ''queued''" using Cons.prems(3) p True by auto
    have s1: "ps_tasks ?s1 = ps_tasks s" "ps_states ?s1 = dict_set (ps_states s) k ''blocked''" "ps_slots ?s1 = ps_slots s"
      "ps_children ?s1 = ps_children s" "ps_controller ?s1 = ps_controller s" "limits_kept s ?s1"
      by (simp_all add: block_one_def p True limits_kept_def)
    have "\<not> in_dict k (ac_active (ps_controller s))" using Cons.prems(1) q by (simp add: sched_ok_def active_iff)
    then have "dict_pop (ac_active (ps_controller s)) k = ac_active (ps_controller s)"
      by (intro delete_not_in) (simp add: in_dict_keys)
    then have ok1: "sched_ok H ?s1" using Cons.prems(1)
      by (intro end_task_ok [OF Cons.prems(1) q _ _ _ _ s1(1-4)]) (simp_all add: s1 TERMINAL_def sched_ok_def active_inv_def)
    have "\<forall>(k', st) \<in> set ps. dict_get (ps_states ?s1) k' = Some st" using Cons.prems(2,3) p s1(2) by (auto simp: rev_image_eqI)
    with Cons.IH [OF ok1] Cons.prems(2) show ?thesis
      using s1 p True limits_kept_trans [OF s1(6)] by (auto simp: rev_image_eqI split: if_splits)
  qed
qed

definition queued_tasks :: "PrismScheduler \<Rightarrow> string set" where
  "queued_tasks s = {k. dict_get (ps_states s) k = Some ''queued''}"

lemma finite_queued: "finite (queued_tasks s)"
  by (rule finite_subset [of _ "set (dict_keys (ps_states s))"]) (use dict_get_key in \<open>force simp: queued_tasks_def\<close>)+

lemma states_of:
  "tasks_wf s \<Longrightarrow> (\<forall>st \<in> set (dict_values (ps_states s)). P st) \<longleftrightarrow> (\<forall>k st. dict_get (ps_states s) k = Some st \<longrightarrow> P st)"
  unfolding tasks_wf_def by (metis dict_get_in_values dict_values_get)

definition settled :: "(ScheduledTask \<Rightarrow> worker_outcome) \<Rightarrow> (nat \<Rightarrow> string \<Rightarrow> int) \<Rightarrow> PrismScheduler \<Rightarrow> PrismScheduler \<Rightarrow> bool" where
  \<comment> \<open>how an execution that began in \<open>s\<close> left its tasks in \<open>s'\<close>\<close>
  "settled worker now s s' \<longleftrightarrow> (\<forall>k t. dict_get (ps_tasks s) k = Some t \<longrightarrow>
     (if dict_get (ps_states s) k \<noteq> Some ''queued'' then dict_get (ps_states s') k = dict_get (ps_states s) k
      else dict_get (ps_states s') k = Some (outcome_state (worker t)) \<and> (\<forall>d \<in> set (st_depends_on t). dict_get (ps_states s') d = Some ''accepted'')
        \<or> dict_get (ps_states s') k = Some ''blocked'' \<and>
            ((\<exists>d \<in> set (st_depends_on t). dict_get (ps_states s') d \<noteq> Some ''accepted'')
             \<or> dict_get (ps_queued_reasons s) k = Some ''SLOT_LOGICAL_CAPACITY''
             \<or> (\<exists>n. \<not> admissible (now n k) t (ps_controller s')))))"

text \<open>The last round: no task could be started, and the queued ones are blocked.\<close>

lemma settled_block:
  assumes ok: "sched_ok H s" and idle: "\<forall>k. dict_get (ps_states s) k \<noteq> Some ''running''"
    and batch: "next_batch (now n) s = (s1, Inr [])"
  shows "sched_ok H (block_queued s1) \<and> limits_kept s (block_queued s1) \<and> settled worker now s (block_queued s1)
    \<and> (\<forall>k st. dict_get (ps_states (block_queued s1)) k = Some st \<longrightarrow> st \<in> set TERMINAL)
    \<and> ac_active (ps_controller (block_queued s1)) = []"
proof -
  note n = next_batch_facts [OF ok batch]
  have st1: "dict_get (ps_states s1) k = dict_get (ps_states s) k" and act1: "ac_active (ps_controller s1) = ac_active (ps_controller s)" for k
    using n(3) by (simp_all add: started_def)
  let ?s' = "block_queued s1"
  have d: "distinct (dict_keys (ps_states s1))" using n(1) by (simp add: sched_ok_def tasks_wf_def)
  moreover from this have "\<forall>(k, st) \<in> set (ps_states s1). dict_get (ps_states s1) k = Some st" by auto
  ultimately have b: "sched_ok H ?s'" "limits_kept s1 ?s'" "ps_controller ?s' = ps_controller s1"
    "\<And>k. dict_get (ps_states ?s') k = (if (k, ''queued'') \<in> set (ps_states s1) then Some ''blocked'' else dict_get (ps_states s1) k)"
    using block_fold_ok [OF n(1), of "ps_states s1"] unfolding block_queued_def by blast+
  have st': "dict_get (ps_states ?s') k = (if dict_get (ps_states s) k = Some ''queued'' then Some ''blocked'' else dict_get (ps_states s) k)" for k
    using b(4) [of k] st1 [of k] d by (metis map_of_eq_Some_iff)
  have "dict_get (ac_active (ps_controller s)) k = None" for k
    using ok idle active_iff [of s k] by (auto simp: sched_ok_def in_dict_def)
  then have empty: "ac_active (ps_controller s) = []"
    by (metis list.set_intros(1) map_of_eq_None_iff image_eqI neq_Nil_conv)
  have lk: "limits_kept s ?s'" by (rule limits_kept_trans [OF n(2) b(2)])
  have adm: "admissible m t (ps_controller ?s') \<longleftrightarrow> admissible m t (ps_controller s)" for m t
    using ok b(1) lk act1 b(3) by (intro admissible_active) (simp_all add: sched_ok_def active_inv_def limits_kept_def)
  have ended: "st \<in> set TERMINAL" if "dict_get (ps_states ?s') k = Some st" for k st
  proof -
    have "st \<in> set TASK_PHASES" using that b(1) unfolding sched_ok_def tasks_wf_def by blast
    moreover have "st = ''blocked'' \<or> st \<noteq> ''queued'' \<and> st \<noteq> ''running''"
      using that idle unfolding st' by (cases "dict_get (ps_states s) k = Some ''queued''") (simp, metis)
    ultimately show ?thesis by (auto simp: TASK_PHASES_def TERMINAL_def)
  qed
  have "settled worker now s ?s'"
    unfolding settled_def
  proof (intro allI impI)
    fix k t assume t: "dict_get (ps_tasks s) k = Some t"
    have id: "st_task_id t = k" using ok t by (simp add: sched_ok_def tasks_wf_def del: map_of_eq_Some_iff)
    have "\<not> admissible (now n k) t (ps_controller ?s')"
      if "dict_get (ps_states s) k = Some ''queued''" "\<forall>d \<in> set (st_depends_on t). dict_get (ps_states ?s') d = Some ''accepted''"
        "dict_get (ps_queued_reasons s) k \<noteq> Some ''SLOT_LOGICAL_CAPACITY''"
    proof -
      have "task_ready s t" using that st' id empty by (auto simp: task_ready_def in_dict_def split: if_splits)
      then show ?thesis using n(5) t adm by simp
    qed
    then show "if dict_get (ps_states s) k \<noteq> Some ''queued'' then dict_get (ps_states ?s') k = dict_get (ps_states s) k
      else dict_get (ps_states ?s') k = Some (outcome_state (worker t)) \<and> (\<forall>d \<in> set (st_depends_on t). dict_get (ps_states ?s') d = Some ''accepted'')
        \<or> dict_get (ps_states ?s') k = Some ''blocked'' \<and>
            ((\<exists>d \<in> set (st_depends_on t). dict_get (ps_states ?s') d \<noteq> Some ''accepted'')
             \<or> dict_get (ps_queued_reasons s) k = Some ''SLOT_LOGICAL_CAPACITY''
             \<or> (\<exists>n. \<not> admissible (now n k) t (ps_controller ?s')))"
      using st' [of k] by auto
  qed
  then show ?thesis using b(1) lk ended empty act1 b(3) by simp
qed

text \<open>Every round with a batch settles at least one task and leaves none running.\<close>

lemma settled_round:
  assumes ok: "sched_ok H s" and idle: "\<forall>k. dict_get (ps_states s) k \<noteq> Some ''running''"
    and batch: "next_batch now s = (s1, Inr batch)" and order: "mset ts = mset batch"
  obtains s2 where "finish_all worker perf ts s1 = (s2, Inr ())" and "sched_ok H s2" and "limits_kept s s2" and "capacity_kept s s2"
    and "\<And>k. dict_get (ps_states s2) k = (if k \<in> st_task_id ` set batch then Some (outcome_state (worker (the (dict_get (ps_tasks s) k))))
      else dict_get (ps_states s) k)"
proof -
  note n = next_batch_facts [OF ok batch]
  have ts: "set ts = set batch" "distinct (map st_task_id ts)"
    using order n(3) mset_eq_setD mset_eq_imp_distinct_iff [of "map st_task_id ts" "map st_task_id batch"] by (auto simp: started_def)
  have "\<forall>t \<in> set ts. dict_get (ps_tasks s1) (st_task_id t) = Some t"
    using n(2,3) ts(1) unfolding started_def limits_kept_def by simp
  from finish_all_ok [OF n(1) this ts(2), of worker perf] obtain s2 where f: "finish_all worker perf ts s1 = (s2, Inr ())" "sched_ok H s2"
    "limits_kept s1 s2"
    "\<And>k. dict_get (ps_states s2) k = (if dict_get (ps_states s1) k = Some ''running'' \<and> k \<in> st_task_id ` set ts
          then Some (outcome_state (worker (the (dict_get (ps_tasks s1) k)))) else dict_get (ps_states s1) k)"
    "ps_queued_reasons s2 = ps_queued_reasons s1" by blast
  have run: "\<And>k. dict_get (ps_states s1) k = (if k \<in> st_task_id ` set batch then Some ''running'' else dict_get (ps_states s) k)"
    using n(3) unfolding started_def by blast
  have tasks: "ps_tasks s1 = ps_tasks s" using n(2) by (simp add: limits_kept_def)
  have cap: "capacity_kept s s2" using n(4) f(5) by (simp add: capacity_kept_def)
  show thesis
  proof (rule that [OF f(1,2) limits_kept_trans [OF n(2) f(3)] cap])
    fix k
    show "dict_get (ps_states s2) k = (if k \<in> st_task_id ` set batch then Some (outcome_state (worker (the (dict_get (ps_tasks s) k))))
      else dict_get (ps_states s) k)" unfolding f(4) run ts(1) tasks using idle by simp
  qed
qed

lemma outcome_terminal: "outcome_state w \<in> set TERMINAL"
  by (cases w) (auto simp: TERMINAL_def)

lemma terminal_phases: "''queued'' \<notin> set TERMINAL" "''running'' \<notin> set TERMINAL" "''accepted'' \<in> set TERMINAL" "''blocked'' \<in> set TERMINAL"
  by (simp_all add: TERMINAL_def)

lemma batch_deps:
  assumes ok: "sched_ok H s" and batch: "next_batch now s = (s1, Inr batch)" and t: "t \<in> set batch" and d: "d \<in> set (st_depends_on t)"
  shows "dict_get (ps_states s) d = Some ''accepted'' \<and> d \<notin> st_task_id ` set batch"
proof -
  note n = next_batch_facts [OF ok batch]
  have run: "\<And>k. dict_get (ps_states s1) k = (if k \<in> st_task_id ` set batch then Some ''running'' else dict_get (ps_states s) k)"
    and t': "dict_get (ps_tasks s) (st_task_id t) = Some t" using n(3) t unfolding started_def by blast+
  have "dict_get (ps_tasks s1) (st_task_id t) = Some t" using t' n(2) by (simp add: limits_kept_def)
  moreover have "dict_get (ps_states s1) (st_task_id t) = Some ''running''" using run t by simp
  ultimately have "dict_get (ps_states s1) d = Some ''accepted''" using n(1) d unfolding sched_ok_def deps_inv_def by blast
  then show ?thesis using run [of d] by (auto split: if_splits)
qed

lemma settled_trans:
  assumes ok: "sched_ok H s" and batch: "next_batch nw s = (s1, Inr batch)"
    and s2: "\<And>k. dict_get (ps_states s2) k = (if k \<in> st_task_id ` set batch then Some (outcome_state (worker (the (dict_get (ps_tasks s) k))))
      else dict_get (ps_states s) k)" "limits_kept s s2" "capacity_kept s s2" "tasks_wf s2"
    and rest: "settled worker now s2 s'" and idle: "\<forall>k. dict_get (ps_states s) k \<noteq> Some ''running''"
  shows "settled worker now s s'"
  unfolding settled_def
proof (intro allI impI)
  fix k t assume t: "dict_get (ps_tasks s) k = Some t"
  have st: "started s batch s1" by (rule next_batch_facts(3) [OF ok batch])
  have keep: "dict_get (ps_states s') k' = dict_get (ps_states s2) k'" if "dict_get (ps_states s2) k' \<noteq> Some ''queued''" "in_dict k' (ps_tasks s)" for k'
    using rest that s2(2) unfolding settled_def limits_kept_def in_dict_def by (metis not_None_eq)
  have not_q: "outcome_state w \<noteq> ''queued''" for w using outcome_terminal terminal_phases by metis
  have acc: "dict_get (ps_states s') d = Some ''accepted''" if "dict_get (ps_states s2) d = Some ''accepted''" for d
  proof -
    have "in_dict d (ps_tasks s2)" using that s2(4) by (auto simp: tasks_wf_def in_dict_def simp del: map_of_eq_Some_iff)
    then show ?thesis using keep [of d] that s2(2) by (simp add: limits_kept_def)
  qed
  have t2: "dict_get (ps_tasks s2) k = Some t" and tin: "in_dict k (ps_tasks s)" using t s2(2) by (simp_all add: limits_kept_def in_dict_def)
  consider "k \<in> st_task_id ` set batch" | "k \<notin> st_task_id ` set batch" by blast
  then show "if dict_get (ps_states s) k \<noteq> Some ''queued'' then dict_get (ps_states s') k = dict_get (ps_states s) k
      else dict_get (ps_states s') k = Some (outcome_state (worker t)) \<and> (\<forall>d \<in> set (st_depends_on t). dict_get (ps_states s') d = Some ''accepted'')
        \<or> dict_get (ps_states s') k = Some ''blocked'' \<and>
            ((\<exists>d \<in> set (st_depends_on t). dict_get (ps_states s') d \<noteq> Some ''accepted'')
             \<or> dict_get (ps_queued_reasons s) k = Some ''SLOT_LOGICAL_CAPACITY''
             \<or> (\<exists>n. \<not> admissible (now n k) t (ps_controller s')))"
  proof cases
    case 1
    then obtain u where u: "u \<in> set batch" "st_task_id u = k" by auto
    then have "u = t" "dict_get (ps_states s) k = Some ''queued''" using st t unfolding started_def by force+
    moreover have "dict_get (ps_states s2) k = Some (outcome_state (worker t))" using s2(1) [of k] 1 t by simp
    then have "dict_get (ps_states s') k = Some (outcome_state (worker t))" using keep [of k] not_q tin by simp
    moreover have "dict_get (ps_states s') d = Some ''accepted''" if "d \<in> set (st_depends_on t)" for d
    proof -
      have "dict_get (ps_states s2) d = Some ''accepted''" using batch_deps [OF ok batch u(1), of d] \<open>u = t\<close> that s2(1) [of d] by simp
      then show ?thesis by (rule acc)
    qed
    ultimately show ?thesis by simp
  next
    case 2
    then have same: "dict_get (ps_states s2) k = dict_get (ps_states s) k" using s2(1) [of k] by simp
    have "dict_get (ps_queued_reasons s2) k = Some ''SLOT_LOGICAL_CAPACITY'' \<Longrightarrow> dict_get (ps_queued_reasons s) k = Some ''SLOT_LOGICAL_CAPACITY''"
      using s2(3) unfolding capacity_kept_def by blast
    moreover have "if dict_get (ps_states s) k \<noteq> Some ''queued'' then dict_get (ps_states s') k = dict_get (ps_states s) k
      else dict_get (ps_states s') k = Some (outcome_state (worker t)) \<and> (\<forall>d \<in> set (st_depends_on t). dict_get (ps_states s') d = Some ''accepted'')
        \<or> dict_get (ps_states s') k = Some ''blocked'' \<and>
            ((\<exists>d \<in> set (st_depends_on t). dict_get (ps_states s') d \<noteq> Some ''accepted'')
             \<or> dict_get (ps_queued_reasons s2) k = Some ''SLOT_LOGICAL_CAPACITY''
             \<or> (\<exists>n. \<not> admissible (now n k) t (ps_controller s')))"
      using rest t2 unfolding settled_def same [symmetric] by blast
    ultimately show ?thesis unfolding if_bool_eq_conj by blast
  qed
qed

lemma execute_ok:
  assumes order: "\<And>n ts. mset (finish_order n ts) = mset ts" and "sched_ok H s" and "\<forall>k. dict_get (ps_states s) k \<noteq> Some ''running''"
  shows "\<exists>s'. execute worker now perf finish_order n s = Some (s', Inr ()) \<and> sched_ok H s' \<and> limits_kept s s' \<and> settled worker now s s'
    \<and> (\<forall>k st. dict_get (ps_states s') k = Some st \<longrightarrow> st \<in> set TERMINAL) \<and> ac_active (ps_controller s') = []"
  using assms(2,3)
proof (induction "card (queued_tasks s)" arbitrary: s n rule: less_induct)
  case less
  have wf: "tasks_wf s" using less.prems(1) by (simp add: sched_ok_def)
  show ?case
  proof (cases "\<forall>st \<in> set (dict_values (ps_states s)). st \<in> set TERMINAL")
    case True
    then have "execute worker now perf finish_order n s = Some (s, Inr ())" by (simp add: execute.simps)
    moreover have ended: "\<forall>k st. dict_get (ps_states s) k = Some st \<longrightarrow> st \<in> set TERMINAL" using True unfolding states_of [OF wf] .
    moreover have "settled worker now s s" unfolding settled_def using ended terminal_phases by metis
    moreover have "ac_active (ps_controller s) = []"
    proof -
      have "dict_get (ac_active (ps_controller s)) k = None" for k
        using less.prems active_iff [of s k] by (auto simp: sched_ok_def in_dict_def)
      then show ?thesis by (metis list.set_intros(1) map_of_eq_None_iff image_eqI neq_Nil_conv)
    qed
    ultimately show ?thesis using less.prems(1) by (simp add: limits_kept_def)
  next
    case False
    obtain s1 batch where nb: "next_batch (now n) s = (s1, Inr batch)" using next_batch_ok [OF less.prems(1)] by metis
    show ?thesis
    proof (cases "batch = []")
      case True
      then have "execute worker now perf finish_order n s = Some (block_queued s1, Inr ())"
        using False nb by (subst execute.simps) auto
      then show ?thesis using settled_block [OF less.prems(1,2)] nb True by simp
    next
      case ne: False
      obtain s2 where f: "finish_all worker (perf n) (finish_order n batch) s1 = (s2, Inr ())" "sched_ok H s2" "limits_kept s s2" "capacity_kept s s2"
        "\<And>k. dict_get (ps_states s2) k = (if k \<in> st_task_id ` set batch then Some (outcome_state (worker (the (dict_get (ps_tasks s) k))))
           else dict_get (ps_states s) k)"
        using settled_round [OF less.prems(1,2) nb order] by metis
      have out: "outcome_state w \<noteq> ''queued''" "outcome_state w \<noteq> ''running''" for w using outcome_terminal terminal_phases by metis+
      have idle: "\<forall>k. dict_get (ps_states s2) k \<noteq> Some ''running''" using f(5) less.prems(2) out by simp
      have "started s batch s1" by (rule next_batch_facts(3) [OF less.prems(1) nb])
      then have "st_task_id (hd batch) \<in> queued_tasks s" using ne by (simp add: started_def queued_tasks_def)
      moreover have "queued_tasks s2 \<subseteq> queued_tasks s" "st_task_id (hd batch) \<notin> queued_tasks s2"
        using f(5) out ne by (auto simp: queued_tasks_def split: if_splits)
      ultimately have "card (queued_tasks s2) < card (queued_tasks s)" by (intro psubset_card_mono [OF finite_queued]) blast
      from less.hyps [OF this f(2) idle, of "Suc n"] obtain s' where s': "execute worker now perf finish_order (Suc n) s2 = Some (s', Inr ())"
        "sched_ok H s'" "limits_kept s2 s'" "settled worker now s2 s'" "\<forall>k st. dict_get (ps_states s') k = Some st \<longrightarrow> st \<in> set TERMINAL"
        "ac_active (ps_controller s') = []" by blast
      have "execute worker now perf finish_order n s = Some (s', Inr ())" using False nb ne f(1) s'(1) by (subst execute.simps) auto
      moreover have "settled worker now s s'"
        by (rule settled_trans [OF less.prems(1) nb f(5) f(3,4) _ s'(4) less.prems(2)]) (use f(2) in \<open>simp add: sched_ok_def\<close>)
      ultimately show ?thesis using s' limits_kept_trans [OF f(3) s'(3)] by blast
    qed
  qed
qed

section \<open>Cancellation is exact\<close>

definition child_of :: "(string, string list) dict \<Rightarrow> (string \<times> string) set" where
  "child_of children = {(p, c). c \<in> set (dict_get_or children p [])}"

lemma slot_closure_sound:
  "set frontier \<subseteq> set targets \<Longrightarrow> set targets \<subseteq> (child_of children)\<^sup>* `` R \<Longrightarrow>
    set (slot_closure children targets frontier) \<subseteq> (child_of children)\<^sup>* `` R"
proof (induction children targets frontier rule: slot_closure.induct)
  case (2 children targets parent frontier)
  define fresh where "fresh = filter (\<lambda>c. c \<notin> set targets) (remdups (dict_get_or children parent []))"
  have "set fresh \<subseteq> (child_of children)\<^sup>* `` R"
  proof
    fix c assume "c \<in> set fresh"
    then have "(parent, c) \<in> child_of children" by (simp add: fresh_def child_of_def)
    moreover obtain r where "r \<in> R" "(r, parent) \<in> (child_of children)\<^sup>*" using "2.prems" by auto
    ultimately show "c \<in> (child_of children)\<^sup>* `` R" by (meson ImageI rtrancl.rtrancl_into_rtrancl)
  qed
  moreover have "set (rev fresh @ frontier) \<subseteq> set (targets @ fresh)" using "2.prems"(1) by auto
  ultimately show ?case using "2.IH" [OF fresh_def] "2.prems"(2) by (simp add: fresh_def [symmetric] Let_def)
qed simp

lemma slot_closure_closed:
  "\<forall>x \<in> set targets - set frontier. \<forall>c. (x, c) \<in> child_of children \<longrightarrow> c \<in> set targets \<Longrightarrow>
    set targets \<subseteq> set (slot_closure children targets frontier)
    \<and> (\<forall>x \<in> set (slot_closure children targets frontier). \<forall>c. (x, c) \<in> child_of children \<longrightarrow> c \<in> set (slot_closure children targets frontier))"
proof (induction children targets frontier rule: slot_closure.induct)
  case (2 children targets parent frontier)
  define fresh where "fresh = filter (\<lambda>c. c \<notin> set targets) (remdups (dict_get_or children parent []))"
  have "\<forall>x \<in> set (targets @ fresh) - set (rev fresh @ frontier). \<forall>c. (x, c) \<in> child_of children \<longrightarrow> c \<in> set (targets @ fresh)"
  proof (intro ballI allI impI)
    fix x c assume x: "x \<in> set (targets @ fresh) - set (rev fresh @ frontier)" and c: "(x, c) \<in> child_of children"
    then have x': "x \<in> set targets" "x \<notin> set frontier" by auto
    show "c \<in> set (targets @ fresh)"
    proof (cases "x = parent")
      case True
      then show ?thesis using c by (simp add: fresh_def child_of_def)
    next
      case False
      then have "x \<in> set targets - set (parent # frontier)" using x' by simp
      then show ?thesis using "2.prems" c unfolding set_append by blast
    qed
  qed
  note ih = "2.IH" [OF fresh_def this]
  have e: "slot_closure children targets (parent # frontier) = slot_closure children (targets @ fresh) (rev fresh @ frontier)"
    by (simp add: fresh_def Let_def)
  have "set targets \<subseteq> set (slot_closure children (targets @ fresh) (rev fresh @ frontier))" using conjunct1 [OF ih] by simp
  from conjI [OF this conjunct2 [OF ih]] show ?case unfolding e .
qed simp

lemma slot_closure_exact: "set (slot_closure children [r] [r]) = (child_of children)\<^sup>* `` {r}"
proof
  show "set (slot_closure children [r] [r]) \<subseteq> (child_of children)\<^sup>* `` {r}" by (rule slot_closure_sound) auto
  let ?S = "set (slot_closure children [r] [r])"
  have c: "r \<in> ?S" "\<And>x c. x \<in> ?S \<Longrightarrow> (x, c) \<in> child_of children \<Longrightarrow> c \<in> ?S"
    using slot_closure_closed [of "[r]" "[r]" children] by auto
  have "x \<in> ?S" if "(r, x) \<in> (child_of children)\<^sup>*" for x using that by induction (use c in blast)+
  then show "(child_of children)\<^sup>* `` {r} \<subseteq> ?S" by blast
qed

lemma cancel_tasks_ok:
  assumes "sched_ok H s" and "distinct (map fst ts)" and "\<forall>(k, t) \<in> set ts. dict_get (ps_tasks s) k = Some t"
  shows "\<exists>s' ks. cancel_tasks targets ts s cancelled = (s', Inr (sort (cancelled @ ks))) \<and> sched_ok H s' \<and> limits_kept s s'
    \<and> set ks = {k. \<exists>t st. (k, t) \<in> set ts \<and> st_slot_id t \<in> set targets \<and> dict_get (ps_states s) k = Some st \<and> st \<notin> set TERMINAL}
    \<and> (\<forall>k. dict_get (ps_states s') k = (if k \<in> set ks then Some ''cancelled'' else dict_get (ps_states s) k))"
  using assms
proof (induction ts arbitrary: s cancelled)
  case Nil
  then show ?case by (simp add: limits_kept_def)
next
  case (Cons p ts)
  obtain k t where p: "p = (k, t)" by (cases p)
  have t: "dict_get (ps_tasks s) k = Some t" using Cons.prems(3) p by auto
  obtain st where st: "dict_get (ps_states s) k = Some st"
    using Cons.prems(1) t by (fastforce simp: sched_ok_def tasks_wf_def in_dict_def simp del: map_of_eq_Some_iff)
  show ?case
  proof (cases "st_slot_id t \<in> set targets \<and> st \<notin> set TERMINAL")
    case False
    then have "cancel_tasks targets (p # ts) s cancelled = cancel_tasks targets ts s cancelled" using p st by auto
    moreover have "{k'. \<exists>t st. (k', t) \<in> set (p # ts) \<and> st_slot_id t \<in> set targets \<and> dict_get (ps_states s) k' = Some st \<and> st \<notin> set TERMINAL}
      = {k'. \<exists>t st. (k', t) \<in> set ts \<and> st_slot_id t \<in> set targets \<and> dict_get (ps_states s) k' = Some st \<and> st \<notin> set TERMINAL}"
      using False p st by auto
    ultimately show ?thesis using Cons.IH [OF Cons.prems(1), of cancelled] Cons.prems(2,3) by simp
  next
    case True
    define c where "c = fst (if st = ''running'' then controller_release k (ps_controller s) else (ps_controller s, Inr ()))"
    define s1 where "s1 = s\<lparr>ps_controller := c, ps_states := dict_set (ps_states s) k ''cancelled''\<rparr>"
    have act: "active_inv s" using Cons.prems(1) by (simp add: sched_ok_def)
    have rel: "(if st = ''running'' then controller_release k (ps_controller s) else (ps_controller s, Inr ())) = (c, Inr ())
      \<and> controller_inv c \<and> ac_active c = dict_pop (ac_active (ps_controller s)) k
      \<and> ac_policy c = ac_policy (ps_controller s) \<and> ac_observation c = ac_observation (ps_controller s)"
    proof (cases "st = ''running''")
      case True
      then have "dict_get (ac_active (ps_controller s)) k = Some t" "controller_inv (ps_controller s)"
        using act t st unfolding active_inv_def by blast+
      then obtain c' where "controller_release k (ps_controller s) = (c', Inr ())" "controller_inv c'"
        "ac_active c' = dict_pop (ac_active (ps_controller s)) k" "ac_policy c' = ac_policy (ps_controller s)"
        "ac_observation c' = ac_observation (ps_controller s)" using release_ok by metis
      then show ?thesis using True by (simp add: c_def)
    next
      case False
      then have "\<not> in_dict k (ac_active (ps_controller s))" using act st by (simp add: active_iff)
      then have "dict_pop (ac_active (ps_controller s)) k = ac_active (ps_controller s)" by (intro delete_not_in) (simp add: in_dict_keys)
      then show ?thesis using False act by (simp add: c_def active_inv_def)
    qed
    have run: "cancel_tasks targets (p # ts) s cancelled = cancel_tasks targets ts s1 (cancelled @ [k])"
      using p st True rel by (auto simp: s1_def)
    have "st \<noteq> ''accepted''" using True by (auto simp: TERMINAL_def)
    then have ok1: "sched_ok H s1" using rel
      by (intro end_task_ok [OF Cons.prems(1) st, of "''cancelled''"]) (simp_all add: s1_def TERMINAL_def)
    have lk1: "limits_kept s s1" using rel by (simp add: s1_def limits_kept_def)
    have "\<forall>(k, t) \<in> set ts. dict_get (ps_tasks s1) k = Some t" using Cons.prems(3) by (auto simp: s1_def)
    from Cons.IH [OF ok1 _ this, of "cancelled @ [k]"] Cons.prems(2) obtain s' ks where
      r: "cancel_tasks targets ts s1 (cancelled @ [k]) = (s', Inr (sort ((cancelled @ [k]) @ ks)))" "sched_ok H s'" "limits_kept s1 s'"
      "set ks = {k. \<exists>t st. (k, t) \<in> set ts \<and> st_slot_id t \<in> set targets \<and> dict_get (ps_states s1) k = Some st \<and> st \<notin> set TERMINAL}"
      "\<And>k. dict_get (ps_states s') k = (if k \<in> set ks then Some ''cancelled'' else dict_get (ps_states s1) k)" by auto
    have fresh: "k \<notin> fst ` set ts" using Cons.prems(2) p by simp
    have "set (k # ks) = {k. \<exists>t st. (k, t) \<in> set (p # ts) \<and> st_slot_id t \<in> set targets \<and> dict_get (ps_states s) k = Some st \<and> st \<notin> set TERMINAL}"
      unfolding set_simps r(4) using True p st fresh by (auto simp: s1_def rev_image_eqI)
    moreover have "dict_get (ps_states s') k' = (if k' \<in> set (k # ks) then Some ''cancelled'' else dict_get (ps_states s) k')" for k'
      unfolding r(5) by (auto simp: s1_def)
    ultimately show ?thesis using run r(1,2) limits_kept_trans [OF lk1 r(3)]
      by (intro exI [of _ s'] exI [of _ "k # ks"]) simp
  qed
qed

section \<open>Registration and submission\<close>

lemma register_ok:
  assumes ok: "sched_ok H s" and slot: "SlotSupervisor_post_init H slot0 = Inr slot" and reg: "register_slot slot s = Inr s'"
  shows "sched_ok H s'"
proof -
  have wf: "slot_wf H slot" by (rule slot_constructed_wf [OF slot])
  let ?c = "ss_slot_id slot"
  have par: "(case ss_parent_slot_id slot of Some p \<Rightarrow> if p = [] then None else Some p | None \<Rightarrow> None) = ss_parent_slot_id slot"
  proof (cases "ss_parent_slot_id slot")
    case (Some p)
    have "opt_text (ss_parent_slot_id slot) = ss_parent_slot_id slot" using wf by (simp add: slot_wf_def)
    then show ?thesis using Some by (auto simp: opt_text_def split: if_splits)
  qed simp
  have new: "dict_get (ps_slots s) ?c = None" and s': "s' = s\<lparr>ps_slots := dict_set (ps_slots s) ?c slot,
      ps_children := (case ss_parent_slot_id slot of None \<Rightarrow> ps_children s
        | Some p \<Rightarrow> dict_set (ps_children s) p (set_add ?c (dict_get_or (ps_children s) p [])))\<rparr>"
    using reg unfolding register_slot_def par Let_def by (auto simp: in_dict_def split: if_splits)
  have old: "distinct (dict_keys (ps_slots s))" "\<And>k sl. dict_get (ps_slots s) k = Some sl \<Longrightarrow> slot_wf H sl"
    "\<And>p c. c \<in> set (dict_get_or (ps_children s) p []) \<longleftrightarrow> (\<exists>sl. dict_get (ps_slots s) c = Some sl \<and> ss_parent_slot_id sl = Some p)"
    using ok unfolding sched_ok_def slots_inv_def by blast+
  have add: "set (set_add x xs) = insert x (set xs)" for x :: string and xs by (auto simp: set_add_def)
  have "c \<in> set (dict_get_or (ps_children s') p []) \<longleftrightarrow> (\<exists>sl. dict_get (ps_slots s') c = Some sl \<and> ss_parent_slot_id sl = Some p)" for c p
    using old(3) [of c p] new by (cases "ss_parent_slot_id slot") (auto simp: s' add simp del: map_of_eq_Some_iff)
  moreover have "slot_wf H sl" if "dict_get (ps_slots s') k = Some sl" for k sl
    using that old(2) wf by (auto simp: s' split: if_splits simp del: map_of_eq_Some_iff)
  moreover have "distinct (dict_keys (ps_slots s'))" using old(1) by (simp add: s')
  ultimately have "slots_inv H s'" unfolding slots_inv_def by blast
  moreover have f: "ps_tasks s' = ps_tasks s" "ps_states s' = ps_states s" "ps_controller s' = ps_controller s" by (simp_all add: s')
  ultimately show ?thesis using ok unfolding sched_ok_def tasks_wf_def deps_inv_def active_inv_def f by blast
qed

lemma admit_keeps:
  assumes "slot_wf H slot" and "admit_task H slot w = Inr (updated, r)"
  shows "slot_wf H updated" "ss_parent_slot_id updated = ss_parent_slot_id slot" "ow_slot_id w = ss_slot_id slot"
proof -
  have "updated = slot \<or> (\<exists>s0. ss_parent_slot_id s0 = ss_parent_slot_id slot \<and> SlotSupervisor_post_init H s0 = Inr updated)"
    using assms(2) by (auto simp: admit_task_def ebind_Inr_conv split: if_splits)
  then consider "updated = slot" | s0 where "ss_parent_slot_id s0 = ss_parent_slot_id slot" "SlotSupervisor_post_init H s0 = Inr updated" by blast
  then have "slot_wf H updated \<and> ss_parent_slot_id updated = ss_parent_slot_id slot"
  proof cases
    case 2
    have "ss_parent_slot_id updated = opt_text (ss_parent_slot_id s0)"
      using 2(2) by (auto simp: SlotSupervisor_post_init_def ebind_Inr_conv Let_def split: if_splits)
    then show ?thesis using 2 assms(1) slot_constructed_wf by (simp add: slot_wf_def)
  qed (use assms(1) in simp)
  then show "slot_wf H updated" "ss_parent_slot_id updated = ss_parent_slot_id slot" by simp_all
  show "ow_slot_id w = ss_slot_id slot" using assms(2) by (auto simp: admit_task_def split: if_splits)
qed

lemma sched_submit_ok:
  assumes ok: "sched_ok H s" and t: "task_ok t" and sub: "PrismScheduler_submit H t s = Inr (s', r)"
  shows "sched_ok H s'"
proof -
  let ?k = "st_task_id t"
  obtain slot updated where slot: "dict_get (ps_slots s) (st_slot_id t) = Some slot" and adm: "admit_task H slot (st_ownership t) = Inr (updated, r)"
    and new: "dict_get (ps_tasks s) ?k = None" and deps: "\<forall>d \<in> set (st_depends_on t). in_dict d (ps_tasks s)"
    and s': "ps_tasks s' = dict_set (ps_tasks s) ?k t" "ps_states s' = dict_set (ps_states s) ?k ''queued''"
      "ps_slots s' = (if ar_admitted r then dict_set (ps_slots s) (ss_slot_id slot) updated else ps_slots s)"
      "ps_children s' = ps_children s" "ps_controller s' = ps_controller s"
    using sub by (auto simp: PrismScheduler_submit_def in_dict_def Let_def split: if_splits option.splits sum.splits)
  have old: "distinct (dict_keys (ps_slots s))" "\<And>k sl. dict_get (ps_slots s) k = Some sl \<Longrightarrow> slot_wf H sl"
    "\<And>p c. c \<in> set (dict_get_or (ps_children s) p []) \<longleftrightarrow> (\<exists>sl. dict_get (ps_slots s) c = Some sl \<and> ss_parent_slot_id sl = Some p)"
    using ok unfolding sched_ok_def slots_inv_def by blast+
  note keep = admit_keeps [OF old(2) [OF slot] adm]
  have key: "ss_slot_id slot = st_slot_id t" using keep(3) constructed_task(4) [of t t] t by (simp add: task_ok_def)
  have "slots_inv H s'"
  proof (cases "ar_admitted r")
    case True
    have "(\<exists>sl. dict_get (ps_slots s') c = Some sl \<and> ss_parent_slot_id sl = Some p) \<longleftrightarrow>
        (\<exists>sl. dict_get (ps_slots s) c = Some sl \<and> ss_parent_slot_id sl = Some p)" for c p
      using slot keep(2) True by (auto simp: s'(3) key simp del: map_of_eq_Some_iff)
    moreover have "slot_wf H sl" if "dict_get (ps_slots s') k = Some sl" for k sl
      using that old(2) keep(1) True by (auto simp: s'(3) split: if_splits simp del: map_of_eq_Some_iff)
    moreover have "distinct (dict_keys (ps_slots s'))" using old(1) by (simp add: s'(3))
    ultimately show ?thesis using old(3) unfolding slots_inv_def s'(4) by blast
  qed (use ok s'(3,4) in \<open>simp add: sched_ok_def slots_inv_def\<close>)
  moreover have wf: "tasks_wf s" and di: "deps_inv s" and act: "active_inv s" using ok by (simp_all add: sched_ok_def)
  have ns: "dict_get (ps_states s) ?k = None" using new wf unfolding tasks_wf_def in_dict_def by blast
  have "tasks_wf s'"
    unfolding tasks_wf_def
  proof (intro conjI allI impI)
    show "distinct (dict_keys (ps_tasks s'))" "distinct (dict_keys (ps_states s'))" using wf by (simp_all add: tasks_wf_def s')
    show "in_dict k (ps_states s') \<longleftrightarrow> in_dict k (ps_tasks s')" for k
      using wf by (simp add: tasks_wf_def s' in_dict_def del: map_of_eq_Some_iff)
    show "st \<in> set TASK_PHASES" if "dict_get (ps_states s') k = Some st" for k st
      using that wf by (auto simp: tasks_wf_def s' TASK_PHASES_def split: if_splits simp del: map_of_eq_Some_iff)
  next
    fix k u assume "dict_get (ps_tasks s') k = Some u"
    then have u0: "(if k = ?k then Some t else dict_get (ps_tasks s) k) = Some u" by (simp only: s'(1) update_conv fun_upd_apply)
    have u: "st_task_id u = k \<and> task_ok u \<and> (\<forall>d \<in> set (st_depends_on u). in_dict d (ps_tasks s))"
    proof (cases "k = ?k")
      case True
      then show ?thesis using u0 t deps by simp
    next
      case False
      then have "dict_get (ps_tasks s) k = Some u" using u0 by (simp only: if_False)
      then show ?thesis using wf unfolding tasks_wf_def by blast
    qed
    have "in_dict d (ps_tasks s) \<Longrightarrow> in_dict d (ps_tasks s')" for d by (simp add: s' in_dict_def)
    with u show "st_task_id u = k" "task_ok u" "\<forall>d \<in> set (st_depends_on u). in_dict d (ps_tasks s')" by blast+
  qed
  moreover have "deps_inv s'"
    unfolding deps_inv_def
  proof (intro allI impI ballI)
    fix k u d assume u: "dict_get (ps_tasks s') k = Some u" "dict_get (ps_states s') k \<in> {Some ''running'', Some ''accepted''}" "d \<in> set (st_depends_on u)"
    have st': "dict_get (ps_states s') x = (if x = ?k then Some ''queued'' else dict_get (ps_states s) x)" for x
      by (simp only: s'(2) update_conv fun_upd_apply)
    have k: "k \<noteq> ?k" using u(2) unfolding st' by (cases "k = ?k") simp_all
    then have "dict_get (ps_tasks s) k = Some u" using u(1) by (simp only: s'(1) update_conv fun_upd_apply if_False)
    moreover have "dict_get (ps_states s) k \<in> {Some ''running'', Some ''accepted''}" using u(2) k unfolding st' by (simp only: if_False)
    ultimately have acc: "dict_get (ps_states s) d = Some ''accepted''" using u(3) di unfolding deps_inv_def by blast
    then have "d \<noteq> ?k" using ns by (metis option.distinct(1))
    then show "dict_get (ps_states s') d = Some ''accepted''" using acc unfolding st' by (simp only: if_False)
  qed
  moreover have "active_inv s'"
  proof -
    have "dict_get (ac_active (ps_controller s)) k = Some u \<longleftrightarrow> dict_get (ps_tasks s') k = Some u \<and> dict_get (ps_states s') k = Some ''running''" for k u
      using act new unfolding active_inv_def by (cases "k = ?k") (simp_all add: s' del: map_of_eq_Some_iff)
    then show ?thesis using act unfolding active_inv_def s'(5) by blast
  qed
  ultimately show ?thesis by (simp add: sched_ok_def)
qed

section \<open>Reachable schedulers\<close>

inductive psched_step :: "contract_hashes \<Rightarrow> PrismScheduler \<Rightarrow> PrismScheduler \<Rightarrow> bool" for H where
  step_register: "SlotSupervisor_post_init H slot0 = Inr slot \<Longrightarrow> register_slot slot s = Inr s' \<Longrightarrow> psched_step H s s'"
| step_submit: "ScheduledTask_post_init t0 = Inr t \<Longrightarrow> ResourceVector_post_init v = Inr (st_resources t) \<Longrightarrow>
    PrismScheduler_submit H t s = Inr (s', r) \<Longrightarrow> psched_step H s s'"
| step_delta: "apply_delta ids s = Inr (s', out) \<Longrightarrow> psched_step H s s'"
| step_update: "psched_step H s (s\<lparr>ps_controller := AdmissionController_update b (ps_controller s)\<rparr>)"
| step_batch: "next_batch now s = (s', r) \<Longrightarrow> psched_step H s s'"
| step_complete: "PrismScheduler_complete k v owner fence s = (s', r) \<Longrightarrow> psched_step H s s'"
| step_cancel: "cancel_slot slot_id s = (s', r) \<Longrightarrow> psched_step H s s'"
| step_execute: "\<forall>m ts. mset (finish_order m ts) = mset ts \<Longrightarrow> \<forall>k. dict_get (ps_states s) k \<noteq> Some ''running'' \<Longrightarrow>
    execute worker now perf finish_order n s = Some (s', r) \<Longrightarrow> psched_step H s s'"

definition psched_initial :: "PrismScheduler \<Rightarrow> bool" where
  "psched_initial s \<longleftrightarrow> (\<exists>policy observation. s = PrismScheduler_init policy observation)"

lemma cancel_slot_ok:
  assumes ok: "sched_ok H s" and slot: "in_dict slot_id (ps_slots s)"
  shows "\<exists>s' ks. cancel_slot slot_id s = (s', Inr (sort ks)) \<and> sched_ok H s' \<and> limits_kept s s'
    \<and> set ks = {k. \<exists>t st. dict_get (ps_tasks s) k = Some t \<and> (slot_id, st_slot_id t) \<in> (child_of (ps_children s))\<^sup>*
         \<and> dict_get (ps_states s) k = Some st \<and> st \<notin> set TERMINAL}
    \<and> (\<forall>k. dict_get (ps_states s') k = (if k \<in> set ks then Some ''cancelled'' else dict_get (ps_states s) k))"
proof -
  have d: "distinct (dict_keys (ps_tasks s))" using ok by (simp add: sched_ok_def tasks_wf_def)
  then have "\<forall>(k, t) \<in> set (ps_tasks s). dict_get (ps_tasks s) k = Some t" by auto
  from cancel_tasks_ok [OF ok d this, of "slot_closure (ps_children s) [slot_id] [slot_id]" "[]"]
  show ?thesis using slot d unfolding cancel_slot_def slot_closure_exact by simp
qed

lemma psched_step_ok: "psched_step H s s' \<Longrightarrow> sched_ok H s \<Longrightarrow> sched_ok H s'"
proof (induction rule: psched_step.induct)
  case (step_register slot0 slot s s')
  then show ?case using register_ok by blast
next
  case (step_submit t0 t v s s' r)
  have "task_ok t" using scheduled_task.rebuild [OF step_submit(1)] step_submit(2) by (auto simp: task_ok_def rv_valid)
  then show ?case using sched_submit_ok step_submit by blast
next
  case (step_delta ids s s' out)
  then have "same_core s s'" by (auto simp: apply_delta_def same_core_def Let_def split: if_splits)
  then show ?case using step_delta.prems by (rule sched_ok_core)
next
  case (step_update s b)
  show ?case by (rule sched_ok_core [OF _ step_update]) (simp add: same_core_def AdmissionController_update_def)
next
  case (step_batch now s s' r)
  then show ?case using next_batch_ok [OF step_batch.prems, of now] by (metis prod.inject)
next
  case (step_complete k v owner fence s s' r)
  then show ?case using complete_cases [OF step_complete.prems, of k v owner fence] by auto
next
  case (step_cancel slot_id s s' r)
  then show ?case using cancel_slot_ok [OF step_cancel.prems, of slot_id] by (cases "in_dict slot_id (ps_slots s)") (auto simp: cancel_slot_def)
next
  case (step_execute finish_order s worker now perf n s' r)
  then have "\<exists>u. execute worker now perf finish_order n s = Some (u, Inr ()) \<and> sched_ok H u"
    using execute_ok [of finish_order H s worker now perf n] by blast
  then show ?case using step_execute(3) by auto
qed

lemma psched_init_ok: "sched_ok H (PrismScheduler_init policy observation)"
  by (simp add: PrismScheduler_init_def AdmissionController_init_def sched_ok_def slots_inv_def tasks_wf_def deps_inv_def
      active_inv_def controller_inv_def in_dict_def)

interpretation psched: state_machine psched_initial "psched_step H" "sched_ok H" for H
  by unfold_locales (auto simp: psched_initial_def psched_init_ok intro: psched_step_ok)

definition slot_parent :: "PrismScheduler \<Rightarrow> (string \<times> string) set" where
  "slot_parent s = {(p, c). \<exists>slot. dict_get (ps_slots s) c = Some slot \<and> ss_parent_slot_id slot = Some p}"

lemma child_slot_parent: "sched_ok H s \<Longrightarrow> child_of (ps_children s) = slot_parent s"
  unfolding sched_ok_def slots_inv_def child_of_def slot_parent_def by blast

lemma workers_bound:
  assumes "sched_ok H s" and "within_limit s" and "rv_workers (effective_limit (ac_observation (ps_controller s))) \<noteq> 0"
  shows "int (length (ac_active (ps_controller s))) \<le> rv_workers (effective_limit (ac_observation (ps_controller s)))"
proof -
  let ?c = "ps_controller s"
  have f: "(''workers'', rv_workers) \<in> set RV_FIELDS" by (simp add: RV_FIELDS_def)
  have "1 \<le> rv_workers (st_resources t)" if "t \<in> set (dict_values (ac_active ?c))" for t
  proof -
    have "distinct (dict_keys (ac_active ?c))" using assms(1) by (simp add: sched_ok_def active_inv_def controller_inv_def)
    from dict_values_get [OF this that] obtain k where "dict_get (ac_active ?c) k = Some t" by blast
    then have "dict_get (ps_tasks s) k = Some t" using assms(1) unfolding sched_ok_def active_inv_def by blast
    then have "task_ok t" using assms(1) unfolding sched_ok_def tasks_wf_def by blast
    then show ?thesis using task_okD(3) by (simp add: task_ok_def)
  qed
  then have "dict_sum (\<lambda>_. 1) (ac_active ?c) \<le> dict_sum (\<lambda>t. rv_workers (st_resources t)) (ac_active ?c)"
    unfolding dict_sum_def by (intro sum_list_mono) force
  also have "\<dots> = rv_workers (controller_usage ?c)" by (rule usage_field [OF f, symmetric])
  also have "\<dots> \<le> rv_workers (effective_limit (ac_observation ?c))"
    using assms(2,3) f unfolding within_limit_def rv_fits_iff by fastforce
  finally show ?thesis by (simp add: dict_sum_one)
qed

section \<open>Properties\<close>

lemmas reachable_ok = psched.reach_invariant

text \<open>C27: in every scheduler that registrations, submissions, deltas, observations, batches, completions,
  cancellations and executions can reach from a new one, the physically active tasks are exactly the running ones; two
  active tasks neither share an exclusive resource nor conflict; a task runs or is accepted only with all its
  dependencies accepted; and the count of active tasks of each slot is exact.\<close>
theorem prism_schedule_safe:
  assumes "psched_initial s0" and "(psched_step H)\<^sup>*\<^sup>* s0 s"
  shows "(\<forall>k t. dict_get (ac_active (ps_controller s)) k = Some t \<longleftrightarrow> dict_get (ps_tasks s) k = Some t \<and> dict_get (ps_states s) k = Some ''running'')
    \<and> (\<forall>k t k' t'. dict_get (ac_active (ps_controller s)) k = Some t \<longrightarrow> dict_get (ac_active (ps_controller s)) k' = Some t' \<longrightarrow>
         k' \<notin> set (st_hard_conflicts t) \<and> (k \<noteq> k' \<longrightarrow> set (st_exclusive_resources t) \<inter> set (st_exclusive_resources t') = {}))
    \<and> (\<forall>k t. dict_get (ps_tasks s) k = Some t \<longrightarrow> dict_get (ps_states s) k \<in> {Some ''running'', Some ''accepted''} \<longrightarrow>
         (\<forall>d \<in> set (st_depends_on t). dict_get (ps_states s) d = Some ''accepted''))
    \<and> (\<forall>slot. dict_get_or (ac_per_slot (ps_controller s)) slot 0
         = int (length (filter (\<lambda>t. st_slot_id t = slot) (dict_values (ac_active (ps_controller s))))))"
proof -
  have ok: "active_inv s" "deps_inv s" using reachable_ok [OF assms] by (simp_all add: sched_ok_def)
  let ?c = "ps_controller s"
  have ex: "\<And>r k t. dict_get (ac_active ?c) k = Some t \<Longrightarrow> r \<in> set (st_exclusive_resources t) \<Longrightarrow> dict_get (ac_exclusive ?c) r = Some k"
    and per: "\<And>slot. dict_get_or (ac_per_slot ?c) slot 0 = dict_sum (\<lambda>t. if st_slot_id t = slot then 1 else 0) (ac_active ?c)"
    using ok(1) unfolding active_inv_def controller_inv_def by blast+
  have conf: "k' \<notin> set (st_hard_conflicts t)" if "dict_get (ac_active ?c) k = Some t" "dict_get (ac_active ?c) k' = Some t'" for k t k' t'
    using ok(1) that unfolding active_inv_def in_dict_def by blast
  have excl: "set (st_exclusive_resources t) \<inter> set (st_exclusive_resources t') = {}"
    if "dict_get (ac_active ?c) k = Some t" "dict_get (ac_active ?c) k' = Some t'" "k \<noteq> k'" for k t k' t'
    using ex [OF that(1)] ex [OF that(2)] that(3) by (metis disjoint_iff option.inject)
  have count: "dict_sum (\<lambda>t. if P t then 1 else 0) d = int (length (filter P (dict_values d)))"
    for P and d :: "(string, ScheduledTask) dict"
    by (induction d) (auto simp: dict_sum_def)
  have "\<forall>k t. dict_get (ac_active ?c) k = Some t \<longleftrightarrow> dict_get (ps_tasks s) k = Some t \<and> dict_get (ps_states s) k = Some ''running''"
    using ok(1) unfolding active_inv_def by blast
  with conf excl ok(2) show ?thesis unfolding deps_inv_def per count by blast
qed

definition demo_policy :: PrismPolicy where
  "demo_policy = \<lparr>po_max_tasks_per_slot = 10, po_max_active_slots = None, po_global_worker_limit = 4, po_max_depth = 4,
     po_adaptive_concurrency = True, po_recovery_reserve = 1, po_validation_reserve = 1\<rparr>"

definition demo_task :: "string \<Rightarrow> string list \<Rightarrow> string list \<Rightarrow> ScheduledTask" where
  "demo_task k deps exclusive = \<lparr>st_task_id = k, st_slot_id = ''slot:a'', st_ownership = demo_owner k ''slot:a'', st_depends_on = deps,
     st_hard_conflicts = [], st_soft_contention = [], st_exclusive_resources = exclusive, st_priority = 0,
     st_kind = ''implementation'', st_resources = no_resources 1\<rparr>"

definition demo_sched0 :: PrismScheduler where
  "demo_sched0 = PrismScheduler_init demo_policy None"

definition demo_sched1 :: PrismScheduler where
  "demo_sched1 = projr (register_slot ((demo_slot [])\<lparr>ss_slot_id := ''slot:a''\<rparr>) demo_sched0)"

definition demo_sched2 :: PrismScheduler where
  "demo_sched2 = fst (projr (PrismScheduler_submit demo_contract_hashes (demo_task ''x'' [] [''db'']) demo_sched1))"

definition demo_sched3 :: PrismScheduler where
  "demo_sched3 = fst (projr (PrismScheduler_submit demo_contract_hashes (demo_task ''y'' [''x''] [''db'']) demo_sched2))"

definition demo_sched4 :: PrismScheduler where
  "demo_sched4 = fst (next_batch (\<lambda>_. 0) demo_sched3)"

lemma demo_reachable3: "(psched_step demo_contract_hashes)\<^sup>*\<^sup>* demo_sched0 demo_sched3"
proof -
  let ?r = "\<lambda>s t. snd (projr (PrismScheduler_submit demo_contract_hashes t s))"
  have "SlotSupervisor_post_init demo_contract_hashes (demo_slot []) = Inr ((demo_slot [])\<lparr>ss_slot_id := ''slot:a''\<rparr>)"
    "register_slot ((demo_slot [])\<lparr>ss_slot_id := ''slot:a''\<rparr>) demo_sched0 = Inr demo_sched1" by code_simp+
  from step_register [OF this] have 1: "psched_step demo_contract_hashes demo_sched0 demo_sched1" .
  have "ScheduledTask_post_init (demo_task ''x'' [] [''db'']) = Inr (demo_task ''x'' [] [''db''])"
    "ResourceVector_post_init (no_resources 1) = Inr (st_resources (demo_task ''x'' [] [''db'']))"
    "PrismScheduler_submit demo_contract_hashes (demo_task ''x'' [] [''db'']) demo_sched1 = Inr (demo_sched2, ?r demo_sched1 (demo_task ''x'' [] [''db'']))"
    by code_simp+
  from step_submit [OF this] have 2: "psched_step demo_contract_hashes demo_sched1 demo_sched2" .
  have "ScheduledTask_post_init (demo_task ''y'' [''x''] [''db'']) = Inr (demo_task ''y'' [''x''] [''db''])"
    "ResourceVector_post_init (no_resources 1) = Inr (st_resources (demo_task ''y'' [''x''] [''db'']))"
    "PrismScheduler_submit demo_contract_hashes (demo_task ''y'' [''x''] [''db'']) demo_sched2 = Inr (demo_sched3, ?r demo_sched2 (demo_task ''y'' [''x''] [''db'']))"
    by code_simp+
  from step_submit [OF this] have 3: "psched_step demo_contract_hashes demo_sched2 demo_sched3" .
  from 1 2 3 show ?thesis by (meson converse_rtranclp_into_rtranclp rtranclp.rtrancl_refl)
qed

lemma demo_initial: "psched_initial demo_sched0"
  by (auto simp: psched_initial_def demo_sched0_def)

lemma demo_reachable4: "(psched_step demo_contract_hashes)\<^sup>*\<^sup>* demo_sched0 demo_sched4"
  using rtranclp.rtrancl_into_rtrancl [OF demo_reachable3 step_batch [of "\<lambda>_. 0" demo_sched3 demo_sched4 "snd (next_batch (\<lambda>_. 0) demo_sched3)"]]
  by (simp add: demo_sched4_def)

theorem prism_schedule_safe_witness:
  "dict_get (ps_states demo_sched4) ''x'' = Some ''running'' \<and> dict_get (ac_active (ps_controller demo_sched4)) ''x'' = Some (demo_task ''x'' [] [''db''])"
proof -
  have "dict_get (ps_tasks demo_sched4) ''x'' = Some (demo_task ''x'' [] [''db''])" "dict_get (ps_states demo_sched4) ''x'' = Some ''running''"
    by code_simp+
  then show ?thesis using prism_schedule_safe [OF demo_initial demo_reachable4] by blast
qed

text \<open>C28: a reachable scheduler always returns a batch; after a batch that started a task, the summed resources of the active
  tasks fit the effective limit in every dimension that is bounded, no more tasks are active than there are workers,
  and if it started an implementation task the implementation tasks leave the recovery and validation reserve free (or
  are a single task); an empty batch means that no ready task is admissible.\<close>
theorem next_batch_within_limits:
  assumes "psched_initial s0" and "(psched_step H)\<^sup>*\<^sup>* s0 s"
  shows "\<exists>s' batch. next_batch now s = (s', Inr batch)
    \<and> (batch \<noteq> [] \<longrightarrow> (\<forall>(name, get) \<in> set RV_FIELDS. get (effective_limit (ac_observation (ps_controller s))) \<noteq> 0 \<longrightarrow>
         sum_list (map (\<lambda>t. get (st_resources t)) (dict_values (ac_active (ps_controller s')))) \<le> get (effective_limit (ac_observation (ps_controller s))))
       \<and> (rv_workers (effective_limit (ac_observation (ps_controller s))) \<noteq> 0 \<longrightarrow>
            int (length (ac_active (ps_controller s'))) \<le> rv_workers (effective_limit (ac_observation (ps_controller s)))))
    \<and> ((\<exists>t \<in> set batch. st_kind t = ''implementation'') \<longrightarrow> implementation_active (ps_controller s')
         \<le> max 1 (rv_workers (effective_limit (ac_observation (ps_controller s)))
              - po_recovery_reserve (ac_policy (ps_controller s)) - po_validation_reserve (ac_policy (ps_controller s))))
    \<and> (batch = [] \<longrightarrow> (\<forall>k t. dict_get (ps_tasks s) k = Some t \<longrightarrow> task_ready s t \<longrightarrow> \<not> admissible (now k) t (ps_controller s)))"
proof -
  have ok: "sched_ok H s" by (rule reachable_ok [OF assms])
  obtain s' batch where b: "next_batch now s = (s', Inr batch)" using next_batch_ok [OF ok, of now] by metis
  note n = next_batch_facts [OF ok b]
  have lim: "effective_limit (ac_observation (ps_controller s')) = effective_limit (ac_observation (ps_controller s))"
    and pol: "ac_policy (ps_controller s') = ac_policy (ps_controller s)" using n(2) by (simp_all add: limits_kept_def)
  have st: "batch \<noteq> [] \<longrightarrow> within_limit s'" "(\<exists>t \<in> set batch. st_kind t = ''implementation'') \<longrightarrow> reserve_kept s'"
    using n(3) unfolding started_def by - (elim conjE, assumption)+
  have dims: "sum_list (map (\<lambda>t. get (st_resources t)) (dict_values (ac_active (ps_controller s')))) \<le> get (effective_limit (ac_observation (ps_controller s)))"
    if "within_limit s'" "(name, get) \<in> set RV_FIELDS" "get (effective_limit (ac_observation (ps_controller s))) \<noteq> 0" for name get
  proof -
    have "\<forall>(name, get) \<in> set RV_FIELDS. get (effective_limit (ac_observation (ps_controller s))) = 0
        \<or> get (controller_usage (ps_controller s')) \<le> get (effective_limit (ac_observation (ps_controller s)))"
      using that(1) unfolding within_limit_def rv_fits_iff lim .
    from bspec [OF this that(2)] show ?thesis using that(3) usage_field [OF that(2), of "ps_controller s'"] by (simp add: dict_sum_def comp_def)
  qed
  show ?thesis
  proof (intro exI conjI impI)
    show "next_batch now s = (s', Inr batch)" by (rule b)
    show "\<forall>(name, get) \<in> set RV_FIELDS. get (effective_limit (ac_observation (ps_controller s))) \<noteq> 0 \<longrightarrow>
         sum_list (map (\<lambda>t. get (st_resources t)) (dict_values (ac_active (ps_controller s')))) \<le> get (effective_limit (ac_observation (ps_controller s)))"
      if "batch \<noteq> []" using dims st(1) that by blast
    show "int (length (ac_active (ps_controller s'))) \<le> rv_workers (effective_limit (ac_observation (ps_controller s)))"
      if "batch \<noteq> []" "rv_workers (effective_limit (ac_observation (ps_controller s))) \<noteq> 0"
      using workers_bound [OF n(1)] st(1) that unfolding lim by blast
    show "implementation_active (ps_controller s') \<le> max 1 (rv_workers (effective_limit (ac_observation (ps_controller s)))
        - po_recovery_reserve (ac_policy (ps_controller s)) - po_validation_reserve (ac_policy (ps_controller s)))"
      if "\<exists>t \<in> set batch. st_kind t = ''implementation''" using st(2) that unfolding reserve_kept_def lim pol by blast
    show "\<forall>k t. dict_get (ps_tasks s) k = Some t \<longrightarrow> task_ready s t \<longrightarrow> \<not> admissible (now k) t (ps_controller s)" if "batch = []"
      using n(5) [OF that] by blast
  qed
qed

theorem next_batch_within_limits_witness:
  "\<exists>s' batch. next_batch (\<lambda>_. 0) demo_sched3 = (s', Inr batch) \<and> batch \<noteq> [] \<and> int (length (ac_active (ps_controller s'))) \<le> 4"
proof -
  have f: "snd (next_batch (\<lambda>_. 0) demo_sched3) = Inr [demo_task ''x'' [] [''db'']]"
    "rv_workers (effective_limit (ac_observation (ps_controller demo_sched3))) = 4" by code_simp+
  then show ?thesis using next_batch_within_limits [OF demo_initial demo_reachable3, of "\<lambda>_. 0"] by (auto simp: zero_neq_numeral [symmetric])
qed

text \<open>C29: executing a reachable scheduler that has no task running ends, whatever the workers return or raise and in whatever order the tasks of
  a round finish: it raises nothing, every task ends in a terminal state, nothing stays physically active, a task that had
  ended keeps its state, and a queued task ends with its worker's outcome and all its dependencies accepted, or blocked because a dependency
  was not accepted, its slot had no logical capacity for it, or the controller did not admit it.\<close>
theorem execute_settles:
  assumes "psched_initial s0" and "(psched_step H)\<^sup>*\<^sup>* s0 s" and "\<forall>k. dict_get (ps_states s) k \<noteq> Some ''running''"
    and "\<And>n ts. mset (finish_order n ts) = mset ts"
  shows "\<exists>s'. execute worker now perf finish_order n s = Some (s', Inr ())
    \<and> (\<forall>k st. dict_get (ps_states s') k = Some st \<longrightarrow> st \<in> set TERMINAL) \<and> ac_active (ps_controller s') = []
    \<and> (\<forall>k t. dict_get (ps_tasks s) k = Some t \<longrightarrow>
         (if dict_get (ps_states s) k \<noteq> Some ''queued'' then dict_get (ps_states s') k = dict_get (ps_states s) k
          else dict_get (ps_states s') k = Some (outcome_state (worker t)) \<and> (\<forall>d \<in> set (st_depends_on t). dict_get (ps_states s') d = Some ''accepted'')
            \<or> dict_get (ps_states s') k = Some ''blocked'' \<and>
                ((\<exists>d \<in> set (st_depends_on t). dict_get (ps_states s') d \<noteq> Some ''accepted'')
                 \<or> dict_get (ps_queued_reasons s) k = Some ''SLOT_LOGICAL_CAPACITY''
                 \<or> (\<exists>m. \<not> admissible (now m k) t (ps_controller s')))))"
proof -
  obtain s' where e: "execute worker now perf finish_order n s = Some (s', Inr ())" "settled worker now s s'"
    "\<forall>k st. dict_get (ps_states s') k = Some st \<longrightarrow> st \<in> set TERMINAL" "ac_active (ps_controller s') = []"
    using execute_ok [where finish_order = finish_order, OF assms(4) reachable_ok [OF assms(1,2)] assms(3), of worker now perf n] by blast
  show ?thesis by (intro exI conjI, rule e(1), rule e(3), rule e(4), rule e(2) [unfolded settled_def])
qed

theorem execute_settles_witness:
  "\<exists>s'. execute (\<lambda>_. WorkerReturned ''accepted'') (\<lambda>_ _. 0) (\<lambda>_ _. (0, 1)) (\<lambda>_ ts. ts) 0 demo_sched3 = Some (s', Inr ())
     \<and> ac_active (ps_controller s') = []"
proof -
  have "\<forall>k. dict_get (ps_states demo_sched3) k \<noteq> Some ''running''"
  proof -
    have "ps_states demo_sched3 = [(''x'', ''queued''), (''y'', ''queued'')]" by code_simp
    then show ?thesis by auto
  qed
  from execute_settles [OF demo_initial demo_reachable3 this, of "\<lambda>_ ts. ts"] show ?thesis by blast
qed

text \<open>Cancelling a registered slot of a reachable scheduler cancels exactly the tasks that have not ended and belong to the slot or to one of its
  descendants, returns them sorted, leaves every other state alone, and none of them stays physically active.\<close>
lemma cancel_slot_exact:
  assumes "psched_initial s0" and "(psched_step H)\<^sup>*\<^sup>* s0 s" and "in_dict slot_id (ps_slots s)"
  shows "\<exists>s' ks. cancel_slot slot_id s = (s', Inr ks) \<and> sorted ks
    \<and> set ks = {k. \<exists>t st. dict_get (ps_tasks s) k = Some t \<and> (slot_id, st_slot_id t) \<in> (slot_parent s)\<^sup>*
         \<and> dict_get (ps_states s) k = Some st \<and> st \<notin> set TERMINAL}
    \<and> (\<forall>k. dict_get (ps_states s') k = (if k \<in> set ks then Some ''cancelled'' else dict_get (ps_states s) k))
    \<and> (\<forall>k \<in> set ks. \<not> in_dict k (ac_active (ps_controller s')))"
proof -
  have ok: "sched_ok H s" by (rule reachable_ok [OF assms(1,2)])
  obtain s' ks where c: "cancel_slot slot_id s = (s', Inr (sort ks))" "sched_ok H s'"
    "set ks = {k. \<exists>t st. dict_get (ps_tasks s) k = Some t \<and> (slot_id, st_slot_id t) \<in> (slot_parent s)\<^sup>*
         \<and> dict_get (ps_states s) k = Some st \<and> st \<notin> set TERMINAL}"
    "\<And>k. dict_get (ps_states s') k = (if k \<in> set ks then Some ''cancelled'' else dict_get (ps_states s) k)"
    using cancel_slot_ok [OF ok assms(3)] unfolding child_slot_parent [OF ok] by blast
  have "\<not> in_dict k (ac_active (ps_controller s'))" if "k \<in> set ks" for k
    using active_iff [of s' k] c(2) c(4) [of k] that by (simp add: sched_ok_def)
  then show ?thesis using c by (intro exI [of _ s'] exI [of _ "sort ks"]) simp
qed

lemma cancel_slot_exact_example:
  "\<exists>s' ks. cancel_slot ''slot:a'' demo_sched4 = (s', Inr ks) \<and> sorted ks \<and> ''x'' \<in> set ks \<and> \<not> in_dict ''x'' (ac_active (ps_controller s'))"
proof -
  have x: "dict_get (ps_tasks demo_sched4) ''x'' = Some (demo_task ''x'' [] [''db''])" "dict_get (ps_states demo_sched4) ''x'' = Some ''running''"
    "in_dict ''slot:a'' (ps_slots demo_sched4)" "st_slot_id (demo_task ''x'' [] [''db'']) = ''slot:a''"
    by code_simp+
  obtain s' ks where c: "cancel_slot ''slot:a'' demo_sched4 = (s', Inr ks) \<and> sorted ks
    \<and> set ks = {k. \<exists>t st. dict_get (ps_tasks demo_sched4) k = Some t \<and> (''slot:a'', st_slot_id t) \<in> (slot_parent demo_sched4)\<^sup>*
         \<and> dict_get (ps_states demo_sched4) k = Some st \<and> st \<notin> set TERMINAL}
    \<and> (\<forall>k. dict_get (ps_states s') k = (if k \<in> set ks then Some ''cancelled'' else dict_get (ps_states demo_sched4) k))
    \<and> (\<forall>k \<in> set ks. \<not> in_dict k (ac_active (ps_controller s')))"
    using cancel_slot_exact [OF demo_initial demo_reachable4 x(3)] by (elim exE)
  have ks: "set ks = {k. \<exists>t st. dict_get (ps_tasks demo_sched4) k = Some t \<and> (''slot:a'', st_slot_id t) \<in> (slot_parent demo_sched4)\<^sup>*
         \<and> dict_get (ps_states demo_sched4) k = Some st \<and> st \<notin> set TERMINAL}" using c by (elim conjE)
  have "''x'' \<in> set ks" unfolding ks mem_Collect_eq
    by (intro exI conjI, rule x(1), unfold x(4), rule rtrancl.rtrancl_refl, rule x(2), rule terminal_phases(2))
  with c show ?thesis by blast
qed

lemma sorted_dict_get: "dict_get (sorted_dict d) k = dict_get d k"
  unfolding sorted_dict_def by (rule map_of_sort_key)

lemma records_of:
  "set ks \<subseteq> set (dict_keys d) \<Longrightarrow> List.map_filter (\<lambda>x. x) (map (dict_get d) ks) = map (\<lambda>k. the (dict_get d k)) ks"
proof (induction ks)
  case (Cons k ks)
  obtain v where "dict_get d k = Some v" using Cons.prems by (metis list.set_intros(1) map_of_eq_None_iff not_None_eq set_map subset_iff)
  then show ?case using Cons by (simp add: List.map_filter_simps)
qed (simp add: List.map_filter_simps)

lemma keyed_records:
  assumes "distinct (dict_keys d)" and "\<And>k v. dict_get d k = Some v \<Longrightarrow> f v = k"
  shows "dict_get (dict_of (map (\<lambda>v. (f v, v)) (List.map_filter (\<lambda>x. x) (map (dict_get d) (sort (dict_keys d)))))) k = dict_get d k"
    and "map f (List.map_filter (\<lambda>x. x) (map (dict_get d) (sort (dict_keys d)))) = sort (dict_keys d)"
proof -
  let ?ks = "sort (dict_keys d)"
  have r: "List.map_filter (\<lambda>x. x) (map (dict_get d) ?ks) = map (\<lambda>k. the (dict_get d k)) ?ks" by (rule records_of) simp
  have f: "f (the (dict_get d k)) = k" if "k \<in> set ?ks" for k
    using that assms(2) [of k] by (metis map_of_eq_None_iff option.exhaust_sel set_map set_sort)
  then show "map f (List.map_filter (\<lambda>x. x) (map (dict_get d) ?ks)) = ?ks" unfolding r by (simp add: map_idI del: set_sort)
  have m: "map (\<lambda>v. (f v, v)) (map (\<lambda>k. the (dict_get d k)) ?ks) = map (\<lambda>k. (k, the (dict_get d k))) ?ks" using f by simp
  have "dict_of (map (\<lambda>k. (k, the (dict_get d k))) ?ks) = map (\<lambda>k. (k, the (dict_get d k))) ?ks"
    by (rule dict_of_distinct) (use assms(1) in \<open>simp add: comp_def\<close>)
  then show "dict_get (dict_of (map (\<lambda>v. (f v, v)) (List.map_filter (\<lambda>x. x) (map (dict_get d) ?ks)))) k = dict_get d k"
    unfolding r m using dict_get_key [of d k] by (cases "dict_get d k") (auto simp: map_of_map_restrict restrict_map_def simp flip: map_of_eq_None_iff)
qed

text \<open>A snapshot of a reachable scheduler in which no task runs restores, into any scheduler with the same tasks and the same slots, exactly the states and
  the queued reasons it was taken with, and changes nothing else.\<close>
lemma scheduler_snapshot_roundtrip:
  assumes "psched_initial s0" and "(psched_step H)\<^sup>*\<^sup>* s0 s" and idle: "\<forall>k. dict_get (ps_states s) k \<noteq> Some ''running''"
    and slots: "\<And>k slot. dict_get (ps_slots s) k = Some slot \<Longrightarrow> ss_slot_id slot = k"
    and same: "ps_tasks s2 = ps_tasks s" "set (dict_keys (ps_slots s2)) = set (dict_keys (ps_slots s))"
  shows "\<exists>s3. restore_states G (PrismScheduler_snapshot G s) s2 = Inr s3
    \<and> (\<forall>k. dict_get (ps_states s3) k = dict_get (ps_states s) k \<and> dict_get (ps_queued_reasons s3) k = dict_get (ps_queued_reasons s) k)
    \<and> s3 = s2\<lparr>ps_states := ps_states s3, ps_queued_reasons := ps_queued_reasons s3\<rparr>"
proof -
  have ok: "tasks_wf s" "slots_inv H s" using reachable_ok [OF assms(1,2)] by (simp_all add: sched_ok_def)
  have dt: "distinct (dict_keys (ps_tasks s))" and ds: "distinct (dict_keys (ps_slots s))" and dst: "distinct (dict_keys (ps_states s))"
    and ids: "\<And>k t. dict_get (ps_tasks s) k = Some t \<Longrightarrow> st_task_id t = k"
    and dom: "\<And>k. in_dict k (ps_states s) \<longleftrightarrow> in_dict k (ps_tasks s)"
    using ok unfolding tasks_wf_def slots_inv_def by blast+
  have "set (dict_keys (ps_states s)) = set (dict_keys (ps_tasks s))" using dom unfolding in_dict_keys by blast
  then have k1: "set (dict_keys (sorted_dict (ps_states s))) = set (dict_keys (ps_tasks s2))" by (simp add: sorted_dict_def same)
  have k2: "set (map ss_slot_id (List.map_filter (\<lambda>x. x) (map (dict_get (ps_slots s)) (sort (dict_keys (ps_slots s)))))) = set (dict_keys (ps_slots s2))"
    by (subst keyed_records(2) [OF ds slots]) (use same(2) in simp_all)
  let ?actual = "dict_of (map (\<lambda>t. (st_task_id t, t)) (List.map_filter (\<lambda>x. x) (map (dict_get (ps_tasks s)) (sort (dict_keys (ps_tasks s))))))"
  have act: "dict_get ?actual k = dict_get (ps_tasks s2) k" for k unfolding same(1) by (rule keyed_records(1) [OF dt ids])
  have "in_dict k ?actual \<longleftrightarrow> in_dict k (ps_tasks s2)" for k unfolding in_dict_def act ..
  then have k3: "set (dict_keys ?actual) = set (dict_keys (ps_tasks s2))" unfolding in_dict_keys by blast
  have "''running'' \<notin> set (dict_values (ps_states s))" using idle dict_values_get [OF dst] by metis
  then have k4: "''running'' \<notin> set (dict_values (sorted_dict (ps_states s)))" by (simp add: sorted_dict_def)
  let ?s3 = "s2\<lparr>ps_states := sorted_dict (ps_states s), ps_queued_reasons := sorted_dict (ps_queued_reasons s)\<rparr>"
  have "restore_states G (PrismScheduler_snapshot G s) s2 = Inr ?s3"
    unfolding restore_states_def PrismScheduler_snapshot_def Let_def prod.case scheduler_snapshot.select_convs option.case
    using k1 k2 k3 k4 act by (simp only: simp_thms if_False if_True length_map length_sort same(1) bex_triv_one_point1 bex_simps Bex_def ex_simps)
  then show ?thesis by (intro exI [of _ ?s3]) (simp add: sorted_dict_get)
qed

definition demo_scheduler_hashes :: scheduler_hashes where
  "demo_scheduler_hashes = \<lparr>sh_snapshot = (\<lambda>b. concat (sn_slots b)), sh_task = st_task_id\<rparr>"

lemma scheduler_snapshot_roundtrip_example:
  "\<exists>s3. restore_states demo_scheduler_hashes (PrismScheduler_snapshot demo_scheduler_hashes demo_sched3)
      (demo_sched3\<lparr>ps_states := [], ps_queued_reasons := []\<rparr>) = Inr s3 \<and> dict_get (ps_states s3) ''y'' = Some ''queued''"
proof -
  have st: "ps_states demo_sched3 = [(''x'', ''queued''), (''y'', ''queued'')]" by code_simp
  have sl: "map (\<lambda>(k, slot). (k, ss_slot_id slot)) (ps_slots demo_sched3) = [(''slot:a'', ''slot:a'')]" by code_simp
  have slots: "ss_slot_id slot = k" if "dict_get (ps_slots demo_sched3) k = Some slot" for k slot
  proof -
    have "(k, ss_slot_id slot) \<in> set (map (\<lambda>(k, slot). (k, ss_slot_id slot)) (ps_slots demo_sched3))"
      using map_of_SomeD [OF that] by force
    then show ?thesis unfolding sl by simp
  qed
  have idle: "\<forall>k. dict_get (ps_states demo_sched3) k \<noteq> Some ''running''" by (simp add: st)
  obtain s3 where r: "restore_states demo_scheduler_hashes (PrismScheduler_snapshot demo_scheduler_hashes demo_sched3)
      (demo_sched3\<lparr>ps_states := [], ps_queued_reasons := []\<rparr>) = Inr s3" "dict_get (ps_states s3) ''y'' = dict_get (ps_states demo_sched3) ''y''"
    using scheduler_snapshot_roundtrip [OF demo_initial demo_reachable3 idle slots,
        of "demo_sched3\<lparr>ps_states := [], ps_queued_reasons := []\<rparr>" demo_scheduler_hashes] by auto
  moreover have "dict_get (ps_states demo_sched3) ''y'' = Some ''queued''" by code_simp
  ultimately show ?thesis by (metis (no_types))
qed

section \<open>Defects\<close>

text \<open>\<open>restore_states\<close> leaves the active tasks of the controller alone: a snapshot taken before a batch, restored after it, makes
  the running task ready again, and the next batch raises.\<close>

lemma restore_keeps_active:
  "(case restore_states demo_scheduler_hashes (PrismScheduler_snapshot demo_scheduler_hashes demo_sched3) demo_sched4 of
      Inl _ \<Rightarrow> None | Inr s \<Rightarrow> Some (snd (next_batch (\<lambda>_. 0) s)))
   = Some (Inl (PrismSchedulerError ''task is already physically active''))"
  by code_simp

text \<open>A task submitted to a slot that is logically full stays queued for that reason although the tasks of the slot have ended: no
  operation admits it again, and it is never ready.\<close>

lemma capacity_refusal_stays:
  "dict_get (ps_queued_reasons s) (st_task_id t) = Some ''SLOT_LOGICAL_CAPACITY'' \<Longrightarrow> \<not> task_ready s t"
  by (simp add: task_ready_def)

text \<open>\<open>acquire\<close> accepts a decision that is no longer true: two tasks that were both admitted before either acquired
  both become active, and the second takes over the exclusive resource of the first.\<close>

lemma acquire_accepts_stale:
  "let c = ps_controller demo_sched1; a = demo_task ''a'' [] [''db'']; b = demo_task ''b'' [] [''db''];
       da = projr (snd (controller_decide 0 a c)); db = projr (snd (controller_decide 0 b c));
       c1 = projr (controller_acquire a da c)
   in map_option (\<lambda>c2. (dict_keys (ac_active c2), dict_get (ac_exclusive c2) ''db''))
        (case controller_acquire b db c1 of Inl _ \<Rightarrow> None | Inr c2 \<Rightarrow> Some c2) = Some ([''a'', ''b''], Some ''b'')"
  by code_simp

end
