(* ===== verification/Hbp_Ledger.thy ===== *)
theory Hbp_Ledger
  imports Prism_Contracts Hash_Chain
begin

text \<open>
  The evidence ledger and the completion oracle (\<open>hbp_ledger.py\<close>): canonical JSON, bindings and
  acceptance evidence, receipts chained by their hashes, the append-only file with its verifier, and the
  oracle that calls a run complete.

  Text is its UTF-8 bytes, one character per byte. What the code takes from the standard library
  and does not compute itself is a field of \<open>hbp_env\<close>: Unicode normalisation, the JSON parser, SHA-256
  and the text of a value that is not a string. A number of a JSON value is a float exactly when it is not an
  integer. Objects are written with their keys in sorted order; Python's equality of dicts does not see the order, and every
  digest sorts the keys. The duration of a verification and the hashes over whole reports are not modelled: no code of the
  component reads them.
\<close>

section \<open>Canonical JSON\<close>

datatype hbp_error = HbpAppendError string | HbpValueError string | HbpTypeError string

record hbp_env =
  he_nfc :: "string \<Rightarrow> string"
  he_loads :: "bytes \<Rightarrow> json option"
  he_sha256 :: "bytes \<Rightarrow> bytes"
  he_repr :: "json \<Rightarrow> string"

definition HBP_SCHEMA :: string where "HBP_SCHEMA = ''simplicio.hbp-ledger-receipt/v1''"

definition GENESIS_HASH :: string where "GENESIS_HASH = replicate 64 CHR ''0''"

fun normalize_json :: "(string \<Rightarrow> string) \<Rightarrow> json \<Rightarrow> json option" where
  \<comment> \<open>\<open>_normalize\<close>; \<open>None\<close> is its \<open>TypeError\<close>\<close>
  "normalize_json nfc JNull = Some JNull"
| "normalize_json nfc (JBool b) = Some (JBool b)"
| "normalize_json nfc (JNum r) = (if of_int \<lfloor>r\<rfloor> = r then Some (JNum r) else None)"
| "normalize_json nfc (JStr s) = Some (JStr (nfc s))"
| "normalize_json nfc (JArr xs) = map_option JArr (those (map (normalize_json nfc) xs))"
| "normalize_json nfc (JObj d) = map_option (\<lambda>vs. JObj (dict_of (zip (map (\<lambda>p. nfc (fst p)) d) vs)))
     (those (map (\<lambda>p. normalize_json nfc (snd p)) d))"

definition escape_char :: "char \<Rightarrow> string" where
  \<comment> \<open>with \<open>ensure_ascii=False\<close> only quotes, backslashes and control characters are escaped\<close>
  "escape_char c = (let n = (of_char c :: nat) in
     if n = 34 then [CHR 0x5C, CHR 0x22] else if n = 92 then [CHR 0x5C, CHR 0x5C]
     else if n = 10 then [CHR 0x5C, CHR ''n''] else if n = 13 then [CHR 0x5C, CHR ''r'']
     else if n = 9 then [CHR 0x5C, CHR ''t''] else if n = 8 then [CHR 0x5C, CHR ''b'']
     else if n = 12 then [CHR 0x5C, CHR ''f'']
     else if n < 32 then [CHR 0x5C, CHR ''u'', CHR ''0'', CHR ''0'', hex_digits ! (n div 16), hex_digits ! (n mod 16)]
     else [c])"

definition quoted :: "string \<Rightarrow> string" where
  "quoted s = CHR 0x22 # concat (map escape_char s) @ [CHR 0x22]"

fun comma :: "string list \<Rightarrow> string" where
  "comma [] = []"
| "comma [x] = x"
| "comma (x # y # xs) = x @ CHR '','' # comma (y # xs)"

fun dumps :: "json \<Rightarrow> string" where
  \<comment> \<open>\<open>json.dumps\<close> with \<open>sort_keys=True\<close> and compact separators, of a normalised value\<close>
  "dumps JNull = ''null''"
| "dumps (JBool b) = (if b then ''true'' else ''false'')"
| "dumps (JNum r) = show_int \<lfloor>r\<rfloor>"
| "dumps (JStr s) = quoted s"
| "dumps (JArr xs) = CHR ''['' # comma (map dumps xs) @ '']''"
| "dumps (JObj d) = CHR ''{'' # comma (map snd (sort_key fst (map (\<lambda>p. (fst p, quoted (fst p) @ CHR '':'' # dumps (snd p))) d))) @ ''}''"

definition utf8_bytes :: "string \<Rightarrow> bytes" where
  "utf8_bytes s = map of_char s"

definition canonical_bytes :: "hbp_env \<Rightarrow> json \<Rightarrow> bytes option" where
  "canonical_bytes E v = map_option (\<lambda>n. utf8_bytes (dumps n)) (normalize_json (he_nfc E) v)"

definition hex_byte :: "8 word \<Rightarrow> string" where
  "hex_byte b = [hex_digits ! (unat b div 16), hex_digits ! (unat b mod 16)]"

definition hexdigest :: "bytes \<Rightarrow> string" where
  "hexdigest bs = concat (map hex_byte bs)"

definition canonical_sha256 :: "hbp_env \<Rightarrow> json \<Rightarrow> hbp_error + string" where
  "canonical_sha256 E v = (case canonical_bytes E v of
     None \<Rightarrow> Inl (HbpTypeError ''floats are not allowed in canonical HBP receipts'')
   | Some bs \<Rightarrow> Inr (hexdigest (he_sha256 E bs)))"

section \<open>Bindings, evidence and receipts\<close>

record HbpBinding =
  hb_run_id :: string
  hb_plan_hash :: string
  hb_generation :: string
  hb_attempt :: int
  hb_fence :: int
  hb_stage :: string

definition HbpBinding_post_init :: "HbpBinding \<Rightarrow> hbp_error + HbpBinding" where
  "HbpBinding_post_init b =
    (if hb_run_id b = [] \<or> hb_plan_hash b = [] \<or> hb_generation b = [] \<or> hb_stage b = []
     then Inl (HbpValueError ''run_id, plan_hash, generation and stage are required'')
     else if hb_attempt b < 1 \<or> hb_fence b < 0
     then Inl (HbpValueError ''attempt must be positive and fence non-negative'') else Inr b)"

definition binding_dict :: "HbpBinding \<Rightarrow> (string \<times> json) list" where
  "binding_dict b = [(''attempt'', JNum (of_int (hb_attempt b))), (''fence'', JNum (of_int (hb_fence b))),
     (''generation'', JStr (hb_generation b)), (''plan_hash'', JStr (hb_plan_hash b)), (''run_id'', JStr (hb_run_id b)),
     (''stage'', JStr (hb_stage b))]"

record AcceptanceEvidence =
  ae_ac_id :: string
  ae_evidence_uri :: string
  ae_evidence_hash :: string
  ae_verdict :: string

definition AcceptanceEvidence_post_init :: "AcceptanceEvidence \<Rightarrow> hbp_error + AcceptanceEvidence" where
  "AcceptanceEvidence_post_init a =
    (if ae_ac_id a = [] \<or> ae_evidence_uri a = [] then Inl (HbpValueError ''acceptance evidence requires ac_id and evidence_uri'')
     else if length (ae_evidence_hash a) \<noteq> 64 \<or> (\<exists>c \<in> set (ae_evidence_hash a). c \<notin> set hex_digits)
     then Inl (HbpValueError ''evidence_hash must be lowercase SHA-256'')
     else if ae_verdict a \<notin> {''PASS'', ''FAIL'', ''UNVERIFIED''} then Inl (HbpValueError ''unsupported evidence verdict'')
     else Inr a)"

definition evidence_dict :: "AcceptanceEvidence \<Rightarrow> json" where
  "evidence_dict a = JObj [(''ac_id'', JStr (ae_ac_id a)), (''evidence_hash'', JStr (ae_evidence_hash a)),
     (''evidence_uri'', JStr (ae_evidence_uri a)), (''verdict'', JStr (ae_verdict a))]"

definition obj_put :: "string \<Rightarrow> json \<Rightarrow> (string \<times> json) list \<Rightarrow> (string \<times> json) list" where
  \<comment> \<open>\<open>d[k] = v\<close>\<close>
  "obj_put k v d = insort_key fst (k, v) (filter (\<lambda>p. fst p \<noteq> k) d)"

definition without_hash :: "string \<Rightarrow> (string \<times> json) list \<Rightarrow> (string \<times> json) list" where
  "without_hash k d = filter (\<lambda>p. fst p \<noteq> k) d"

definition receipt_fields ::
    "nat \<Rightarrow> HbpBinding \<Rightarrow> string \<Rightarrow> AcceptanceEvidence list \<Rightarrow> (string \<times> json) list \<Rightarrow> string \<Rightarrow> int \<Rightarrow> (string \<times> json) list" where
  \<comment> \<open>the receipt before its own hash is added\<close>
  "receipt_fields sequence binding previous evidence payload payload_hash observed_at_ns =
    [(''acceptance_evidence'', JArr (map evidence_dict evidence)), (''binding'', JObj (binding_dict binding)),
     (''local_llm'', JBool False), (''observed_at_ns'', JNum (of_int observed_at_ns)), (''payload'', JObj payload),
     (''payload_hash'', JStr payload_hash), (''previous_receipt_hash'', JStr previous), (''schema'', JStr HBP_SCHEMA),
     (''sequence'', JNum (of_nat sequence))]"

definition build_receipt ::
    "hbp_env \<Rightarrow> nat \<Rightarrow> HbpBinding \<Rightarrow> string \<Rightarrow> AcceptanceEvidence list \<Rightarrow> (string \<times> json) list \<Rightarrow> int \<Rightarrow> hbp_error + (string \<times> json) list" where
  "build_receipt E sequence binding previous evidence payload observed_at_ns =
    (if sequence < 1 then Inl (HbpValueError ''sequence must be positive'')
     else if length previous \<noteq> 64 then Inl (HbpValueError ''previous_receipt_hash must be SHA-256'')
     else ebind (canonical_sha256 E (JObj payload)) (\<lambda>payload_hash.
       let receipt = receipt_fields sequence binding previous evidence payload payload_hash observed_at_ns
       in ebind (canonical_sha256 E (JObj receipt)) (\<lambda>h. Inr (obj_put ''receipt_hash'' (JStr h) receipt))))"

section \<open>Verification\<close>

record verification =
  vf_status :: string
  vf_reason_code :: string
  vf_verified_receipts :: nat
  vf_head_hash :: "string option"
  vf_evidence :: "(string, (string \<times> json) list list) dict"

definition report :: "string \<Rightarrow> string \<Rightarrow> nat \<Rightarrow> (string, (string \<times> json) list list) dict \<Rightarrow> string option \<Rightarrow> verification" where
  \<comment> \<open>\<open>_verification\<close>\<close>
  "report status reason verified evidence head = \<lparr>vf_status = status, vf_reason_code = reason,
     vf_verified_receipts = verified, vf_head_hash = head, vf_evidence = evidence\<rparr>"

fun json_is_int :: "json \<Rightarrow> int \<Rightarrow> bool" where
  \<comment> \<open>equality of a JSON value with an int, for which \<open>True\<close> is 1 and \<open>False\<close> is 0\<close>
  "json_is_int (JNum r) n = (r = of_int n)"
| "json_is_int (JBool b) n = (n = (if b then 1 else 0))"
| "json_is_int v n = False"

definition binding_reason :: "(string \<times> json) list \<Rightarrow> HbpBinding \<Rightarrow> string option" where
  "binding_reason actual expected =
    (if jget actual ''run_id'' \<noteq> JStr (hb_run_id expected) then Some ''CROSS_RUN_ID''
     else if jget actual ''stage'' \<noteq> JStr (hb_stage expected) then Some ''CROSS_STAGE''
     else if \<not> json_is_int (jget actual ''fence'') (hb_fence expected) then Some ''CROSS_FENCE''
     else if jget actual ''plan_hash'' \<noteq> JStr (hb_plan_hash expected) then Some ''STALE_PLAN_HASH''
     else if jget actual ''generation'' \<noteq> JStr (hb_generation expected) then Some ''STALE_GENERATION''
     else if \<not> json_is_int (jget actual ''attempt'') (hb_attempt expected) then Some ''STALE_ATTEMPT'' else None)"

definition REQUIRED_FIELDS :: "string list" where
  "REQUIRED_FIELDS = [''sequence'', ''binding'', ''previous_receipt_hash'', ''acceptance_evidence'',
     ''payload_hash'', ''payload'', ''observed_at_ns'', ''receipt_hash'']"

fun index_evidence :: "hbp_env \<Rightarrow> json list \<Rightarrow> (string, (string \<times> json) list list) dict \<Rightarrow> bool \<times> (string, (string \<times> json) list list) dict" where
  \<comment> \<open>the loop over the evidence rows of a receipt; \<open>False\<close> when a row is invalid\<close>
  "index_evidence E [] ev = (True, ev)"
| "index_evidence E (JObj row # rows) ev =
    (if \<not> truthy (jget row ''ac_id'') then (False, ev)
     else let k = py_str (he_repr E) (jget row ''ac_id'')
          in index_evidence E rows (dict_set ev k (dict_get_or ev k [] @ [row])))"
| "index_evidence E (_ # rows) ev = (False, ev)"

definition receipt_reason :: "hbp_env \<Rightarrow> HbpBinding \<Rightarrow> nat \<Rightarrow> string \<Rightarrow> (string \<times> json) list \<Rightarrow> (string \<times> string) option" where
  \<comment> \<open>status and reason of the first check that a receipt fails, before its evidence is read\<close>
  "receipt_reason E expected index previous receipt =
    (if jget receipt ''schema'' \<noteq> JStr HBP_SCHEMA then Some (''LEGACY'', ''LEGACY_SCHEMA'')
     else if \<exists>k \<in> set REQUIRED_FIELDS. \<not> in_dict k receipt then Some (''INVALID'', ''MISSING_FIELDS'')
     else if \<not> json_is_int (jget receipt ''sequence'') (int index) then Some (''INVALID'', ''SEQUENCE_MISMATCH'')
     else if jget receipt ''previous_receipt_hash'' \<noteq> JStr previous then Some (''INVALID'', ''PREVIOUS_HASH_MISMATCH'')
     else case jget receipt ''binding'' of
       JObj binding \<Rightarrow>
         (case binding_reason binding expected of
            Some reason \<Rightarrow> Some (''INVALID'', reason)
          | None \<Rightarrow>
              (case canonical_sha256 E (jget receipt ''payload'') of
                 Inl _ \<Rightarrow> Some (''INVALID'', ''CANONICALIZATION_FAILED'')
               | Inr h \<Rightarrow>
                   if JStr h \<noteq> jget receipt ''payload_hash'' then Some (''INVALID'', ''PAYLOAD_TAMPERED'')
                   else (case canonical_sha256 E (JObj (without_hash ''receipt_hash'' receipt)) of
                      Inl _ \<Rightarrow> Some (''INVALID'', ''CANONICALIZATION_FAILED'')
                    | Inr recomputed \<Rightarrow>
                        if JStr recomputed \<noteq> jget receipt ''receipt_hash'' then Some (''INVALID'', ''RECEIPT_TAMPERED'')
                        else (case jget receipt ''acceptance_evidence'' of
                           JArr _ \<Rightarrow> None | _ \<Rightarrow> Some (''INVALID'', ''EVIDENCE_INVALID'')))))
     | _ \<Rightarrow> Some (''INVALID'', ''BINDING_INVALID''))"

definition evidence_rows :: "(string \<times> json) list \<Rightarrow> json list" where
  "evidence_rows receipt = (case jget receipt ''acceptance_evidence'' of JArr rows \<Rightarrow> rows | _ \<Rightarrow> [])"

fun verify_loop :: "hbp_env \<Rightarrow> HbpBinding \<Rightarrow> nat \<Rightarrow> string \<Rightarrow> (string, (string \<times> json) list list) dict \<Rightarrow> (string \<times> json) list list \<Rightarrow> verification" where
  \<comment> \<open>the loop of \<open>verify_receipts\<close> from receipt \<open>index\<close> on\<close>
  "verify_loop E expected index previous ev [] = report ''VERIFIED'' ''OK'' (index - 1) ev (Some previous)"
| "verify_loop E expected index previous ev (receipt # receipts) =
    (case receipt_reason E expected index previous receipt of
       Some (status, reason) \<Rightarrow> report status reason (index - 1) ev None
     | None \<Rightarrow>
         (case index_evidence E (evidence_rows receipt) ev of
            (False, ev') \<Rightarrow> report ''INVALID'' ''EVIDENCE_INVALID'' (index - 1) ev' None
          | (True, ev') \<Rightarrow> verify_loop E expected (Suc index) (py_str (he_repr E) (jget receipt ''receipt_hash'')) ev' receipts))"

definition verify_receipts :: "hbp_env \<Rightarrow> HbpBinding \<Rightarrow> (string \<times> json) list list \<Rightarrow> verification" where
  "verify_receipts E expected receipts =
    (if receipts = [] then report ''EMPTY'' ''NO_RECEIPTS'' 0 [] None else verify_loop E expected 1 GENESIS_HASH [] receipts)"

section \<open>The file\<close>

datatype ledger_file = LedgerMissing | LedgerUnreadable | LedgerBytes bytes

function split_lines :: "bytes \<Rightarrow> bytes \<Rightarrow> bytes list" where
  \<comment> \<open>\<open>bytes.splitlines\<close>, with the bytes of the current line\<close>
  "split_lines line [] = (if line = [] then [] else [line])"
| "split_lines line (b # bs) =
    (if b = 10 then line # split_lines [] bs
     else if b = 13 then line # split_lines [] (if take 1 bs = [10] then tl bs else bs)
     else split_lines (line @ [b]) bs)"
  by pat_completeness auto
termination by (relation "measure (\<lambda>(line, bs). length bs)") auto

fun read_lines :: "hbp_env \<Rightarrow> nat \<Rightarrow> (string \<times> json) list list \<Rightarrow> bytes list \<Rightarrow> (string \<times> json) list list \<times> string option" where
  "read_lines E n receipts [] = (receipts, None)"
| "read_lines E n receipts (line # rest) =
    (case he_loads E line of
       None \<Rightarrow> (receipts, Some (''INVALID_JSON_LINE_'' @ show_int (int n)))
     | Some (JObj d) \<Rightarrow> read_lines E (Suc n) (receipts @ [d]) rest
     | Some _ \<Rightarrow> (receipts, Some (''INVALID_RECEIPT_LINE_'' @ show_int (int n))))"

fun read_jsonl :: "hbp_env \<Rightarrow> ledger_file \<Rightarrow> (string \<times> json) list list \<times> string option" where
  "read_jsonl E LedgerMissing = ([], Some ''LEDGER_MISSING'')"
| "read_jsonl E LedgerUnreadable = ([], Some ''LEDGER_UNREADABLE'')"
| "read_jsonl E (LedgerBytes raw) = read_lines E 1 [] (split_lines [] raw)"

definition verify_file :: "hbp_env \<Rightarrow> HbpBinding \<Rightarrow> bool \<Rightarrow> ledger_file \<Rightarrow> verification" where
  "verify_file E expected allow_missing f =
    (case read_jsonl E f of
       (receipts, Some e) \<Rightarrow>
         if allow_missing \<and> e = ''LEDGER_MISSING'' then report ''EMPTY'' ''NO_RECEIPTS'' 0 [] None
         else report ''INVALID'' e (length receipts) [] None
     | (receipts, None) \<Rightarrow> verify_receipts E expected receipts)"

definition ledger_append ::
    "hbp_env \<Rightarrow> HbpBinding \<Rightarrow> AcceptanceEvidence list \<Rightarrow> (string \<times> json) list \<Rightarrow> int \<Rightarrow> ledger_file \<Rightarrow>
     ledger_file \<times> (hbp_error + (string \<times> json) list)" where
  "ledger_append E binding evidence payload now f =
    (let v = verify_file E binding True f
     in if vf_status v \<notin> {''VERIFIED'', ''EMPTY''} then (f, Inl (HbpAppendError (vf_reason_code v)))
        else
          let receipts = fst (read_jsonl E f);
              previous = (if receipts = [] then GENESIS_HASH else py_str (he_repr E) (jget (last receipts) ''receipt_hash''))
          in case build_receipt E (length receipts + 1) binding previous evidence payload now of
               Inl e \<Rightarrow> (f, Inl e)
             | Inr receipt \<Rightarrow>
                 (case canonical_bytes E (JObj receipt) of
                    None \<Rightarrow> (f, Inl (HbpTypeError ''floats are not allowed in canonical HBP receipts''))
                  | Some bs \<Rightarrow> (LedgerBytes ((case f of LedgerBytes raw \<Rightarrow> raw | _ \<Rightarrow> []) @ bs @ [10]), Inr receipt)))"

section \<open>The completion oracle\<close>

record acceptance_row =
  ar_ac_id :: string
  ar_status :: string
  ar_evidence_hashes :: "string list"
  ar_evidence_uris :: "string list"

definition passing :: "(string \<times> json) list \<Rightarrow> bool" where
  "passing row \<longleftrightarrow> jget row ''verdict'' = JStr ''PASS''
     \<and> (case jget row ''evidence_hash'' of JStr h \<Rightarrow> length h = 64 | _ \<Rightarrow> False) \<and> truthy (jget row ''evidence_uri'')"

definition acceptance_matrix :: "hbp_env \<Rightarrow> verification \<Rightarrow> string list \<Rightarrow> acceptance_row list" where
  "acceptance_matrix E v acs = map (\<lambda>ac_id.
     let rows = filter passing (dict_get_or (vf_evidence v) ac_id [])
     in \<lparr>ar_ac_id = ac_id, ar_status = (if rows \<noteq> [] then ''VERIFIED'' else ''MISSING''),
         ar_evidence_hashes = sorted_set (map (\<lambda>r. py_str (he_repr E) (jget r ''evidence_hash'')) rows),
         ar_evidence_uris = sorted_set (map (\<lambda>r. py_str (he_repr E) (jget r ''evidence_uri'')) rows)\<rparr>) acs"

record oracle_report =
  or_verdict :: string
  or_reason_code :: string
  or_binding :: HbpBinding
  or_matrix :: "acceptance_row list"
  or_chain :: verification

definition completion_oracle :: "hbp_env \<Rightarrow> HbpBinding \<Rightarrow> string list \<Rightarrow> (string \<times> json) list list \<Rightarrow> oracle_report" where
  "completion_oracle E expected criteria receipts =
    (let v = verify_receipts E expected receipts;
         expected_acs = sorted_set (filter (\<lambda>a. a \<noteq> []) criteria);
         matrix = acceptance_matrix E v expected_acs;
         (verdict, reason) =
           (if vf_status v = ''LEGACY'' then (''PARTIAL'', ''LEGACY_CHAIN'')
            else if vf_status v \<noteq> ''VERIFIED'' then (''BLOCKED'', vf_reason_code v)
            else if expected_acs = [] \<or> (\<exists>row \<in> set matrix. ar_status row \<noteq> ''VERIFIED'') then (''PARTIAL'', ''AC_EVIDENCE_MISSING'')
            else (''COMPLETE'', ''OK''))
     in \<lparr>or_verdict = verdict, or_reason_code = reason, or_binding = expected, or_matrix = matrix, or_chain = v\<rparr>)"

section \<open>Facts about objects\<close>

lemma jget_insort: "k \<notin> fst ` set d \<Longrightarrow> jget (insort_key fst (k, v) d) k' = (if k' = k then v else jget d k')"
  by (induction d) (auto simp: jget_def)

lemma jget_filter: "k' \<noteq> k \<Longrightarrow> jget (filter (\<lambda>p. fst p \<noteq> k) d) k' = jget d k'"
  by (induction d) (auto simp: jget_def)

lemma jget_obj_put: "jget (obj_put k v d) k' = (if k' = k then v else jget d k')"
  unfolding obj_put_def by (subst jget_insort) (auto simp: jget_filter)

lemma keys_obj_put: "fst ` set (obj_put k v d) = insert k (fst ` set d)"
  by (auto simp: obj_put_def set_insort_key image_iff)

lemma filter_insort_other: "k \<notin> fst ` set d \<Longrightarrow> filter (\<lambda>p. fst p \<noteq> k) (insort_key fst (k, v) d) = d"
  by (induction d) (auto simp: filter_id_conv)

lemma without_obj_put: "k \<notin> fst ` set d \<Longrightarrow> without_hash k (obj_put k v d) = d"
proof -
  assume k: "k \<notin> fst ` set d"
  then have "filter (\<lambda>p. fst p \<noteq> k) d = d" by (auto simp: filter_id_conv)
  then show ?thesis using k by (simp add: without_hash_def obj_put_def filter_insort_other)
qed

definition object_form :: "(string \<times> json) list \<Rightarrow> bool" where
  \<comment> \<open>an object as the parser gives it: distinct keys, in sorted order\<close>
  "object_form d \<longleftrightarrow> sorted (map fst d) \<and> distinct (map fst d)"

lemma object_eq:
  assumes "object_form d" and "object_form d'" and "without_hash k d = without_hash k d'" and "in_dict k d" and "in_dict k d'"
    and "jget d k = jget d' k"
  shows "d = d'"
proof -
  have split: "set x = insert (k, jget x k) (set (without_hash k x))" if "object_form x" "in_dict k x" for x
    using that unfolding object_form_def in_dict_def jget_def without_hash_def
    by (auto simp: map_of_eq_Some_iff dest: eq_key_imp_eq_value)
  then have "set d = set d'" using assms by metis
  moreover have "inj_on fst (set d \<union> set d)" using assms(1) by (simp add: object_form_def distinct_map)
  ultimately show ?thesis
    using assms(1,2) map_sorted_distinct_set_unique [of fst d d'] by (auto simp: object_form_def)
qed

section \<open>Canonical text has no line breaks\<close>

lemma show_nat_chars: "c \<in> set (show_nat n) \<Longrightarrow> 32 \<le> (of_char c :: nat)"
  by (induction n rule: show_nat.induct) (subst (asm) (2) show_nat.simps, auto split: if_splits)

lemma escape_chars: "c' \<in> set (escape_char c) \<Longrightarrow> 32 \<le> (of_char c' :: nat)"
proof -
  have h: "n < 16 \<Longrightarrow> 32 \<le> (of_char (hex_digits ! n) :: nat)" for n
  proof -
    assume "n < 16"
    then have "hex_digits ! n \<in> set hex_digits" by (intro nth_mem) (simp add: hex_digits_def)
    moreover have "\<forall>c \<in> set hex_digits. 32 \<le> (of_char c :: nat)" by code_simp
    ultimately show ?thesis by blast
  qed
  assume "c' \<in> set (escape_char c)"
  then show ?thesis
    using h [of "of_char c div 16"] h [of "of_char c mod 16"]
    by (auto simp: escape_char_def Let_def not_less split: if_splits)
qed

lemma quoted_chars: "c \<in> set (quoted s) \<Longrightarrow> 32 \<le> (of_char c :: nat)"
  by (auto simp: quoted_def dest: escape_chars)

lemma comma_chars: "c \<in> set (comma xs) \<Longrightarrow> c = CHR '','' \<or> (\<exists>x \<in> set xs. c \<in> set x)"
  by (induction xs rule: comma.induct) auto

lemma dumps_chars: "c \<in> set (dumps v) \<Longrightarrow> 32 \<le> (of_char c :: nat)"
proof (induction v arbitrary: c rule: dumps.induct)
  case (3 r)
  then show ?case by (auto simp: show_int_def dest: show_nat_chars split: if_splits)
next
  case (4 s)
  then show ?case by (auto dest: quoted_chars)
next
  case (5 xs)
  then show ?case by (auto dest!: comma_chars)
next
  case (6 d)
  from 6(2) consider "c = CHR ''{''" | "c = CHR ''}''" | "c = CHR '',''" |
    p where "p \<in> set d" "c \<in> set (quoted (fst p) @ CHR '':'' # dumps (snd p))"
    by (auto dest!: comma_chars)
  then show ?case using 6(1) by cases (auto dest: quoted_chars)
qed (auto split: if_splits)

lemma canonical_no_breaks: "canonical_bytes E v = Some bs \<Longrightarrow> b \<in> set bs \<Longrightarrow> b \<noteq> 10 \<and> b \<noteq> 13"
proof -
  assume "canonical_bytes E v = Some bs" "b \<in> set bs"
  then obtain c n where c: "b = of_char c" "c \<in> set (dumps n)" by (auto simp: canonical_bytes_def utf8_bytes_def)
  have "32 \<le> (of_char c :: nat)" by (rule dumps_chars [OF c(2)])
  moreover have "unat b = of_char c"
  proof -
    have "b = of_nat (of_char c)" unfolding c(1) by (rule of_nat_of_char [symmetric])
    moreover have "(of_char c :: nat) < 256" by (rule nat_of_char_less_256)
    ultimately show ?thesis by (simp only: unat_of_nat) simp
  qed
  ultimately have "32 \<le> unat b" by simp
  then show ?thesis by auto
qed

section \<open>Lines\<close>

lemma split_lines_append:
  "(raw = [] \<and> line = []) \<or> (raw \<noteq> [] \<and> last raw = 10) \<Longrightarrow> split_lines line (raw @ ys) = split_lines line raw @ split_lines [] ys"
proof (induction line raw rule: split_lines.induct)
  case (2 line b bs)
  then show ?case by (cases bs) (auto split: if_splits)
qed auto

lemma split_lines_line: "\<forall>b \<in> set bs. b \<noteq> 10 \<and> b \<noteq> 13 \<Longrightarrow> split_lines line (bs @ [10]) = [line @ bs]"
  by (induction bs arbitrary: line) auto

lemma read_lines_append:
  "read_lines E n acc xs = (rs, None) \<Longrightarrow> read_lines E n acc (xs @ ys) = read_lines E (n + length xs) rs ys"
  by (induction E n acc xs rule: read_lines.induct) (auto split: option.splits json.splits)

section \<open>What a verified chain is\<close>

definition evidence_valid :: "json list \<Rightarrow> bool" where
  "evidence_valid rows \<longleftrightarrow> (\<forall>x \<in> set rows. \<exists>row. x = JObj row \<and> truthy (jget row ''ac_id''))"

definition receipt_sound :: "hbp_env \<Rightarrow> HbpBinding \<Rightarrow> (string \<times> json) list \<Rightarrow> bool" where
  "receipt_sound E b r \<longleftrightarrow> jget r ''schema'' = JStr HBP_SCHEMA \<and> (\<forall>k \<in> set REQUIRED_FIELDS. in_dict k r)
     \<and> (\<exists>n. json_is_int (jget r ''sequence'') (int n))
     \<and> (\<exists>actual. jget r ''binding'' = JObj actual \<and> binding_reason actual b = None)
     \<and> (\<exists>h. canonical_sha256 E (jget r ''payload'') = Inr h \<and> jget r ''payload_hash'' = JStr h)
     \<and> (\<exists>h. canonical_sha256 E (JObj (without_hash ''receipt_hash'' r)) = Inr h \<and> jget r ''receipt_hash'' = JStr h)
     \<and> (\<exists>rows. jget r ''acceptance_evidence'' = JArr rows \<and> evidence_valid rows)"

fun json_nat :: "json \<Rightarrow> nat" where
  "json_nat (JNum r) = nat \<lfloor>r\<rfloor>"
| "json_nat (JBool b) = (if b then 1 else 0)"
| "json_nat v = 0"

lemma json_is_int_nat: "json_is_int v (int n) \<Longrightarrow> json_nat v = n"
  by (cases v) (auto split: if_splits)

lemma json_is_int_unique: "json_is_int v (int n) \<Longrightarrow> json_is_int v (int m) \<longleftrightarrow> m = n"
  by (cases v) (auto split: if_splits)

abbreviation receipt_seal :: "(string \<times> json) list \<Rightarrow> json" where "receipt_seal r \<equiv> jget r ''receipt_hash''"
abbreviation receipt_prev :: "(string \<times> json) list \<Rightarrow> json" where "receipt_prev r \<equiv> jget r ''previous_receipt_hash''"
abbreviation receipt_num :: "(string \<times> json) list \<Rightarrow> nat" where "receipt_num r \<equiv> json_nat (jget r ''sequence'')"

lemma index_evidence_valid: "fst (index_evidence E rows ev) \<longleftrightarrow> evidence_valid rows"
  by (induction E rows ev rule: index_evidence.induct) (auto simp: evidence_valid_def Let_def)

definition rows_for :: "hbp_env \<Rightarrow> string \<Rightarrow> json list \<Rightarrow> (string \<times> json) list list" where
  "rows_for E k rows = filter (\<lambda>row. py_str (he_repr E) (jget row ''ac_id'') = k) (map (\<lambda>x. case x of JObj row \<Rightarrow> row | _ \<Rightarrow> []) rows)"

lemma index_evidence_get:
  "evidence_valid rows \<Longrightarrow> dict_get_or (snd (index_evidence E rows ev)) k [] = dict_get_or ev k [] @ rows_for E k rows"
  by (induction E rows ev rule: index_evidence.induct) (auto simp: evidence_valid_def rows_for_def Let_def)

lemma receipt_reason_status: "receipt_reason E b n prev r = Some (st, reason) \<Longrightarrow> st \<in> {''LEGACY'', ''INVALID''}"
  by (auto simp: receipt_reason_def split: if_splits json.splits option.splits sum.splits)

lemma receipt_reason_None:
  "receipt_reason E b n prev r = None \<and> evidence_valid (evidence_rows r) \<longleftrightarrow>
     receipt_sound E b r \<and> receipt_prev r = JStr prev \<and> receipt_num r = n"
proof -
  have "receipt_reason E b n prev r = None \<and> evidence_valid (evidence_rows r) \<longleftrightarrow>
     receipt_sound E b r \<and> receipt_prev r = JStr prev \<and> json_is_int (jget r ''sequence'') (int n)"
    unfolding receipt_reason_def receipt_sound_def evidence_rows_def
    by (auto split: if_splits json.splits option.splits sum.splits)
  moreover have "json_is_int (jget r ''sequence'') (int n) \<longleftrightarrow> receipt_num r = n" if "receipt_sound E b r"
    using that json_is_int_nat json_is_int_unique unfolding receipt_sound_def by metis
  ultimately show ?thesis by (cases "receipt_sound E b r") simp_all
qed

lemma sound_seal: "receipt_sound E b r \<Longrightarrow> \<exists>h. receipt_seal r = JStr h \<and> py_str rep (receipt_seal r) = h"
  by (auto simp: receipt_sound_def)

lemma verify_loop_iff:
  "vf_status (verify_loop E b n prev ev rs) = ''VERIFIED'' \<longleftrightarrow>
     (\<forall>r \<in> set rs. receipt_sound E b r) \<and> linked receipt_seal receipt_prev receipt_num (JStr prev) n rs"
proof (induction rs arbitrary: n prev ev)
  case Nil
  then show ?case by (simp add: report_def)
next
  case (Cons r rs)
  show ?case
  proof (cases "receipt_reason E b n prev r = None \<and> evidence_valid (evidence_rows r)")
    case True
    then have s: "receipt_sound E b r" "receipt_prev r = JStr prev" "receipt_num r = n" using receipt_reason_None by blast+
    obtain h where h: "receipt_seal r = JStr h" "py_str (he_repr E) (receipt_seal r) = h" using sound_seal [OF s(1)] by blast
    obtain ev' where "index_evidence E (evidence_rows r) ev = (True, ev')"
      using True index_evidence_valid [of E "evidence_rows r" ev] by (metis (full_types) prod.collapse)
    then show ?thesis using True s h Cons.IH by simp
  next
    case False
    then have "\<not> (receipt_sound E b r \<and> receipt_prev r = JStr prev \<and> receipt_num r = n)" using receipt_reason_None by blast
    moreover have "vf_status (verify_loop E b n prev ev (r # rs)) \<noteq> ''VERIFIED''"
    proof (cases "receipt_reason E b n prev r")
      case None
      then have "\<not> fst (index_evidence E (evidence_rows r) ev)" using False index_evidence_valid by blast
      then show ?thesis using None by (auto simp: report_def split: prod.split)
    next
      case (Some x)
      then show ?thesis using receipt_reason_status [of E b n prev r] by (cases x) (auto simp: report_def)
    qed
    ultimately show ?thesis by auto
  qed
qed

lemma verify_loop_value:
  assumes "\<forall>r \<in> set rs. receipt_sound E b r" and "linked receipt_seal receipt_prev receipt_num (JStr prev) (Suc n) rs"
  shows "\<exists>ev'. verify_loop E b (Suc n) prev ev rs
      = report ''VERIFIED'' ''OK'' (n + length rs) ev' (Some (if rs = [] then prev else py_str (he_repr E) (receipt_seal (last rs))))
    \<and> (\<forall>k. dict_get_or ev' k [] = dict_get_or ev k [] @ concat (map (\<lambda>r. rows_for E k (evidence_rows r)) rs))"
  using assms
proof (induction rs arbitrary: n prev ev)
  case (Cons r rs)
  have s: "receipt_reason E b (Suc n) prev r = None \<and> evidence_valid (evidence_rows r)"
    using Cons.prems receipt_reason_None [of E b "Suc n" prev r] by simp
  obtain h where h: "receipt_seal r = JStr h" "py_str (he_repr E) (receipt_seal r) = h"
    using sound_seal [of E b r] Cons.prems(1) by auto
  obtain ev1 where ev1: "index_evidence E (evidence_rows r) ev = (True, ev1)"
    using s index_evidence_valid [of E "evidence_rows r" ev] by (metis (full_types) prod.collapse)
  have g: "dict_get_or ev1 k [] = dict_get_or ev k [] @ rows_for E k (evidence_rows r)" for k
    using index_evidence_get [of "evidence_rows r" E ev k] s ev1 by simp
  obtain ev' where e: "verify_loop E b (Suc (Suc n)) h ev1 rs
      = report ''VERIFIED'' ''OK'' (Suc n + length rs) ev' (Some (if rs = [] then h else py_str (he_repr E) (receipt_seal (last rs))))"
    "\<forall>k. dict_get_or ev' k [] = dict_get_or ev1 k [] @ concat (map (\<lambda>r. rows_for E k (evidence_rows r)) rs)"
    using Cons.IH [of h "Suc n" ev1] Cons.prems h(1) by auto
  then show ?case using s ev1 h g by (intro exI [of _ ev']) auto
qed (auto simp: report_def)

definition chain_sound :: "hbp_env \<Rightarrow> HbpBinding \<Rightarrow> (string \<times> json) list list \<Rightarrow> bool" where
  "chain_sound E b rs \<longleftrightarrow> (\<forall>r \<in> set rs. receipt_sound E b r) \<and> linked receipt_seal receipt_prev receipt_num (JStr GENESIS_HASH) 1 rs"

lemma verified_iff: "vf_status (verify_receipts E b rs) = ''VERIFIED'' \<longleftrightarrow> rs \<noteq> [] \<and> chain_sound E b rs"
  by (auto simp: verify_receipts_def verify_loop_iff chain_sound_def report_def)

lemma verified_value:
  assumes "chain_sound E b rs" and "rs \<noteq> []"
  shows "\<exists>ev. verify_receipts E b rs = report ''VERIFIED'' ''OK'' (length rs) ev (Some (py_str (he_repr E) (receipt_seal (last rs))))
    \<and> (\<forall>k. dict_get_or ev k [] = concat (map (\<lambda>r. rows_for E k (evidence_rows r)) rs))"
  using verify_loop_value [of rs E b GENESIS_HASH 0 "[]"] assms by (auto simp: verify_receipts_def chain_sound_def)

lemma inj_on_sealed:
  assumes "inj_on (\<lambda>body. canonical_sha256 E (JObj body)) B" and "\<And>body. body \<in> B \<Longrightarrow> \<exists>h. canonical_sha256 E (JObj body) = Inr h"
  shows "inj_on (\<lambda>body. case canonical_sha256 E (JObj body) of Inl _ \<Rightarrow> JNull | Inr h \<Rightarrow> JStr h) B"
proof (rule inj_onI)
  fix u v
  assume uv: "u \<in> B" "v \<in> B" "(case canonical_sha256 E (JObj u) of Inl _ \<Rightarrow> JNull | Inr h \<Rightarrow> JStr h)
    = (case canonical_sha256 E (JObj v) of Inl _ \<Rightarrow> JNull | Inr h \<Rightarrow> JStr h)"
  obtain x y where "canonical_sha256 E (JObj u) = Inr x" "canonical_sha256 E (JObj v) = Inr y" using assms(2) uv by metis
  then show "u = v" using uv inj_onD [OF assms(1), of u v] by simp
qed

interpretation ledger_chain: hash_chain "\<lambda>rs. chain_sound E b rs \<and> (\<forall>r \<in> set rs. object_form r)"
    "\<lambda>body. case canonical_sha256 E (JObj body) of Inl _ \<Rightarrow> JNull | Inr h \<Rightarrow> JStr h" "without_hash ''receipt_hash''"
    receipt_seal receipt_prev receipt_num "JStr GENESIS_HASH" for E b
proof (unfold_locales, goal_cases)
  case (2 rs r)
  then show ?case by (auto simp: chain_sound_def receipt_sound_def)
next
  case (3 rs rs' r r')
  moreover have "in_dict ''receipt_hash'' x" if "receipt_sound E b x" for x using that by (simp add: receipt_sound_def REQUIRED_FIELDS_def)
  ultimately show ?case using object_eq [of r r' "''receipt_hash''"] unfolding chain_sound_def by blast
qed (simp add: chain_sound_def)

section \<open>Appending keeps the chain sound\<close>

lemma jget_simps: "jget ((k, v) # d) k' = (if k' = k then v else jget d k')" "jget [] k = JNull"
  by (simp_all add: jget_def)

lemma build_receipt_sound:
  assumes "build_receipt E n b previous evidence payload now = Inr r" and "\<forall>a \<in> set evidence. AcceptanceEvidence_post_init a = Inr a"
  shows "receipt_sound E b r \<and> receipt_prev r = JStr previous \<and> receipt_num r = n"
proof -
  obtain ph h where ph: "canonical_sha256 E (JObj payload) = Inr ph" and n: "1 \<le> n"
    and h: "canonical_sha256 E (JObj (receipt_fields n b previous evidence payload ph now)) = Inr h"
    and r: "r = obj_put ''receipt_hash'' (JStr h) (receipt_fields n b previous evidence payload ph now)"
    using assms(1) by (auto simp: build_receipt_def ebind_Inr_conv Let_def split: if_splits)
  let ?d = "receipt_fields n b previous evidence payload ph now"
  have w: "without_hash ''receipt_hash'' r = ?d" unfolding r by (rule without_obj_put) (simp add: receipt_fields_def)
  have k: "in_dict k r \<longleftrightarrow> k = ''receipt_hash'' \<or> k \<in> fst ` set ?d" for k
    unfolding in_dict_keys r set_map keys_obj_put by simp
  have g: "jget r x = (if x = ''receipt_hash'' then JStr h else jget ?d x)" for x unfolding r by (rule jget_obj_put)
  have ev: "evidence_valid (map evidence_dict evidence)"
    using assms(2) unfolding evidence_valid_def evidence_dict_def
    by (auto simp: jget_def AcceptanceEvidence_post_init_def split: if_splits)
  have bind: "binding_reason (binding_dict b) b = None" by (simp add: binding_reason_def binding_dict_def jget_def)
  have "receipt_sound E b r"
    unfolding receipt_sound_def w using ph h [unfolded receipt_fields_def] ev bind json_is_int.simps(1) [of "of_nat n" "int n"] by (simp add: g k jget_simps REQUIRED_FIELDS_def receipt_fields_def)
  moreover have "receipt_prev r = JStr previous" "receipt_num r = n" by (simp_all add: g jget_simps receipt_fields_def)
  ultimately show ?thesis by blast
qed

inductive ledger_step :: "hbp_env \<Rightarrow> HbpBinding \<Rightarrow> ledger_file \<times> (string \<times> json) list list \<Rightarrow> ledger_file \<times> (string \<times> json) list list \<Rightarrow> bool"
  for E b where
  \<comment> \<open>one call of \<open>append\<close> and the receipts it returned so far; the parser reads back what was written\<close>
  appended: "\<forall>a \<in> set evidence. AcceptanceEvidence_post_init a = Inr a \<Longrightarrow> ledger_append E b evidence payload now f = (f', Inr receipt) \<Longrightarrow>
    (\<And>bs. canonical_bytes E (JObj receipt) = Some bs \<Longrightarrow> he_loads E bs = Some (JObj receipt)) \<Longrightarrow>
    ledger_step E b (f, rs) (f', rs @ [receipt])"
| rejected: "ledger_append E b evidence payload now f = (f', Inl e) \<Longrightarrow> ledger_step E b (f, rs) (f', rs)"

definition ledger_inv :: "hbp_env \<Rightarrow> HbpBinding \<Rightarrow> ledger_file \<times> (string \<times> json) list list \<Rightarrow> bool" where
  "ledger_inv E b s \<longleftrightarrow> (case s of (f, rs) \<Rightarrow> chain_sound E b rs \<and> (f = LedgerMissing \<and> rs = []
     \<or> (\<exists>raw. f = LedgerBytes raw \<and> (raw = [] \<or> last raw = 10) \<and> read_jsonl E f = (rs, None))))"

lemma ledger_inv_read: "ledger_inv E b (f, rs) \<Longrightarrow> fst (read_jsonl E f) = rs"
  by (auto simp: ledger_inv_def)

lemma ledger_inv_verify:
  "ledger_inv E b (f, rs) \<Longrightarrow> verify_file E b True f = (if rs = [] then report ''EMPTY'' ''NO_RECEIPTS'' 0 [] None else verify_receipts E b rs)"
  by (auto simp: ledger_inv_def verify_file_def verify_receipts_def)

lemma ledger_append_shape:
  assumes "ledger_inv E b (f, rs)"
  shows "ledger_append E b evidence payload now f =
    (case build_receipt E (length rs + 1) b (if rs = [] then GENESIS_HASH else py_str (he_repr E) (receipt_seal (last rs))) evidence payload now of
       Inl e \<Rightarrow> (f, Inl e)
     | Inr receipt \<Rightarrow> (case canonical_bytes E (JObj receipt) of
          None \<Rightarrow> (f, Inl (HbpTypeError ''floats are not allowed in canonical HBP receipts''))
        | Some bs \<Rightarrow> (LedgerBytes ((case f of LedgerBytes raw \<Rightarrow> raw | _ \<Rightarrow> []) @ bs @ [10]), Inr receipt)))"
proof -
  have "vf_status (verify_file E b True f) \<in> {''VERIFIED'', ''EMPTY''}"
  proof (cases "rs = []")
    case False
    then have "vf_status (verify_receipts E b rs) = ''VERIFIED''" using assms by (simp add: verified_iff ledger_inv_def)
    then show ?thesis using False ledger_inv_verify [OF assms] by simp
  qed (simp add: ledger_inv_verify [OF assms] report_def)
  then show ?thesis unfolding ledger_append_def Let_def ledger_inv_read [OF assms] by simp
qed

lemma ledger_step_inv: "ledger_step E b s s' \<Longrightarrow> ledger_inv E b s \<Longrightarrow> ledger_inv E b s'"
proof (induction rule: ledger_step.induct)
  case (appended evidence payload now f f' receipt rs)
  obtain bs where build: "build_receipt E (length rs + 1) b (if rs = [] then GENESIS_HASH else py_str (he_repr E) (receipt_seal (last rs))) evidence payload now = Inr receipt"
    and bs: "canonical_bytes E (JObj receipt) = Some bs" and f': "f' = LedgerBytes ((case f of LedgerBytes raw \<Rightarrow> raw | _ \<Rightarrow> []) @ bs @ [10])"
    using appended(2) unfolding ledger_append_shape [OF appended.prems] by (auto split: sum.splits option.splits)
  have sound: "receipt_sound E b receipt" "receipt_prev receipt = JStr (if rs = [] then GENESIS_HASH else py_str (he_repr E) (receipt_seal (last rs)))"
    "receipt_num receipt = length rs + 1" using build_receipt_sound [OF build appended(1)] by blast+
  have chain: "chain_sound E b rs" using appended.prems by (simp add: ledger_inv_def)
  have "JStr (if rs = [] then GENESIS_HASH else py_str (he_repr E) (receipt_seal (last rs))) = head_seal receipt_seal (JStr GENESIS_HASH) rs"
  proof (cases "rs = []")
    case False
    then have "receipt_sound E b (last rs)" using chain by (simp add: chain_sound_def)
    from sound_seal [OF this, of "he_repr E"] show ?thesis using False by (auto simp: head_seal_def)
  qed simp
  then have "chain_sound E b (rs @ [receipt])" using chain sound by (simp add: chain_sound_def linked_append)
  moreover have "read_jsonl E f' = (rs @ [receipt], None)"
  proof -
    define raw where "raw = (case f of LedgerBytes raw \<Rightarrow> raw | _ \<Rightarrow> [])"
    have raw: "raw = [] \<or> last raw = 10" "read_lines E 1 [] (split_lines [] raw) = (rs, None)"
      using appended.prems by (auto simp: ledger_inv_def raw_def)
    have "split_lines [] (bs @ [10]) = [bs]" using split_lines_line [of bs "[]"] canonical_no_breaks [OF bs] by simp
    then have "split_lines [] (raw @ bs @ [10]) = split_lines [] raw @ [bs]" using split_lines_append [of raw "[]" "bs @ [10]"] raw(1) by auto
    then show ?thesis using read_lines_append [OF raw(2), of "[bs]"] appended(3) [OF bs] by (simp add: f' raw_def [symmetric])
  qed
  ultimately show ?case by (simp add: ledger_inv_def f')
next
  case (rejected evidence payload now f f' e rs)
  then show ?case unfolding ledger_append_shape [OF rejected.prems] by (auto split: sum.splits option.splits)
qed

interpretation ledger: state_machine "\<lambda>s. s = (LedgerMissing, [])" "ledger_step E b" "ledger_inv E b" for E b
proof (unfold_locales, goal_cases)
  case (1 s)
  then show ?case by (simp add: ledger_inv_def chain_sound_def)
qed (rule ledger_step_inv)

lemma those_map_Some: "those (map f xs) \<noteq> None \<longleftrightarrow> (\<forall>x \<in> set xs. f x \<noteq> None)"
  by (induction xs) (auto split: option.splits)

lemma normalize_obj_Some: "normalize_json nfc (JObj d) \<noteq> None \<longleftrightarrow> (\<forall>p \<in> set d. normalize_json nfc (snd p) \<noteq> None)"
  using those_map_Some [of "\<lambda>p. normalize_json nfc (snd p)" d] by simp

lemma length_hexdigest: "length (hexdigest bs) = 2 * length bs"
  by (induction bs) (simp_all add: hexdigest_def hex_byte_def)

lemma canonical_sha256_Inr:
  "canonical_sha256 E v = Inr h \<longleftrightarrow> (\<exists>bs. canonical_bytes E v = Some bs \<and> h = hexdigest (he_sha256 E bs))"
  by (auto simp: canonical_sha256_def split: option.splits)

lemma canonical_bytes_Some: "(\<exists>bs. canonical_bytes E v = Some bs) \<longleftrightarrow> normalize_json (he_nfc E) v \<noteq> None"
  by (auto simp: canonical_bytes_def)

lemma canonical_sha256_ok: "normalize_json (he_nfc E) v \<noteq> None \<Longrightarrow> canonical_sha256 E v = Inr (projr (canonical_sha256 E v))"
  using canonical_bytes_Some [of E v] by (auto simp: canonical_sha256_def)

lemma object_form_put: "object_form d \<Longrightarrow> object_form (obj_put k v d)"
proof -
  assume d: "object_form d"
  have "map fst (filter (\<lambda>p. fst p \<noteq> k) d) = filter (\<lambda>x. x \<noteq> k) (map fst d)" by (simp add: filter_map comp_def)
  moreover have "map fst (insort_key fst p xs) = insort (fst p) (map fst xs)" for p :: "string \<times> json" and xs by (induction xs) auto
  ultimately have "map fst (obj_put k v d) = insort k (filter (\<lambda>x. x \<noteq> k) (map fst d))" by (simp add: obj_put_def)
  then show ?thesis using d by (simp add: object_form_def sorted_insort distinct_insort sorted_wrt_filter)
qed

lemma build_receipt_ok:
  assumes "1 \<le> n" and "length previous = 64" and "normalize_json (he_nfc E) (JObj payload) \<noteq> None"
  shows "\<exists>r bs. build_receipt E n b previous evidence payload now = Inr r \<and> canonical_bytes E (JObj r) = Some bs"
proof -
  obtain ph where ph: "canonical_sha256 E (JObj payload) = Inr ph" using canonical_sha256_ok [OF assms(3)] by blast
  let ?d = "receipt_fields n b previous evidence payload ph now"
  have "normalize_json (he_nfc E) (evidence_dict a) \<noteq> None" for a unfolding evidence_dict_def normalize_obj_Some by simp
  then have "normalize_json (he_nfc E) (JArr (map evidence_dict evidence)) \<noteq> None"
    using those_map_Some [of "normalize_json (he_nfc E)" "map evidence_dict evidence"] by simp
  moreover have "normalize_json (he_nfc E) (JObj (binding_dict b)) \<noteq> None" unfolding binding_dict_def normalize_obj_Some by simp
  ultimately have d: "\<forall>p \<in> set ?d. normalize_json (he_nfc E) (snd p) \<noteq> None"
    using assms(3) unfolding receipt_fields_def by (simp del: normalize_json.simps(5,6))
  then have "normalize_json (he_nfc E) (JObj ?d) \<noteq> None" unfolding normalize_obj_Some .
  then obtain h where h: "canonical_sha256 E (JObj ?d) = Inr h" using canonical_sha256_ok by blast
  have "\<forall>p \<in> set (obj_put ''receipt_hash'' (JStr h) ?d). normalize_json (he_nfc E) (snd p) \<noteq> None"
    using d by (auto simp: obj_put_def set_insort_key)
  then have "normalize_json (he_nfc E) (JObj (obj_put ''receipt_hash'' (JStr h) ?d)) \<noteq> None" unfolding normalize_obj_Some .
  then obtain bs where "canonical_bytes E (JObj (obj_put ''receipt_hash'' (JStr h) ?d)) = Some bs" unfolding canonical_bytes_Some [symmetric] by blast
  then show ?thesis using assms(1,2) ph h by (simp add: build_receipt_def)
qed

section \<open>Properties\<close>

text \<open>C30: the oracle says COMPLETE exactly when there is at least one receipt, every receipt is sound for the expected binding (schema, fields, binding,
  payload hash, own hash, evidence) and linked to the one before it, some acceptance criterion is named, and every named
  criterion has a passing evidence row, with a hash and a location, in some receipt of the chain.\<close>
theorem completion_oracle_exact:
  "or_verdict (completion_oracle E b criteria rs) = ''COMPLETE'' \<longleftrightarrow>
     rs \<noteq> [] \<and> (\<forall>r \<in> set rs. receipt_sound E b r) \<and> linked receipt_seal receipt_prev receipt_num (JStr GENESIS_HASH) 1 rs
     \<and> (\<exists>a \<in> set criteria. a \<noteq> [])
     \<and> (\<forall>a \<in> set criteria. a \<noteq> [] \<longrightarrow> (\<exists>r \<in> set rs. \<exists>row. JObj row \<in> set (evidence_rows r)
          \<and> py_str (he_repr E) (jget row ''ac_id'') = a \<and> passing row))"
proof (cases "rs \<noteq> [] \<and> chain_sound E b rs")
  case True
  then obtain ev where v: "verify_receipts E b rs = report ''VERIFIED'' ''OK'' (length rs) ev (Some (py_str (he_repr E) (receipt_seal (last rs))))"
    "\<And>k. dict_get_or ev k [] = concat (map (\<lambda>r. rows_for E k (evidence_rows r)) rs)" using verified_value by metis
  have valid: "evidence_valid (evidence_rows r)" if "r \<in> set rs" for r
    using True that by (auto simp: chain_sound_def receipt_sound_def evidence_rows_def)
  have rows: "(\<exists>row \<in> set (rows_for E a (evidence_rows r)). passing row) \<longleftrightarrow>
      (\<exists>row. JObj row \<in> set (evidence_rows r) \<and> py_str (he_repr E) (jget row ''ac_id'') = a \<and> passing row)" if "r \<in> set rs" for r a
    using valid [OF that] unfolding rows_for_def evidence_valid_def by force
  have status: "ar_status row = ''VERIFIED'' \<longleftrightarrow> (\<exists>r \<in> set rs. \<exists>row' \<in> set (rows_for E (ar_ac_id row) (evidence_rows r)). passing row')"
    if "row \<in> set (acceptance_matrix E (verify_receipts E b rs) acs)" for row acs
    using that by (auto simp: acceptance_matrix_def v report_def Let_def filter_empty_conv split: if_splits)
  have "or_verdict (completion_oracle E b criteria rs) = ''COMPLETE'' \<longleftrightarrow> sorted_set (filter (\<lambda>a. a \<noteq> []) criteria) \<noteq> []
      \<and> (\<forall>row \<in> set (acceptance_matrix E (verify_receipts E b rs) (sorted_set (filter (\<lambda>a. a \<noteq> []) criteria))). ar_status row = ''VERIFIED'')"
    unfolding completion_oracle_def v by (auto simp: report_def Let_def)
  also have "\<dots> \<longleftrightarrow> (\<exists>a \<in> set criteria. a \<noteq> []) \<and> (\<forall>a \<in> set criteria. a \<noteq> [] \<longrightarrow>
      (\<exists>r \<in> set rs. \<exists>row' \<in> set (rows_for E a (evidence_rows r)). passing row'))"
  proof -
    have "sorted_set (filter (\<lambda>a. a \<noteq> []) criteria) = [] \<longleftrightarrow> \<not> (\<exists>a \<in> set criteria. a \<noteq> [])"
      by (simp add: sorted_set_def filter_empty_conv flip: set_empty) (auto simp: filter_empty_conv)
    moreover have "(\<forall>row \<in> set (acceptance_matrix E (verify_receipts E b rs) acs). ar_status row = ''VERIFIED'') \<longleftrightarrow>
        (\<forall>a \<in> set acs. \<exists>r \<in> set rs. \<exists>row' \<in> set (rows_for E a (evidence_rows r)). passing row')" for acs
    proof -
      let ?M = "set (acceptance_matrix E (verify_receipts E b rs) acs)"
      have ids: "ar_ac_id ` ?M = set acs" by (auto simp: acceptance_matrix_def Let_def image_iff)
      have "(\<forall>row \<in> ?M. ar_status row = ''VERIFIED'') \<longleftrightarrow>
          (\<forall>row \<in> ?M. \<exists>r \<in> set rs. \<exists>row' \<in> set (rows_for E (ar_ac_id row) (evidence_rows r)). passing row')"
        by (rule ball_cong [OF refl status])
      then show ?thesis unfolding ids [symmetric] ball_simps(9) .
    qed
    ultimately show ?thesis by auto
  qed
  finally have verdict: "or_verdict (completion_oracle E b criteria rs) = ''COMPLETE'' \<longleftrightarrow> (\<exists>a \<in> set criteria. a \<noteq> []) \<and> (\<forall>a \<in> set criteria. a \<noteq> [] \<longrightarrow>
      (\<exists>r \<in> set rs. \<exists>row' \<in> set (rows_for E a (evidence_rows r)). passing row'))" .
  have found: "(\<exists>r \<in> set rs. \<exists>row' \<in> set (rows_for E a (evidence_rows r)). passing row') \<longleftrightarrow>
      (\<exists>r \<in> set rs. \<exists>row. JObj row \<in> set (evidence_rows r) \<and> py_str (he_repr E) (jget row ''ac_id'') = a \<and> passing row)" for a
    by (rule bex_cong [OF refl rows])
  have "rs \<noteq> []" "\<forall>r \<in> set rs. receipt_sound E b r" "linked receipt_seal receipt_prev receipt_num (JStr GENESIS_HASH) 1 rs"
    using True unfolding chain_sound_def by blast+
  then show ?thesis unfolding verdict found by (intro iffI conjI; (elim conjE)?; assumption?)
next
  case False
  then have "vf_status (verify_receipts E b rs) \<noteq> ''VERIFIED''" using verified_iff by blast
  then have "or_verdict (completion_oracle E b criteria rs) \<noteq> ''COMPLETE''" by (auto simp: completion_oracle_def Let_def)
  then show ?thesis using False unfolding chain_sound_def by blast
qed

definition demo_hbp_env :: hbp_env where
  "demo_hbp_env = \<lparr>he_nfc = (\<lambda>s. s), he_loads = (\<lambda>_. None), he_sha256 = (\<lambda>bs. replicate 31 7 @ [of_nat (length bs)]), he_repr = (\<lambda>_. [])\<rparr>"

definition demo_binding :: HbpBinding where
  "demo_binding = \<lparr>hb_run_id = ''r'', hb_plan_hash = ''p'', hb_generation = ''g'', hb_attempt = 1, hb_fence = 0, hb_stage = ''s''\<rparr>"

definition demo_evidence :: AcceptanceEvidence where
  "demo_evidence = \<lparr>ae_ac_id = ''ac'', ae_evidence_uri = ''u'', ae_evidence_hash = replicate 64 CHR ''a'', ae_verdict = ''PASS''\<rparr>"

definition demo_receipt :: "(string \<times> json) list" where
  "demo_receipt = projr (build_receipt demo_hbp_env 1 demo_binding GENESIS_HASH [demo_evidence] [] 5)"

lemma demo_receipt_built:
  "build_receipt demo_hbp_env 1 demo_binding GENESIS_HASH [demo_evidence] [] 5 = Inr demo_receipt \<and> (\<exists>bs. canonical_bytes demo_hbp_env (JObj demo_receipt) = Some bs)"
proof -
  obtain r bs where "build_receipt demo_hbp_env 1 demo_binding GENESIS_HASH [demo_evidence] [] 5 = Inr r" "canonical_bytes demo_hbp_env (JObj r) = Some bs"
    using build_receipt_ok [of 1 GENESIS_HASH demo_hbp_env "[]" demo_binding "[demo_evidence]" 5] by (auto simp: GENESIS_HASH_def)
  then show ?thesis by (simp add: demo_receipt_def)
qed

lemma demo_evidence_valid: "AcceptanceEvidence_post_init demo_evidence = Inr demo_evidence"
  by code_simp

lemma demo_receipt_fields:
  obtains ph h where "demo_receipt = obj_put ''receipt_hash'' (JStr h) (receipt_fields 1 demo_binding GENESIS_HASH [demo_evidence] [] ph 5)"
  using demo_receipt_built by (auto simp: build_receipt_def ebind_Inr_conv Let_def split: if_splits dest: sym)

theorem completion_oracle_exact_witness:
  "or_verdict (completion_oracle demo_hbp_env demo_binding [''ac''] [demo_receipt]) = ''COMPLETE''"
proof -
  have sound: "receipt_sound demo_hbp_env demo_binding demo_receipt" "receipt_prev demo_receipt = JStr GENESIS_HASH" "receipt_num demo_receipt = 1"
    using build_receipt_sound [of demo_hbp_env 1 demo_binding GENESIS_HASH "[demo_evidence]" "[]" 5 demo_receipt] demo_receipt_built demo_evidence_valid by auto
  obtain ph h where d: "demo_receipt = obj_put ''receipt_hash'' (JStr h) (receipt_fields 1 demo_binding GENESIS_HASH [demo_evidence] [] ph 5)"
    by (rule demo_receipt_fields)
  have "evidence_rows demo_receipt = [evidence_dict demo_evidence]"
    unfolding d evidence_rows_def jget_obj_put receipt_fields_def by (simp add: jget_simps)
  moreover have "passing [(''ac_id'', JStr ''ac''), (''evidence_hash'', JStr (replicate 64 CHR ''a'')), (''evidence_uri'', JStr ''u''), (''verdict'', JStr ''PASS'')]"
    by code_simp
  ultimately have "\<exists>row. JObj row \<in> set (evidence_rows demo_receipt) \<and> py_str (he_repr demo_hbp_env) (jget row ''ac_id'') = ''ac'' \<and> passing row"
    by (simp add: evidence_dict_def demo_evidence_def jget_simps)
  then show ?thesis using sound completion_oracle_exact [of demo_hbp_env demo_binding "[''ac'']" "[demo_receipt]"] by simp
qed


definition demo_hbp_env1 :: hbp_env where
  "demo_hbp_env1 = demo_hbp_env\<lparr>he_loads := (\<lambda>bs. if Some bs = canonical_bytes demo_hbp_env (JObj demo_receipt) then Some (JObj demo_receipt) else None)\<rparr>"

definition demo_ledger :: ledger_file where
  "demo_ledger = fst (ledger_append demo_hbp_env1 demo_binding [demo_evidence] [] 5 LedgerMissing)"

lemma demo_ledger_reached: "(ledger_step demo_hbp_env1 demo_binding)\<^sup>*\<^sup>* (LedgerMissing, []) (demo_ledger, [demo_receipt])"
proof -
  have c: "canonical_bytes demo_hbp_env1 = canonical_bytes demo_hbp_env" by (simp add: fun_eq_iff canonical_bytes_def demo_hbp_env1_def)
  moreover have "he_sha256 demo_hbp_env1 = he_sha256 demo_hbp_env" by (simp add: demo_hbp_env1_def)
  ultimately have sha: "canonical_sha256 demo_hbp_env1 = canonical_sha256 demo_hbp_env" by (intro ext) (simp add: canonical_sha256_def split: option.split)
  have "build_receipt demo_hbp_env1 = build_receipt demo_hbp_env" unfolding build_receipt_def sha ..
  then have b: "build_receipt demo_hbp_env1 1 demo_binding GENESIS_HASH [demo_evidence] [] 5 = Inr demo_receipt" using demo_receipt_built by simp
  have "canonical_bytes demo_hbp_env1 (JObj demo_receipt) \<noteq> None" using demo_receipt_built unfolding c by blast
  moreover have "ledger_inv demo_hbp_env1 demo_binding (LedgerMissing, [])" by (simp add: ledger_inv_def chain_sound_def)
  ultimately have a: "ledger_append demo_hbp_env1 demo_binding [demo_evidence] [] 5 LedgerMissing = (demo_ledger, Inr demo_receipt)"
    using b ledger_append_shape [of demo_hbp_env1 demo_binding LedgerMissing "[]" "[demo_evidence]" "[]" 5]
    by (auto simp: demo_ledger_def)
  have e: "\<forall>a \<in> set [demo_evidence]. AcceptanceEvidence_post_init a = Inr a" by (simp add: demo_evidence_valid)
  have l: "he_loads demo_hbp_env1 bs = Some (JObj demo_receipt)" if "canonical_bytes demo_hbp_env1 (JObj demo_receipt) = Some bs" for bs
    using that unfolding c by (simp add: demo_hbp_env1_def)
  have "ledger_step demo_hbp_env1 demo_binding (LedgerMissing, []) (demo_ledger, [] @ [demo_receipt])" by (rule appended [OF e a l])
  then show ?thesis by simp
qed


text \<open>C32: the ledger is tamper evident. Two chains that verify, with objects as the parser gives them and no two receipts among them on which the digest collides,
  are equal as soon as the verifier reports the same head for both: no receipt can be changed, dropped, inserted or reordered.\<close>
theorem ledger_tamper_evident:
  assumes "vf_status (verify_receipts E b xs) = ''VERIFIED''" and "vf_status (verify_receipts E b ys) = ''VERIFIED''"
    and "\<forall>r \<in> set xs \<union> set ys. object_form r"
    and "vf_head_hash (verify_receipts E b xs) = vf_head_hash (verify_receipts E b ys)"
    and "inj_on (\<lambda>body. canonical_sha256 E (JObj body)) (without_hash ''receipt_hash'' ` (set xs \<union> set ys))"
  shows "xs = ys"
proof -
  have x: "xs \<noteq> []" "chain_sound E b xs" and y: "ys \<noteq> []" "chain_sound E b ys" using assms(1,2) verified_iff by blast+
  have head: "map_option JStr (vf_head_hash (verify_receipts E b rs)) = Some (receipt_seal (last rs))" if "rs \<noteq> []" "chain_sound E b rs" for rs
  proof -
    have "receipt_sound E b (last rs)" using that by (simp add: chain_sound_def)
    from sound_seal [OF this, of "he_repr E"] show ?thesis using verified_value [OF that(2,1)] by (auto simp: report_def)
  qed
  have "receipt_seal (last xs) = receipt_seal (last ys)" using head [OF x] head [OF y] assms(4) by simp
  moreover have "inj_on (\<lambda>body. case canonical_sha256 E (JObj body) of Inl _ \<Rightarrow> JNull | Inr h \<Rightarrow> JStr h) (without_hash ''receipt_hash'' ` (set xs \<union> set ys))"
    by (rule inj_on_sealed [OF assms(5)]) (use x(2) y(2) in \<open>auto simp: chain_sound_def receipt_sound_def\<close>)
  ultimately show ?thesis using ledger_chain.same_head [of E b xs ys] x y assms(3) by blast
qed

theorem ledger_tamper_evident_witness:
  "fst (read_jsonl demo_hbp_env1 demo_ledger) = [demo_receipt]"
proof (rule ledger_tamper_evident [of demo_hbp_env1 demo_binding])
  have r: "fst (read_jsonl demo_hbp_env1 demo_ledger) = [demo_receipt]"
    by (rule ledger_inv_read [OF ledger.reach_invariant [OF refl demo_ledger_reached]])
  have v: "vf_status (verify_receipts demo_hbp_env1 demo_binding [demo_receipt]) = ''VERIFIED''"
    using ledger.reach_invariant [OF refl demo_ledger_reached] by (simp add: verified_iff ledger_inv_def)
  obtain ph h where d: "demo_receipt = obj_put ''receipt_hash'' (JStr h) (receipt_fields 1 demo_binding GENESIS_HASH [demo_evidence] [] ph 5)"
    by (rule demo_receipt_fields)
  have "map fst (receipt_fields 1 demo_binding GENESIS_HASH [demo_evidence] [] ph 5) = [''acceptance_evidence'', ''binding'', ''local_llm'',
      ''observed_at_ns'', ''payload'', ''payload_hash'', ''previous_receipt_hash'', ''schema'', ''sequence'']" by (simp add: receipt_fields_def)
  moreover have "sorted [''acceptance_evidence'', ''binding'', ''local_llm'',
      ''observed_at_ns'', ''payload'', ''payload_hash'', ''previous_receipt_hash'', ''schema'', ''sequence'']" by code_simp
  moreover have "distinct [''acceptance_evidence'', ''binding'', ''local_llm'',
      ''observed_at_ns'', ''payload'', ''payload_hash'', ''previous_receipt_hash'', ''schema'', ''sequence'']" by code_simp
  ultimately have "object_form (receipt_fields 1 demo_binding GENESIS_HASH [demo_evidence] [] ph 5)" unfolding object_form_def by (simp only: simp_thms)
  then have o: "object_form demo_receipt" unfolding d by (rule object_form_put)
  show "vf_status (verify_receipts demo_hbp_env1 demo_binding (fst (read_jsonl demo_hbp_env1 demo_ledger))) = ''VERIFIED''"
    "vf_status (verify_receipts demo_hbp_env1 demo_binding [demo_receipt]) = ''VERIFIED''"
    "\<forall>x \<in> set (fst (read_jsonl demo_hbp_env1 demo_ledger)) \<union> set [demo_receipt]. object_form x"
    "vf_head_hash (verify_receipts demo_hbp_env1 demo_binding (fst (read_jsonl demo_hbp_env1 demo_ledger)))
       = vf_head_hash (verify_receipts demo_hbp_env1 demo_binding [demo_receipt])"
    "inj_on (\<lambda>body. canonical_sha256 demo_hbp_env1 (JObj body)) (without_hash ''receipt_hash'' `
       (set (fst (read_jsonl demo_hbp_env1 demo_ledger)) \<union> set [demo_receipt]))"
    unfolding r using v o by simp_all
qed

section \<open>A defect\<close>

text \<open>A ledger whose last write was cut short before its newline still verifies, but the next append
  continues that line, and the ledger is invalid from then on.\<close>

lemma ledger_torn_line:
  assumes "chain_sound E b [r]" and "canonical_bytes E (JObj r) = Some bs" and "he_loads E bs = Some (JObj r)"
    and "ledger_append E b evidence payload now (LedgerBytes bs) = (f', Inr r')" and "canonical_bytes E (JObj r') = Some bs'"
    and "he_loads E (bs @ bs') = None"
  shows "vf_status (verify_file E b True (LedgerBytes bs)) = ''VERIFIED''"
    and "vf_reason_code (verify_file E b True f') = ''INVALID_JSON_LINE_1''"
proof -
  have nb: "\<forall>x \<in> set (bs @ bs'). x \<noteq> 10 \<and> x \<noteq> 13" using canonical_no_breaks assms(2,5) by fastforce
  have "bs \<noteq> []" using assms(2) by (auto simp: canonical_bytes_def utf8_bytes_def)
  have line: "split_lines l xs = (if l @ xs = [] then [] else [l @ xs])" if "\<forall>x \<in> set xs. x \<noteq> 10 \<and> x \<noteq> 13" for l xs :: bytes
    using that by (induction xs arbitrary: l) auto
  have "split_lines [] bs = [bs]" using line [of bs "[]"] nb \<open>bs \<noteq> []\<close> by auto
  then show "vf_status (verify_file E b True (LedgerBytes bs)) = ''VERIFIED''"
    using assms(1,3) by (simp add: verify_file_def verified_iff)
  have "f' = LedgerBytes (bs @ bs' @ [10])" using assms(4,5) by (auto simp: ledger_append_def Let_def split: if_splits sum.splits option.splits)
  moreover have "split_lines [] ((bs @ bs') @ [10]) = [bs @ bs']" using split_lines_line [of "bs @ bs'" "[]"] nb by simp
  moreover have "show_int 1 = ''1''" by code_simp
  ultimately show "vf_reason_code (verify_file E b True f') = ''INVALID_JSON_LINE_1''"
    using assms(6) by (simp add: verify_file_def report_def)
qed

end
