(* ===== verification/Prism_Recovery.thy ===== *)
theory Prism_Recovery
  imports Hbp_Ledger
begin

text \<open>
  The crash-safe prism journal and its recovery (\<open>prism_recovery.py\<close>): events, the binary journal of
  chained frames, appends that may be cut short by the operating system, replay, the state rebuilt from the rows,
  and the reconciliation of effects that were intended but have no receipt.

  Frames are those of \<open>Prism_Contracts\<close>, canonical bytes and digests those of \<open>Hbp_Ledger\<close>. The clock is an argument; \<open>written\<close> is
  the number of bytes of a frame that \<open>os.write\<close> wrote; \<open>lookup\<close> is the receipt search of the caller,
  and \<open>int_text\<close> is \<open>int\<close> on a text. An object keeps its keys sorted, as in \<open>Hbp_Ledger\<close>.
\<close>

section \<open>Events\<close>

datatype recovery_failure = PrismRecoveryError string | JournalHbp hbp_error | JournalFrame contract_error | JournalTypeError

definition EVENT_SCHEMA :: string where "EVENT_SCHEMA = ''simplicio.prism-journal-event/v1''"

definition EVENT_TYPES :: "string list" where
  "EVENT_TYPES = [''hierarchy_declared'', ''task_queued'', ''task_started'', ''task_terminal'', ''slot_terminal'',
     ''prism_terminal'', ''lease_acquired'', ''lease_heartbeat'', ''lease_takeover'', ''effect_intent'', ''effect_receipt'',
     ''cancel_requested'', ''checkpoint'']"

record RecoveryEvent =
  ev_aggregate_id :: string
  ev_event_type :: string
  ev_payload :: "(string \<times> json) list"
  ev_prism_id :: string
  ev_slot_id :: "string option"
  ev_task_id :: "string option"
  ev_attempt :: "int option"
  ev_fence :: "int option"

definition RecoveryEvent_post_init :: "RecoveryEvent \<Rightarrow> recovery_failure + RecoveryEvent" where
  "RecoveryEvent_post_init e =
    (if ev_aggregate_id e = [] \<or> ev_prism_id e = [] then Inl (PrismRecoveryError ''aggregate_id and prism_id are required'')
     else if ev_event_type e \<notin> set EVENT_TYPES then Inl (PrismRecoveryError ''unknown recovery event type'')
     else if \<exists>n \<in> set_option (ev_attempt e). n < 1 then Inl (PrismRecoveryError ''attempt must be positive'')
     else if \<exists>n \<in> set_option (ev_fence e). n < 1 then Inl (PrismRecoveryError ''fence must be positive'')
     else Inr e)"

definition opt_str :: "string option \<Rightarrow> json" where
  "opt_str x = (case x of None \<Rightarrow> JNull | Some s \<Rightarrow> JStr s)"

definition opt_int :: "int option \<Rightarrow> json" where
  "opt_int x = (case x of None \<Rightarrow> JNull | Some n \<Rightarrow> JNum (of_int n))"

definition event_fields :: "nat \<Rightarrow> string \<Rightarrow> int \<Rightarrow> RecoveryEvent \<Rightarrow> (string \<times> json) list" where
  \<comment> \<open>the row of an event, \<open>to_dict\<close> spliced in, before its own hash is added\<close>
  "event_fields sequence previous now e =
    [(''aggregate_id'', JStr (ev_aggregate_id e)), (''attempt'', opt_int (ev_attempt e)), (''event_type'', JStr (ev_event_type e)),
     (''fence'', opt_int (ev_fence e)), (''observed_at_ns'', JNum (of_int now)), (''payload'', JObj (ev_payload e)),
     (''previous_event_hash'', JStr previous), (''prism_id'', JStr (ev_prism_id e)), (''schema'', JStr EVENT_SCHEMA),
     (''sequence'', JNum (of_nat sequence)), (''slot_id'', opt_str (ev_slot_id e)), (''task_id'', opt_str (ev_task_id e))]"

section \<open>The journal\<close>

definition journal_codec :: "hbp_env \<Rightarrow> json frame_codec" where
  \<comment> \<open>a value that has no canonical form never equals a payload, which is not empty\<close>
  "journal_codec E = \<lparr>fc_canonical = (\<lambda>v. case canonical_bytes E v of None \<Rightarrow> [] | Some bs \<Rightarrow> bs), fc_loads = he_loads E,
     fc_is_object = (\<lambda>v. case v of JObj _ \<Rightarrow> True | _ \<Rightarrow> False), fc_sha256 = he_sha256 E\<rparr>"

definition PrismJournal_init :: "int \<Rightarrow> recovery_failure + nat" where
  \<comment> \<open>the frame limit of a journal\<close>
  "PrismJournal_init max_frame_bytes =
    (if 1 \<le> max_frame_bytes \<and> max_frame_bytes \<le> int HBP_MAX_FRAME_BYTES then Inr (nat max_frame_bytes)
     else Inl (PrismRecoveryError ''invalid max_frame_bytes''))"

function frames_of :: "nat \<Rightarrow> bytes \<Rightarrow> recovery_failure + bytes list" where
  "frames_of limit raw =
    (if raw = [] then Inr []
     else if length raw < 8 then Inl (PrismRecoveryError ''journal truncated header'')
     else if take 4 raw \<noteq> HBP_MAGIC then Inl (PrismRecoveryError ''journal frame magic mismatch'')
     else
       let size = unpack_be32 (take 4 (drop 4 raw))
       in if limit < size then Inl (PrismRecoveryError ''journal frame exceeds limit'')
          else if length raw < 8 + size + 32 then Inl (PrismRecoveryError ''journal truncated frame'')
          else ebind (frames_of limit (drop (8 + size + 32) raw)) (\<lambda>frames. Inr (take (8 + size + 32) raw # frames)))"
  by pat_completeness auto
termination by (relation "measure (\<lambda>(limit, raw). length raw)") auto

declare frames_of.simps [simp del]

fun journal_frames :: "nat \<Rightarrow> ledger_file \<Rightarrow> recovery_failure + bytes list" where
  "journal_frames limit LedgerMissing = Inr []"
| "journal_frames limit LedgerUnreadable = Inl (PrismRecoveryError ''journal unreadable'')"
| "journal_frames limit (LedgerBytes raw) = frames_of limit raw"

definition chain_mismatch :: "nat \<Rightarrow> recovery_failure" where
  "chain_mismatch n = PrismRecoveryError (''journal hash-chain mismatch at '' @ show_int (int n))"

definition check_row :: "hbp_env \<Rightarrow> nat \<Rightarrow> string \<Rightarrow> (string \<times> json) list \<Rightarrow> recovery_failure + string" where
  \<comment> \<open>the checks of one row in \<open>replay\<close>; the hash of the row when they pass\<close>
  "check_row E n previous row =
    (if jget row ''schema'' \<noteq> JStr EVENT_SCHEMA \<or> \<not> json_is_int (jget row ''sequence'') (int n)
        \<or> jget row ''previous_event_hash'' \<noteq> JStr previous then Inl (chain_mismatch n)
     else case jget row ''event_type'' of
       JArr _ \<Rightarrow> Inl JournalTypeError
     | JObj _ \<Rightarrow> Inl JournalTypeError
     | t \<Rightarrow>
         if t \<notin> JStr ` set EVENT_TYPES then Inl (chain_mismatch n)
         else (case canonical_sha256 E (JObj (without_hash ''event_hash'' row)) of
            Inl e \<Rightarrow> Inl (JournalHbp e)
          | Inr h \<Rightarrow> if jget row ''event_hash'' \<noteq> JStr h then Inl (chain_mismatch n) else Inr h))"

fun replay_rows :: "hbp_env \<Rightarrow> nat \<Rightarrow> string \<Rightarrow> bytes list \<Rightarrow> recovery_failure + (string \<times> json) list list" where
  \<comment> \<open>the row that has its hash popped and put back is the row that was read\<close>
  "replay_rows E n previous [] = Inr []"
| "replay_rows E n previous (frame # frames) =
    (case decode_hbp_frame (journal_codec E) frame of
       Inl (PrismContractError e) \<Rightarrow> Inl (PrismRecoveryError e)
     | Inr (JObj row) \<Rightarrow>
         ebind (check_row E n previous row) (\<lambda>h. ebind (replay_rows E (Suc n) h frames) (\<lambda>rows. Inr (row # rows)))
     | Inr _ \<Rightarrow> Inl JournalTypeError)"

definition journal_replay :: "hbp_env \<Rightarrow> nat \<Rightarrow> ledger_file \<Rightarrow> recovery_failure + (string \<times> json) list list" where
  "journal_replay E limit f = ebind (journal_frames limit f) (replay_rows E 1 GENESIS_HASH)"

definition head_hash :: "(string \<times> json) list list \<Rightarrow> json" where
  "head_hash rows = (if rows = [] then JStr GENESIS_HASH else jget (last rows) ''event_hash'')"

definition journal_append ::
    "hbp_env \<Rightarrow> nat \<Rightarrow> int \<Rightarrow> (bytes \<Rightarrow> nat) \<Rightarrow> RecoveryEvent \<Rightarrow> ledger_file \<Rightarrow> ledger_file \<times> (recovery_failure + (string \<times> json) list)" where
  "journal_append E limit now written e f =
    (case journal_replay E limit f of
       Inl err \<Rightarrow> (f, Inl err)
     | Inr rows \<Rightarrow>
         let fields = event_fields (length rows + 1) (py_str (he_repr E) (head_hash rows)) now e
         in case canonical_sha256 E (JObj fields) of
              Inl err \<Rightarrow> (f, Inl (JournalHbp err))
            | Inr h \<Rightarrow>
                let row = obj_put ''event_hash'' (JStr h) fields
                in (case encode_hbp_frame (journal_codec E) (JObj row) of
                      Inl err \<Rightarrow> (f, Inl (JournalFrame err))
                    | Inr frame \<Rightarrow>
                        if limit + 40 < length frame then (f, Inl (PrismRecoveryError ''encoded journal frame exceeds limit''))
                        else
                          let f' = LedgerBytes ((case f of LedgerBytes raw \<Rightarrow> raw | _ \<Rightarrow> []) @ take (written frame) frame)
                          in if min (written frame) (length frame) \<noteq> length frame then (f', Inl (PrismRecoveryError ''partial journal write''))
                             else (f', Inr row)))"

definition append_event ::
    "hbp_env \<Rightarrow> nat \<Rightarrow> int \<Rightarrow> (bytes \<Rightarrow> nat) \<Rightarrow> RecoveryEvent \<Rightarrow> ledger_file \<Rightarrow> ledger_file \<times> (recovery_failure + (string \<times> json) list)" where
  \<comment> \<open>construct the event and append it\<close>
  "append_event E limit now written e f =
    (case RecoveryEvent_post_init e of Inl err \<Rightarrow> (f, Inl err) | Inr e' \<Rightarrow> journal_append E limit now written e' f)"

definition effect_intent_event :: "string \<Rightarrow> string \<Rightarrow> string \<Rightarrow> int \<Rightarrow> int \<Rightarrow> string \<Rightarrow> string \<Rightarrow> RecoveryEvent" where
  "effect_intent_event prism_id slot_id task_id attempt fence effect_id effect_hash =
    \<lparr>ev_aggregate_id = task_id, ev_event_type = ''effect_intent'',
     ev_payload = [(''effect_hash'', JStr effect_hash), (''effect_id'', JStr effect_id)], ev_prism_id = prism_id,
     ev_slot_id = Some slot_id, ev_task_id = Some task_id, ev_attempt = Some attempt, ev_fence = Some fence\<rparr>"

definition effect_receipt_event :: "string \<Rightarrow> string \<Rightarrow> string \<Rightarrow> int \<Rightarrow> int \<Rightarrow> string \<Rightarrow> string \<Rightarrow> bool \<Rightarrow> RecoveryEvent" where
  "effect_receipt_event prism_id slot_id task_id attempt fence effect_id receipt_hash recovered =
    \<lparr>ev_aggregate_id = task_id, ev_event_type = ''effect_receipt'',
     ev_payload = [(''effect_id'', JStr effect_id), (''receipt_hash'', JStr receipt_hash), (''recovered'', JBool recovered)],
     ev_prism_id = prism_id, ev_slot_id = Some slot_id, ev_task_id = Some task_id, ev_attempt = Some attempt, ev_fence = Some fence\<rparr>"

definition journal_checkpoint ::
    "hbp_env \<Rightarrow> nat \<Rightarrow> int \<Rightarrow> (bytes \<Rightarrow> nat) \<Rightarrow> json \<Rightarrow> string \<Rightarrow> ledger_file \<Rightarrow> ledger_file \<times> (recovery_failure + (string \<times> json) list)" where
  "journal_checkpoint E limit now written state prism_id f =
    (case journal_replay E limit f of
       Inl err \<Rightarrow> (f, Inl err)
     | Inr rows \<Rightarrow>
         (case canonical_sha256 E state of
            Inl err \<Rightarrow> (f, Inl (JournalHbp err))
          | Inr digest \<Rightarrow> append_event E limit now written
              \<lparr>ev_aggregate_id = prism_id, ev_event_type = ''checkpoint'',
               ev_payload = [(''covered_head'', head_hash rows), (''covered_sequence'', JNum (of_nat (length rows))), (''state_digest'', JStr digest)],
               ev_prism_id = prism_id, ev_slot_id = None, ev_task_id = None, ev_attempt = None, ev_fence = None\<rparr> f))"

record doctor_report =
  dr_status :: string
  dr_reason_code :: string
  dr_event_count :: "nat option"
  dr_head :: "json option"

definition journal_doctor :: "hbp_env \<Rightarrow> nat \<Rightarrow> ledger_file \<Rightarrow> recovery_failure + doctor_report" where
  \<comment> \<open>only a \<open>PrismRecoveryError\<close> is caught\<close>
  "journal_doctor E limit f =
    (case journal_replay E limit f of
       Inl (PrismRecoveryError _) \<Rightarrow> Inr \<lparr>dr_status = ''CORRUPT'', dr_reason_code = ''JOURNAL_CORRUPT'', dr_event_count = None, dr_head = None\<rparr>
     | Inl err \<Rightarrow> Inl err
     | Inr rows \<Rightarrow> Inr \<lparr>dr_status = ''VERIFIED'', dr_reason_code = ''OK'', dr_event_count = Some (length rows), dr_head = Some (head_hash rows)\<rparr>)"

section \<open>Recovery\<close>

record recovered =
  rc_tasks :: "(string, string) dict"
  rc_fences :: "(string, int) dict"
  rc_active :: "string list"
  rc_intents :: "(string, (string \<times> json) list) dict"
  rc_receipts :: "(string, (string \<times> json) list) dict"

definition json_int :: "(string \<Rightarrow> int option) \<Rightarrow> json \<Rightarrow> int option" where
  \<comment> \<open>\<open>int(x)\<close>; \<open>None\<close> when it raises\<close>
  "json_int int_text v = (case v of JNum r \<Rightarrow> Some (if r < 0 then - \<lfloor>- r\<rfloor> else \<lfloor>r\<rfloor>)
     | JBool b \<Rightarrow> Some (if b then 1 else 0) | JStr s \<Rightarrow> int_text s | _ \<Rightarrow> None)"

definition row_text :: "hbp_env \<Rightarrow> (string \<times> json) list \<Rightarrow> string \<Rightarrow> string" where
  \<comment> \<open>\<open>str(row.get(k) or "")\<close>\<close>
  "row_text E row k = py_str (he_repr E) (jor (jget row k) (JStr []))"

definition row_payload :: "(string \<times> json) list \<Rightarrow> recovery_failure + (string \<times> json) list" where
  \<comment> \<open>\<open>dict(row.get("payload") or {})\<close>\<close>
  "row_payload row = (case jor (jget row ''payload'') (JObj []) of JObj d \<Rightarrow> Inr d | _ \<Rightarrow> Inl JournalTypeError)"

definition recover_task :: "hbp_env \<Rightarrow> (string \<times> json) list \<Rightarrow> (string \<times> json) list \<Rightarrow> recovered \<Rightarrow> recovery_failure + recovered" where
  "recover_task E row payload st =
    (let task_id = row_text E row ''task_id''; t = jget row ''event_type''
     in if task_id \<noteq> [] \<and> t \<in> {JStr ''task_queued'', JStr ''task_started''}
        then Inr (st\<lparr>rc_tasks := dict_set (rc_tasks st) task_id (if t = JStr ''task_queued'' then ''queued'' else ''running''),
               rc_active := (if task_id \<in> set (rc_active st) then rc_active st else rc_active st @ [task_id])\<rparr>)
        else if task_id \<noteq> [] \<and> t = JStr ''task_terminal''
        then if \<not> truthy (jget payload ''receipt_hash'') then Inl (PrismRecoveryError ''terminal event missing receipt'')
             else Inr (st\<lparr>rc_tasks := dict_set (rc_tasks st) task_id (py_str (he_repr E) (jor (jget payload ''state'') (JStr ''blocked''))),
                    rc_active := filter (\<lambda>x. x \<noteq> task_id) (rc_active st)\<rparr>)
        else Inr st)"

definition recover_fence :: "hbp_env \<Rightarrow> (string \<Rightarrow> int option) \<Rightarrow> (string \<times> json) list \<Rightarrow> recovered \<Rightarrow> recovery_failure + recovered" where
  "recover_fence E int_text row st =
    (let task_id = row_text E row ''task_id''
     in if task_id \<noteq> [] \<and> jget row ''fence'' \<noteq> JNull
        then case json_int int_text (jget row ''fence'') of
               None \<Rightarrow> Inl JournalTypeError
             | Some fence \<Rightarrow>
                 if fence < dict_get_or (rc_fences st) task_id 0 then Inl (PrismRecoveryError ''fence regressed during replay'')
                 else Inr (st\<lparr>rc_fences := dict_set (rc_fences st) task_id fence\<rparr>)
        else Inr st)"

definition recover_effect :: "hbp_env \<Rightarrow> (string \<times> json) list \<Rightarrow> (string \<times> json) list \<Rightarrow> recovered \<Rightarrow> recovery_failure + recovered" where
  "recover_effect E row payload st =
    (let t = jget row ''event_type''; effect_id = row_text E payload ''effect_id''
     in if t = JStr ''effect_intent''
        then if effect_id = [] then Inl (PrismRecoveryError ''effect intent missing id'')
             else Inr (st\<lparr>rc_intents := dict_set (rc_intents st) effect_id row\<rparr>)
        else if t = JStr ''effect_receipt''
        then if effect_id = [] \<or> \<not> in_dict effect_id (rc_intents st)
             then Inl (PrismRecoveryError ''effect receipt has no prior intent'')
             else Inr (st\<lparr>rc_receipts := dict_set (rc_receipts st) effect_id row\<rparr>)
        else Inr st)"

definition recover_row :: "hbp_env \<Rightarrow> (string \<Rightarrow> int option) \<Rightarrow> (string \<times> json) list \<Rightarrow> recovered \<Rightarrow> recovery_failure + recovered" where
  "recover_row E int_text row st = ebind (row_payload row) (\<lambda>payload. ebind (recover_task E row payload st)
     (\<lambda>st1. ebind (recover_fence E int_text row st1) (recover_effect E row payload)))"

fun recover_rows :: "hbp_env \<Rightarrow> (string \<Rightarrow> int option) \<Rightarrow> (string \<times> json) list list \<Rightarrow> recovered \<Rightarrow> recovery_failure + recovered" where
  "recover_rows E int_text [] st = Inr st"
| "recover_rows E int_text (row # rows) st = ebind (recover_row E int_text row st) (recover_rows E int_text rows)"

record recovered_state =
  rs_tasks :: "(string, string) dict"
  rs_fences :: "(string, int) dict"
  rs_active_children :: "string list"
  rs_effect_intents :: "string list"
  rs_effect_receipts :: "string list"
  rs_orphan_intents :: "string list"

definition recover_state :: "hbp_env \<Rightarrow> (string \<Rightarrow> int option) \<Rightarrow> (string \<times> json) list list \<Rightarrow> recovery_failure + recovered_state" where
  "recover_state E int_text rows = ebind (recover_rows E int_text rows
       \<lparr>rc_tasks = [], rc_fences = [], rc_active = [], rc_intents = [], rc_receipts = []\<rparr>) (\<lambda>st.
     Inr \<lparr>rs_tasks = sort_key fst (rc_tasks st), rs_fences = sort_key fst (rc_fences st), rs_active_children = sort (rc_active st),
       rs_effect_intents = sort (dict_keys (rc_intents st)), rs_effect_receipts = sort (dict_keys (rc_receipts st)),
       rs_orphan_intents = sort (filter (\<lambda>k. k \<notin> set (dict_keys (rc_receipts st))) (dict_keys (rc_intents st)))\<rparr>)"

definition assert_current_fence :: "recovered_state \<Rightarrow> string \<Rightarrow> int \<Rightarrow> recovery_failure + unit" where
  "assert_current_fence state task_id fence =
    (if dict_get (rs_fences state) task_id = Some fence then Inr () else Inl (PrismRecoveryError ''STALE_FENCE''))"

section \<open>Reconciliation\<close>

record recovery_report =
  rr_status :: string
  rr_reason_code :: string
  rr_reconciled_effects :: "string list"
  rr_required_effects :: "string list"
  rr_effects_reexecuted :: nat

definition reconcile_event ::
    "hbp_env \<Rightarrow> (string \<Rightarrow> int option) \<Rightarrow> (string \<times> json) list \<Rightarrow> string \<Rightarrow> string \<Rightarrow> recovery_failure + RecoveryEvent" where
  \<comment> \<open>the receipt event that answers an intent\<close>
  "reconcile_event E int_text intent effect_id receipt_hash =
    (case (json_int int_text (jget intent ''attempt''), json_int int_text (jget intent ''fence'')) of
       (Some attempt, Some fence) \<Rightarrow> Inr (effect_receipt_event (py_str (he_repr E) (jget intent ''prism_id''))
          (py_str (he_repr E) (jget intent ''slot_id'')) (py_str (he_repr E) (jget intent ''task_id'')) attempt fence effect_id receipt_hash True)
     | _ \<Rightarrow> Inl JournalTypeError)"

fun reconcile_loop ::
    "hbp_env \<Rightarrow> (string \<Rightarrow> int option) \<Rightarrow> nat \<Rightarrow> (string \<Rightarrow> int) \<Rightarrow> (bytes \<Rightarrow> nat) \<Rightarrow> (string \<Rightarrow> string option) \<Rightarrow> (string, (string \<times> json) list) dict \<Rightarrow>
     string list \<Rightarrow> ledger_file \<Rightarrow> string list \<Rightarrow> string list \<Rightarrow> ledger_file \<times> (recovery_failure + string list \<times> string list)" where
  "reconcile_loop E int_text limit clock written lookup by_effect [] f reconciled required = (f, Inr (reconciled, required))"
| "reconcile_loop E int_text limit clock written lookup by_effect (effect_id # ids) f reconciled required =
    (case lookup effect_id of
       None \<Rightarrow> reconcile_loop E int_text limit clock written lookup by_effect ids f reconciled (required @ [effect_id])
     | Some h \<Rightarrow>
         if h = [] then reconcile_loop E int_text limit clock written lookup by_effect ids f reconciled (required @ [effect_id])
         else (case dict_get by_effect effect_id of
             None \<Rightarrow> (f, Inl JournalTypeError)
           | Some intent \<Rightarrow>
               (case reconcile_event E int_text intent effect_id h of
                  Inl err \<Rightarrow> (f, Inl err)
                | Inr e \<Rightarrow>
                    (case append_event E limit (clock effect_id) written e f of
                       (f', Inl err) \<Rightarrow> (f', Inl err)
                     | (f', Inr _) \<Rightarrow> reconcile_loop E int_text limit clock written lookup by_effect ids f' (reconciled @ [effect_id]) required))))"

definition intents_by_effect :: "hbp_env \<Rightarrow> (string \<times> json) list list \<Rightarrow> (string, (string \<times> json) list) dict" where
  \<comment> \<open>the last intent row of each effect\<close>
  "intents_by_effect E rows = dict_of (map (\<lambda>row. (py_str (he_repr E) (case jget row ''payload'' of JObj d \<Rightarrow> jget d ''effect_id'' | _ \<Rightarrow> JNull), row))
     (filter (\<lambda>row. jget row ''event_type'' = JStr ''effect_intent'') rows))"

definition reconcile_orphan_intents ::
    "hbp_env \<Rightarrow> (string \<Rightarrow> int option) \<Rightarrow> nat \<Rightarrow> (string \<Rightarrow> int) \<Rightarrow> (bytes \<Rightarrow> nat) \<Rightarrow> (string \<Rightarrow> string option) \<Rightarrow>
     ledger_file \<Rightarrow> ledger_file \<times> (recovery_failure + recovery_report)" where
  "reconcile_orphan_intents E int_text limit clock written lookup f =
    (case journal_replay E limit f of
       Inl err \<Rightarrow> (f, Inl err)
     | Inr rows \<Rightarrow>
         (case recover_state E int_text rows of
            Inl err \<Rightarrow> (f, Inl err)
          | Inr state \<Rightarrow>
              (case reconcile_loop E int_text limit clock written lookup (intents_by_effect E rows) (rs_orphan_intents state) f [] [] of
                 (f', Inl err) \<Rightarrow> (f', Inl err)
               | (f', Inr (reconciled, required)) \<Rightarrow>
                   (f', Inr \<lparr>rr_status = (if required \<noteq> [] then ''RECOVERY_REQUIRED'' else ''RECONCILED''),
                        rr_reason_code = (if required \<noteq> [] then ''ORPHAN_EFFECT_INTENT'' else ''OK''),
                        rr_reconciled_effects = sort reconciled, rr_required_effects = sort required, rr_effects_reexecuted = 0\<rparr>))))"

section \<open>Frames of a journal\<close>

lemma frames_of_Nil [simp]: "frames_of l [] = Inr []"
  by (subst frames_of.simps) simp

lemma frames_of_step:
  assumes "frames_of l raw = Inr fs" and "raw \<noteq> []"
  defines "n \<equiv> unpack_be32 (take 4 (drop 4 raw))"
  obtains gs where "8 \<le> length raw" and "take 4 raw = HBP_MAGIC" and "n \<le> l" and "8 + n + 32 \<le> length raw"
    and "frames_of l (drop (8 + n + 32) raw) = Inr gs" and "fs = take (8 + n + 32) raw # gs"
proof -
  note f = assms(1) [unfolded frames_of.simps [of l raw] Let_def, folded n_def]
  have c: "\<not> length raw < 8" "\<not> take 4 raw \<noteq> HBP_MAGIC" "\<not> l < n" "\<not> length raw < 8 + n + 32"
    using f assms(2) by (cases "length raw < 8"; simp split: if_splits)+
  have "ebind (frames_of l (drop (8 + n + 32) raw)) (\<lambda>frames. Inr (take (8 + n + 32) raw # frames)) = Inr fs"
    using f assms(2) c by (simp only: if_False simp_thms)
  then show thesis using that c unfolding ebind_Inr_conv not_less by blast
qed

lemma frames_of_append:
  "frames_of l raw = Inr fs \<Longrightarrow> frames_of l (raw @ ys) = ebind (frames_of l ys) (\<lambda>gs. Inr (fs @ gs))"
proof (induction l raw arbitrary: fs rule: frames_of.induct)
  case (1 l raw)
  show ?case
  proof (cases "raw = []")
    case True
    then have "fs = []" using 1(2) by simp
    then show ?thesis using True by (cases "frames_of l ys") simp_all
  next
    case False
    let ?n = "unpack_be32 (take 4 (drop 4 raw))"
    obtain gs where raw: "8 \<le> length raw" "take 4 raw = HBP_MAGIC" "?n \<le> l" "8 + ?n + 32 \<le> length raw"
      and gs: "frames_of l (drop (8 + ?n + 32) raw) = Inr gs" "fs = take (8 + ?n + 32) raw # gs"
      using frames_of_step [OF 1(2) False] .
    have eq: "take 4 (raw @ ys) = take 4 raw" "take 4 (drop 4 (raw @ ys)) = take 4 (drop 4 raw)"
      "take (8 + ?n + 32) (raw @ ys) = take (8 + ?n + 32) raw" "drop (8 + ?n + 32) (raw @ ys) = drop (8 + ?n + 32) raw @ ys"
      using raw by simp_all
    have "frames_of l (raw @ ys) = ebind (frames_of l (drop (8 + ?n + 32) raw @ ys)) (\<lambda>frames. Inr (take (8 + ?n + 32) raw # frames))"
      using raw False by (subst frames_of.simps) (simp only: eq Let_def, simp)
    also have "\<dots> = ebind (frames_of l ys) (\<lambda>hs. Inr (fs @ hs))"
      using 1(1) [OF False, of ?n gs] raw gs by (cases "frames_of l ys") simp_all
    finally show ?thesis .
  qed
qed

lemma frames_of_concat: "frames_of l raw = Inr fs \<Longrightarrow> concat fs = raw"
proof (induction l raw arbitrary: fs rule: frames_of.induct)
  case (1 l raw)
  show ?case
  proof (cases "raw = []")
    case True
    then show ?thesis using 1(2) by simp
  next
    case False
    let ?n = "unpack_be32 (take 4 (drop 4 raw))"
    obtain gs where gs: "8 \<le> length raw" "take 4 raw = HBP_MAGIC" "?n \<le> l" "8 + ?n + 32 \<le> length raw"
      "frames_of l (drop (8 + ?n + 32) raw) = Inr gs" "fs = take (8 + ?n + 32) raw # gs"
      using frames_of_step [OF 1(2) False] .
    then show ?thesis using 1(1) [OF False, of ?n gs] by simp
  qed
qed

lemma encode_shape:
  assumes "encode_hbp_frame C v = Inr frame" and "\<And>b. length (fc_sha256 C b) = 32"
  shows "take 4 frame = HBP_MAGIC" "unpack_be32 (take 4 (drop 4 frame)) = length (fc_canonical C v)"
    "length frame = length (fc_canonical C v) + 40"
proof -
  let ?p = "fc_canonical C v"
  have f: "frame = HBP_MAGIC @ pack_be32 (length ?p) @ ?p @ fc_sha256 C ?p" and small: "length ?p \<le> HBP_MAX_FRAME_BYTES"
    using assms(1) by (auto simp: encode_hbp_frame_def Let_def split: if_splits)
  have "length HBP_MAGIC = 4" "length (pack_be32 (length ?p)) = 4" by (simp_all add: HBP_MAGIC_def pack_be32_def)
  then show "take 4 frame = HBP_MAGIC" "unpack_be32 (take 4 (drop 4 frame)) = length ?p" "length frame = length ?p + 40"
    using small assms(2) unpack_pack [of "length ?p"] by (simp_all add: f HBP_MAX_FRAME_BYTES_def)
qed

lemma frames_of_encoded:
  assumes "encode_hbp_frame C v = Inr frame" and "\<And>b. length (fc_sha256 C b) = 32" and "length frame \<le> limit + 40"
  shows "frames_of limit frame = Inr [frame]"
proof -
  note s = encode_shape [OF assms(1,2)]
  have "frame \<noteq> []" using s(3) by auto
  then show ?thesis using s assms(3) by (subst frames_of.simps) (simp add: Let_def)
qed

lemma frames_of_torn:
  assumes "encode_hbp_frame C v = Inr frame" and "\<And>b. length (fc_sha256 C b) = 32" and "length frame \<le> limit + 40"
    and "0 < n" and "n < length frame"
  shows "frames_of limit (take n frame) \<in> {Inl (PrismRecoveryError ''journal truncated header''), Inl (PrismRecoveryError ''journal truncated frame'')}"
proof (cases "n < 8")
  case True
  have "take n frame \<noteq> []" using assms(4,5) by auto
  then show ?thesis using True assms(5) by (subst frames_of.simps) simp
next
  case False
  note s = encode_shape [OF assms(1,2)]
  have "length (take n frame) = n" using assms(5) by simp
  then have "take n frame \<noteq> []" using assms(4) by (metis less_numeral_extra(3) list.size(3))
  moreover have "take 4 (take n frame) = HBP_MAGIC" "unpack_be32 (take 4 (drop 4 (take n frame))) = length (fc_canonical C v)"
    using False s(1,2) by (auto simp: min_def drop_take)
  ultimately show ?thesis using False assms(3,5) s(3) by (subst frames_of.simps) (simp add: Let_def)
qed

section \<open>Replay\<close>

abbreviation row_seal :: "(string \<times> json) list \<Rightarrow> json" where "row_seal r \<equiv> jget r ''event_hash''"
abbreviation row_prev :: "(string \<times> json) list \<Rightarrow> json" where "row_prev r \<equiv> jget r ''previous_event_hash''"
abbreviation row_num :: "(string \<times> json) list \<Rightarrow> nat" where "row_num r \<equiv> json_nat (jget r ''sequence'')"

lemma check_row_Inr:
  assumes "check_row E n previous row = Inr h"
  shows "row_seal row = JStr h" "row_prev row = JStr previous" "row_num row = n"
    "canonical_sha256 E (JObj (without_hash ''event_hash'' row)) = Inr h"
  using assms by (auto simp: check_row_def json_is_int_nat split: if_splits json.splits sum.splits)

lemma replay_rows_append:
  "replay_rows E n p fs = Inr rows \<Longrightarrow> replay_rows E n p (fs @ gs)
     = ebind (replay_rows E (n + length rows) (if rows = [] then p else py_str (he_repr E) (row_seal (last rows))) gs) (\<lambda>rs. Inr (rows @ rs))"
proof (induction E n p fs arbitrary: rows rule: replay_rows.induct)
  case (1 E n p)
  then show ?case by (cases "replay_rows E n p gs") auto
next
  case (2 E n p f fs)
  obtain row h rest where d: "decode_hbp_frame (journal_codec E) f = Inr (JObj row)" "check_row E n p row = Inr h"
    "replay_rows E (Suc n) h fs = Inr rest" "rows = row # rest"
    using 2(2) by (auto simp: ebind_Inr_conv split: sum.splits json.splits contract_error.splits)
  have "py_str (he_repr E) (row_seal row) = h" using check_row_Inr(1) [OF d(2)] by simp
  then show ?case using 2(1) [OF d(1) refl d(3)] d
    by (cases "replay_rows E (Suc n + length rest) (if rest = [] then h else py_str (he_repr E) (row_seal (last rest))) gs") auto
qed

lemma replay_linked:
  "replay_rows E n p fs = Inr rows \<Longrightarrow> linked row_seal row_prev row_num (JStr p) n rows
     \<and> (\<forall>r \<in> set rows. \<exists>h. row_seal r = JStr h \<and> canonical_sha256 E (JObj (without_hash ''event_hash'' r)) = Inr h)
     \<and> map (\<lambda>r. encode_hbp_frame (journal_codec E) (JObj r)) rows = map Inr fs"
proof (induction E n p fs arbitrary: rows rule: replay_rows.induct)
  case (2 E n p f fs)
  obtain row h rest where d: "decode_hbp_frame (journal_codec E) f = Inr (JObj row)" "check_row E n p row = Inr h"
    "replay_rows E (Suc n) h fs = Inr rest" "rows = row # rest"
    using 2(2) by (auto simp: ebind_Inr_conv split: sum.splits json.splits contract_error.splits)
  then show ?case using 2(1) [OF d(1) refl d(3)] check_row_Inr [OF d(2)] decode_sound [OF d(1)] by auto
qed simp

section \<open>Recovery of state\<close>

definition intent_of :: "hbp_env \<Rightarrow> (string \<times> json) list \<Rightarrow> string \<Rightarrow> bool" where
  "intent_of E row k \<longleftrightarrow> jget row ''event_type'' = JStr ''effect_intent'' \<and> (\<exists>d. row_payload row = Inr d \<and> row_text E d ''effect_id'' = k)"

definition receipt_of :: "hbp_env \<Rightarrow> (string \<times> json) list \<Rightarrow> string \<Rightarrow> bool" where
  "receipt_of E row k \<longleftrightarrow> jget row ''event_type'' = JStr ''effect_receipt'' \<and> (\<exists>d. row_payload row = Inr d \<and> row_text E d ''effect_id'' = k)"

definition fence_of :: "hbp_env \<Rightarrow> (string \<Rightarrow> int option) \<Rightarrow> (string \<times> json) list \<Rightarrow> string \<Rightarrow> int \<Rightarrow> bool" where
  "fence_of E int_text row t n \<longleftrightarrow> t \<noteq> [] \<and> row_text E row ''task_id'' = t \<and> jget row ''fence'' \<noteq> JNull
     \<and> json_int int_text (jget row ''fence'') = Some n"

definition ended_as :: "hbp_env \<Rightarrow> (string \<times> json) list \<Rightarrow> string \<Rightarrow> string \<Rightarrow> bool" where
  "ended_as E row t s \<longleftrightarrow> t \<noteq> [] \<and> row_text E row ''task_id'' = t \<and> jget row ''event_type'' = JStr ''task_terminal''
     \<and> (\<exists>d. row_payload row = Inr d \<and> truthy (jget d ''receipt_hash'') \<and> s = py_str (he_repr E) (jor (jget d ''state'') (JStr ''blocked'')))"

lemma recover_rows_append: "recover_rows E it (xs @ ys) st = ebind (recover_rows E it xs st) (recover_rows E it ys)"
  by (induction xs arbitrary: st) (auto simp: ebind_def split: sum.splits)

lemma recover_row_intents:
  assumes "recover_row E it row st = Inr st'"
  shows "in_dict k (rc_intents st') \<longleftrightarrow> in_dict k (rc_intents st) \<or> intent_of E row k"
    and "in_dict k (rc_receipts st') \<longleftrightarrow> in_dict k (rc_receipts st) \<or> receipt_of E row k"
    and "receipt_of E row k \<Longrightarrow> in_dict k (rc_intents st)"
proof -
  obtain d st1 st2 where r: "row_payload row = Inr d" "recover_task E row d st = Inr st1" "recover_fence E it row st1 = Inr st2"
    "recover_effect E row d st2 = Inr st'" using assms by (auto simp: recover_row_def ebind_Inr_conv)
  have i: "rc_intents st2 = rc_intents st" "rc_receipts st2 = rc_receipts st"
    using r(2,3) by (auto simp: recover_task_def recover_fence_def Let_def split: if_splits option.splits)
  show "in_dict k (rc_intents st') \<longleftrightarrow> in_dict k (rc_intents st) \<or> intent_of E row k"
    "in_dict k (rc_receipts st') \<longleftrightarrow> in_dict k (rc_receipts st) \<or> receipt_of E row k"
    using r(4) i by (auto simp: recover_effect_def Let_def intent_of_def receipt_of_def r(1) in_dict_def split: if_splits)
  show "receipt_of E row k \<Longrightarrow> in_dict k (rc_intents st)"
    using r(4) i by (auto simp: recover_effect_def Let_def receipt_of_def r(1) split: if_splits)
qed

lemma recover_row_fences:
  assumes "recover_row E it row st = Inr st'"
  shows "dict_get (rc_fences st') t = (if \<exists>n. fence_of E it row t n then json_int it (jget row ''fence'') else dict_get (rc_fences st) t)"
    and "fence_of E it row t n \<Longrightarrow> dict_get_or (rc_fences st) t 0 \<le> n"
proof -
  obtain d st1 st2 where r: "row_payload row = Inr d" "recover_task E row d st = Inr st1" "recover_fence E it row st1 = Inr st2"
    "recover_effect E row d st2 = Inr st'" using assms by (auto simp: recover_row_def ebind_Inr_conv)
  have f: "rc_fences st1 = rc_fences st" "rc_fences st' = rc_fences st2"
    using r(2,4) by (auto simp: recover_task_def recover_effect_def Let_def split: if_splits)
  show "dict_get (rc_fences st') t = (if \<exists>n. fence_of E it row t n then json_int it (jget row ''fence'') else dict_get (rc_fences st) t)"
    "fence_of E it row t n \<Longrightarrow> dict_get_or (rc_fences st) t 0 \<le> n"
    using r(3) f by (auto simp: recover_fence_def fence_of_def Let_def split: if_splits option.splits)
qed

lemma recover_row_tasks:
  assumes "recover_row E it row st = Inr st'" and "dict_get (rc_tasks st') t = Some s"
  shows "dict_get (rc_tasks st) t = Some s \<or> s \<in> {''queued'', ''running''} \<or> ended_as E row t s"
proof -
  obtain d st1 st2 where r: "row_payload row = Inr d" "recover_task E row d st = Inr st1" "recover_fence E it row st1 = Inr st2"
    "recover_effect E row d st2 = Inr st'" using assms by (auto simp: recover_row_def ebind_Inr_conv)
  have f: "rc_tasks st' = rc_tasks st1"
    using r(3,4) by (auto simp: recover_fence_def recover_effect_def Let_def split: if_splits option.splits)
  show ?thesis using r(2) assms(2) unfolding f
    by (auto simp: recover_task_def ended_as_def Let_def r(1) split: if_splits simp del: map_of_eq_Some_iff)
qed

definition recovery_empty :: recovered where
  "recovery_empty = \<lparr>rc_tasks = [], rc_fences = [], rc_active = [], rc_intents = [], rc_receipts = []\<rparr>"

lemma recover_rows_facts:
  "recover_rows E it rows recovery_empty = Inr st \<Longrightarrow>
     (\<forall>k. in_dict k (rc_intents st) \<longleftrightarrow> (\<exists>row \<in> set rows. intent_of E row k))
     \<and> (\<forall>k. in_dict k (rc_receipts st) \<longleftrightarrow> (\<exists>row \<in> set rows. receipt_of E row k))
     \<and> (\<forall>k. (\<exists>row \<in> set rows. receipt_of E row k) \<longrightarrow> (\<exists>row \<in> set rows. intent_of E row k))
     \<and> (\<forall>t n. dict_get (rc_fences st) t = Some n \<longrightarrow> (\<exists>row \<in> set rows. fence_of E it row t n))
     \<and> (\<forall>t. \<forall>row \<in> set rows. \<forall>n. fence_of E it row t n \<longrightarrow> (\<exists>m. dict_get (rc_fences st) t = Some m \<and> n \<le> m))
     \<and> (\<forall>t s. dict_get (rc_tasks st) t = Some s \<longrightarrow> s \<in> {''queued'', ''running''} \<or> (\<exists>row \<in> set rows. ended_as E row t s))"
proof (induction rows arbitrary: st rule: rev_induct)
  case Nil
  then show ?case by (auto simp: recovery_empty_def in_dict_def)
next
  case (snoc row rows)
  obtain st0 where s0: "recover_rows E it rows recovery_empty = Inr st0" "recover_row E it row st0 = Inr st"
    using snoc.prems by (auto simp: recover_rows_append ebind_Inr_conv)
  have IH: "\<And>k. in_dict k (rc_intents st0) \<longleftrightarrow> (\<exists>row \<in> set rows. intent_of E row k)"
    "\<And>k. in_dict k (rc_receipts st0) \<longleftrightarrow> (\<exists>row \<in> set rows. receipt_of E row k)"
    "\<And>k r. r \<in> set rows \<Longrightarrow> receipt_of E r k \<Longrightarrow> \<exists>row \<in> set rows. intent_of E row k"
    "\<And>t n. dict_get (rc_fences st0) t = Some n \<Longrightarrow> \<exists>row \<in> set rows. fence_of E it row t n"
    "\<And>t r n. r \<in> set rows \<Longrightarrow> fence_of E it r t n \<Longrightarrow> \<exists>m. dict_get (rc_fences st0) t = Some m \<and> n \<le> m"
    "\<And>t s. dict_get (rc_tasks st0) t = Some s \<Longrightarrow> s \<in> {''queued'', ''running''} \<or> (\<exists>row \<in> set rows. ended_as E row t s)"
    using snoc.IH [OF s0(1)] by blast+
  note ri = recover_row_intents [OF s0(2)] and rf = recover_row_fences [OF s0(2)] and rt = recover_row_tasks [OF s0(2)]
  have max: "\<exists>m. dict_get (rc_fences st) t = Some m \<and> n \<le> m" if r: "r \<in> set (rows @ [row])" "fence_of E it r t n" for t r n
  proof (cases "\<exists>n. fence_of E it row t n")
    case True
    then obtain m where m: "fence_of E it row t m" by blast
    then have g: "dict_get (rc_fences st) t = Some m" using rf(1) [of t] by (auto simp: fence_of_def)
    show ?thesis
    proof (cases "r = row")
      case True
      then show ?thesis using g m r(2) by (auto simp: fence_of_def)
    next
      case False
      then have "r \<in> set rows" using r(1) by simp
      then obtain m0 where "dict_get (rc_fences st0) t = Some m0" "n \<le> m0" using IH(5) r(2) by blast
      then show ?thesis using rf(2) [OF m] g by (auto simp: dict_get_or_def)
    qed
  next
    case False
    then have "r \<in> set rows" using r by auto
    then show ?thesis using IH(5) r(2) rf(1) [of t] False by (simp del: map_of_eq_Some_iff)
  qed
  have attained: "\<exists>r \<in> set (rows @ [row]). fence_of E it r t n" if g: "dict_get (rc_fences st) t = Some n" for t n
  proof (cases "\<exists>n. fence_of E it row t n")
    case True
    then have "fence_of E it row t n" using g rf(1) [of t] by (auto simp: fence_of_def)
    then show ?thesis by auto
  next
    case False
    then have "dict_get (rc_fences st0) t = Some n" using g rf(1) [of t] by (simp only: if_False)
    then show ?thesis using IH(4) by auto
  qed
  have tasks: "s \<in> {''queued'', ''running''} \<or> (\<exists>r \<in> set (rows @ [row]). ended_as E r t s)" if "dict_get (rc_tasks st) t = Some s" for t s
    using rt [OF that] IH(6) [of t s] by auto
  have prior: "\<exists>r \<in> set (rows @ [row]). intent_of E r k" if "r \<in> set (rows @ [row])" "receipt_of E r k" for k r
  proof (cases "r = row")
    case True
    then show ?thesis using ri(3) [of k] that(2) IH(1) [of k] by auto
  next
    case False
    then have "r \<in> set rows" using that(1) by simp
    then show ?thesis using IH(3) [OF _ that(2)] by auto
  qed
  have "in_dict k (rc_intents st) \<longleftrightarrow> (\<exists>row \<in> set (rows @ [row]). intent_of E row k)"
    "in_dict k (rc_receipts st) \<longleftrightarrow> (\<exists>row \<in> set (rows @ [row]). receipt_of E row k)" for k
    using ri(1,2) [of k] IH(1,2) [of k] by auto
  then show ?case using max attained tasks prior by blast
qed

section \<open>Properties\<close>

lemma journal_append_cases:
  assumes "journal_replay E limit f = Inr rows" and "journal_append E limit now written e f = (f', r)"
  shows "(f' = f \<and> (\<exists>err. r = Inl err)) \<or> (\<exists>h row frame. row = obj_put ''event_hash'' (JStr h) (event_fields (length rows + 1) (py_str (he_repr E) (head_hash rows)) now e)
     \<and> canonical_sha256 E (JObj (event_fields (length rows + 1) (py_str (he_repr E) (head_hash rows)) now e)) = Inr h
     \<and> encode_hbp_frame (journal_codec E) (JObj row) = Inr frame \<and> length frame \<le> limit + 40
     \<and> f' = LedgerBytes ((case f of LedgerBytes raw \<Rightarrow> raw | _ \<Rightarrow> []) @ take (written frame) frame)
     \<and> r = (if length frame \<le> written frame then Inr row else Inl (PrismRecoveryError ''partial journal write'')))"
proof -
  obtain d where d: "event_fields (length rows + 1) (py_str (he_repr E) (head_hash rows)) now e = d" by simp
  note app = assms(2) [unfolded journal_append_def assms(1) Let_def sum.case d]
  show ?thesis
  proof (cases "canonical_sha256 E (JObj d)")
    case (Inl err)
    then show ?thesis using app by (intro disjI1) auto
  next
    case h: (Inr h)
    show ?thesis
    proof (cases "encode_hbp_frame (journal_codec E) (JObj (obj_put ''event_hash'' (JStr h) d))")
      case (Inl err)
      then show ?thesis using app h by (intro disjI1) auto
    next
      case frame: (Inr frame)
      show ?thesis
      proof (cases "limit + 40 < length frame")
        case True
        then show ?thesis using app h frame by (intro disjI1) auto
      next
        case False
        then have "f' = LedgerBytes ((case f of LedgerBytes raw \<Rightarrow> raw | _ \<Rightarrow> []) @ take (written frame) frame)"
          "r = (if length frame \<le> written frame then Inr (obj_put ''event_hash'' (JStr h) d) else Inl (PrismRecoveryError ''partial journal write''))"
          using app h frame by (auto simp: min_def split: if_splits)
        then show ?thesis using False h frame unfolding d by (intro disjI2 exI [of _ h] exI [of _ frame] exI) auto
      qed
    qed
  qed
qed

lemma journal_bytes:
  assumes "journal_replay E limit f = Inr rows"
  obtains fs where "frames_of limit (case f of LedgerBytes raw \<Rightarrow> raw | _ \<Rightarrow> []) = Inr fs" and "replay_rows E 1 GENESIS_HASH fs = Inr rows"
  using assms by (cases f) (auto simp: journal_replay_def ebind_Inr_conv)

lemma replay_appended:
  assumes "journal_replay E limit f = Inr rows" and "RecoveryEvent_post_init e = Inr e"
    and h: "canonical_sha256 E (JObj (event_fields (length rows + 1) (py_str (he_repr E) (head_hash rows)) now e)) = Inr h"
    and row: "row = obj_put ''event_hash'' (JStr h) (event_fields (length rows + 1) (py_str (he_repr E) (head_hash rows)) now e)"
    and frame: "decode_hbp_frame (journal_codec E) frame = Inr (JObj row)" and "frames_of limit frame = Inr [frame]"
  shows "journal_replay E limit (LedgerBytes ((case f of LedgerBytes raw \<Rightarrow> raw | _ \<Rightarrow> []) @ frame)) = Inr (rows @ [row])"
proof -
  let ?d = "event_fields (length rows + 1) (py_str (he_repr E) (head_hash rows)) now e"
  obtain fs where fs: "frames_of limit (case f of LedgerBytes raw \<Rightarrow> raw | _ \<Rightarrow> []) = Inr fs" "replay_rows E 1 GENESIS_HASH fs = Inr rows"
    using journal_bytes [OF assms(1)] .
  have "without_hash ''event_hash'' row = ?d" unfolding row by (rule without_obj_put) (simp add: event_fields_def)
  moreover have "jget row k = (if k = ''event_hash'' then JStr h else jget ?d k)" for k unfolding row by (rule jget_obj_put)
  moreover have "ev_event_type e \<in> set EVENT_TYPES" using assms(2) by (auto simp: RecoveryEvent_post_init_def split: if_splits)
  ultimately have "check_row E (length rows + 1) (py_str (he_repr E) (head_hash rows)) row = Inr h"
    using h by (simp add: check_row_def event_fields_def jget_simps)
  moreover have "(if rows = [] then GENESIS_HASH else py_str (he_repr E) (row_seal (last rows))) = py_str (he_repr E) (head_hash rows)"
    by (simp add: head_hash_def)
  ultimately show ?thesis
    using replay_rows_append [OF fs(2), of "[frame]"] frames_of_append [OF fs(1), of frame] frame assms(6)
    by (simp add: journal_replay_def)
qed


interpretation journal_chain: hash_chain "\<lambda>rows. (\<exists>fs. replay_rows E 1 GENESIS_HASH fs = Inr rows) \<and> (\<forall>r \<in> set rows. object_form r)"
    "\<lambda>body. case canonical_sha256 E (JObj body) of Inl _ \<Rightarrow> JNull | Inr h \<Rightarrow> JStr h" "without_hash ''event_hash''"
    row_seal row_prev row_num "JStr GENESIS_HASH" for E
proof (unfold_locales, goal_cases)
  case (1 rs)
  then show ?case using replay_linked by blast
next
  case (2 rs r)
  then obtain fs where "replay_rows E 1 GENESIS_HASH fs = Inr rs" by blast
  from replay_linked [OF this] 2(2) obtain h where "row_seal r = JStr h" "canonical_sha256 E (JObj (without_hash ''event_hash'' r)) = Inr h" by blast
  then show ?case by simp
next
  case (3 rs rs' r r')
  have "in_dict ''event_hash'' x" if "x \<in> set xs" "\<exists>fs. replay_rows E 1 GENESIS_HASH fs = Inr xs" for x xs
  proof -
    from that(2) obtain fs where "replay_rows E 1 GENESIS_HASH fs = Inr xs" by blast
    from replay_linked [OF this] that(1) obtain h where "row_seal x = JStr h" by blast
    then show ?thesis by (auto simp: jget_def in_dict_def split: option.splits)
  qed
  then show ?case using 3 object_eq [of r r' "''event_hash''"] by blast
qed

text \<open>The journal's bytes are determined by the hash of its last row. Two journals that replay, with objects as the parser gives them and no two rows among them on which the digest
  collides, are the same bytes as soon as their heads agree.\<close>
lemma journal_bytes_determined:
  assumes "journal_replay E limit (LedgerBytes a) = Inr xs" and "journal_replay E limit (LedgerBytes b) = Inr ys"
    and "xs \<noteq> []" and "ys \<noteq> []" and "head_hash xs = head_hash ys" and "\<forall>r \<in> set xs \<union> set ys. object_form r"
    and "inj_on (\<lambda>body. canonical_sha256 E (JObj body)) (without_hash ''event_hash'' ` (set xs \<union> set ys))"
  shows "a = b"
proof -
  obtain fs gs where f: "frames_of limit a = Inr fs" "replay_rows E 1 GENESIS_HASH fs = Inr xs"
    and g: "frames_of limit b = Inr gs" "replay_rows E 1 GENESIS_HASH gs = Inr ys"
    using assms(1,2) by (auto simp: journal_replay_def ebind_Inr_conv)
  have seal: "\<exists>h. canonical_sha256 E (JObj (without_hash ''event_hash'' r)) = Inr h" if "r \<in> set xs \<union> set ys" for r
    using replay_linked [OF f(2)] replay_linked [OF g(2)] that by blast
  have "inj_on (\<lambda>body. case canonical_sha256 E (JObj body) of Inl _ \<Rightarrow> JNull | Inr h \<Rightarrow> JStr h) (without_hash ''event_hash'' ` (set xs \<union> set ys))"
    by (rule inj_on_sealed [OF assms(7)]) (use seal in blast)
  moreover have "row_seal (last xs) = row_seal (last ys)" using assms(3-5) by (simp add: head_hash_def)
  ultimately have "xs = ys" using journal_chain.same_head [of E xs ys] f(2) g(2) assms(3,4,6) by blast
  then have "map Inr fs = (map Inr gs :: (contract_error + bytes) list)" using replay_linked [OF f(2)] replay_linked [OF g(2)] by metis
  then have "fs = gs" by (simp add: inj_map_eq_map)
  then show ?thesis using frames_of_concat [OF f(1)] frames_of_concat [OF g(1)] by simp
qed

text \<open>C34: recovery infers nothing that the journal does not say. The orphan effects are exactly those with an intent row and no receipt row, every receipt has an
  intent, a fence is current for a task exactly when it is the largest one the journal holds for it, and a task has left
  the queued and running states only through a terminal row that carries a receipt.\<close>
theorem recover_state_exact:
  assumes "recover_state E int_text rows = Inr st"
  shows "set (rs_orphan_intents st) = {k. (\<exists>row \<in> set rows. intent_of E row k) \<and> \<not> (\<exists>row \<in> set rows. receipt_of E row k)}
    \<and> (\<forall>k. (\<exists>row \<in> set rows. receipt_of E row k) \<longrightarrow> (\<exists>row \<in> set rows. intent_of E row k))
    \<and> (\<forall>t n. assert_current_fence st t n = Inr () \<longleftrightarrow> (\<exists>row \<in> set rows. fence_of E int_text row t n)
         \<and> (\<forall>row \<in> set rows. \<forall>m. fence_of E int_text row t m \<longrightarrow> m \<le> n))
    \<and> (\<forall>t s. dict_get (rs_tasks st) t = Some s \<longrightarrow> s \<in> {''queued'', ''running''} \<or> (\<exists>row \<in> set rows. ended_as E row t s))"
proof -
  obtain rc where rc: "recover_rows E int_text rows recovery_empty = Inr rc"
    and st: "rs_tasks st = sort_key fst (rc_tasks rc)" "rs_fences st = sort_key fst (rc_fences rc)"
      "rs_orphan_intents st = sort (filter (\<lambda>k. k \<notin> set (dict_keys (rc_receipts rc))) (dict_keys (rc_intents rc)))"
    using assms by (auto simp: recover_state_def ebind_Inr_conv recovery_empty_def)
  note F = recover_rows_facts [OF rc]
  have orphans: "set (rs_orphan_intents st) = {k. in_dict k (rc_intents rc) \<and> \<not> in_dict k (rc_receipts rc)}"
    unfolding st(3) in_dict_keys by auto
  have current: "assert_current_fence st t n = Inr () \<longleftrightarrow> dict_get (rc_fences rc) t = Some n" for t n
    by (simp add: assert_current_fence_def st(2) map_of_sort_key del: map_of_eq_Some_iff)
  have largest: "dict_get (rc_fences rc) t = Some n \<longleftrightarrow> (\<exists>row \<in> set rows. fence_of E int_text row t n)
         \<and> (\<forall>row \<in> set rows. \<forall>m. fence_of E int_text row t m \<longrightarrow> m \<le> n)" for t n
  proof
    assume n: "dict_get (rc_fences rc) t = Some n"
    moreover have "m \<le> n" if w: "row \<in> set rows" "fence_of E int_text row t m" for row m
    proof -
      obtain m' where "dict_get (rc_fences rc) t = Some m'" "m \<le> m'" using F w by blast
      then show ?thesis using n by simp
    qed
    ultimately show "(\<exists>row \<in> set rows. fence_of E int_text row t n) \<and> (\<forall>row \<in> set rows. \<forall>m. fence_of E int_text row t m \<longrightarrow> m \<le> n)"
      using F by blast
  next
    assume n: "(\<exists>row \<in> set rows. fence_of E int_text row t n) \<and> (\<forall>row \<in> set rows. \<forall>m. fence_of E int_text row t m \<longrightarrow> m \<le> n)"
    then obtain m where m: "dict_get (rc_fences rc) t = Some m" "n \<le> m" using F by blast
    then have "m \<le> n" using n F by blast
    then show "dict_get (rc_fences rc) t = Some n" using m by simp
  qed
  have tasks: "dict_get (rs_tasks st) t = dict_get (rc_tasks rc) t" for t by (simp add: st(1) map_of_sort_key)
  have "in_dict k (rc_intents rc) \<longleftrightarrow> (\<exists>row \<in> set rows. intent_of E row k)" "in_dict k (rc_receipts rc) \<longleftrightarrow> (\<exists>row \<in> set rows. receipt_of E row k)" for k
    using F by blast+
  then have "set (rs_orphan_intents st) = {k. (\<exists>row \<in> set rows. intent_of E row k) \<and> \<not> (\<exists>row \<in> set rows. receipt_of E row k)}"
    unfolding orphans by (simp only:)
  moreover have "\<forall>k. (\<exists>row \<in> set rows. receipt_of E row k) \<longrightarrow> (\<exists>row \<in> set rows. intent_of E row k)"
    "\<forall>t s. dict_get (rs_tasks st) t = Some s \<longrightarrow> s \<in> {''queued'', ''running''} \<or> (\<exists>row \<in> set rows. ended_as E row t s)"
    using F unfolding tasks by blast+
  ultimately show ?thesis unfolding current largest by blast
qed

definition demo_event :: "string \<Rightarrow> int \<Rightarrow> RecoveryEvent" where
  "demo_event kind fence = \<lparr>ev_aggregate_id = ''t'', ev_event_type = kind, ev_payload = [(''effect_id'', JStr ''x'')], ev_prism_id = ''p'',
     ev_slot_id = Some ''s'', ev_task_id = Some ''t'', ev_attempt = Some 1, ev_fence = Some fence\<rparr>"

definition demo_row :: "(string \<times> json) list" where
  "demo_row = obj_put ''event_hash'' (JStr (projr (canonical_sha256 demo_hbp_env (JObj (event_fields 1 GENESIS_HASH 5 (demo_event ''effect_intent'' 1))))))
     (event_fields 1 GENESIS_HASH 5 (demo_event ''effect_intent'' 1))"

definition demo_journal_env :: hbp_env where
  "demo_journal_env = demo_hbp_env\<lparr>he_loads := (\<lambda>bs. if Some bs = canonical_bytes demo_hbp_env (JObj demo_row) then Some (JObj demo_row) else None)\<rparr>"

lemma demo_journal_canonical:
  "canonical_bytes demo_journal_env = canonical_bytes demo_hbp_env" "canonical_sha256 demo_journal_env = canonical_sha256 demo_hbp_env"
proof -
  show c: "canonical_bytes demo_journal_env = canonical_bytes demo_hbp_env" by (simp add: fun_eq_iff canonical_bytes_def demo_journal_env_def)
  have "he_sha256 demo_journal_env = he_sha256 demo_hbp_env" by (simp add: demo_journal_env_def)
  then show "canonical_sha256 demo_journal_env = canonical_sha256 demo_hbp_env" unfolding canonical_sha256_def c by (simp only:)
qed

definition demo_frame :: bytes where
  "demo_frame = projr (encode_hbp_frame (journal_codec demo_hbp_env) (JObj demo_row))"

lemma demo_fields_normal: "normalize_json (he_nfc demo_hbp_env) (JObj (event_fields n previous now (demo_event kind fence))) \<noteq> None"
  unfolding normalize_obj_Some by (simp add: event_fields_def opt_int_def opt_str_def demo_event_def)

lemma demo_append:
  "journal_append demo_journal_env 4096 5 length (demo_event ''effect_intent'' 1) LedgerMissing = (LedgerBytes demo_frame, Inr demo_row)"
proof -
  have small: "length (fc_canonical (journal_codec demo_hbp_env) (JObj demo_row)) \<le> 4096" by code_simp
  then have f: "encode_hbp_frame (journal_codec demo_hbp_env) (JObj demo_row) = Inr demo_frame"
    by (auto simp: demo_frame_def encode_hbp_frame_def Let_def HBP_MAX_FRAME_BYTES_def)
  have "\<And>b. length (fc_sha256 (journal_codec demo_hbp_env) b) = 32" by (simp add: journal_codec_def demo_hbp_env_def)
  from encode_shape(3) [OF f this] small have f2: "length demo_frame \<le> 4096 + 40" by simp
  have "fc_canonical (journal_codec demo_journal_env) = fc_canonical (journal_codec demo_hbp_env)"
    "fc_sha256 (journal_codec demo_journal_env) = fc_sha256 (journal_codec demo_hbp_env)"
    unfolding journal_codec_def demo_journal_canonical by (simp_all add: demo_journal_env_def)
  then have enc: "encode_hbp_frame (journal_codec demo_journal_env) (JObj demo_row) = Inr demo_frame" using f unfolding encode_hbp_frame_def by (simp only:)
  define h where "h = projr (canonical_sha256 demo_hbp_env (JObj (event_fields 1 GENESIS_HASH 5 (demo_event ''effect_intent'' 1))))"
  have h: "canonical_sha256 demo_hbp_env (JObj (event_fields 1 GENESIS_HASH 5 (demo_event ''effect_intent'' 1))) = Inr h"
    unfolding h_def by (rule canonical_sha256_ok [OF demo_fields_normal])
  have row: "obj_put ''event_hash'' (JStr h) (event_fields 1 GENESIS_HASH 5 (demo_event ''effect_intent'' 1)) = demo_row" by (simp add: demo_row_def h_def)
  show ?thesis
    using f2 unfolding journal_append_def demo_journal_canonical
    by (simp add: journal_replay_def head_hash_def Let_def h row enc del: One_nat_def)
qed

lemma demo_reads_back: "canonical_bytes demo_journal_env (JObj demo_row) = Some bs \<Longrightarrow> he_loads demo_journal_env bs = Some (JObj demo_row)"
  unfolding demo_journal_canonical by (simp add: demo_journal_env_def)

lemma demo_digest_32: "length (he_sha256 demo_journal_env b) = 32"
  by (simp add: demo_journal_env_def demo_hbp_env_def)


lemma demo_replays: "journal_replay demo_journal_env 4096 (LedgerBytes demo_frame) = Inr [demo_row]"
proof -
  have c: "canonical_sha256 demo_journal_env (JObj (event_fields (length [] + 1) (py_str (he_repr demo_journal_env) (head_hash [])) 5 (demo_event ''effect_intent'' 1)))
      = Inr (projr (canonical_sha256 demo_hbp_env (JObj (event_fields 1 GENESIS_HASH 5 (demo_event ''effect_intent'' 1)))))"
    using canonical_sha256_ok [OF demo_fields_normal] by (simp add: demo_journal_canonical head_hash_def)
  have e: "RecoveryEvent_post_init (demo_event ''effect_intent'' 1) = Inr (demo_event ''effect_intent'' 1)" by code_simp
  have r: "demo_row = obj_put ''event_hash'' (JStr (projr (canonical_sha256 demo_hbp_env (JObj (event_fields 1 GENESIS_HASH 5 (demo_event ''effect_intent'' 1))))))
      (event_fields (length [] + 1) (py_str (he_repr demo_journal_env) (head_hash [])) 5 (demo_event ''effect_intent'' 1))"
    by (simp add: demo_row_def head_hash_def)
  have m: "journal_replay demo_journal_env 4096 LedgerMissing = Inr []" by (simp add: journal_replay_def)
  from journal_append_cases [OF m demo_append] obtain frame where
    f: "encode_hbp_frame (journal_codec demo_journal_env) (JObj demo_row) = Inr frame" "length frame \<le> 4096 + 40" "demo_frame = frame"
    by (auto split: if_splits)
  have sha: "\<And>b. length (fc_sha256 (journal_codec demo_journal_env) b) = 32" by (simp add: journal_codec_def demo_digest_32)
  obtain bs where bs: "canonical_bytes demo_journal_env (JObj demo_row) = Some bs"
  proof -
    have "\<forall>p \<in> set demo_row. normalize_json (he_nfc demo_hbp_env) (snd p) \<noteq> None"
      using demo_fields_normal [of 1 GENESIS_HASH 5 "''effect_intent''" 1] unfolding demo_row_def normalize_obj_Some
      by (auto simp: obj_put_def set_insort_key)
    then have "normalize_json (he_nfc demo_hbp_env) (JObj demo_row) \<noteq> None" unfolding normalize_obj_Some .
    then show thesis using that unfolding demo_journal_canonical canonical_bytes_Some [symmetric] by blast
  qed
  have d: "decode_hbp_frame (journal_codec demo_journal_env) demo_frame = Inr (JObj demo_row)" unfolding f(3)
    by (rule decode_complete [OF sha _ _ f(1)]) (use demo_reads_back [OF bs] bs in \<open>simp_all add: journal_codec_def\<close>)
  from replay_appended [OF m e c r d [unfolded f(3)] frames_of_encoded [OF f(1) sha f(2)]] show ?thesis by (simp add: f(3))
qed

lemma journal_bytes_determined_example:
  "demo_frame = (case fst (journal_append demo_journal_env 4096 5 length (demo_event ''effect_intent'' 1) LedgerMissing) of LedgerBytes raw \<Rightarrow> raw | _ \<Rightarrow> [])"
    (is "_ = ?raw")
proof (rule journal_bytes_determined [of demo_journal_env 4096 demo_frame "[demo_row]" ?raw "[demo_row]"])
  show "journal_replay demo_journal_env 4096 (LedgerBytes demo_frame) = Inr [demo_row]"
    "journal_replay demo_journal_env 4096 (LedgerBytes ?raw) = Inr [demo_row]" by (simp_all add: demo_replays demo_append)
  have "map fst (event_fields 1 GENESIS_HASH 5 (demo_event ''effect_intent'' 1)) = [''aggregate_id'', ''attempt'', ''event_type'', ''fence'', ''observed_at_ns'',
      ''payload'', ''previous_event_hash'', ''prism_id'', ''schema'', ''sequence'', ''slot_id'', ''task_id'']" by (simp add: event_fields_def)
  moreover have "sorted [''aggregate_id'', ''attempt'', ''event_type'', ''fence'', ''observed_at_ns'',
      ''payload'', ''previous_event_hash'', ''prism_id'', ''schema'', ''sequence'', ''slot_id'', ''task_id'']" by code_simp
  moreover have "distinct [''aggregate_id'', ''attempt'', ''event_type'', ''fence'', ''observed_at_ns'',
      ''payload'', ''previous_event_hash'', ''prism_id'', ''schema'', ''sequence'', ''slot_id'', ''task_id'']" by code_simp
  ultimately have "object_form (event_fields 1 GENESIS_HASH 5 (demo_event ''effect_intent'' 1))" unfolding object_form_def by (simp only: simp_thms)
  then have "object_form demo_row" unfolding demo_row_def by (rule object_form_put)
  then show "\<forall>r \<in> set [demo_row] \<union> set [demo_row]. object_form r" by simp
qed simp_all

theorem recover_state_exact_witness:
  "(case recover_state demo_hbp_env (\<lambda>_. None) [event_fields 1 [] 5 (demo_event ''effect_intent'' 1), event_fields 2 [] 6 (demo_event ''lease_takeover'' 2)] of
      Inl _ \<Rightarrow> False
    | Inr st \<Rightarrow> set (rs_orphan_intents st) = {''x''} \<and> assert_current_fence st ''t'' 2 = Inr () \<and> assert_current_fence st ''t'' 1 \<noteq> Inr ())"
proof -
  let ?rows = "[event_fields 1 [] 5 (demo_event ''effect_intent'' 1), event_fields 2 [] 6 (demo_event ''lease_takeover'' 2)]"
  define st where "st = projr (recover_state demo_hbp_env (\<lambda>_. None) ?rows)"
  have st: "recover_state demo_hbp_env (\<lambda>_. None) ?rows = Inr st" "set (rs_orphan_intents st) = {''x''}" unfolding st_def by code_simp+
  have f: "fence_of demo_hbp_env (\<lambda>_. None) (event_fields 2 [] 6 (demo_event ''lease_takeover'' 2)) ''t'' 2"
    "fence_of demo_hbp_env (\<lambda>_. None) (event_fields 1 [] 5 (demo_event ''effect_intent'' 1)) ''t'' 1" unfolding fence_of_def by code_simp+
  then have "m = 2" if "fence_of demo_hbp_env (\<lambda>_. None) (event_fields 2 [] 6 (demo_event ''lease_takeover'' 2)) ''t'' m" for m
    using that by (simp add: fence_of_def)
  moreover have "m = 1" if "fence_of demo_hbp_env (\<lambda>_. None) (event_fields 1 [] 5 (demo_event ''effect_intent'' 1)) ''t'' m" for m
    using that f(2) by (simp add: fence_of_def)
  ultimately have "assert_current_fence st ''t'' 2 = Inr ()" "assert_current_fence st ''t'' 1 \<noteq> Inr ()"
    using recover_state_exact [OF st(1)] f by force+
  then show ?thesis using st by simp
qed

section \<open>Reconciliation\<close>

text \<open>Reconciliation asks for a receipt of every orphan and for nothing else, and reports the effects without one as required.\<close>

lemma reconcile_loop_partition:
  "reconcile_loop E it limit clock written lookup by_effect ids f reconciled required = (f', Inr (rec, req)) \<Longrightarrow>
     rec = reconciled @ filter (\<lambda>k. \<exists>h. lookup k = Some h \<and> h \<noteq> []) ids
     \<and> req = required @ filter (\<lambda>k. \<not> (\<exists>h. lookup k = Some h \<and> h \<noteq> [])) ids"
proof (induction ids arbitrary: f reconciled required)
  case (Cons k ids)
  show ?case
  proof (cases "\<exists>h. lookup k = Some h \<and> h \<noteq> []")
    case True
    then obtain f2 where "reconcile_loop E it limit clock written lookup by_effect ids f2 (reconciled @ [k]) required = (f', Inr (rec, req))"
      using Cons.prems by (auto split: option.splits sum.splits prod.splits)
    from Cons.IH [OF this] True show ?thesis by simp
  next
    case False
    then have "reconcile_loop E it limit clock written lookup by_effect ids f reconciled (required @ [k]) = (f', Inr (rec, req))"
      using Cons.prems by (auto split: option.splits)
    from Cons.IH [OF this] False show ?thesis by simp
  qed
qed simp

lemma reconcile_reports:
  assumes "reconcile_orphan_intents E it limit clock written lookup f = (f', Inr rep)"
  shows "\<exists>rows st. journal_replay E limit f = Inr rows \<and> recover_state E it rows = Inr st
    \<and> set (rr_reconciled_effects rep) = {k \<in> set (rs_orphan_intents st). \<exists>h. lookup k = Some h \<and> h \<noteq> []}
    \<and> set (rr_required_effects rep) = set (rs_orphan_intents st) - set (rr_reconciled_effects rep)
    \<and> (rr_status rep = ''RECONCILED'' \<longleftrightarrow> rr_required_effects rep = [])"
proof -
  obtain rows st rec req where r: "journal_replay E limit f = Inr rows" "recover_state E it rows = Inr st"
    "reconcile_loop E it limit clock written lookup (intents_by_effect E rows) (rs_orphan_intents st) f [] [] = (f', Inr (rec, req))"
    "rr_reconciled_effects rep = sort rec" "rr_required_effects rep = sort req" "rr_status rep = (if req \<noteq> [] then ''RECOVERY_REQUIRED'' else ''RECONCILED'')"
    using assms by (auto simp: reconcile_orphan_intents_def split: sum.splits prod.splits)
  have "sort req = [] \<longleftrightarrow> req = []" by (metis length_0_conv length_sort)
  then show ?thesis using r reconcile_loop_partition [OF r(3)] by (intro exI [of _ rows] exI [of _ st]) auto
qed

section \<open>A defect\<close>

text \<open>The receipt that reconciliation writes carries the fence of the intent. When the lease was taken over in between,
  the task has a larger fence by then, and the row makes every later recovery of the journal fail.\<close>

lemma reconcile_regresses_fence:
  "let rows = [event_fields 1 [] 5 (demo_event ''effect_intent'' 1), event_fields 2 [] 6 (demo_event ''lease_takeover'' 2)];
       e = projr (reconcile_event demo_hbp_env (\<lambda>_. None) (rows ! 0) ''x'' ''h'')
   in (case recover_state demo_hbp_env (\<lambda>_. None) rows of Inl _ \<Rightarrow> False | Inr st \<Rightarrow> rs_orphan_intents st = [''x''])
      \<and> recover_state demo_hbp_env (\<lambda>_. None) (rows @ [event_fields 3 [] 7 e]) = Inl (PrismRecoveryError ''fence regressed during replay'')"
  by code_simp

end
