(* ===== verification/Prism_Budgets.thy ===== *)
theory Prism_Budgets
  imports Prism_Scheduler
begin

text \<open>
  Adaptive budgets and fenced device leases (\<open>prism_budgets.py\<close>): observed samples, the governor that applies pressure
  at once and relief after stable samples, the ledger that moves the leases of a lost device, and the
  throughput receipt.

  The hashes that the code adds to events, actions and receipts cover only their own fields and are read by nothing
  else of the component; they are left out. A sample's metric that was not observed is \<open>None\<close>.
\<close>

section \<open>Samples\<close>

datatype budget_error = PrismBudgetError string | UnknownNullReasons "string list" | FromScheduler sched_failure

definition PRISM_RESOURCE_NAMES :: "string list" where
  "PRISM_RESOURCE_NAMES = map fst RV_FIELDS"

definition bounded_int :: "int option \<Rightarrow> string \<Rightarrow> int \<Rightarrow> budget_error + int option" where
  "bounded_int value name minimum = (case value of
     None \<Rightarrow> Inr None
   | Some n \<Rightarrow> if n < minimum then Inl (PrismBudgetError (name @ '' must be an integer >= '' @ show_int minimum)) else Inr (Some n))"

record DeviceCapacity =
  dc_device_id :: string
  dc_worker_limit :: int
  dc_trusted :: bool
  dc_connected :: bool
  dc_capabilities :: "string list"

definition DeviceCapacity_post_init :: "DeviceCapacity \<Rightarrow> budget_error + DeviceCapacity" where
  "DeviceCapacity_post_init d =
    (if dc_device_id d = [] then Inl (PrismBudgetError ''device_id is required'')
     else ebind (bounded_int (Some (dc_worker_limit d)) ''worker_limit'' 1) (\<lambda>_.
       Inr (d\<lparr>dc_capabilities := sorted_set (filter (\<lambda>c. c \<noteq> []) (dc_capabilities d))\<rparr>)))"

record BudgetSample =
  sm_workers :: "int option"
  sm_cpu_millis :: "int option"
  sm_rss_bytes :: "int option"
  sm_io_units :: "int option"
  sm_provider_requests :: "int option"
  sm_tokens :: "int option"
  sm_disk_bytes :: "int option"
  sm_model_slots :: "int option"
  sm_network_queue :: "int option"
  sm_context_tokens :: "int option"
  sm_evidence_bytes :: "int option"
  sm_provider_retry_after_ns :: "int option"
  sm_observed_at_ns :: int
  sm_null_reasons :: "(string, string) dict"

definition SAMPLE_FIELDS :: "(string \<times> (BudgetSample \<Rightarrow> int option)) list" where
  \<comment> \<open>\<open>getattr(self, name)\<close> for the names of \<open>PRISM_RESOURCE_NAMES\<close>, in their order\<close>
  "SAMPLE_FIELDS = [(''workers'', sm_workers), (''cpu_millis'', sm_cpu_millis), (''rss_bytes'', sm_rss_bytes),
     (''io_units'', sm_io_units), (''provider_requests'', sm_provider_requests), (''tokens'', sm_tokens),
     (''disk_bytes'', sm_disk_bytes), (''model_slots'', sm_model_slots), (''network_queue'', sm_network_queue),
     (''context_tokens'', sm_context_tokens), (''evidence_bytes'', sm_evidence_bytes)]"

definition sample_get :: "BudgetSample \<Rightarrow> string \<Rightarrow> int option" where
  "sample_get s name = (case map_of SAMPLE_FIELDS name of None \<Rightarrow> None | Some get \<Rightarrow> get s)"

definition null_reason_bad :: "BudgetSample \<Rightarrow> string \<times> string \<Rightarrow> bool" where
  "null_reason_bad s p = ((sample_get s (fst p) \<noteq> None \<and> \<not> (fst p = ''workers'' \<and> sample_get s (fst p) = Some 0)) \<or> strip (snd p) = [])"

definition BudgetSample_post_init :: "BudgetSample \<Rightarrow> budget_error + BudgetSample" where
  "BudgetSample_post_init s =
    ebind (map_checked (\<lambda>name. bounded_int (sample_get s name) name 0) PRISM_RESOURCE_NAMES) (\<lambda>_.
    ebind (bounded_int (sm_provider_retry_after_ns s) ''provider_retry_after_ns'' 0) (\<lambda>_.
    ebind (bounded_int (Some (sm_observed_at_ns s)) ''observed_at_ns'' 0) (\<lambda>_.
      let invalid = filter (\<lambda>k. k \<notin> set PRISM_RESOURCE_NAMES) (dict_keys (sm_null_reasons s))
      in if invalid \<noteq> [] then Inl (UnknownNullReasons (sorted_set invalid))
         else case List.find (null_reason_bad s) (sm_null_reasons s) of
           Some (name, _) \<Rightarrow> Inl (PrismBudgetError (''null_reason for '' @ name @ '' requires an unknown metric''))
         | None \<Rightarrow> Inr s)))"

definition usable :: "DeviceCapacity list \<Rightarrow> DeviceCapacity list" where
  "usable devices = filter (\<lambda>d. dc_connected d \<and> dc_trusted d \<and> dc_worker_limit d \<noteq> 0) devices"

definition configured_workers :: "BudgetSample \<Rightarrow> PrismPolicy \<Rightarrow> DeviceCapacity list \<Rightarrow> int" where
  "configured_workers s policy devices =
    (let configured = (case sm_workers s of Some n \<Rightarrow> n | None \<Rightarrow> po_global_worker_limit policy)
     in if devices = [] then configured else min configured (max 1 (sum_list (map dc_worker_limit (usable devices)))))"

record observation_build =
  ob_values :: "(string, int) dict"
  ob_measured :: "string list"
  ob_unavailable :: "string list"
  ob_null_reasons :: "(string, string) dict"

definition set_default :: "('k, 'v) dict \<Rightarrow> 'k \<Rightarrow> 'v \<Rightarrow> ('k, 'v) dict" where
  "set_default d k v = (if in_dict k d then d else dict_set d k v)"

definition observe_field :: "BudgetSample \<Rightarrow> int \<Rightarrow> string \<Rightarrow> observation_build \<Rightarrow> observation_build" where
  \<comment> \<open>one pass of the loop over the resource names\<close>
  "observe_field s configured name b =
    (let value = (if name = ''workers'' then Some configured else sample_get s name)
     in case value of
       None \<Rightarrow> b\<lparr>ob_unavailable := ob_unavailable b @ [name], ob_null_reasons := set_default (ob_null_reasons b) name ''metric_not_observed'',
                 ob_values := dict_set (ob_values b) name 1\<rparr>
     | Some n \<Rightarrow>
         if name = ''workers'' \<and> n = 0
         then b\<lparr>ob_unavailable := ob_unavailable b @ [name],
                ob_null_reasons := set_default (ob_null_reasons b) name ''physical_capacity_unavailable'',
                ob_measured := ob_measured b @ [name], ob_values := dict_set (ob_values b) name n\<rparr>
         else b\<lparr>ob_measured := ob_measured b @ [name], ob_values := dict_set (ob_values b) name n\<rparr>)"

definition vector_of :: "(string, int) dict \<Rightarrow> ResourceVector" where
  \<comment> \<open>\<open>ResourceVector(**values)\<close>\<close>
  "vector_of values = \<lparr>rv_workers = dict_get_or values ''workers'' 0, rv_cpu_millis = dict_get_or values ''cpu_millis'' 0,
     rv_rss_bytes = dict_get_or values ''rss_bytes'' 0, rv_io_units = dict_get_or values ''io_units'' 0,
     rv_provider_requests = dict_get_or values ''provider_requests'' 0, rv_tokens = dict_get_or values ''tokens'' 0,
     rv_disk_bytes = dict_get_or values ''disk_bytes'' 0, rv_model_slots = dict_get_or values ''model_slots'' 0,
     rv_network_queue = dict_get_or values ''network_queue'' 0, rv_context_tokens = dict_get_or values ''context_tokens'' 0,
     rv_evidence_bytes = dict_get_or values ''evidence_bytes'' 0\<rparr>"

definition lift_sched :: "sched_failure + 'a \<Rightarrow> budget_error + 'a" where
  "lift_sched r = (case r of Inl e \<Rightarrow> Inl (FromScheduler e) | Inr x \<Rightarrow> Inr x)"

definition observation :: "BudgetSample \<Rightarrow> PrismPolicy \<Rightarrow> DeviceCapacity list \<Rightarrow> budget_error + BudgetObservation" where
  "observation s policy devices =
    (let b = fold (observe_field s (configured_workers s policy devices)) PRISM_RESOURCE_NAMES
           \<lparr>ob_values = [], ob_measured = [], ob_unavailable = [], ob_null_reasons = sm_null_reasons s\<rparr>
     in lift_sched (ebind (ResourceVector_post_init (vector_of (ob_values b))) (\<lambda>limit.
          BudgetObservation_post_init \<lparr>bo_limit = limit, bo_measured = ob_measured b, bo_unavailable = ob_unavailable b,
            bo_null_reasons = ob_null_reasons b, bo_provider_retry_after_ns = sm_provider_retry_after_ns s,
            bo_observed_at_ns = sm_observed_at_ns s,
            bo_device_workers = sort (map (\<lambda>d. (dc_device_id d, dc_worker_limit d)) (usable devices))\<rparr>)))"

section \<open>The adaptive governor\<close>

record budget_event =
  be_applied :: bool
  be_reason_code :: string
  be_observed_at_ns :: int
  be_limits :: ResourceVector
  be_unavailable :: "string list"
  be_null_reasons :: "(string, string) dict"

record AdaptiveBudgetGovernor =
  ag_policy :: PrismPolicy
  ag_relief_samples :: int
  ag_devices :: "(string, DeviceCapacity) dict"
  ag_current :: "BudgetObservation option"
  ag_candidate :: "BudgetObservation option"
  ag_relief_streak :: int
  ag_events :: "budget_event list"

definition device_dict :: "DeviceCapacity list \<Rightarrow> (string, DeviceCapacity) dict" where
  "device_dict devices = fold (\<lambda>d m. dict_set m (dc_device_id d) d) devices []"

definition AdaptiveBudgetGovernor_init :: "PrismPolicy \<Rightarrow> int \<Rightarrow> DeviceCapacity list \<Rightarrow> budget_error + AdaptiveBudgetGovernor" where
  "AdaptiveBudgetGovernor_init policy relief_samples devices =
    (if relief_samples < 1 then Inl (PrismBudgetError ''relief_samples must be positive'')
     else Inr \<lparr>ag_policy = policy, ag_relief_samples = relief_samples, ag_devices = device_dict devices, ag_current = None,
       ag_candidate = None, ag_relief_streak = 0, ag_events = []\<rparr>)"

definition limits_of :: "BudgetObservation \<Rightarrow> int list" where
  "limits_of b = map (\<lambda>(name, get). get (bo_limit b)) RV_FIELDS"

definition same_observation :: "BudgetObservation \<Rightarrow> BudgetObservation \<Rightarrow> bool" where
  \<comment> \<open>\<open>==\<close> of the dataclass; two dicts are equal whatever the order of their keys\<close>
  "same_observation a b \<longleftrightarrow> bo_limit a = bo_limit b \<and> bo_measured a = bo_measured b \<and> bo_unavailable a = bo_unavailable b
     \<and> sort_key fst (bo_null_reasons a) = sort_key fst (bo_null_reasons b)
     \<and> bo_provider_retry_after_ns a = bo_provider_retry_after_ns b \<and> bo_observed_at_ns a = bo_observed_at_ns b
     \<and> bo_device_workers a = bo_device_workers b"

definition pressure_on :: "BudgetObservation \<Rightarrow> BudgetObservation \<Rightarrow> bool" where
  \<comment> \<open>\<open>pressure or provider_pressure\<close>\<close>
  "pressure_on current observed \<longleftrightarrow> list_ex (\<lambda>(old, new). new < old) (zip (limits_of current) (limits_of observed))
     \<or> (bo_provider_retry_after_ns observed \<noteq> None \<and> bo_provider_retry_after_ns observed \<noteq> bo_provider_retry_after_ns current)"

definition weigh :: "AdaptiveBudgetGovernor \<Rightarrow> BudgetObservation \<Rightarrow> string \<times> bool \<times> BudgetObservation option \<times> int" where
  \<comment> \<open>the reason, whether the observation is applied, and the next candidate and streak\<close>
  "weigh g observed = (case ag_current g of
     None \<Rightarrow> (''INITIAL_SAMPLE'', True, ag_candidate g, ag_relief_streak g)
   | Some current \<Rightarrow>
       if pressure_on current observed then (''PRESSURE_APPLIED'', True, None, 0)
       else if limits_of observed = limits_of current then (''STABLE'', True, None, 0)
       else
         let (candidate, streak) = (case ag_candidate g of
               Some c \<Rightarrow> if same_observation c observed then (Some c, ag_relief_streak g + 1) else (Some observed, 1)
             | None \<Rightarrow> (Some observed, 1))
         in if streak < ag_relief_samples g then (''RELIEF_HYSTERESIS'', False, candidate, streak)
            else (''RELIEF_APPLIED'', True, None, 0))"

definition budget_observe :: "BudgetSample \<Rightarrow> AdaptiveBudgetGovernor \<Rightarrow> budget_error + AdaptiveBudgetGovernor \<times> BudgetObservation" where
  "budget_observe sample g = ebind (observation sample (ag_policy g) (dict_values (ag_devices g))) (\<lambda>observed.
     let (reason, applied, candidate, streak) = weigh g observed;
         current = (if applied then Some observed else ag_current g);
         event = \<lparr>be_applied = applied, be_reason_code = reason, be_observed_at_ns = bo_observed_at_ns observed,
           be_limits = bo_limit observed, be_unavailable = bo_unavailable observed, be_null_reasons = bo_null_reasons observed\<rparr>
     in Inr (g\<lparr>ag_current := current, ag_candidate := candidate, ag_relief_streak := streak, ag_events := ag_events g @ [event]\<rparr>,
             case current of Some c \<Rightarrow> c | None \<Rightarrow> observed))"

definition update_device :: "DeviceCapacity \<Rightarrow> AdaptiveBudgetGovernor \<Rightarrow> AdaptiveBudgetGovernor" where
  "update_device d g = g\<lparr>ag_devices := dict_set (ag_devices g) (dc_device_id d) d\<rparr>"

record budget_status =
  bs_current :: "ResourceVector option"
  bs_devices :: "DeviceCapacity list"
  bs_events :: "budget_event list"
  bs_relief_streak :: int

definition governor_status :: "AdaptiveBudgetGovernor \<Rightarrow> budget_status" where
  "governor_status g = \<lparr>bs_current = map_option bo_limit (ag_current g), bs_devices = sort_key dc_device_id (dict_values (ag_devices g)),
     bs_events = ag_events g, bs_relief_streak = ag_relief_streak g\<rparr>"

section \<open>Device leases\<close>

record DeviceLease =
  dl_task_id :: string
  dl_device_id :: string
  dl_fence :: int
  dl_capability :: string

definition DeviceLease_post_init :: "DeviceLease \<Rightarrow> budget_error + DeviceLease" where
  "DeviceLease_post_init l =
    (if dl_task_id l = [] \<or> dl_device_id l = [] \<or> dl_capability l = []
     then Inl (PrismBudgetError ''lease identity and capability are required'')
     else ebind (bounded_int (Some (dl_fence l)) ''fence'' 1) (\<lambda>_. Inr l))"

record DeviceLeaseLedger =
  ll_devices :: "(string, DeviceCapacity) dict"
  ll_leases :: "(string, DeviceLease) dict"
  ll_served :: "(string, int) dict"

definition DeviceLeaseLedger_init :: "DeviceCapacity list \<Rightarrow> budget_error + DeviceLeaseLedger" where
  "DeviceLeaseLedger_init devices =
    (if length (device_dict devices) \<noteq> length devices then Inl (PrismBudgetError ''duplicate device'')
     else Inr \<lparr>ll_devices = device_dict devices, ll_leases = [], ll_served = map (\<lambda>d. (dc_device_id d, 0)) devices\<rparr>)"

definition load_of :: "DeviceLeaseLedger \<Rightarrow> string \<Rightarrow> int" where
  "load_of s device_id = int (length (filter (\<lambda>l. dl_device_id l = device_id) (dict_values (ll_leases s))))"

definition candidates :: "DeviceLeaseLedger \<Rightarrow> string \<Rightarrow> DeviceCapacity list" where
  "candidates s capability = filter (\<lambda>d. dc_connected d \<and> dc_trusted d \<and> capability \<in> set (dc_capabilities d)
     \<and> load_of s (dc_device_id d) < dc_worker_limit d) (dict_values (ll_devices s))"

definition least_served :: "DeviceLeaseLedger \<Rightarrow> DeviceCapacity list \<Rightarrow> DeviceCapacity" where
  \<comment> \<open>\<open>min(candidates, key=...)\<close>; the ledger has a counter for every device\<close>
  "least_served s cs = min_by (\<lambda>d. (dict_get_or (ll_served s) (dc_device_id d) 0, dc_device_id d)) (hd cs) (tl cs)"

definition grant :: "string \<Rightarrow> DeviceLease \<Rightarrow> DeviceLeaseLedger \<Rightarrow> DeviceLeaseLedger" where
  \<comment> \<open>\<open>self.leases[task_id] = lease\<close> and \<open>self._served[lease.device_id] += 1\<close>\<close>
  "grant task_id l s = s\<lparr>ll_leases := dict_set (ll_leases s) task_id l,
     ll_served := dict_set (ll_served s) (dl_device_id l) (dict_get_or (ll_served s) (dl_device_id l) 0 + 1)\<rparr>"

definition device_assign :: "string \<Rightarrow> string \<Rightarrow> DeviceLeaseLedger \<Rightarrow> budget_error + DeviceLeaseLedger \<times> DeviceLease" where
  "device_assign task_id capability s =
    (if in_dict task_id (ll_leases s) then Inl (PrismBudgetError ''task already has a current device lease'')
     else
       let cs = candidates s capability
       in if cs = [] then Inl (PrismBudgetError ''DEVICE_CAPABILITY_UNAVAILABLE'')
          else ebind (DeviceLease_post_init \<lparr>dl_task_id = task_id, dl_device_id = dc_device_id (least_served s cs), dl_fence = 1, dl_capability = capability\<rparr>)
                 (\<lambda>lease. Inr (grant task_id lease s, lease)))"

record rebalance_action =
  rb_task_id :: string
  rb_from_device :: string
  rb_to_device :: "string option"
  rb_old_fence :: int
  rb_new_fence :: "int option"
  rb_reason_code :: string

fun rebalance :: "string \<Rightarrow> (string \<times> DeviceLease) list \<Rightarrow> DeviceLeaseLedger \<Rightarrow> DeviceLeaseLedger \<times> (budget_error + rebalance_action list)" where
  \<comment> \<open>the loop of \<open>disconnect\<close> over the leases sorted by task; the ledger is already changed when a lease is refused\<close>
  "rebalance device_id [] s = (s, Inr [])"
| "rebalance device_id ((task_id, lease) # rest) s =
    (if dl_device_id lease \<noteq> device_id then rebalance device_id rest s
     else
       let cs = candidates s (dl_capability lease)
       in if cs = []
          then let (s', r) = rebalance device_id rest s
               in (s', ebind r (\<lambda>actions. Inr (\<lparr>rb_task_id = task_id, rb_from_device = device_id, rb_to_device = None,
                    rb_old_fence = dl_fence lease, rb_new_fence = None, rb_reason_code = ''DEVICE_LOST_RECOVERY_REQUIRED''\<rparr> # actions)))
          else case DeviceLease_post_init (lease\<lparr>dl_device_id := dc_device_id (least_served s cs), dl_fence := dl_fence lease + 1\<rparr>) of
                 Inl e \<Rightarrow> (s, Inl e)
               | Inr replacement \<Rightarrow>
                   let (s', r) = rebalance device_id rest (grant task_id replacement s)
                   in (s', ebind r (\<lambda>actions. Inr (\<lparr>rb_task_id = task_id, rb_from_device = device_id,
                        rb_to_device = Some (dl_device_id replacement), rb_old_fence = dl_fence lease,
                        rb_new_fence = Some (dl_fence replacement), rb_reason_code = ''DEVICE_LOST_REBALANCED''\<rparr> # actions))))"

definition device_disconnect :: "string \<Rightarrow> DeviceLeaseLedger \<Rightarrow> DeviceLeaseLedger \<times> (budget_error + rebalance_action list)" where
  "device_disconnect device_id s = (case dict_get (ll_devices s) device_id of
     None \<Rightarrow> (s, Inl (PrismBudgetError ''unknown device''))
   | Some device \<Rightarrow>
       (case DeviceCapacity_post_init (device\<lparr>dc_connected := False\<rparr>) of
          Inl e \<Rightarrow> (s, Inl e)
        | Inr device' \<Rightarrow> rebalance device_id (sort_key fst (ll_leases s)) (s\<lparr>ll_devices := dict_set (ll_devices s) device_id device'\<rparr>)))"

definition assert_current :: "DeviceLease \<Rightarrow> DeviceLeaseLedger \<Rightarrow> budget_error + unit" where
  "assert_current lease s = (if dict_get (ll_leases s) (dl_task_id lease) \<noteq> Some lease
     then Inl (PrismBudgetError ''STALE_DEVICE_FENCE'') else Inr ())"

section \<open>Throughput\<close>

record throughput =
  tp_verified_tasks :: int
  tp_elapsed_ns :: int
  tp_throughput_milli :: int
  tp_token_count :: "int option"
  tp_tokens_per_task_milli :: "int option"
  tp_cost_units :: "int option"
  tp_cost_per_task_milli :: "int option"
  tp_null_reasons :: "(string, string) dict"

definition per_task_milli :: "int option \<Rightarrow> int \<Rightarrow> int option" where
  "per_task_milli value verified_tasks = (case value of None \<Rightarrow> None | Some n \<Rightarrow> if verified_tasks \<noteq> 0 then Some (n * 1000 div verified_tasks) else None)"

definition throughput_receipt :: "int \<Rightarrow> int \<Rightarrow> int option \<Rightarrow> int option \<Rightarrow> budget_error + throughput" where
  "throughput_receipt verified_tasks elapsed_ns token_count cost_units =
    ebind (bounded_int (Some verified_tasks) ''verified_tasks'' 0) (\<lambda>_.
    ebind (bounded_int (Some elapsed_ns) ''elapsed_ns'' 0) (\<lambda>_.
    ebind (bounded_int token_count ''token_count'' 0) (\<lambda>_.
    ebind (bounded_int cost_units ''cost_units'' 0) (\<lambda>_.
      Inr \<lparr>tp_verified_tasks = verified_tasks, tp_elapsed_ns = elapsed_ns,
        tp_throughput_milli = (if elapsed_ns \<noteq> 0 \<and> verified_tasks \<noteq> 0 then verified_tasks * 1000000000000 div elapsed_ns else 0),
        tp_token_count = token_count, tp_tokens_per_task_milli = per_task_milli token_count verified_tasks,
        tp_cost_units = cost_units, tp_cost_per_task_milli = per_task_milli cost_units verified_tasks,
        tp_null_reasons = (if token_count = None then [(''tokens_per_verified_task_milli'', ''token_count_not_observed'')] else [])
          @ (if cost_units = None then [(''cost_units_per_verified_task_milli'', ''cost_not_observed'')] else [])\<rparr>))))"


section \<open>The governor's history\<close>

text \<open>A governor together with the observations it has made, oldest first.\<close>

inductive budget_step :: "AdaptiveBudgetGovernor \<times> BudgetObservation list \<Rightarrow> AdaptiveBudgetGovernor \<times> BudgetObservation list \<Rightarrow> bool" where
  step_observe: "observation sample (ag_policy g) (dict_values (ag_devices g)) = Inr observed \<Longrightarrow> budget_observe sample g = Inr (g', result)
    \<Longrightarrow> budget_step (g, h) (g', h @ [observed])"
| step_device: "budget_step (g, h) (update_device d g, h)"

definition budget_initial :: "AdaptiveBudgetGovernor \<times> BudgetObservation list \<Rightarrow> bool" where
  "budget_initial s \<longleftrightarrow> (\<exists>policy n devices. AdaptiveBudgetGovernor_init policy n devices = Inr (fst s)) \<and> snd s = []"

definition streak_inv :: "AdaptiveBudgetGovernor \<times> BudgetObservation list \<Rightarrow> bool" where
  "streak_inv s \<longleftrightarrow> 1 \<le> ag_relief_samples (fst s) \<and> (ag_candidate (fst s) = None \<longrightarrow> ag_relief_streak (fst s) = 0)
     \<and> (\<forall>c. ag_candidate (fst s) = Some c \<longrightarrow> ag_current (fst s) \<noteq> None \<and> 1 \<le> ag_relief_streak (fst s) \<and> ag_relief_streak (fst s) < ag_relief_samples (fst s)
          \<and> nat (ag_relief_streak (fst s)) \<le> length (snd s)
          \<and> (\<forall>x \<in> set (drop (length (snd s) - nat (ag_relief_streak (fst s))) (snd s)). same_observation x c))"

lemma same_observation_sym: "same_observation a b \<Longrightarrow> same_observation b a"
  by (auto simp: same_observation_def)

lemma same_observation_trans: "same_observation a b \<Longrightarrow> same_observation b c \<Longrightarrow> same_observation a c"
  by (auto simp: same_observation_def)

lemma same_observation_refl [simp]: "same_observation a a"
  by (simp add: same_observation_def)

lemma same_observation_limits: "same_observation a b \<Longrightarrow> limits_of a = limits_of b"
  by (simp add: same_observation_def limits_of_def)

lemma budget_observe_ok:
  assumes "observation sample (ag_policy g) (dict_values (ag_devices g)) = Inr observed" and "weigh g observed = (reason, applied, candidate, streak)"
  shows "\<exists>g'. budget_observe sample g = Inr (g', if applied then observed else case ag_current g of Some c \<Rightarrow> c | None \<Rightarrow> observed)
    \<and> ag_current g' = (if applied then Some observed else ag_current g) \<and> ag_candidate g' = candidate \<and> ag_relief_streak g' = streak
    \<and> ag_relief_samples g' = ag_relief_samples g"
  using assms by (cases applied) (simp_all add: budget_observe_def Let_def)

lemma drop_snoc_last: "k \<le> length h \<Longrightarrow> drop (length (h @ [x]) - Suc k) (h @ [x]) = drop (length h - k) h @ [x]"
  by simp

lemma weigh_streak:
  assumes "streak_inv (g, h)" and "weigh g observed = (reason, applied, candidate, streak)"
  shows "candidate = None \<and> streak = 0 \<or>
    (\<exists>c. candidate = Some c \<and> ag_current g \<noteq> None \<and> 1 \<le> streak \<and> streak < ag_relief_samples g \<and> nat streak \<le> Suc (length h)
      \<and> \<not> applied \<and> (\<forall>x \<in> set (drop (Suc (length h) - nat streak) (h @ [observed])). same_observation x c))"
proof (cases "ag_candidate g")
  case None
  then show ?thesis using assms by (auto simp: weigh_def streak_inv_def Let_def split: option.splits if_splits)
next
  case (Some c)
  then have inv: "1 \<le> ag_relief_streak g" "nat (ag_relief_streak g) \<le> length h" "ag_current g \<noteq> None"
    "\<forall>x \<in> set (drop (length h - nat (ag_relief_streak g)) h). same_observation x c"
    using assms(1) by (auto simp: streak_inv_def Let_def)
  have "nat (ag_relief_streak g + 1) = Suc (nat (ag_relief_streak g))" using inv(1) by simp
  then show ?thesis using assms(2) inv unfolding weigh_def Let_def Some
    by (auto simp: same_observation_sym split: option.splits if_splits)
qed

lemma budget_step_inv: "budget_step s s' \<Longrightarrow> streak_inv s \<Longrightarrow> streak_inv s'"
proof (induction rule: budget_step.induct)
  case (step_observe sample g observed g' result h)
  obtain reason applied candidate streak where w: "weigh g observed = (reason, applied, candidate, streak)" by (metis prod_cases4)
  have g': "ag_current g' = (if applied then Some observed else ag_current g)" "ag_candidate g' = candidate" "ag_relief_streak g' = streak"
      "ag_relief_samples g' = ag_relief_samples g"
    using budget_observe_ok [OF step_observe(1) w] step_observe(2) by auto
  show ?case using weigh_streak [OF step_observe(3) w] step_observe(3) g' by (auto simp: streak_inv_def Let_def)
next
  case (step_device g h d)
  then show ?case by (simp add: streak_inv_def update_device_def Let_def)
qed

interpretation budgets: state_machine budget_initial budget_step streak_inv
proof
  show "streak_inv s" if i: "budget_initial s" for s
  proof -
    obtain policy n devices where "AdaptiveBudgetGovernor_init policy n devices = Inr (fst s)" using i unfolding budget_initial_def by blast
    then have "Inr (fst s) = AdaptiveBudgetGovernor_init policy n devices" by simp
    then have "1 \<le> ag_relief_samples (fst s)" "ag_candidate (fst s) = None" "ag_relief_streak (fst s) = 0"
      by (auto simp: AdaptiveBudgetGovernor_init_def split: if_splits)
    then show ?thesis by (simp add: streak_inv_def)
  qed
  show "streak_inv s'" if "budget_step s s'" "streak_inv s" for s s' using that by (rule budget_step_inv)
qed

text \<open>C35: the governor takes pressure at once and relief only after a stable run. In every reachable governor that has a current observation, a new sample that lowers some
  limit or brings a new provider delay becomes current immediately; and when a limit rises without such pressure, the last \<open>relief_samples\<close> observations,
  the new one included, are all equal to the one that becomes current.\<close>
theorem relief_needs_stability:
  assumes "budget_initial s0" and "budget_step\<^sup>*\<^sup>* s0 (g, h)" and "ag_current g = Some current"
    and "observation sample (ag_policy g) (dict_values (ag_devices g)) = Inr observed"
  shows "\<exists>g' result. budget_observe sample g = Inr (g', result) \<and> ag_current g' = Some result \<and> result \<in> {current, observed}
    \<and> (pressure_on current observed \<longrightarrow> result = observed)
    \<and> (list_ex (\<lambda>(old, new). old < new) (zip (limits_of current) (limits_of result)) \<and> \<not> pressure_on current result \<longrightarrow>
         nat (ag_relief_samples g) \<le> Suc (length h)
         \<and> (\<forall>x \<in> set (drop (Suc (length h) - nat (ag_relief_samples g)) (h @ [observed])). same_observation x result))"
proof -
  have inv: "streak_inv (g, h)" using budgets.reach_invariant [OF assms(1,2)] .
  obtain reason applied candidate streak where w: "weigh g observed = (reason, applied, candidate, streak)" by (metis prod_cases4)
  obtain g' result where o: "budget_observe sample g = Inr (g', result)" and g': "ag_current g' = Some result"
    and r: "result = (if applied then observed else current)"
    using budget_observe_ok [OF assms(4) w] assms(3) by auto
  have same: "\<not> list_ex (\<lambda>(old, new). old < new) (zip xs xs)" for xs :: "int list"
    by (induction xs) auto
  have "nat (ag_relief_samples g) \<le> Suc (length h) \<and> (\<forall>x \<in> set (drop (Suc (length h) - nat (ag_relief_samples g)) (h @ [observed])). same_observation x result)"
    if rise: "list_ex (\<lambda>(old, new). old < new) (zip (limits_of current) (limits_of result))" "\<not> pressure_on current result"
  proof -
    have applied: applied using rise(1) r same by (auto split: if_splits)
    then have ro: "result = observed" using r by simp
    have diff: "limits_of observed \<noteq> limits_of current" using rise(1) same ro by metis
    show ?thesis
    proof (cases "ag_candidate g")
      case None
      then have "ag_relief_samples g = 1" using w applied rise(2) diff assms(3) ro inv
        by (auto simp: weigh_def streak_inv_def Let_def split: if_splits)
      then show ?thesis using ro by simp
    next
      case (Some c)
      then have i: "1 \<le> ag_relief_streak g" "ag_relief_streak g < ag_relief_samples g" "nat (ag_relief_streak g) \<le> length h"
        "\<forall>x \<in> set (drop (length h - nat (ag_relief_streak g)) h). same_observation x c"
        using inv by (auto simp: streak_inv_def Let_def)
      have c: "same_observation c observed" "ag_relief_samples g \<le> ag_relief_streak g + 1"
        using w applied rise(2) diff assms(3) ro i(1,2) Some by (auto simp: weigh_def Let_def split: if_splits)
      then have n: "nat (ag_relief_samples g) = Suc (nat (ag_relief_streak g))" using i(1,2) by simp
      show ?thesis using i(3,4) c(1) ro unfolding n by (auto intro: same_observation_trans)
    qed
  qed
  moreover have "result = observed" if "pressure_on current observed" using w r that assms(3) by (auto simp: weigh_def)
  ultimately show ?thesis using o g' r by auto
qed

text \<open>Two observations with different times are not equal, so with a clock that moves between samples the streak never passes one: when
  two or more equal samples are asked for, a limit lowered once never rises again without pressure elsewhere.\<close>

lemma moving_clock_blocks_relief:
  assumes "streak_inv (g, h)" and "ag_current g = Some current" and "2 \<le> ag_relief_samples g"
    and "h \<noteq> []" and "bo_observed_at_ns (last h) \<noteq> bo_observed_at_ns observed" and "\<not> pressure_on current observed"
    and "limits_of observed \<noteq> limits_of current"
  shows "weigh g observed = (''RELIEF_HYSTERESIS'', False, Some observed, 1)"
proof -
  have "\<not> same_observation c observed" if "ag_candidate g = Some c" for c
  proof
    assume c: "same_observation c observed"
    have "last h \<in> set (drop (length h - nat (ag_relief_streak g)) h)"
    proof -
      have "length h - nat (ag_relief_streak g) < length h" using that assms(1,4) by (simp add: streak_inv_def)
      then show ?thesis using last_in_set [of "drop (length h - nat (ag_relief_streak g)) h"] by simp
    qed
    then have "same_observation (last h) c" using that assms(1) unfolding streak_inv_def by simp
    then show False using c assms(5) by (simp add: same_observation_def)
  qed
  then show ?thesis using assms(2,3,6,7) by (auto simp: weigh_def Let_def split: option.splits)
qed

section \<open>Sound device ledgers\<close>

interpretation device_build: normalizer DeviceCapacity_post_init
proof
  fix x y assume b: "DeviceCapacity_post_init x = Inr y"
  have "sorted_set (filter P (sorted_set (filter P xs))) = sorted_set (filter P xs)" for P and xs :: "string list"
    by (rule sorted_set_eqI) auto
  then show "DeviceCapacity_post_init y = Inr y" using b by (auto simp: DeviceCapacity_post_init_def bounded_int_def split: if_splits)
qed

definition ledger_sound :: "DeviceLeaseLedger \<Rightarrow> bool" where
  "ledger_sound s \<longleftrightarrow> distinct (dict_keys (ll_devices s)) \<and> distinct (dict_keys (ll_leases s))
     \<and> (\<forall>k d. dict_get (ll_devices s) k = Some d \<longrightarrow> dc_device_id d = k \<and> DeviceCapacity_post_init d = Inr d \<and> load_of s k \<le> dc_worker_limit d)
     \<and> (\<forall>t l. dict_get (ll_leases s) t = Some l \<longrightarrow> dl_task_id l = t \<and> DeviceLease_post_init l = Inr l
          \<and> (\<exists>d. dict_get (ll_devices s) (dl_device_id l) = Some d \<and> dc_trusted d \<and> dl_capability l \<in> set (dc_capabilities d)))"

lemma sound_device:
  "ledger_sound s \<Longrightarrow> dict_get (ll_devices s) k = Some d \<Longrightarrow> dc_device_id d = k \<and> DeviceCapacity_post_init d = Inr d \<and> load_of s k \<le> dc_worker_limit d"
  unfolding ledger_sound_def by blast

lemma sound_lease:
  "ledger_sound s \<Longrightarrow> dict_get (ll_leases s) t = Some l \<Longrightarrow> dl_task_id l = t \<and> DeviceLease_post_init l = Inr l
     \<and> (\<exists>d. dict_get (ll_devices s) (dl_device_id l) = Some d \<and> dc_trusted d \<and> dl_capability l \<in> set (dc_capabilities d))"
  unfolding ledger_sound_def by blast

lemma sound_distinct: "ledger_sound s \<Longrightarrow> distinct (dict_keys (ll_devices s))" "ledger_sound s \<Longrightarrow> distinct (dict_keys (ll_leases s))"
  unfolding ledger_sound_def by blast+

lemma load_sum: "load_of s k = dict_sum (\<lambda>l. if dl_device_id l = k then 1 else 0) (ll_leases s)"
proof -
  have "int (length (filter (\<lambda>l. dl_device_id l = k) (dict_values d))) = dict_sum (\<lambda>l. if dl_device_id l = k then 1 else 0) d" for d :: "(string, DeviceLease) dict"
    by (induction d) auto
  then show ?thesis by (simp add: load_of_def)
qed

lemma load_grant:
  assumes "distinct (dict_keys (ll_leases s))"
  shows "load_of (grant t l s) k = load_of s k + (if dl_device_id l = k then 1 else 0)
    - (case dict_get (ll_leases s) t of Some old \<Rightarrow> if dl_device_id old = k then 1 else 0 | None \<Rightarrow> 0)"
proof (cases "dict_get (ll_leases s) t")
  case None
  then have "t \<notin> set (dict_keys (ll_leases s))" by (simp add: map_of_eq_None_iff)
  then show ?thesis using None by (simp add: load_sum grant_def acct_simps)
next
  case (Some old)
  then show ?thesis using assms by (simp add: load_sum grant_def acct_simps)
qed

lemma candidate_facts:
  assumes "ledger_sound s" and "d \<in> set (candidates s c)"
  shows "dict_get (ll_devices s) (dc_device_id d) = Some d" and "dc_connected d" and "dc_trusted d"
    and "c \<in> set (dc_capabilities d)" and "load_of s (dc_device_id d) < dc_worker_limit d"
proof -
  have d: "d \<in> set (dict_values (ll_devices s))" using assms(2) by (simp add: candidates_def)
  then obtain k where k: "dict_get (ll_devices s) k = Some d" using assms(1) dict_values_get unfolding ledger_sound_def by metis
  then show "dict_get (ll_devices s) (dc_device_id d) = Some d" using assms(1) by (simp add: ledger_sound_def)
qed (use assms(2) in \<open>simp_all add: candidates_def\<close>)

lemma least_served_in: "cs \<noteq> [] \<Longrightarrow> least_served s cs \<in> set cs"
  unfolding least_served_def by (metis min_by_in list.collapse)

lemma grant_sound:
  assumes "ledger_sound s" and d: "d \<in> set (candidates s (dl_capability l))" and l: "dl_device_id l = dc_device_id d" "dl_task_id l = t" "DeviceLease_post_init l = Inr l"
  shows "ledger_sound (grant t l s)"
proof -
  note c = candidate_facts [OF assms(1) d]
  have dist: "distinct (dict_keys (ll_leases s))" using assms(1) by (simp add: ledger_sound_def)
  have load: "load_of (grant t l s) k \<le> dc_worker_limit e" if "dict_get (ll_devices s) k = Some e" for k e
  proof -
    have "load_of s k \<le> dc_worker_limit e" using assms(1) that by (simp add: ledger_sound_def)
    then show ?thesis using load_grant [OF dist, of t l k] c(1,5) l(1) that by (auto split: option.splits)
  qed
  have dev: "ll_devices (grant t l s) = ll_devices s" and get: "dict_get (ll_leases (grant t l s)) = (dict_get (ll_leases s))(t \<mapsto> l)"
    by (simp_all add: grant_def)
  have dist': "distinct (dict_keys (ll_leases (grant t l s)))" using dist by (simp add: grant_def)
  have lease: "dl_task_id x = t' \<and> DeviceLease_post_init x = Inr x
      \<and> (\<exists>e. dict_get (ll_devices s) (dl_device_id x) = Some e \<and> dc_trusted e \<and> dl_capability x \<in> set (dc_capabilities e))"
    if "((dict_get (ll_leases s))(t \<mapsto> l)) t' = Some x" for t' x
  proof (cases "t' = t")
    case True
    then show ?thesis using that c(1,3,4) l by auto
  next
    case False
    then show ?thesis using that sound_lease [OF assms(1), of t' x] by simp
  qed
  have "dc_device_id e = k \<and> DeviceCapacity_post_init e = Inr e \<and> load_of (grant t l s) k \<le> dc_worker_limit e"
    if "dict_get (ll_devices s) k = Some e" for k e using load [OF that] sound_device [OF assms(1) that] by blast
  with lease show ?thesis unfolding ledger_sound_def dev get using dist' sound_distinct(1) [OF assms(1)] by blast
qed

lemma assign_conv:
  "device_assign t c s = Inr (s', l) \<longleftrightarrow> dict_get (ll_leases s) t = None \<and> candidates s c \<noteq> []
     \<and> l = \<lparr>dl_task_id = t, dl_device_id = dc_device_id (least_served s (candidates s c)), dl_fence = 1, dl_capability = c\<rparr>
     \<and> DeviceLease_post_init l = Inr l \<and> s' = grant t l s"
  by (auto simp: device_assign_def Let_def in_dict_def ebind_Inr_conv DeviceLease_post_init_def split: if_splits)

definition moved :: "string \<Rightarrow> DeviceLeaseLedger \<Rightarrow> DeviceLeaseLedger \<Rightarrow> rebalance_action \<Rightarrow> bool" where
  \<comment> \<open>what an action says of the lease before and after\<close>
  "moved dev s s' a \<longleftrightarrow> (\<exists>l. dict_get (ll_leases s) (rb_task_id a) = Some l \<and> dl_device_id l = dev \<and> rb_from_device a = dev \<and> rb_old_fence a = dl_fence l
     \<and> (case rb_to_device a of
          None \<Rightarrow> rb_new_fence a = None \<and> dict_get (ll_leases s') (rb_task_id a) = Some l
        | Some d' \<Rightarrow> d' \<noteq> dev \<and> rb_new_fence a = Some (dl_fence l + 1)
            \<and> dict_get (ll_leases s') (rb_task_id a) = Some (l\<lparr>dl_device_id := d', dl_fence := dl_fence l + 1\<rparr>)))"

lemma moved_cong:
  "dict_get (ll_leases s1) (rb_task_id a) = dict_get (ll_leases s) (rb_task_id a) \<Longrightarrow> moved dev s1 s' a \<Longrightarrow> moved dev s s' a"
  by (simp add: moved_def)

lemma rebalance_ok:
  assumes "ledger_sound s" and "dict_get (ll_devices s) dev = Some d0" and "\<not> dc_connected d0"
    and "\<forall>(t, l) \<in> set rest. dict_get (ll_leases s) t = Some l" and "distinct (map fst rest)"
  shows "\<exists>s' acts. rebalance dev rest s = (s', Inr acts) \<and> ledger_sound s'
    \<and> map rb_task_id acts = map fst (filter (\<lambda>(t, l). dl_device_id l = dev) rest)
    \<and> (\<forall>t. t \<notin> set (map rb_task_id acts) \<longrightarrow> dict_get (ll_leases s') t = dict_get (ll_leases s) t)
    \<and> (\<forall>a \<in> set acts. moved dev s s' a)"
  using assms
proof (induction rest arbitrary: s)
  case Nil
  then show ?case by simp
next
  case (Cons p rest)
  obtain t l where p: "p = (t, l)" by (cases p)
  have here: "\<forall>(t, l) \<in> set rest. dict_get (ll_leases s) t = Some l" "distinct (map fst rest)" using Cons.prems(4,5) by simp_all
  have l: "dict_get (ll_leases s) t = Some l" and t: "t \<notin> fst ` set rest" using Cons.prems p by auto
  have lt: "dl_task_id l = t" "DeviceLease_post_init l = Inr l" using Cons.prems(1) l by (auto simp: ledger_sound_def)
  let ?cs = "candidates s (dl_capability l)"
  show ?case
  proof (cases "dl_device_id l = dev")
    case False
    then show ?thesis using Cons p by simp
  next
    case on: True
    show ?thesis
    proof (cases "?cs = []")
      case True
      obtain s' acts where ih: "rebalance dev rest s = (s', Inr acts)" "ledger_sound s'"
        "map rb_task_id acts = map fst (filter (\<lambda>(t, l). dl_device_id l = dev) rest)"
        "\<forall>t. t \<notin> set (map rb_task_id acts) \<longrightarrow> dict_get (ll_leases s') t = dict_get (ll_leases s) t" "\<forall>a \<in> set acts. moved dev s s' a"
        using Cons.IH [OF Cons.prems(1-3) here] by blast
      have "t \<notin> set (map rb_task_id acts)" using ih(3) t by force
      then have stays: "dict_get (ll_leases s') t = Some l" using ih(4) l by simp
      let ?a = "\<lparr>rb_task_id = t, rb_from_device = dev, rb_to_device = None, rb_old_fence = dl_fence l, rb_new_fence = None,
        rb_reason_code = ''DEVICE_LOST_RECOVERY_REQUIRED''\<rparr>"
      have "rebalance dev (p # rest) s = (s', Inr (?a # acts))" using ih(1) True on p by simp
      moreover have "map rb_task_id (?a # acts) = map fst (filter (\<lambda>(t, l). dl_device_id l = dev) (p # rest))" using ih(3) on p by simp
      moreover have "\<forall>t'. t' \<notin> set (map rb_task_id (?a # acts)) \<longrightarrow> dict_get (ll_leases s') t' = dict_get (ll_leases s) t'" using ih(4) by simp
      moreover have "moved dev s s' ?a" using l on stays by (simp add: moved_def)
      then have "\<forall>a \<in> set (?a # acts). moved dev s s' a" using ih(5) by simp
      ultimately show ?thesis using ih(2) by blast
    next
      case False
      let ?d = "least_served s ?cs" and ?r = "l\<lparr>dl_device_id := dc_device_id (least_served s ?cs), dl_fence := dl_fence l + 1\<rparr>"
      have d: "?d \<in> set ?cs" using least_served_in [OF False] .
      note c = candidate_facts [OF Cons.prems(1) d]
      have "dc_device_id ?d \<noteq> []" using c(1) Cons.prems(1)
        by (force simp: ledger_sound_def DeviceCapacity_post_init_def split: if_splits)
      then have r: "DeviceLease_post_init ?r = Inr ?r" using lt(2)
        by (auto simp: DeviceLease_post_init_def bounded_int_def split: if_splits)
      have sound: "ledger_sound (grant t ?r s)" by (rule grant_sound [OF Cons.prems(1), of ?d]) (use d lt(1) r in simp_all)
      have rest: "\<forall>(t', l') \<in> set rest. dict_get (ll_leases (grant t ?r s)) t' = Some l'"
        using Cons.prems(4) t p by (force simp: grant_def)
      have lost: "dict_get (ll_devices (grant t ?r s)) dev = Some d0" using Cons.prems(2) by (simp add: grant_def)
      obtain s' acts where ih: "rebalance dev rest (grant t ?r s) = (s', Inr acts)" "ledger_sound s'"
        "map rb_task_id acts = map fst (filter (\<lambda>(t, l). dl_device_id l = dev) rest)"
        "\<forall>t'. t' \<notin> set (map rb_task_id acts) \<longrightarrow> dict_get (ll_leases s') t' = dict_get (ll_leases (grant t ?r s)) t'"
        "\<forall>a \<in> set acts. moved dev (grant t ?r s) s' a"
        using Cons.IH [OF sound lost Cons.prems(3) rest here(2)] by blast
      have nt: "t \<notin> set (map rb_task_id acts)" using ih(3) t by force
      then have new: "dict_get (ll_leases s') t = Some ?r" using ih(4) by (simp add: grant_def)
      have mv: "moved dev s s' a" if "a \<in> set acts" for a
        by (rule moved_cong [OF _ ih(5) [rule_format, OF that]]) (use that nt in \<open>auto simp: grant_def\<close>)
      let ?a = "\<lparr>rb_task_id = t, rb_from_device = dev, rb_to_device = Some (dc_device_id ?d), rb_old_fence = dl_fence l,
        rb_new_fence = Some (dl_fence l + 1), rb_reason_code = ''DEVICE_LOST_REBALANCED''\<rparr>"
      have "dc_device_id ?d \<noteq> dev" using c(1,2) Cons.prems(2,3) by auto
      then have "moved dev s s' ?a" using l on new by (simp add: moved_def)
      with mv have "\<forall>a \<in> set (?a # acts). moved dev s s' a" by simp
      moreover have "rebalance dev (p # rest) s = (s', Inr (?a # acts))" using ih(1) False on p r by simp
      moreover have "map rb_task_id (?a # acts) = map fst (filter (\<lambda>(t, l). dl_device_id l = dev) (p # rest))" using ih(3) on p by simp
      moreover have "\<forall>t'. t' \<notin> set (map rb_task_id (?a # acts)) \<longrightarrow> dict_get (ll_leases s') t' = dict_get (ll_leases s) t'" using ih(4) by (simp add: grant_def)
      ultimately show ?thesis using ih(2) by blast
    qed
  qed
qed

lemma sound_disconnected:
  assumes "ledger_sound s" and "dict_get (ll_devices s) dev = Some d"
  shows "DeviceCapacity_post_init (d\<lparr>dc_connected := False\<rparr>) = Inr (d\<lparr>dc_connected := False\<rparr>)"
    and "ledger_sound (s\<lparr>ll_devices := dict_set (ll_devices s) dev (d\<lparr>dc_connected := False\<rparr>)\<rparr>)"
proof -
  have "DeviceCapacity_post_init d = Inr d" using assms by (simp add: ledger_sound_def)
  then show p: "DeviceCapacity_post_init (d\<lparr>dc_connected := False\<rparr>) = Inr (d\<lparr>dc_connected := False\<rparr>)"
    by (cases d) (auto simp: DeviceCapacity_post_init_def bounded_int_def split: if_splits)
  let ?D = "(dict_get (ll_devices s))(dev \<mapsto> d\<lparr>dc_connected := False\<rparr>)"
  have load: "load_of (s\<lparr>ll_devices := x\<rparr>) k = load_of s k" for x k by (simp add: load_of_def)
  have device: "dc_device_id e = k \<and> DeviceCapacity_post_init e = Inr e \<and> load_of s k \<le> dc_worker_limit e" if "?D k = Some e" for k e
    using that p sound_device [OF assms] sound_device [OF assms(1), of k e] by (cases "k = dev") auto
  have lease: "dl_task_id l = t \<and> DeviceLease_post_init l = Inr l
      \<and> (\<exists>e. ?D (dl_device_id l) = Some e \<and> dc_trusted e \<and> dl_capability l \<in> set (dc_capabilities e))"
    if "dict_get (ll_leases s) t = Some l" for t l
    using sound_lease [OF assms(1) that] assms(2) by (cases "dl_device_id l = dev") auto
  show "ledger_sound (s\<lparr>ll_devices := dict_set (ll_devices s) dev (d\<lparr>dc_connected := False\<rparr>)\<rparr>)"
    using device lease sound_distinct [OF assms(1)] unfolding ledger_sound_def load by simp
qed

lemma disconnect_ok:
  assumes "ledger_sound s" and "dict_get (ll_devices s) dev = Some d"
  shows "\<exists>s' acts. device_disconnect dev s = (s', Inr acts) \<and> ledger_sound s'
    \<and> map rb_task_id acts = map fst (filter (\<lambda>(t, l). dl_device_id l = dev) (sort_key fst (ll_leases s)))
    \<and> (\<forall>t. t \<notin> set (map rb_task_id acts) \<longrightarrow> dict_get (ll_leases s') t = dict_get (ll_leases s) t)
    \<and> (\<forall>a \<in> set acts. moved dev s s' a)"
proof -
  let ?s = "s\<lparr>ll_devices := dict_set (ll_devices s) dev (d\<lparr>dc_connected := False\<rparr>)\<rparr>"
  have dist: "distinct (dict_keys (ll_leases s))" using assms(1) by (simp add: ledger_sound_def)
  have "distinct (map fst (sort_key fst (ll_leases s)))" using dist by (metis distinct_map distinct_sort inj_on_cong set_sort)
  moreover have "\<forall>(t, l) \<in> set (sort_key fst (ll_leases s)). dict_get (ll_leases ?s) t = Some l" using dist by auto
  ultimately show ?thesis
    using rebalance_ok [OF sound_disconnected(2) [OF assms], of dev "d\<lparr>dc_connected := False\<rparr>" "sort_key fst (ll_leases s)"]
      sound_disconnected(1) [OF assms] assms(2) by (simp add: device_disconnect_def moved_def)
qed

section \<open>Runs of the ledger\<close>

inductive device_step :: "DeviceLeaseLedger \<Rightarrow> DeviceLeaseLedger \<Rightarrow> bool" where
  step_assign: "device_assign t c s = Inr (s', l) \<Longrightarrow> device_step s s'"
| step_disconnect: "device_disconnect dev s = (s', r) \<Longrightarrow> device_step s s'"

definition device_initial :: "DeviceLeaseLedger \<Rightarrow> bool" where
  "device_initial s \<longleftrightarrow> (\<exists>devices. (\<forall>d \<in> set devices. DeviceCapacity_post_init d = Inr d) \<and> DeviceLeaseLedger_init devices = Inr s)"

lemma disconnect_unknown: "dict_get (ll_devices s) dev = None \<Longrightarrow> device_disconnect dev s = (s, Inl (PrismBudgetError ''unknown device''))"
  by (simp add: device_disconnect_def)

lemma device_step_sound: "device_step s s' \<Longrightarrow> ledger_sound s \<Longrightarrow> ledger_sound s'"
proof (induction rule: device_step.induct)
  case (step_assign t c s s' l)
  then show ?case unfolding assign_conv using least_served_in [of "candidates s c" s] by (auto intro!: grant_sound [of s "least_served s (candidates s c)"])
next
  case (step_disconnect dev s s' r)
  then show ?case using disconnect_unknown [of s dev] disconnect_ok [of s dev] by (cases "dict_get (ll_devices s) dev") fastforce+
qed

lemma device_dict_get: "dict_get (device_dict ds) k = Some d \<Longrightarrow> d \<in> set ds \<and> dc_device_id d = k"
proof -
  have "dict_get (fold (\<lambda>d m. dict_set m (dc_device_id d) d) ds m) k = Some d \<Longrightarrow> dict_get m k = Some d \<or> d \<in> set ds \<and> dc_device_id d = k" for m
  proof (induction ds arbitrary: m)
    case (Cons a ds)
    then show ?case using Cons.IH [of "dict_set m (dc_device_id a) a"] by (auto split: if_splits)
  qed simp
  then show "dict_get (device_dict ds) k = Some d \<Longrightarrow> d \<in> set ds \<and> dc_device_id d = k" by (force simp: device_dict_def)
qed

lemma device_dict_distinct: "distinct (dict_keys (device_dict ds))"
proof -
  have "distinct (dict_keys m) \<Longrightarrow> distinct (dict_keys (fold (\<lambda>d m. dict_set m (dc_device_id d) d) ds m))" for m
    by (induction ds arbitrary: m) auto
  then show ?thesis by (simp add: device_dict_def)
qed

interpretation device_ledger: state_machine device_initial device_step ledger_sound
proof
  show "ledger_sound s" if i: "device_initial s" for s
  proof -
    obtain devices where d: "\<forall>d \<in> set devices. DeviceCapacity_post_init d = Inr d" and "Inr s = DeviceLeaseLedger_init devices"
      using i unfolding device_initial_def by metis
    then have s: "ll_devices s = device_dict devices" "ll_leases s = []" by (auto simp: DeviceLeaseLedger_init_def split: if_splits)
    have "dc_device_id e = k \<and> DeviceCapacity_post_init e = Inr e \<and> load_of s k \<le> dc_worker_limit e" if "dict_get (device_dict devices) k = Some e" for k e
    proof -
      have "DeviceCapacity_post_init e = Inr e" "dc_device_id e = k" using device_dict_get [OF that] d by auto
      moreover from this have "1 \<le> dc_worker_limit e" by (auto simp: DeviceCapacity_post_init_def bounded_int_def split: if_splits)
      ultimately show ?thesis by (simp add: load_of_def s)
    qed
    then show ?thesis by (simp add: ledger_sound_def s device_dict_distinct)
  qed
  show "ledger_sound s'" if "device_step s s'" "ledger_sound s" for s s' using that by (rule device_step_sound)
qed

lemma device_step_fence:
  assumes "device_step s s'" and "ledger_sound s" and "dict_get (ll_leases s) t = Some l"
  shows "\<exists>l'. dict_get (ll_leases s') t = Some l' \<and> (l' = l \<or> dl_fence l < dl_fence l')"
  using assms
proof (induction rule: device_step.induct)
  case (step_assign t' c s s' l')
  then show ?case unfolding assign_conv by (auto simp: grant_def)
next
  case (step_disconnect dev s s' r)
  show ?case
  proof (cases "dict_get (ll_devices s) dev")
    case None
    then show ?thesis using step_disconnect disconnect_unknown by auto
  next
    case (Some d)
    obtain acts where a: "\<forall>t. t \<notin> set (map rb_task_id acts) \<longrightarrow> dict_get (ll_leases s') t = dict_get (ll_leases s) t" "\<forall>a \<in> set acts. moved dev s s' a"
      using disconnect_ok [OF step_disconnect(2) Some] step_disconnect(1) by auto
    show ?thesis
    proof (cases "t \<in> set (map rb_task_id acts)")
      case True
      then obtain x where "x \<in> set acts" "rb_task_id x = t" by auto
      then have "moved dev s s' x" "rb_task_id x = t" using a(2) by auto
      then show ?thesis using step_disconnect(3) by (auto simp: moved_def split: option.splits)
    qed (use a(1) step_disconnect(3) in simp)
  qed
qed

lemma device_run_fence:
  assumes "device_step\<^sup>*\<^sup>* s s'" and "ledger_sound s" and "dict_get (ll_leases s) t = Some l"
  shows "\<exists>l'. dict_get (ll_leases s') t = Some l' \<and> (l' = l \<or> dl_fence l < dl_fence l')"
  using assms
proof (induction arbitrary: l rule: converse_rtranclp_induct)
  case (step s s1)
  obtain l1 where l1: "dict_get (ll_leases s1) t = Some l1" "l1 = l \<or> dl_fence l < dl_fence l1"
    using device_step_fence [OF step(1,4,5)] by blast
  then show ?case using step(3) [OF device_step_sound [OF step(1,4)] l1(1)] by force
qed simp

text \<open>C36: the device ledger never overcommits. In every reachable ledger each lease is filed under its own task, has a positive fence, and
  is on a known trusted device with its capability; and no device carries more leases than its worker limit.\<close>
theorem device_leases_sound:
  assumes "device_initial s0" and "device_step\<^sup>*\<^sup>* s0 s"
  shows "(\<forall>t l. dict_get (ll_leases s) t = Some l \<longrightarrow> dl_task_id l = t \<and> 1 \<le> dl_fence l
       \<and> (\<exists>d. dict_get (ll_devices s) (dl_device_id l) = Some d \<and> dc_trusted d \<and> dl_capability l \<in> set (dc_capabilities d)))
    \<and> (\<forall>k d. dict_get (ll_devices s) k = Some d \<longrightarrow>
         int (length (filter (\<lambda>l. dl_device_id l = k) (dict_values (ll_leases s)))) \<le> dc_worker_limit d)"
proof -
  have sound: "ledger_sound s" using device_ledger.reach_invariant [OF assms] .
  have "1 \<le> dl_fence l" if "DeviceLease_post_init l = Inr l" for l
    using that by (auto simp: DeviceLease_post_init_def bounded_int_def split: if_splits)
  then show ?thesis using sound unfolding ledger_sound_def load_of_def by blast
qed

text \<open>C37: losing a device fences its work. From every reachable ledger, disconnecting a known device returns one action per lease on it, in task order;
  the leases on other devices stay current; a lease for which no device has room stays current and is reported for recovery; and a lease that
  was moved is refused from then on, whatever happens later, while the lease with the next fence on another device is current.\<close>
theorem device_failover_fenced:
  assumes "device_initial s0" and "device_step\<^sup>*\<^sup>* s0 s" and "in_dict dev (ll_devices s)"
  shows "\<exists>s' acts. device_disconnect dev s = (s', Inr acts)
    \<and> map rb_task_id acts = sort (map dl_task_id (filter (\<lambda>l. dl_device_id l = dev) (dict_values (ll_leases s))))
    \<and> (\<forall>t l. dict_get (ll_leases s) t = Some l \<longrightarrow>
        (if dl_device_id l \<noteq> dev then assert_current l s' = Inr ()
         else \<exists>a \<in> set acts. rb_task_id a = t \<and> (case rb_to_device a of
            None \<Rightarrow> assert_current l s' = Inr ()
          | Some d' \<Rightarrow> d' \<noteq> dev \<and> assert_current (l\<lparr>dl_device_id := d', dl_fence := dl_fence l + 1\<rparr>) s' = Inr ()
              \<and> (\<forall>s''. device_step\<^sup>*\<^sup>* s' s'' \<longrightarrow> assert_current l s'' = Inl (PrismBudgetError ''STALE_DEVICE_FENCE'')))))"
proof -
  have sound: "ledger_sound s" using device_ledger.reach_invariant [OF assms(1,2)] .
  obtain d where "dict_get (ll_devices s) dev = Some d" using assms(3) by (auto simp: in_dict_def)
  from disconnect_ok [OF sound this] obtain s' acts where r: "device_disconnect dev s = (s', Inr acts)" "ledger_sound s'"
    "map rb_task_id acts = map fst (filter (\<lambda>(t, l). dl_device_id l = dev) (sort_key fst (ll_leases s)))"
    "\<forall>t. t \<notin> set (map rb_task_id acts) \<longrightarrow> dict_get (ll_leases s') t = dict_get (ll_leases s) t" "\<forall>a \<in> set acts. moved dev s s' a" by blast
  have dist: "distinct (dict_keys (ll_leases s))" and key: "\<And>t l. dict_get (ll_leases s) t = Some l \<Longrightarrow> dl_task_id l = t"
    using sound by (auto simp: ledger_sound_def)
  have tasks: "map rb_task_id acts = sort (map dl_task_id (filter (\<lambda>l. dl_device_id l = dev) (dict_values (ll_leases s))))"
  proof -
    have "map dl_task_id (filter P (dict_values (ll_leases s))) = map fst (filter (\<lambda>(t, l). P l) (ll_leases s))" for P
    proof -
      have "map dl_task_id (filter P (map snd xs)) = map fst (filter (\<lambda>(t, l). P l) xs)" if "\<forall>(t, l) \<in> set xs. dl_task_id l = t" for xs
        using that by (induction xs) auto
      then show ?thesis using key dist by auto
    qed
    moreover have "sort (map fst xs) = map fst (sort_key fst xs)" for xs :: "(string \<times> DeviceLease) list"
      by (rule properties_for_sort) auto
    ultimately show ?thesis using r(3) by (simp add: filter_sort)
  qed
  have stale: "assert_current l s'' = Inl (PrismBudgetError ''STALE_DEVICE_FENCE'')"
    if "device_step\<^sup>*\<^sup>* s' s''" "dict_get (ll_leases s') t = Some l'" "dl_fence l < dl_fence l'" "dl_task_id l = t" for s'' t l l'
    using device_run_fence [OF that(1) r(2) that(2)] that(3,4) by (auto simp: assert_current_def)
  have lease: "if dl_device_id l \<noteq> dev then assert_current l s' = Inr ()
         else \<exists>a \<in> set acts. rb_task_id a = t \<and> (case rb_to_device a of
            None \<Rightarrow> assert_current l s' = Inr ()
          | Some d' \<Rightarrow> d' \<noteq> dev \<and> assert_current (l\<lparr>dl_device_id := d', dl_fence := dl_fence l + 1\<rparr>) s' = Inr ()
              \<and> (\<forall>s''. device_step\<^sup>*\<^sup>* s' s'' \<longrightarrow> assert_current l s'' = Inl (PrismBudgetError ''STALE_DEVICE_FENCE'')))"
    if l: "dict_get (ll_leases s) t = Some l" for t l
  proof (cases "dl_device_id l = dev")
    case False
    have "t \<notin> set (map rb_task_id acts)"
    proof
      assume "t \<in> set (map rb_task_id acts)"
      then obtain a where "a \<in> set acts" "t = rb_task_id a" by auto
      then show False using r(5) l False by (auto simp: moved_def)
    qed
    then show ?thesis using False r(4) l key [OF l] by (simp add: assert_current_def)
  next
    case True
    have "(t, l) \<in> set (ll_leases s)" using l by (rule map_of_SomeD)
    then have "t \<in> set (map rb_task_id acts)" unfolding r(3) using True by force
    then obtain a where a: "a \<in> set acts" "rb_task_id a = t" by auto
    then have "moved dev s s' a" using r(5) by blast
    then have "case rb_to_device a of None \<Rightarrow> assert_current l s' = Inr ()
      | Some d' \<Rightarrow> d' \<noteq> dev \<and> assert_current (l\<lparr>dl_device_id := d', dl_fence := dl_fence l + 1\<rparr>) s' = Inr ()
          \<and> (\<forall>s''. device_step\<^sup>*\<^sup>* s' s'' \<longrightarrow> assert_current l s'' = Inl (PrismBudgetError ''STALE_DEVICE_FENCE''))"
      using a(2) l key [OF l] stale [of _ t "l\<lparr>dl_device_id := the (rb_to_device a), dl_fence := dl_fence l + 1\<rparr>" l]
      by (cases "rb_to_device a") (auto simp: moved_def assert_current_def)
    then show ?thesis using a True by auto
  qed
  show ?thesis using r(1) tasks lease by blast
qed

section \<open>Examples\<close>

definition demo_policy :: PrismPolicy where
  "demo_policy = \<lparr>po_max_tasks_per_slot = 10, po_max_active_slots = None, po_global_worker_limit = 8, po_max_depth = 2,
     po_adaptive_concurrency = True, po_recovery_reserve = 0, po_validation_reserve = 0\<rparr>"

definition demo_sample :: "int option \<Rightarrow> int \<Rightarrow> (string, string) dict \<Rightarrow> BudgetSample" where
  "demo_sample workers now reasons = \<lparr>sm_workers = workers, sm_cpu_millis = None, sm_rss_bytes = None, sm_io_units = None, sm_provider_requests = None,
     sm_tokens = None, sm_disk_bytes = None, sm_model_slots = None, sm_network_queue = None, sm_context_tokens = None, sm_evidence_bytes = None,
     sm_provider_retry_after_ns = None, sm_observed_at_ns = now, sm_null_reasons = reasons\<rparr>"

definition demo_governor :: "AdaptiveBudgetGovernor" where
  "demo_governor = projr (AdaptiveBudgetGovernor_init demo_policy 2 [])"

definition demo_observed :: "int \<Rightarrow> int \<Rightarrow> BudgetObservation" where
  "demo_observed workers now = projr (observation (demo_sample (Some workers) now []) demo_policy [])"

definition demo_governor1 :: "AdaptiveBudgetGovernor" where
  "demo_governor1 = fst (projr (budget_observe (demo_sample (Some 4) 7 []) demo_governor))"

lemma demo_governor_values:
  "AdaptiveBudgetGovernor_init demo_policy 2 [] = Inr demo_governor" "ag_policy demo_governor = demo_policy" "ag_devices demo_governor = []"
  by (simp_all add: demo_governor_def AdaptiveBudgetGovernor_init_def device_dict_def)

lemma demo_observation: "observation (demo_sample (Some 4) 7 []) demo_policy [] = Inr (demo_observed 4 7)"
  "observation (demo_sample (Some 8) 7 []) demo_policy [] = Inr (demo_observed 8 7)"
  by code_simp+

lemma demo_governor1_values:
  "budget_observe (demo_sample (Some 4) 7 []) demo_governor = Inr (demo_governor1, demo_observed 4 7)"
  "ag_current demo_governor1 = Some (demo_observed 4 7)" "ag_policy demo_governor1 = demo_policy" "ag_devices demo_governor1 = []"
  using demo_observation(1) by (simp_all add: demo_governor1_def demo_governor_values(2,3) budget_observe_def weigh_def demo_governor_def
      AdaptiveBudgetGovernor_init_def device_dict_def)

theorem relief_needs_stability_witness:
  "\<exists>g' result. budget_observe (demo_sample (Some 8) 7 []) demo_governor1 = Inr (g', result) \<and> ag_current g' = Some result
     \<and> result \<in> {demo_observed 4 7, demo_observed 8 7}"
proof -
  have s0: "budget_initial (demo_governor, [])" unfolding budget_initial_def using demo_governor_values(1) by auto
  have "budget_step (demo_governor, []) (demo_governor1, [] @ [demo_observed 4 7])"
    by (rule step_observe [OF _ demo_governor1_values(1)]) (simp add: demo_governor_values demo_observation)
  then have "budget_step\<^sup>*\<^sup>* (demo_governor, []) (demo_governor1, [demo_observed 4 7])" by simp
  from relief_needs_stability [OF s0 this demo_governor1_values(2), of "demo_sample (Some 8) 7 []" "demo_observed 8 7"]
  show ?thesis using demo_observation(2) by (auto simp: demo_governor1_values(3,4))
qed

definition demo_device :: "string \<Rightarrow> DeviceCapacity" where
  "demo_device k = \<lparr>dc_device_id = k, dc_worker_limit = 1, dc_trusted = True, dc_connected = True, dc_capabilities = [''build'']\<rparr>"

definition demo_devices :: DeviceLeaseLedger where
  "demo_devices = projr (DeviceLeaseLedger_init [demo_device ''a'', demo_device ''b''])"

definition demo_leased :: DeviceLeaseLedger where
  "demo_leased = fst (projr (device_assign ''t'' ''build'' demo_devices))"

lemma demo_devices_initial: "device_initial demo_devices"
proof -
  have "\<forall>d \<in> set [demo_device ''a'', demo_device ''b'']. DeviceCapacity_post_init d = Inr d" by code_simp
  moreover have "DeviceLeaseLedger_init [demo_device ''a'', demo_device ''b''] = Inr demo_devices" by code_simp
  ultimately show ?thesis unfolding device_initial_def by blast
qed

lemma demo_leased_reached: "device_step\<^sup>*\<^sup>* demo_devices demo_leased"
proof -
  have "device_assign ''t'' ''build'' demo_devices = Inr (demo_leased, \<lparr>dl_task_id = ''t'', dl_device_id = ''a'', dl_fence = 1, dl_capability = ''build''\<rparr>)"
    by code_simp
  then show ?thesis using step_assign by blast
qed

theorem device_leases_sound_witness:
  "dict_get (ll_leases demo_leased) ''t'' \<noteq> None \<and> int (length (filter (\<lambda>l. dl_device_id l = ''a'') (dict_values (ll_leases demo_leased)))) \<le> 1"
proof -
  have "dict_get (ll_devices demo_leased) ''a'' = Some (demo_device ''a'')" and t: "dict_get (ll_leases demo_leased) ''t'' \<noteq> None" by code_simp+
  moreover have "dc_worker_limit (demo_device ''a'') = 1" by (simp add: demo_device_def)
  ultimately show ?thesis using device_leases_sound [OF demo_devices_initial demo_leased_reached] by metis
qed

theorem device_failover_fenced_witness:
  "\<exists>s' acts. device_disconnect ''a'' demo_leased = (s', Inr acts) \<and> map rb_task_id acts = [''t'']"
proof -
  have "in_dict ''a'' (ll_devices demo_leased)" by code_simp
  moreover have "sort (map dl_task_id (filter (\<lambda>l. dl_device_id l = ''a'') (dict_values (ll_leases demo_leased)))) = [''t'']" by code_simp
  ultimately show ?thesis using device_failover_fenced [OF demo_devices_initial demo_leased_reached, of "''a''"] by metis
qed

section \<open>Defects\<close>

text \<open>A sample may say why the number of workers is unknown, but then it cannot be observed: the policy's limit takes
  the place of the unknown number, and a reason for a metric that is known is refused.\<close>

lemma unknown_workers_refused:
  "BudgetSample_post_init (demo_sample None 7 [(''workers'', ''probe failed'')]) = Inr (demo_sample None 7 [(''workers'', ''probe failed'')])"
  "observation (demo_sample None 7 [(''workers'', ''probe failed'')]) demo_policy []
     = Inl (FromScheduler (PrismSchedulerError ''null_reasons require unavailable metrics''))"
  by code_simp+

text \<open>Without a verified task the cost per task is missing although the cost was observed, and no reason is given for it.\<close>

lemma throughput_missing_reason:
  assumes "0 \<le> elapsed" and "0 \<le> tokens" and "0 \<le> cost"
  shows "\<exists>r. throughput_receipt 0 elapsed (Some tokens) (Some cost) = Inr r \<and> tp_tokens_per_task_milli r = None \<and> tp_null_reasons r = []"
  using assms by (simp add: throughput_receipt_def bounded_int_def per_task_milli_def)

text \<open>With verified tasks the rates are the integer parts of the exact ones.\<close>

lemma throughput_rates:
  assumes "throughput_receipt n elapsed tokens cost = Inr r" and "0 < n" and "0 < elapsed"
  shows "tp_throughput_milli r = \<lfloor>of_int (n * 1000000000000) / (of_int elapsed :: rat)\<rfloor>"
    and "tp_tokens_per_task_milli r = map_option (\<lambda>k. \<lfloor>of_int (k * 1000) / (of_int n :: rat)\<rfloor>) tokens"
  using assms by (auto simp: throughput_receipt_def ebind_Inr_conv per_task_milli_def floor_divide_of_int_eq simp del: of_int_mult split: option.splits)
end
