(* ===== verification/Work_Gap_Ledger.thy ===== *)
theory Work_Gap_Ledger
  imports Hbp_Ledger
begin

text \<open>
  The work gap ledger (\<open>work_gap_ledger.py\<close>): evidence, gaps with their progress and exception states, the reducer that moves
  a gap through them under three seats, the hash-chained event log, and regressions of a gap with all its dependents. The validator
  of an exported snapshot is in \<open>Work_Gap_Snapshot\<close>.

  A gap state is the source's string. SHA-256, \<open>repr\<close> of a value and \<open>int\<close> of a text are the fields of \<open>gap_env\<close>; the
  canonical text is that of \<open>Hbp_Ledger\<close> (\<open>dumps\<close>), so numbers inside facts are integers. An object keeps its keys sorted, as
  in \<open>Hbp_Ledger\<close>. Keyword arguments of \<open>transition\<close> are the record \<open>transition_args\<close>.
\<close>

section \<open>States, evidence and gaps\<close>

datatype gap_failure = LedgerError string | GapKeyError string | GapTypeError | GapValueError | GapUnicodeError

record gap_env =
  gn_sha256 :: "bytes \<Rightarrow> bytes"
  gn_repr :: "json \<Rightarrow> string"
  gn_int :: "string \<Rightarrow> int option"

definition WORK_GAP_SCHEMA :: string where "WORK_GAP_SCHEMA = ''simplicio.work-gap-ledger/v1''"

definition PROGRESS_STATES :: "string list" where
  "PROGRESS_STATES = [''UNMAPPED'', ''OWNED'', ''PLANNED'', ''IMPLEMENTED'', ''VERIFIED'', ''INTEGRATED'', ''DELIVERED'']"

definition EXCEPTION_STATES :: "string list" where
  "EXCEPTION_STATES = [''BLOCKED'', ''DEFERRED'', ''N_A_APPROVED'', ''REGRESSED'', ''REVOKED'', ''UNVERIFIED'']"

definition GAP_STATES :: "string list" where
  "GAP_STATES = PROGRESS_STATES @ EXCEPTION_STATES"

definition GAP_TERMINAL_STATES :: "string list" where
  "GAP_TERMINAL_STATES = [''DELIVERED'', ''N_A_APPROVED'']"

definition REQUIRED_EVIDENCE :: "(string, string) dict" where
  "REQUIRED_EVIDENCE = [(''IMPLEMENTED'', ''implementation''), (''VERIFIED'', ''verification''),
     (''INTEGRATED'', ''integration''), (''DELIVERED'', ''delivery'')]"

definition event_hash :: "gap_env \<Rightarrow> string \<Rightarrow> json \<Rightarrow> string" where
  "event_hash E previous event = hexdigest (gn_sha256 E
     (utf8_bytes ''simplicio.work-gap-ledger.event/v1'' @ [0] @ utf8_bytes previous @ [0] @ utf8_bytes (dumps event)))"

definition lower_sha256 :: "string \<Rightarrow> bool" where
  "lower_sha256 s \<longleftrightarrow> length s = 64 \<and> (\<forall>c \<in> set s. c \<in> set hex_digits)"

record Evidence =
  gv_kind :: string
  gv_handle :: string
  gv_digest :: string
  gv_actor_id :: string

definition Evidence_post_init :: "Evidence \<Rightarrow> gap_failure + Evidence" where
  "Evidence_post_init v =
    (if gv_kind v = [] \<or> gv_handle v = [] \<or> gv_actor_id v = [] then Inl (LedgerError ''evidence fields must be non-empty'')
     else if \<not> lower_sha256 (gv_digest v) then Inl (LedgerError ''evidence digest must be lowercase sha256'')
     else Inr v)"

definition evidence_json :: "Evidence \<Rightarrow> json" where
  "evidence_json v = JObj [(''actor_id'', JStr (gv_actor_id v)), (''digest'', JStr (gv_digest v)), (''handle'', JStr (gv_handle v)), (''kind'', JStr (gv_kind v))]"

definition sha256_evidence :: "gap_env \<Rightarrow> string \<Rightarrow> string \<Rightarrow> bytes \<Rightarrow> string \<Rightarrow> gap_failure + Evidence" where
  "sha256_evidence E kind handle content actor_id =
    Evidence_post_init \<lparr>gv_kind = kind, gv_handle = handle, gv_digest = hexdigest (gn_sha256 E content), gv_actor_id = actor_id\<rparr>"

record WorkGap =
  wg_requirement_id :: string
  wg_acceptance_criterion_id :: string
  wg_state :: string
  wg_owner_project :: "string option"
  wg_owner_agent :: "string option"
  wg_dependencies :: "string list"
  wg_expected_evidence :: "string list"
  wg_delivery_target :: "string option"
  wg_executor_id :: "string option"
  wg_verifier_id :: "string option"
  wg_completion_auditor_id :: "string option"
  wg_evidence :: "Evidence list"
  wg_revision :: int
  wg_expected_revision :: "string option"
  wg_installed_artifact :: "(string \<times> json) list option"
  wg_source_requery :: "(string \<times> json) list option"

definition gap_key :: "WorkGap \<Rightarrow> string" where
  "gap_key g = wg_requirement_id g @ '':'' @ wg_acceptance_criterion_id g"

definition WorkGap_post_init :: "WorkGap \<Rightarrow> gap_failure + WorkGap" where
  "WorkGap_post_init g =
    (if wg_requirement_id g = [] \<or> wg_acceptance_criterion_id g = [] then Inl (LedgerError ''requirement and acceptance criterion IDs are required'')
     else if wg_state g \<notin> set GAP_STATES then Inl (LedgerError (''unknown work-gap state: '' @ wg_state g))
     else if \<not> distinct (wg_dependencies g) then Inl (LedgerError ''duplicate dependencies are not allowed'')
     else if gap_key g \<in> set (wg_dependencies g) then Inl (LedgerError ''a work gap cannot depend on itself'')
     else Inr g)"

definition json_opt :: "('a \<Rightarrow> json) \<Rightarrow> 'a option \<Rightarrow> json" where
  "json_opt f x = (case x of None \<Rightarrow> JNull | Some y \<Rightarrow> f y)"

definition gap_fields :: "WorkGap \<Rightarrow> (string \<times> json) list" where
  \<comment> \<open>\<open>WorkGap.as_dict\<close>\<close>
  "gap_fields g = [(''acceptance_criterion_id'', JStr (wg_acceptance_criterion_id g)), (''completion_auditor_id'', json_opt JStr (wg_completion_auditor_id g)),
     (''delivery_target'', json_opt JStr (wg_delivery_target g)), (''dependencies'', JArr (map JStr (wg_dependencies g))),
     (''evidence'', JArr (map evidence_json (wg_evidence g))), (''executor_id'', json_opt JStr (wg_executor_id g)),
     (''expected_evidence'', JArr (map JStr (wg_expected_evidence g))), (''expected_revision'', json_opt JStr (wg_expected_revision g)),
     (''installed_artifact'', json_opt JObj (wg_installed_artifact g)), (''owner_agent'', json_opt JStr (wg_owner_agent g)),
     (''owner_project'', json_opt JStr (wg_owner_project g)), (''requirement_id'', JStr (wg_requirement_id g)),
     (''revision'', JNum (of_int (wg_revision g))), (''source_requery'', json_opt JObj (wg_source_requery g)),
     (''state'', JStr (wg_state g)), (''verifier_id'', json_opt JStr (wg_verifier_id g))]"

record LedgerEvent =
  le_sequence :: nat
  le_gap_key :: string
  le_from_state :: string
  le_to_state :: string
  le_actor_id :: string
  le_seat :: string
  le_evidence :: "Evidence list"
  le_facts :: "(string \<times> json) list"
  le_previous_hash :: string
  le_hash :: string

definition event_payload :: "LedgerEvent \<Rightarrow> (string \<times> json) list" where
  \<comment> \<open>\<open>LedgerEvent.payload\<close>\<close>
  "event_payload e = [(''actor_id'', JStr (le_actor_id e)), (''evidence'', JArr (map evidence_json (le_evidence e))), (''facts'', JObj (le_facts e)),
     (''from_state'', JStr (le_from_state e)), (''gap_key'', JStr (le_gap_key e)), (''seat'', JStr (le_seat e)),
     (''sequence'', JNum (of_nat (le_sequence e))), (''to_state'', JStr (le_to_state e))]"

definition event_json :: "LedgerEvent \<Rightarrow> json" where
  \<comment> \<open>\<open>LedgerEvent.as_dict\<close>\<close>
  "event_json e = JObj (obj_put ''hash'' (JStr (le_hash e)) (obj_put ''previous_hash'' (JStr (le_previous_hash e)) (event_payload e)))"

section \<open>The ledger\<close>

record WorkGapLedger =
  wl_gaps :: "(string, WorkGap) dict"
  wl_events :: "LedgerEvent list"

definition find_gap :: "WorkGapLedger \<Rightarrow> string \<Rightarrow> gap_failure + WorkGap" where
  \<comment> \<open>\<open>_get\<close>\<close>
  "find_gap L key = subscript (\<lambda>k. LedgerError (''unknown work gap: '' @ k)) (wl_gaps L) key"

definition gap_register :: "WorkGap \<Rightarrow> WorkGapLedger \<Rightarrow> gap_failure + WorkGapLedger" where
  "gap_register g L =
    (if in_dict (gap_key g) (wl_gaps L) then Inl (LedgerError (''work gap already registered: '' @ gap_key g))
     else Inr (L\<lparr>wl_gaps := dict_set (wl_gaps L) (gap_key g) g\<rparr>))"

definition present :: "string option \<Rightarrow> bool" where
  \<comment> \<open>the truth value of an optional text\<close>
  "present x \<longleftrightarrow> x \<noteq> None \<and> x \<noteq> Some []"

definition text_or :: "string option \<Rightarrow> string option \<Rightarrow> string option" where
  "text_or x y = (if present x then x else y)"

definition object_or :: "(string \<times> json) list option \<Rightarrow> (string \<times> json) list option \<Rightarrow> (string \<times> json) list option" where
  "object_or x y = (if x \<noteq> None \<and> x \<noteq> Some [] then x else y)"

definition next_progress :: "string \<Rightarrow> string option" where
  \<comment> \<open>the progress state after the given one\<close>
  "next_progress s = map_of (zip PROGRESS_STATES (tl PROGRESS_STATES)) s"

definition owned :: "WorkGap \<Rightarrow> bool" where
  "owned g \<longleftrightarrow> present (wg_owner_project g) \<and> present (wg_owner_agent g)"

definition validate_transition :: "WorkGap \<Rightarrow> string \<Rightarrow> gap_failure + unit" where
  "validate_transition g to_state =
    (if wg_state g \<in> set GAP_TERMINAL_STATES \<and> to_state \<noteq> ''REGRESSED''
     then Inl (LedgerError ''terminal work gaps require an immutable addendum/new revision'')
     else if to_state \<in> set EXCEPTION_STATES
     then if to_state = ''N_A_APPROVED'' \<and> wg_state g = ''UNMAPPED'' then Inl (LedgerError ''N_A_APPROVED requires an owner and explicit review'') else Inr ()
     else if wg_state g \<in> set EXCEPTION_STATES
     then let allowed = (if owned g then ''OWNED'' else ''UNMAPPED'')
          in if to_state \<noteq> allowed then Inl (LedgerError (''exception recovery must re-enter at '' @ allowed)) else Inr ()
     else if next_progress (wg_state g) \<noteq> Some to_state
     then Inl (LedgerError (''illegal transition '' @ wg_state g @ '' -> '' @ to_state)) else Inr ())"

definition validate_authority :: "WorkGap \<Rightarrow> string \<Rightarrow> string \<Rightarrow> string \<Rightarrow> gap_failure + unit" where
  "validate_authority g state actor_id seat =
    (if actor_id = [] then Inl (LedgerError ''actor_id is required'')
     else if state = ''IMPLEMENTED''
     then if seat \<noteq> ''executor'' \<or> wg_executor_id g \<noteq> Some actor_id then Inl (LedgerError ''IMPLEMENTED requires the executor seat'') else Inr ()
     else if state = ''VERIFIED''
     then if seat \<noteq> ''verifier'' \<or> wg_verifier_id g \<noteq> Some actor_id then Inl (LedgerError ''VERIFIED requires the verifier seat'')
          else if wg_verifier_id g = wg_executor_id g then Inl (LedgerError ''executor and verifier must be independent'') else Inr ()
     else if state = ''DELIVERED''
     then if seat \<noteq> ''completion'' \<or> wg_completion_auditor_id g \<noteq> Some actor_id then Inl (LedgerError ''DELIVERED requires the completion seat'')
          else let identities = [wg_executor_id g, wg_verifier_id g, wg_completion_auditor_id g]
               in if None \<in> set identities \<or> \<not> distinct identities
                  then Inl (LedgerError ''executor, verifier and completion auditor must be independent'') else Inr ()
     else Inr ())"

fun py_norm :: "json \<Rightarrow> json" where
  \<comment> \<open>a value up to Python's \<open>==\<close>, for which \<open>True\<close> is 1 and \<open>False\<close> is 0\<close>
  "py_norm (JBool b) = JNum (if b then 1 else 0)"
| "py_norm (JArr xs) = JArr (map py_norm xs)"
| "py_norm (JObj d) = JObj (map (\<lambda>p. (fst p, py_norm (snd p))) d)"
| "py_norm v = v"

definition json_same :: "json \<Rightarrow> json \<Rightarrow> bool" where
  "json_same v w \<longleftrightarrow> py_norm v = py_norm w"

definition hashable :: "json \<Rightarrow> bool" where
  "hashable v = (case v of JArr _ \<Rightarrow> False | JObj _ \<Rightarrow> False | _ \<Rightarrow> True)"

definition check_delivery :: "gap_env \<Rightarrow> json \<Rightarrow> json \<Rightarrow> json \<Rightarrow> gap_failure + unit" where
  \<comment> \<open>\<open>_validate_installed_delivery\<close> on the expected revision, the installed artifact and the source re-query\<close>
  "check_delivery E expected installed_artifact source_requery =
    (if \<not> truthy expected then Inl (LedgerError ''DELIVERED requires an expected revision'')
     else case installed_artifact of
       JObj installed \<Rightarrow>
         (case source_requery of
            JObj source \<Rightarrow>
              (if \<not> json_same (jget installed ''expected_commit'') expected then Inl (LedgerError ''installed artifact expected commit mismatch'')
               else if \<not> json_same (jget installed ''installed_commit'') expected then Inl (LedgerError ''installed artifact commit mismatch'')
               else if jget installed ''match'' \<noteq> JBool True then Inl (LedgerError ''installed artifact content does not match checkout'')
               else if \<not> lower_sha256 (py_str (gn_repr E) (jor (jget installed ''sha256'') (JStr [])))
               then Inl (LedgerError ''installed artifact requires a sha256 digest'')
               else if \<not> json_same (jget source ''commit'') expected then Inl (LedgerError ''source re-query commit mismatch'')
               else if \<not> hashable (jget source ''state'') then Inl GapTypeError
               else if jget source ''state'' \<notin> {JStr ''merged'', JStr ''released'', JStr ''closed''}
               then Inl (LedgerError ''source re-query is not terminal'') else Inr ())
          | _ \<Rightarrow> Inl (LedgerError ''DELIVERED requires a source re-query''))
     | _ \<Rightarrow> Inl (LedgerError ''DELIVERED requires an installed artifact re-query''))"

definition validate_installed_delivery :: "gap_env \<Rightarrow> WorkGap \<Rightarrow> gap_failure + unit" where
  "validate_installed_delivery E g =
    check_delivery E (json_opt JStr (wg_expected_revision g)) (json_opt JObj (wg_installed_artifact g)) (json_opt JObj (wg_source_requery g))"

definition validate_evidence :: "gap_env \<Rightarrow> WorkGap \<Rightarrow> string \<Rightarrow> gap_failure + unit" where
  "validate_evidence E g state =
    ebind (case map_of REQUIRED_EVIDENCE state of
        Some required \<Rightarrow> if required \<notin> gv_kind ` set (wg_evidence g) then Inl (LedgerError (state @ '' requires '' @ required @ '' evidence'')) else Inr ()
      | None \<Rightarrow> Inr ()) (\<lambda>_.
      if state \<in> set (drop 1 PROGRESS_STATES) \<and> \<not> owned g then Inl (LedgerError (state @ '' requires an owner''))
      else if state \<in> set (drop 2 PROGRESS_STATES) \<and> (wg_expected_evidence g = [] \<or> \<not> present (wg_delivery_target g))
      then Inl (LedgerError (state @ '' requires expected evidence and delivery target''))
      else if state = ''DELIVERED'' then validate_installed_delivery E g else Inr ())"

fun validate_dependencies :: "WorkGapLedger \<Rightarrow> string list \<Rightarrow> string \<Rightarrow> gap_failure + unit" where
  "validate_dependencies L [] state = Inr ()"
| "validate_dependencies L (dependency # rest) state =
    (if state \<notin> {''INTEGRATED'', ''DELIVERED''} then Inr ()
     else ebind (find_gap L dependency) (\<lambda>d.
       if wg_state d \<notin> set GAP_TERMINAL_STATES
       then Inl (LedgerError (''dependency '' @ dependency @ '' is '' @ wg_state d @ '', not terminal''))
       else validate_dependencies L rest state))"

record transition_args =
  ta_to_state :: string
  ta_actor_id :: string
  ta_seat :: string
  ta_evidence :: "Evidence list"
  ta_executor_id :: "string option"
  ta_verifier_id :: "string option"
  ta_completion_auditor_id :: "string option"
  ta_expected_revision :: "string option"
  ta_installed_artifact :: "(string \<times> json) list option"
  ta_source_requery :: "(string \<times> json) list option"
  ta_facts :: "(string \<times> json) list"

definition plain_args :: "string \<Rightarrow> string \<Rightarrow> string \<Rightarrow> transition_args" where
  \<comment> \<open>a call with no optional argument\<close>
  "plain_args to_state actor_id seat = \<lparr>ta_to_state = to_state, ta_actor_id = actor_id, ta_seat = seat, ta_evidence = [], ta_executor_id = None,
     ta_verifier_id = None, ta_completion_auditor_id = None, ta_expected_revision = None, ta_installed_artifact = None,
     ta_source_requery = None, ta_facts = []\<rparr>"

definition updated_gap :: "transition_args \<Rightarrow> WorkGap \<Rightarrow> WorkGap" where
  "updated_gap a g = g\<lparr>wg_executor_id := text_or (ta_executor_id a) (wg_executor_id g),
     wg_verifier_id := text_or (ta_verifier_id a) (wg_verifier_id g),
     wg_completion_auditor_id := text_or (ta_completion_auditor_id a) (wg_completion_auditor_id g),
     wg_evidence := wg_evidence g @ ta_evidence a, wg_revision := wg_revision g + 1,
     wg_expected_revision := text_or (ta_expected_revision a) (wg_expected_revision g),
     wg_installed_artifact := object_or (ta_installed_artifact a) (wg_installed_artifact g),
     wg_source_requery := object_or (ta_source_requery a) (wg_source_requery g)\<rparr>"

definition put_opt :: "string \<Rightarrow> json option \<Rightarrow> (string \<times> json) list \<Rightarrow> (string \<times> json) list" where
  "put_opt k v d = (case v of None \<Rightarrow> d | Some x \<Rightarrow> obj_put k x d)"

definition event_facts :: "transition_args \<Rightarrow> (string \<times> json) list" where
  "event_facts a = put_opt ''source_requery'' (map_option JObj (ta_source_requery a))
     (put_opt ''installed_artifact'' (map_option JObj (ta_installed_artifact a))
       (put_opt ''expected_revision'' (map_option JStr (ta_expected_revision a)) (ta_facts a)))"

definition last_hash :: "LedgerEvent list \<Rightarrow> string" where
  "last_hash events = (if events = [] then GENESIS_HASH else le_hash (last events))"

definition transition_event :: "gap_env \<Rightarrow> string \<Rightarrow> transition_args \<Rightarrow> WorkGap \<Rightarrow> LedgerEvent list \<Rightarrow> LedgerEvent" where
  "transition_event E key a g events =
    (let e = \<lparr>le_sequence = length events + 1, le_gap_key = key, le_from_state = wg_state g, le_to_state = ta_to_state a,
           le_actor_id = ta_actor_id a, le_seat = ta_seat a, le_evidence = ta_evidence a, le_facts = event_facts a,
           le_previous_hash = last_hash events, le_hash = []\<rparr>
     in e\<lparr>le_hash := event_hash E (last_hash events) (JObj (event_payload e))\<rparr>)"

definition gap_transition :: "gap_env \<Rightarrow> string \<Rightarrow> transition_args \<Rightarrow> WorkGapLedger \<Rightarrow> gap_failure + WorkGapLedger \<times> LedgerEvent" where
  "gap_transition E key a L =
    ebind (find_gap L key) (\<lambda>g.
      if ta_to_state a \<notin> set GAP_STATES then Inl (LedgerError (''unknown work-gap state: '' @ ta_to_state a))
      else ebind (validate_transition g (ta_to_state a)) (\<lambda>_.
        ebind (WorkGap_post_init (updated_gap a g)) (\<lambda>updated.
        ebind (validate_authority updated (ta_to_state a) (ta_actor_id a) (ta_seat a)) (\<lambda>_.
        ebind (validate_evidence E updated (ta_to_state a)) (\<lambda>_.
        ebind (validate_dependencies L (wg_dependencies updated) (ta_to_state a)) (\<lambda>_.
        ebind (WorkGap_post_init (updated\<lparr>wg_state := ta_to_state a\<rparr>)) (\<lambda>moved.
          let event = transition_event E key a g (wl_events L)
          in Inr (L\<lparr>wl_gaps := dict_set (wl_gaps L) key moved, wl_events := wl_events L @ [event]\<rparr>, event))))))))"

definition assign_owner :: "gap_env \<Rightarrow> string \<Rightarrow> string \<Rightarrow> string \<Rightarrow> string \<Rightarrow> WorkGapLedger \<Rightarrow> WorkGapLedger \<times> (gap_failure + LedgerEvent)" where
  \<comment> \<open>the owner is stored before the transition is tried\<close>
  "assign_owner E key owner_project owner_agent actor_id L =
    (if owner_project = [] \<or> owner_agent = [] then (L, Inl (LedgerError ''owner project and agent are required''))
     else case find_gap L key of
       Inl e \<Rightarrow> (L, Inl e)
     | Inr g \<Rightarrow>
         if wg_state g \<noteq> ''UNMAPPED'' then (L, Inl (LedgerError ''ownership can only be assigned from UNMAPPED''))
         else case WorkGap_post_init (g\<lparr>wg_owner_project := Some owner_project, wg_owner_agent := Some owner_agent\<rparr>) of
             Inl e \<Rightarrow> (L, Inl e)
           | Inr g' \<Rightarrow>
               let L1 = L\<lparr>wl_gaps := dict_set (wl_gaps L) key g'\<rparr>
               in (case gap_transition E key (plain_args ''OWNED'' actor_id ''coverage'') L1 of
                     Inl e \<Rightarrow> (L1, Inl e)
                   | Inr (L2, event) \<Rightarrow> (L2, Inr event)))"

fun chain_check :: "gap_env \<Rightarrow> nat \<Rightarrow> string \<Rightarrow> LedgerEvent list \<Rightarrow> gap_failure + unit" where
  "chain_check E n previous [] = Inr ()"
| "chain_check E n previous (e # es) =
    (if le_sequence e \<noteq> n \<or> le_previous_hash e \<noteq> previous then Inl (LedgerError ''event chain sequence/link mismatch'')
     else if event_hash E previous (JObj (event_payload e)) \<noteq> le_hash e then Inl (LedgerError ''event chain hash mismatch'')
     else chain_check E (Suc n) (le_hash e) es)"

definition verify_chain :: "gap_env \<Rightarrow> WorkGapLedger \<Rightarrow> gap_failure + unit" where
  "verify_chain E L = chain_check E 1 GENESIS_HASH (wl_events L)"

definition gap_snapshot :: "gap_env \<Rightarrow> WorkGapLedger \<Rightarrow> gap_failure + json" where
  "gap_snapshot E L = ebind (verify_chain E L) (\<lambda>_. Inr (JObj [(''events'', JArr (map event_json (wl_events L))),
     (''gaps'', JArr (map (\<lambda>p. JObj (gap_fields (snd p))) (sort_key fst (wl_gaps L)))), (''schema'', JStr WORK_GAP_SCHEMA)]))"

definition gap_digest :: "gap_env \<Rightarrow> WorkGapLedger \<Rightarrow> gap_failure + string" where
  "gap_digest E L = ebind (gap_snapshot E L) (\<lambda>s. Inr (hexdigest (gn_sha256 E (utf8_bytes (dumps s)))))"

definition unresolved :: "WorkGapLedger \<Rightarrow> WorkGap list" where
  "unresolved L = filter (\<lambda>g. wg_state g \<notin> set GAP_TERMINAL_STATES) (map snd (sort_key fst (wl_gaps L)))"

section \<open>Regression and explanation\<close>

fun affected_pass :: "string list \<Rightarrow> WorkGap list \<Rightarrow> string list" where
  \<comment> \<open>one run of the inner loop over the gaps\<close>
  "affected_pass affected [] = affected"
| "affected_pass affected (g # gs) =
    affected_pass (if gap_key g \<notin> set affected \<and> (\<exists>d \<in> set (wg_dependencies g). d \<in> set affected) then affected @ [gap_key g] else affected) gs"

lemma affected_pass_mono: "set affected \<subseteq> set (affected_pass affected gs) \<and> length affected \<le> length (affected_pass affected gs)"
proof (induction gs arbitrary: affected)
  case (Cons g gs)
  show ?case using Cons.IH [of "affected @ [gap_key g]"] Cons.IH [of affected] by simp
qed simp

lemma affected_pass_new:
  "length (affected_pass affected gs) \<noteq> length affected \<Longrightarrow> \<exists>g \<in> set gs. gap_key g \<notin> set affected \<and> gap_key g \<in> set (affected_pass affected gs)"
proof (induction gs arbitrary: affected)
  case (Cons g gs)
  show ?case
  proof (cases "gap_key g \<notin> set affected \<and> (\<exists>d \<in> set (wg_dependencies g). d \<in> set affected)")
    case True
    then show ?thesis using affected_pass_mono [of "affected @ [gap_key g]" gs] by auto
  next
    case False
    then have "affected_pass affected (g # gs) = affected_pass affected gs" by (simp only: affected_pass.simps if_False)
    then show ?thesis using Cons.IH [of affected] Cons.prems by auto
  qed
qed simp

function affected_loop :: "WorkGap list \<Rightarrow> string list \<Rightarrow> string list" where
  "affected_loop gaps affected =
    (let affected' = affected_pass affected gaps
     in if length affected' = length affected then affected else affected_loop gaps affected')"
  by pat_completeness auto
termination
proof (relation "measure (\<lambda>(gaps, affected). card (gap_key ` set gaps - set affected))", goal_cases)
  case (2 gaps affected affected')
  obtain g where "g \<in> set gaps" "gap_key g \<notin> set affected" "gap_key g \<in> set affected'" using 2 affected_pass_new by blast
  moreover have "set affected \<subseteq> set affected'" using affected_pass_mono 2(1) by blast
  ultimately have "gap_key ` set gaps - set affected' \<subset> gap_key ` set gaps - set affected" by auto
  then show ?case by (auto intro: psubset_card_mono)
qed simp

declare affected_loop.simps [simp del]

fun regress_loop :: "gap_env \<Rightarrow> string \<Rightarrow> string \<Rightarrow> Evidence list \<Rightarrow> string list \<Rightarrow> WorkGapLedger \<Rightarrow> WorkGapLedger \<times> (gap_failure + LedgerEvent list)" where
  "regress_loop E key actor_id evidence [] L = (L, Inr [])"
| "regress_loop E key actor_id evidence (k # ks) L =
    (case map_of (wl_gaps L) k of
       None \<Rightarrow> (L, Inl (GapKeyError k))
     | Some g \<Rightarrow>
         if wg_state g = ''REGRESSED'' then regress_loop E key actor_id evidence ks L
         else (case gap_transition E k ((plain_args ''REGRESSED'' actor_id ''completion'')
                  \<lparr>ta_evidence := evidence, ta_facts := [(''regressed_from'', JStr (wg_state g)), (''root_gap'', JStr key)]\<rparr>) L of
              Inl e \<Rightarrow> (L, Inl e)
            | Inr (L1, event) \<Rightarrow>
                let (L2, r) = regress_loop E key actor_id evidence ks L1 in (L2, ebind r (\<lambda>es. Inr (event # es)))))"

definition gap_regress :: "gap_env \<Rightarrow> string \<Rightarrow> string \<Rightarrow> Evidence list \<Rightarrow> WorkGapLedger \<Rightarrow> WorkGapLedger \<times> (gap_failure + LedgerEvent list)" where
  "gap_regress E key actor_id evidence L = regress_loop E key actor_id evidence (sort (affected_loop (dict_values (wl_gaps L)) [key])) L"

record explanation =
  ex_gap_key :: string
  ex_state :: string
  ex_terminal :: bool
  ex_next_state :: "string option"
  ex_missing_evidence :: "string list"
  ex_dependencies :: "(string, string) dict"
  ex_blockers :: "string list"
  ex_event_sequences :: "nat list"
  ex_ledger_digest :: string

definition explain_blockers :: "gap_env \<Rightarrow> WorkGap \<Rightarrow> (string, string) dict \<Rightarrow> string option \<Rightarrow> gap_failure + string list" where
  "explain_blockers E g dependencies next_state =
    (let blockers = (if owned g then [] else [''owner_missing''])
           @ map (\<lambda>(d, s). ''dependency:'' @ d @ '':'' @ s) (filter (\<lambda>(d, s). s \<notin> set GAP_TERMINAL_STATES) dependencies)
           @ (if wg_state g = ''REGRESSED'' then [''regression_open''] else [])
     in if next_state \<noteq> Some ''DELIVERED'' then Inr blockers
        else case validate_installed_delivery E g of
          Inr _ \<Rightarrow> Inr blockers | Inl (LedgerError e) \<Rightarrow> Inr (blockers @ [e]) | Inl e \<Rightarrow> Inl e)"

definition explain :: "gap_env \<Rightarrow> string \<Rightarrow> WorkGapLedger \<Rightarrow> gap_failure + explanation" where
  "explain E key L = ebind (find_gap L key) (\<lambda>g.
     ebind (map_checked (\<lambda>d. ebind (find_gap L d) (\<lambda>h. Inr (d, wg_state h))) (wg_dependencies g)) (\<lambda>dependencies.
       let next_state = (if wg_state g \<in> set PROGRESS_STATES \<and> wg_state g \<notin> set GAP_TERMINAL_STATES then next_progress (wg_state g) else None)
       in ebind (explain_blockers E g dependencies next_state) (\<lambda>blockers. ebind (gap_digest E L) (\<lambda>digest.
            Inr \<lparr>ex_gap_key = key, ex_state = wg_state g, ex_terminal = (wg_state g \<in> set GAP_TERMINAL_STATES), ex_next_state = next_state,
              ex_missing_evidence = filter (\<lambda>k. k \<notin> gv_kind ` set (wg_evidence g)) (wg_expected_evidence g),
              ex_dependencies = dependencies, ex_blockers = blockers,
              ex_event_sequences = map le_sequence (filter (\<lambda>e. le_gap_key e = key) (wl_events L)), ex_ledger_digest = digest\<rparr>))))"

section \<open>Transitions keep what a state has earned\<close>

lemmas state_sets = PROGRESS_STATES_def EXCEPTION_STATES_def GAP_STATES_def GAP_TERMINAL_STATES_def

definition gap_valid :: "WorkGap \<Rightarrow> bool" where
  "gap_valid g \<longleftrightarrow> wg_requirement_id g \<noteq> [] \<and> wg_acceptance_criterion_id g \<noteq> [] \<and> wg_state g \<in> set GAP_STATES
     \<and> distinct (wg_dependencies g) \<and> gap_key g \<notin> set (wg_dependencies g)"

lemma WorkGap_post_init_conv: "WorkGap_post_init g = Inr h \<longleftrightarrow> h = g \<and> gap_valid g"
  by (auto simp: WorkGap_post_init_def gap_valid_def)

lemma updated_gap_simps [simp]:
  "gap_key (updated_gap a g) = gap_key g" "wg_state (updated_gap a g) = wg_state g" "wg_dependencies (updated_gap a g) = wg_dependencies g"
  "wg_evidence (updated_gap a g) = wg_evidence g @ ta_evidence a" "owned (updated_gap a g) = owned g"
  "wg_expected_evidence (updated_gap a g) = wg_expected_evidence g" "wg_delivery_target (updated_gap a g) = wg_delivery_target g"
  "gap_valid (updated_gap a g) = gap_valid g"
  by (simp_all add: updated_gap_def gap_key_def owned_def gap_valid_def)

lemma state_update_simps [simp]:
  "gap_key (g\<lparr>wg_state := s\<rparr>) = gap_key g" "owned (g\<lparr>wg_state := s\<rparr>) = owned g"
  "validate_installed_delivery E (g\<lparr>wg_state := s\<rparr>) = validate_installed_delivery E g"
  by (simp_all add: gap_key_def owned_def validate_installed_delivery_def)

lemma gap_valid_state: "s \<in> set GAP_STATES \<Longrightarrow> gap_valid g \<Longrightarrow> gap_valid (g\<lparr>wg_state := s\<rparr>)"
  by (simp add: gap_valid_def)

lemma find_gap_conv: "find_gap L k = Inr g \<longleftrightarrow> map_of (wl_gaps L) k = Some g"
  by (simp add: find_gap_def subscript_Inr_conv)

lemma transition_conv:
  "gap_transition E key a L = Inr (L', e) \<longleftrightarrow> (\<exists>g. map_of (wl_gaps L) key = Some g \<and> ta_to_state a \<in> set GAP_STATES
     \<and> validate_transition g (ta_to_state a) = Inr () \<and> gap_valid g \<and> validate_authority (updated_gap a g) (ta_to_state a) (ta_actor_id a) (ta_seat a) = Inr ()
     \<and> validate_evidence E (updated_gap a g) (ta_to_state a) = Inr () \<and> validate_dependencies L (wg_dependencies g) (ta_to_state a) = Inr ()
     \<and> e = transition_event E key a g (wl_events L)
     \<and> L' = L\<lparr>wl_gaps := dict_set (wl_gaps L) key ((updated_gap a g)\<lparr>wg_state := ta_to_state a\<rparr>), wl_events := wl_events L @ [e]\<rparr>)"
proof -
  have "gap_valid ((updated_gap a g)\<lparr>wg_state := s\<rparr>) \<longleftrightarrow> gap_valid g" if "s \<in> set GAP_STATES" "gap_valid g" for g s
    using that by (simp add: gap_valid_state)
  then show ?thesis
    by (auto simp: gap_transition_def ebind_Inr_conv find_gap_conv WorkGap_post_init_conv Let_def)
qed

definition kinds_of :: "WorkGap \<Rightarrow> string set" where
  "kinds_of g = gv_kind ` set (wg_evidence g)"

definition independent :: "WorkGap \<Rightarrow> bool" where
  \<comment> \<open>three named seats, all different\<close>
  "independent g \<longleftrightarrow> (\<exists>x y z. wg_executor_id g = Some x \<and> wg_verifier_id g = Some y \<and> wg_completion_auditor_id g = Some z \<and> distinct [x, y, z])"

definition earned :: "gap_env \<Rightarrow> WorkGap \<Rightarrow> bool" where
  \<comment> \<open>what the checks on the way to the state of a gap have established\<close>
  "earned E g \<longleftrightarrow> gap_valid g
     \<and> (wg_state g \<in> set (drop 1 PROGRESS_STATES) \<longrightarrow> owned g)
     \<and> (wg_state g \<in> set (drop 2 PROGRESS_STATES) \<longrightarrow> wg_expected_evidence g \<noteq> [] \<and> present (wg_delivery_target g))
     \<and> (wg_state g \<in> set (drop 3 PROGRESS_STATES) \<longrightarrow> ''implementation'' \<in> kinds_of g)
     \<and> (wg_state g \<in> set (drop 4 PROGRESS_STATES) \<longrightarrow> ''verification'' \<in> kinds_of g)
     \<and> (wg_state g \<in> set (drop 5 PROGRESS_STATES) \<longrightarrow> ''integration'' \<in> kinds_of g)
     \<and> (wg_state g = ''DELIVERED'' \<longrightarrow> ''delivery'' \<in> kinds_of g \<and> independent g \<and> validate_installed_delivery E g = Inr ())"

lemma validate_evidence_Inr:
  assumes "validate_evidence E g s = Inr ()"
  shows "map_of REQUIRED_EVIDENCE s = Some k \<Longrightarrow> k \<in> kinds_of g" and "s \<in> set (drop 1 PROGRESS_STATES) \<Longrightarrow> owned g"
    and "s \<in> set (drop 2 PROGRESS_STATES) \<Longrightarrow> wg_expected_evidence g \<noteq> [] \<and> present (wg_delivery_target g)"
    and "s = ''DELIVERED'' \<Longrightarrow> validate_installed_delivery E g = Inr ()"
  using assms unfolding validate_evidence_def kinds_of_def ebind_Inr_conv by (auto split: if_splits)

lemma validate_transition_progress:
  assumes "validate_transition g s = Inr ()" and "s \<in> set (drop 2 PROGRESS_STATES)"
  shows "next_progress (wg_state g) = Some s"
  using assms unfolding validate_transition_def Let_def by (auto simp: state_sets split: if_splits)

lemma next_progress_cases:
  "next_progress s = Some ''VERIFIED'' \<longleftrightarrow> s = ''IMPLEMENTED''" "next_progress s = Some ''INTEGRATED'' \<longleftrightarrow> s = ''VERIFIED''"
  "next_progress s = Some ''DELIVERED'' \<longleftrightarrow> s = ''INTEGRATED''" "next_progress s = Some ''IMPLEMENTED'' \<longleftrightarrow> s = ''PLANNED''"
  by (auto simp: next_progress_def PROGRESS_STATES_def split: if_splits)

lemma authority_independent: "validate_authority g ''DELIVERED'' actor seat = Inr () \<Longrightarrow> independent g"
  by (cases "wg_executor_id g"; cases "wg_verifier_id g") (auto simp: validate_authority_def independent_def Let_def split: if_splits)

lemma transition_earned:
  assumes "earned E g" and t: "validate_transition g s = Inr ()" and s: "s \<in> set GAP_STATES"
    and a: "validate_authority (updated_gap a g) s actor seat = Inr ()" and e: "validate_evidence E (updated_gap a g) s = Inr ()"
  shows "earned E ((updated_gap a g)\<lparr>wg_state := s\<rparr>)"
proof -
  let ?g = "updated_gap a g"
  have kinds: "kinds_of g \<subseteq> kinds_of ?g" by (auto simp: kinds_of_def)
  have k: "kinds_of (?g\<lparr>wg_state := s\<rparr>) = kinds_of ?g" "independent (?g\<lparr>wg_state := s\<rparr>) = independent ?g" by (simp_all add: kinds_of_def independent_def)
  have v: "gap_valid (?g\<lparr>wg_state := s\<rparr>)" using assms(1) s by (intro gap_valid_state) (simp_all add: earned_def)
  have req: "map_of REQUIRED_EVIDENCE ''IMPLEMENTED'' = Some ''implementation''" "map_of REQUIRED_EVIDENCE ''VERIFIED'' = Some ''verification''"
    "map_of REQUIRED_EVIDENCE ''INTEGRATED'' = Some ''integration''" "map_of REQUIRED_EVIDENCE ''DELIVERED'' = Some ''delivery''"
    by (simp_all add: REQUIRED_EVIDENCE_def)
  have sets: "set (drop 3 PROGRESS_STATES) = {''IMPLEMENTED'', ''VERIFIED'', ''INTEGRATED'', ''DELIVERED''}" "set (drop 4 PROGRESS_STATES) = {''VERIFIED'', ''INTEGRATED'', ''DELIVERED''}"
    "set (drop 5 PROGRESS_STATES) = {''INTEGRATED'', ''DELIVERED''}" by (auto simp: PROGRESS_STATES_def)
  have prev: "next_progress (wg_state g) = Some s" if "s \<in> {''IMPLEMENTED'', ''VERIFIED'', ''INTEGRATED'', ''DELIVERED''}"
    by (rule validate_transition_progress [OF t]) (use that in \<open>auto simp: PROGRESS_STATES_def\<close>)
  have i: "''implementation'' \<in> kinds_of ?g" if "s \<in> set (drop 3 PROGRESS_STATES)"
  proof (cases "s = ''IMPLEMENTED''")
    case False
    then have "wg_state g \<in> set (drop 3 PROGRESS_STATES)" using prev that unfolding sets by (auto simp: next_progress_cases)
    then show ?thesis using assms(1) kinds by (auto simp: earned_def)
  qed (use validate_evidence_Inr(1) [OF e] req in auto)
  have v2: "''verification'' \<in> kinds_of ?g" if "s \<in> set (drop 4 PROGRESS_STATES)"
  proof (cases "s = ''VERIFIED''")
    case False
    then have "wg_state g \<in> set (drop 4 PROGRESS_STATES)" using prev that unfolding sets by (auto simp: next_progress_cases)
    then show ?thesis using assms(1) kinds by (auto simp: earned_def)
  qed (use validate_evidence_Inr(1) [OF e] req in auto)
  have n: "''integration'' \<in> kinds_of ?g" if "s \<in> set (drop 5 PROGRESS_STATES)"
  proof (cases "s = ''INTEGRATED''")
    case False
    then have "wg_state g \<in> set (drop 5 PROGRESS_STATES)" using prev that unfolding sets by (auto simp: next_progress_cases)
    then show ?thesis using assms(1) kinds by (auto simp: earned_def)
  qed (use validate_evidence_Inr(1) [OF e] req in auto)
  have d: "''delivery'' \<in> kinds_of ?g \<and> independent ?g \<and> validate_installed_delivery E ?g = Inr ()" if "s = ''DELIVERED''"
    using validate_evidence_Inr(1,4) [OF e] req authority_independent a that by auto
  show ?thesis unfolding earned_def k using v i v2 n d validate_evidence_Inr(2,3) [OF e] by simp
qed

section \<open>The event log\<close>

definition legal_step :: "string \<Rightarrow> string \<Rightarrow> bool" where
  "legal_step current target =
    (if target \<in> set EXCEPTION_STATES then \<not> (target = ''N_A_APPROVED'' \<and> current = ''UNMAPPED'')
     else if current \<in> set GAP_TERMINAL_STATES then target = ''REGRESSED''
     else if current \<in> set EXCEPTION_STATES then target \<in> {''UNMAPPED'', ''OWNED''}
     else if current \<in> set PROGRESS_STATES then next_progress current = Some target else False)"

definition replay_of :: "string \<Rightarrow> LedgerEvent list \<Rightarrow> string" where
  \<comment> \<open>the state of a gap according to the log\<close>
  "replay_of k es = fold (\<lambda>e s. if le_gap_key e = k then le_to_state e else s) es ''UNMAPPED''"

lemma replay_of_simps [simp]: "replay_of k [] = ''UNMAPPED''" "replay_of k (es @ [e]) = (if le_gap_key e = k then le_to_state e else replay_of k es)"
  by (simp_all add: replay_of_def)

lemma replay_of_absent: "\<forall>e \<in> set es. le_gap_key e \<noteq> k \<Longrightarrow> replay_of k es = ''UNMAPPED''"
  by (induction es rule: rev_induct) auto

definition legal_log :: "LedgerEvent list \<Rightarrow> bool" where
  "legal_log es \<longleftrightarrow> (\<forall>pre e post. es = pre @ e # post \<longrightarrow> le_from_state e = replay_of (le_gap_key e) pre \<and> legal_step (le_from_state e) (le_to_state e))"

lemma legal_log_Nil [simp]: "legal_log []"
  by (simp add: legal_log_def)

lemma legal_log_snoc:
  "legal_log (es @ [e]) \<longleftrightarrow> legal_log es \<and> le_from_state e = replay_of (le_gap_key e) es \<and> legal_step (le_from_state e) (le_to_state e)"
proof -
  have "es @ [e] = pre @ x # post \<longleftrightarrow> pre = es \<and> x = e \<and> post = [] \<or> (\<exists>post'. post = post' @ [e] \<and> es = pre @ x # post')" for pre x post
    by (cases post rule: rev_cases) auto
  then show ?thesis unfolding legal_log_def by (simp only:) blast
qed

lemma transition_legal: "validate_transition g s = Inr () \<Longrightarrow> wg_state g \<in> set GAP_STATES \<Longrightarrow> legal_step (wg_state g) s"
  unfolding validate_transition_def legal_step_def Let_def by (auto simp: GAP_STATES_def split: if_splits)

lemma chain_check_linked:
  "chain_check E n previous es = Inr () \<longleftrightarrow> linked le_hash le_previous_hash le_sequence previous n es
     \<and> (\<forall>e \<in> set es. le_hash e = event_hash E (le_previous_hash e) (JObj (event_payload e)))"
  by (induction E n previous es rule: chain_check.induct) auto

lemma transition_event_simps [simp]:
  "le_gap_key (transition_event E key a g es) = key" "le_to_state (transition_event E key a g es) = ta_to_state a"
  "le_from_state (transition_event E key a g es) = wg_state g" "le_sequence (transition_event E key a g es) = Suc (length es)"
  "le_previous_hash (transition_event E key a g es) = last_hash es"
  by (simp_all add: transition_event_def Let_def)

lemma transition_event_hash:
  "le_hash (transition_event E key a g es) = event_hash E (last_hash es) (JObj (event_payload (transition_event E key a g es)))"
  by (simp add: transition_event_def Let_def event_payload_def)

lemma last_hash_head: "last_hash es = head_seal le_hash GENESIS_HASH es"
  by (simp add: last_hash_def head_seal_def)

lemma chain_check_snoc:
  assumes "chain_check E 1 GENESIS_HASH es = Inr ()"
  shows "chain_check E 1 GENESIS_HASH (es @ [transition_event E key a g es]) = Inr ()"
  using assms unfolding chain_check_linked linked_append
  by (simp add: last_hash_head transition_event_hash flip: last_hash_head)

interpretation gap_chain: hash_chain "\<lambda>es. chain_check E 1 GENESIS_HASH es = Inr ()"
    "\<lambda>(previous, body). event_hash E previous body" "\<lambda>e. (le_previous_hash e, JObj (event_payload e))" le_hash le_previous_hash le_sequence GENESIS_HASH for E
proof
  fix rs rs' and r r' :: LedgerEvent
  assume "chain_check E 1 GENESIS_HASH rs = Inr ()" "chain_check E 1 GENESIS_HASH rs' = Inr ()" "r \<in> set rs" "r' \<in> set rs'"
    and b: "(le_previous_hash r, JObj (event_payload r)) = (le_previous_hash r', JObj (event_payload r'))" "le_hash r = le_hash r'"
  have "evidence_json v = evidence_json w \<Longrightarrow> v = w" for v w :: Evidence by (cases v; cases w) (simp add: evidence_json_def)
  then have "inj evidence_json" by (simp add: inj_def)
  then show "r = r'" using b by (cases r; cases r') (auto simp: event_payload_def inj_map_eq_map)
qed (auto simp: chain_check_linked)

section \<open>The invariant of the ledger\<close>

definition gap_inv :: "gap_env \<Rightarrow> WorkGapLedger \<Rightarrow> bool" where
  "gap_inv E L \<longleftrightarrow> distinct (dict_keys (wl_gaps L))
     \<and> (\<forall>k g. map_of (wl_gaps L) k = Some g \<longrightarrow> gap_key g = k \<and> earned E g \<and> wg_state g = replay_of k (wl_events L))
     \<and> (\<forall>e \<in> set (wl_events L). map_of (wl_gaps L) (le_gap_key e) \<noteq> None)
     \<and> legal_log (wl_events L) \<and> chain_check E 1 GENESIS_HASH (wl_events L) = Inr ()"

lemma gap_inv_gap: "gap_inv E L \<Longrightarrow> map_of (wl_gaps L) k = Some g \<Longrightarrow> gap_key g = k \<and> earned E g \<and> wg_state g = replay_of k (wl_events L)"
  unfolding gap_inv_def by blast

lemma transition_inv:
  assumes "gap_inv E L" and "gap_transition E key a L = Inr (L', e)"
  shows "gap_inv E L'"
proof -
  obtain g where g: "map_of (wl_gaps L) key = Some g" "ta_to_state a \<in> set GAP_STATES" "validate_transition g (ta_to_state a) = Inr ()" "gap_valid g"
    and chk: "validate_authority (updated_gap a g) (ta_to_state a) (ta_actor_id a) (ta_seat a) = Inr ()" "validate_evidence E (updated_gap a g) (ta_to_state a) = Inr ()"
    and e: "e = transition_event E key a g (wl_events L)"
    and L': "wl_gaps L' = dict_set (wl_gaps L) key ((updated_gap a g)\<lparr>wg_state := ta_to_state a\<rparr>)" "wl_events L' = wl_events L @ [e]"
    using assms(2) unfolding transition_conv by auto
  note i = gap_inv_gap [OF assms(1) g(1)]
  have new: "earned E ((updated_gap a g)\<lparr>wg_state := ta_to_state a\<rparr>)" by (rule transition_earned [OF _ g(3,2) chk]) (use i in blast)
  have "gap_key x = k \<and> earned E x \<and> wg_state x = replay_of k (wl_events L')"
    if "((map_of (wl_gaps L))(key \<mapsto> (updated_gap a g)\<lparr>wg_state := ta_to_state a\<rparr>)) k = Some x" for k x
    using that i new gap_inv_gap [OF assms(1), of k x] by (cases "k = key") (auto simp: L'(2) e)
  moreover have "legal_log (wl_events L')"
    unfolding L'(2) legal_log_snoc using assms(1) i transition_legal [OF g(3)] g(4) by (simp add: gap_inv_def e gap_valid_def)
  moreover have "chain_check E 1 GENESIS_HASH (wl_events L') = Inr ()" using assms(1) chain_check_snoc unfolding L'(2) e gap_inv_def by blast
  moreover have "\<forall>x \<in> set (wl_events L'). map_of (wl_gaps L') (le_gap_key x) \<noteq> None" using assms(1) by (auto simp: gap_inv_def L' e)
  moreover have "distinct (dict_keys (wl_gaps L'))" using assms(1) by (simp add: gap_inv_def L')
  ultimately show ?thesis unfolding gap_inv_def L'(1) dict_get_set by blast
qed

lemma register_inv:
  assumes "gap_inv E L" and "gap_register g L = Inr L'" and "WorkGap_post_init g = Inr g" and "wg_state g = ''UNMAPPED''"
  shows "gap_inv E L'"
proof -
  have n: "map_of (wl_gaps L) (gap_key g) = None" and L': "wl_gaps L' = dict_set (wl_gaps L) (gap_key g) g" "wl_events L' = wl_events L"
    using assms(2) by (auto simp: gap_register_def in_dict_def split: if_splits)
  have "\<forall>e \<in> set (wl_events L). le_gap_key e \<noteq> gap_key g" using assms(1) n unfolding gap_inv_def by metis
  then have r: "replay_of (gap_key g) (wl_events L) = ''UNMAPPED''" by (rule replay_of_absent)
  have "gap_valid g" using assms(3) by (simp add: WorkGap_post_init_conv)
  then have e: "earned E g" using assms(4) by (simp add: earned_def PROGRESS_STATES_def)
  have "gap_key x = k \<and> earned E x \<and> wg_state x = replay_of k (wl_events L)" if "((map_of (wl_gaps L))(gap_key g \<mapsto> g)) k = Some x" for k x
    using that e r assms(4) gap_inv_gap [OF assms(1), of k x] by (cases "k = gap_key g") auto
  moreover have "\<forall>x \<in> set (wl_events L). ((map_of (wl_gaps L))(gap_key g \<mapsto> g)) (le_gap_key x) \<noteq> None" using assms(1) by (auto simp: gap_inv_def)
  ultimately show ?thesis using assms(1) unfolding gap_inv_def L' dict_get_set by (simp only: distinct_keys_set) blast
qed

lemma set_owner_inv:
  assumes "gap_inv E L" and "map_of (wl_gaps L) k = Some g" and "wg_state g = ''UNMAPPED''"
    and "g' = g\<lparr>wg_owner_project := p, wg_owner_agent := q\<rparr>" and L1: "wl_gaps L1 = dict_set (wl_gaps L) k g'" "wl_events L1 = wl_events L"
  shows "gap_inv E L1"
proof -
  note i = gap_inv_gap [OF assms(1,2)]
  have "gap_key g' = k" "earned E g'" "wg_state g' = replay_of k (wl_events L)"
    using i assms(3,4) by (auto simp: earned_def PROGRESS_STATES_def gap_key_def gap_valid_def)
  then have "gap_key x = k' \<and> earned E x \<and> wg_state x = replay_of k' (wl_events L)" if "((map_of (wl_gaps L))(k \<mapsto> g')) k' = Some x" for k' x
    using that gap_inv_gap [OF assms(1), of k' x] by (cases "k' = k") auto
  moreover have "\<forall>x \<in> set (wl_events L). ((map_of (wl_gaps L))(k \<mapsto> g')) (le_gap_key x) \<noteq> None" using assms(1) by (auto simp: gap_inv_def)
  moreover have "distinct (dict_keys (dict_set (wl_gaps L) k g'))" using assms(1) by (simp add: gap_inv_def)
  ultimately show ?thesis using assms(1) unfolding gap_inv_def L1 dict_get_set by blast
qed

lemma assign_owner_inv:
  assumes "gap_inv E L" and "assign_owner E key p q actor L = (L', r)"
  shows "gap_inv E L'"
proof -
  consider "L' = L" | g g' where "map_of (wl_gaps L) key = Some g" "wg_state g = ''UNMAPPED''" "g' = g\<lparr>wg_owner_project := Some p, wg_owner_agent := Some q\<rparr>"
      "L' = L\<lparr>wl_gaps := dict_set (wl_gaps L) key g'\<rparr> \<or> (\<exists>e. gap_transition E key (plain_args ''OWNED'' actor ''coverage'') (L\<lparr>wl_gaps := dict_set (wl_gaps L) key g'\<rparr>) = Inr (L', e))"
    using assms(2) by (auto simp: assign_owner_def Let_def find_gap_conv WorkGap_post_init_conv split: if_splits sum.splits)
  then show ?thesis
  proof cases
    case 2
    then have "gap_inv E (L\<lparr>wl_gaps := dict_set (wl_gaps L) key g'\<rparr>)" using set_owner_inv [OF assms(1) 2(1,2,3)] by simp
    then show ?thesis using 2(4) transition_inv by blast
  qed (use assms(1) in simp)
qed

lemma regress_loop_inv:
  "regress_loop E key actor ev ks L = (L', r) \<Longrightarrow> gap_inv E L \<Longrightarrow> gap_inv E L'"
proof (induction ks arbitrary: L L' r)
  case (Cons k ks)
  show ?case
  proof (cases "\<exists>g. map_of (wl_gaps L) k = Some g \<and> wg_state g \<noteq> ''REGRESSED''")
    case False
    then show ?thesis using Cons.prems Cons.IH by (cases "map_of (wl_gaps L) k") auto
  next
    case True
    then obtain g where g: "map_of (wl_gaps L) k = Some g" "wg_state g \<noteq> ''REGRESSED''" by blast
    let ?t = "gap_transition E k ((plain_args ''REGRESSED'' actor ''completion'')\<lparr>ta_evidence := ev,
      ta_facts := [(''regressed_from'', JStr (wg_state g)), (''root_gap'', JStr key)]\<rparr>) L"
    show ?thesis
    proof (cases ?t)
      case (Inl x)
      then show ?thesis using Cons.prems g by simp
    next
      case (Inr q)
      obtain L1 e where q: "q = (L1, e)" by (cases q)
      obtain L2 r2 where r: "regress_loop E key actor ev ks L1 = (L2, r2)" by (cases "regress_loop E key actor ev ks L1")
      have "gap_inv E L1" using transition_inv [OF Cons.prems(2)] Inr q by blast
      moreover have "L' = L2" using Cons.prems(1) g Inr q r by simp
      ultimately show ?thesis using Cons.IH [OF r] by blast
    qed
  qed
qed simp

inductive gap_step :: "gap_env \<Rightarrow> WorkGapLedger \<Rightarrow> WorkGapLedger \<Rightarrow> bool" for E where
  step_register: "WorkGap_post_init g = Inr g \<Longrightarrow> wg_state g = ''UNMAPPED'' \<Longrightarrow> gap_register g L = Inr L' \<Longrightarrow> gap_step E L L'"
| step_owner: "assign_owner E key project agent actor L = (L', r) \<Longrightarrow> gap_step E L L'"
| step_transition: "gap_transition E key a L = Inr (L', e) \<Longrightarrow> gap_step E L L'"
| step_regress: "gap_regress E key actor evidence L = (L', r) \<Longrightarrow> gap_step E L L'"

definition empty_ledger :: WorkGapLedger where
  "empty_ledger = \<lparr>wl_gaps = [], wl_events = []\<rparr>"

interpretation gap_ledger: state_machine "\<lambda>L. L = empty_ledger" "gap_step E" "gap_inv E" for E
proof
  show "gap_inv E L" if "L = empty_ledger" for L using that by (simp add: empty_ledger_def gap_inv_def)
  show "gap_inv E L'" if "gap_step E L L'" "gap_inv E L" for L L'
    using that by (cases rule: gap_step.cases) (auto simp: gap_regress_def intro: register_inv assign_owner_inv transition_inv regress_loop_inv)
qed

section \<open>What a regression reaches\<close>

definition depends_on :: "WorkGap list \<Rightarrow> string \<Rightarrow> string \<Rightarrow> bool" where
  "depends_on gs k d \<longleftrightarrow> (\<exists>g \<in> set gs. gap_key g = k \<and> d \<in> set (wg_dependencies g))"

lemma affected_pass_sound:
  assumes "\<And>x. x \<in> set A \<Longrightarrow> P x" and "\<And>g d. g \<in> set gs \<Longrightarrow> d \<in> set (wg_dependencies g) \<Longrightarrow> P d \<Longrightarrow> P (gap_key g)"
  shows "x \<in> set (affected_pass A gs) \<Longrightarrow> P x"
  using assms
proof (induction gs arbitrary: A)
  case (Cons g gs)
  let ?A = "if gap_key g \<notin> set A \<and> (\<exists>d \<in> set (wg_dependencies g). d \<in> set A) then A @ [gap_key g] else A"
  have x: "x \<in> set (affected_pass ?A gs)" using Cons.prems(1) by simp
  have A: "P y" if "y \<in> set ?A" for y using that Cons.prems(2,3) by (auto split: if_splits)
  have "P (gap_key h)" if "h \<in> set gs" "d \<in> set (wg_dependencies h)" "P d" for h d using Cons.prems(3) that by auto
  from Cons.IH [OF x A this] show ?case .
qed simp

lemma affected_pass_closed:
  "length (affected_pass A gs) = length A \<Longrightarrow> g \<in> set gs \<Longrightarrow> d \<in> set (wg_dependencies g) \<Longrightarrow> d \<in> set A \<Longrightarrow> gap_key g \<in> set A"
proof (induction gs arbitrary: A)
  case (Cons h gs)
  show ?case
  proof (cases "gap_key h \<notin> set A \<and> (\<exists>d \<in> set (wg_dependencies h). d \<in> set A)")
    case True
    then have "length A < length (affected_pass A (h # gs))" using affected_pass_mono [of "A @ [gap_key h]" gs] by simp
    then show ?thesis using Cons.prems(1) by simp
  next
    case False
    then have "affected_pass A (h # gs) = affected_pass A gs" by (simp only: affected_pass.simps if_False)
    then show ?thesis using Cons False by auto
  qed
qed simp

lemma affected_loop_exact: "x \<in> set (affected_loop gs A) \<longleftrightarrow> (\<exists>a \<in> set A. (depends_on gs)\<^sup>*\<^sup>* x a)"
proof (induction gs A rule: affected_loop.induct)
  case (1 gs A)
  let ?B = "affected_pass A gs"
  have sound: "\<exists>a \<in> set A. (depends_on gs)\<^sup>*\<^sup>* y a" if "y \<in> set ?B" for y
  proof (rule affected_pass_sound [OF _ _ that])
    fix g d assume "g \<in> set gs" "d \<in> set (wg_dependencies g)" "\<exists>a \<in> set A. (depends_on gs)\<^sup>*\<^sup>* d a"
    then show "\<exists>a \<in> set A. (depends_on gs)\<^sup>*\<^sup>* (gap_key g) a" by (meson converse_rtranclp_into_rtranclp depends_on_def)
  qed blast
  show ?case
  proof (cases "length ?B = length A")
    case True
    have "y \<in> set A" if "(depends_on gs)\<^sup>*\<^sup>* y a" "a \<in> set A" for y a
      using that(1) by (induction rule: converse_rtranclp_induct) (auto simp: that(2) depends_on_def intro: affected_pass_closed [OF True])
    then show ?thesis using True by (auto simp: affected_loop.simps [of gs A] Let_def)
  next
    case False
    have "affected_loop gs A = affected_loop gs ?B" using False by (simp add: affected_loop.simps [of gs A] Let_def)
    moreover have "(\<exists>b \<in> set ?B. (depends_on gs)\<^sup>*\<^sup>* x b) \<longleftrightarrow> (\<exists>a \<in> set A. (depends_on gs)\<^sup>*\<^sup>* x a)"
      using sound affected_pass_mono [of A gs] by (meson rtranclp_trans subsetD)
    ultimately show ?thesis using 1 [OF refl False] by simp
  qed
qed

lemma regress_transition:
  assumes "gap_inv E L" and "map_of (wl_gaps L) k = Some g" and "actor \<noteq> []"
  shows "\<exists>L1 e g1. gap_transition E k ((plain_args ''REGRESSED'' actor seat)\<lparr>ta_evidence := ev, ta_facts := f\<rparr>) L = Inr (L1, e)
    \<and> wl_gaps L1 = dict_set (wl_gaps L) k g1 \<and> wg_state g1 = ''REGRESSED'' \<and> le_gap_key e = k"
proof -
  have v: "gap_valid g" using gap_inv_gap [OF assms(1,2)] by (simp add: earned_def)
  have "validate_dependencies L ds ''REGRESSED'' = Inr ()" for ds by (cases ds) auto
  moreover have "validate_evidence E h ''REGRESSED'' = Inr ()" for h
    by (simp add: validate_evidence_def REQUIRED_EVIDENCE_def PROGRESS_STATES_def)
  moreover have "validate_transition g ''REGRESSED'' = Inr ()" by (simp add: validate_transition_def EXCEPTION_STATES_def)
  moreover have "validate_authority h ''REGRESSED'' actor seat = Inr ()" for h using assms(3) by (simp add: validate_authority_def)
  moreover have "''REGRESSED'' \<in> set GAP_STATES" by (simp add: state_sets)
  ultimately have "gap_transition E k ((plain_args ''REGRESSED'' actor seat)\<lparr>ta_evidence := ev, ta_facts := f\<rparr>) L =
      Inr (L\<lparr>wl_gaps := dict_set (wl_gaps L) k ((updated_gap ((plain_args ''REGRESSED'' actor seat)\<lparr>ta_evidence := ev, ta_facts := f\<rparr>) g)\<lparr>wg_state := ''REGRESSED''\<rparr>),
        wl_events := wl_events L @ [transition_event E k ((plain_args ''REGRESSED'' actor seat)\<lparr>ta_evidence := ev, ta_facts := f\<rparr>) g (wl_events L)]\<rparr>,
        transition_event E k ((plain_args ''REGRESSED'' actor seat)\<lparr>ta_evidence := ev, ta_facts := f\<rparr>) g (wl_events L))"
    unfolding transition_conv using assms(2) v by (simp add: plain_args_def)
  then show ?thesis by fastforce
qed

lemma regress_loop_ok:
  assumes "gap_inv E L" and "\<forall>k \<in> set ks. map_of (wl_gaps L) k \<noteq> None" and "actor \<noteq> []"
  shows "\<exists>L' es. regress_loop E key actor ev ks L = (L', Inr es)
    \<and> (\<forall>k g. map_of (wl_gaps L) k = Some g \<longrightarrow> k \<in> set ks \<longrightarrow> (\<exists>g'. map_of (wl_gaps L') k = Some g' \<and> wg_state g' = ''REGRESSED''))
    \<and> (\<forall>k. k \<notin> set ks \<longrightarrow> map_of (wl_gaps L') k = map_of (wl_gaps L) k)
    \<and> (\<forall>e \<in> set es. le_gap_key e \<in> set ks)"
  using assms
proof (induction ks arbitrary: L)
  case (Cons k ks)
  obtain g where g: "map_of (wl_gaps L) k = Some g" using Cons.prems(2) by auto
  show ?case
  proof (cases "wg_state g = ''REGRESSED''")
    case True
    obtain L' es where r: "regress_loop E key actor ev ks L = (L', Inr es)"
      "\<forall>k g. map_of (wl_gaps L) k = Some g \<longrightarrow> k \<in> set ks \<longrightarrow> (\<exists>g'. map_of (wl_gaps L') k = Some g' \<and> wg_state g' = ''REGRESSED'')"
      "\<forall>k. k \<notin> set ks \<longrightarrow> map_of (wl_gaps L') k = map_of (wl_gaps L) k" "\<forall>e \<in> set es. le_gap_key e \<in> set ks"
      using Cons.IH [OF Cons.prems(1) _ Cons.prems(3)] Cons.prems(2) by auto
    have "\<exists>g'. map_of (wl_gaps L') x = Some g' \<and> wg_state g' = ''REGRESSED''" if "map_of (wl_gaps L) x = Some h" "x \<in> set (k # ks)" for x h
      using r(2,3) that g True by (cases "x \<in> set ks") auto
    then show ?thesis using r(1,3,4) g True by auto
  next
    case False
    let ?a = "(plain_args ''REGRESSED'' actor ''completion'')\<lparr>ta_evidence := ev, ta_facts := [(''regressed_from'', JStr (wg_state g)), (''root_gap'', JStr key)]\<rparr>"
    obtain L1 e g1 where t: "gap_transition E k ?a L = Inr (L1, e)" "wl_gaps L1 = dict_set (wl_gaps L) k g1" "wg_state g1 = ''REGRESSED''" "le_gap_key e = k"
      using regress_transition [OF Cons.prems(1) g Cons.prems(3)] by blast
    have i: "gap_inv E L1" by (rule transition_inv [OF Cons.prems(1) t(1)])
    have d: "\<forall>k \<in> set ks. map_of (wl_gaps L1) k \<noteq> None" using Cons.prems(2) by (simp add: t(2))
    obtain L' es where r: "regress_loop E key actor ev ks L1 = (L', Inr es)"
      "\<forall>k g. map_of (wl_gaps L1) k = Some g \<longrightarrow> k \<in> set ks \<longrightarrow> (\<exists>g'. map_of (wl_gaps L') k = Some g' \<and> wg_state g' = ''REGRESSED'')"
      "\<forall>k. k \<notin> set ks \<longrightarrow> map_of (wl_gaps L') k = map_of (wl_gaps L1) k" "\<forall>e \<in> set es. le_gap_key e \<in> set ks"
      using Cons.IH [OF i d Cons.prems(3)] by blast
    have "\<exists>g'. map_of (wl_gaps L') x = Some g' \<and> wg_state g' = ''REGRESSED''" if x: "map_of (wl_gaps L) x = Some h" "x \<in> set (k # ks)" for x h
    proof (cases "x \<in> set ks")
      case True
      have "\<exists>h1. map_of (wl_gaps L1) x = Some h1" using x(1) by (simp add: t(2))
      then show ?thesis using r(2) True by blast
    next
      case False
      then show ?thesis using r(3) x t(2,3) by simp
    qed
    moreover have "regress_loop E key actor ev (k # ks) L = (L', Inr (e # es))" using g False t(1) r(1) by simp
    moreover have "\<forall>x. x \<notin> set (k # ks) \<longrightarrow> map_of (wl_gaps L') x = map_of (wl_gaps L) x" using r(3) by (simp add: t(2))
    moreover have "\<forall>x \<in> set (e # es). le_gap_key x \<in> set (k # ks)" using r(4) t(4) by auto
    ultimately show ?thesis by blast
  qed
qed simp

lemma depends_on_known: "distinct (dict_keys d) \<Longrightarrow> (\<And>k g. map_of d k = Some g \<Longrightarrow> gap_key g = k) \<Longrightarrow> depends_on (dict_values d) k x \<Longrightarrow> \<exists>g. map_of d k = Some g"
  unfolding depends_on_def by (metis dict_values_get)

section \<open>Properties of the ledger\<close>


text \<open>C39: a regression reaches exactly the dependents. From every reachable ledger, regressing a registered gap returns its events, leaves every gap that depends on it, directly or through
  other gaps, itself included, in REGRESSED, and changes no other gap.\<close>
theorem regress_exact:
  assumes "(gap_step E)\<^sup>*\<^sup>* empty_ledger L" and "map_of (wl_gaps L) key \<noteq> None" and "actor \<noteq> []"
  shows "\<exists>L' es. gap_regress E key actor evidence L = (L', Inr es)
    \<and> (\<forall>k g. map_of (wl_gaps L) k = Some g \<longrightarrow>
         (if (\<lambda>a b. \<exists>h. map_of (wl_gaps L) a = Some h \<and> b \<in> set (wg_dependencies h))\<^sup>*\<^sup>* k key
          then \<exists>g'. map_of (wl_gaps L') k = Some g' \<and> wg_state g' = ''REGRESSED''
          else map_of (wl_gaps L') k = Some g))"
proof -
  have inv: "gap_inv E L" by (rule gap_ledger.reach_invariant [OF refl assms(1)])
  then have dist: "distinct (dict_keys (wl_gaps L))" and key: "\<And>k g. map_of (wl_gaps L) k = Some g \<Longrightarrow> gap_key g = k"
    by (auto simp: gap_inv_def)
  let ?D = "depends_on (dict_values (wl_gaps L))"
  have rel: "?D = (\<lambda>a b. \<exists>h. map_of (wl_gaps L) a = Some h \<and> b \<in> set (wg_dependencies h))"
    unfolding depends_on_def fun_eq_iff using dict_values_get [OF dist] key dict_get_in_values by metis
  let ?ks = "sort (affected_loop (dict_values (wl_gaps L)) [key])"
  have mem: "k \<in> set ?ks \<longleftrightarrow> ?D\<^sup>*\<^sup>* k key" for k by (simp add: affected_loop_exact)
  have "map_of (wl_gaps L) k \<noteq> None" if "?D\<^sup>*\<^sup>* k key" for k
    using that
  proof (cases rule: converse_rtranclpE)
    case (step y)
    then show ?thesis using depends_on_known [OF dist key step(1)] by auto
  qed (use assms(2) in simp)
  then have "\<forall>k \<in> set ?ks. map_of (wl_gaps L) k \<noteq> None" using mem by blast
  from regress_loop_ok [OF inv this assms(3), of key evidence] obtain L' es where
    r: "regress_loop E key actor evidence ?ks L = (L', Inr es)"
      "\<forall>k g. map_of (wl_gaps L) k = Some g \<longrightarrow> k \<in> set ?ks \<longrightarrow> (\<exists>g'. map_of (wl_gaps L') k = Some g' \<and> wg_state g' = ''REGRESSED'')"
      "\<forall>k. k \<notin> set ?ks \<longrightarrow> map_of (wl_gaps L') k = map_of (wl_gaps L) k" by blast
  have gap: "if ?D\<^sup>*\<^sup>* k key then \<exists>g'. map_of (wl_gaps L') k = Some g' \<and> wg_state g' = ''REGRESSED'' else map_of (wl_gaps L') k = Some g"
    if "map_of (wl_gaps L) k = Some g" for k g
    using r(2,3) that mem [of k] by (cases "?D\<^sup>*\<^sup>* k key") auto
  have "gap_regress E key actor evidence L = (L', Inr es)" using r(1) by (simp only: gap_regress_def)
  then show ?thesis using gap unfolding rel by blast
qed

text \<open>Two verified logs with the same last hash are the same log, unless the event hash collides on them.\<close>

lemma gap_log_tamper_evident:
  assumes "verify_chain E L = Inr ()" and "verify_chain E L' = Inr ()" and "wl_events L \<noteq> []" and "wl_events L' \<noteq> []"
    and "le_hash (last (wl_events L)) = le_hash (last (wl_events L'))"
    and "inj_on (\<lambda>(previous, body). event_hash E previous body) ((\<lambda>e. (le_previous_hash e, JObj (event_payload e))) ` (set (wl_events L) \<union> set (wl_events L')))"
  shows "wl_events L = wl_events L'"
  using gap_chain.same_head [OF _ _ assms(3,4,5)] assms(1,2,6) by (simp add: verify_chain_def)

section \<open>Examples\<close>

definition demo_gap_env :: gap_env where
  "demo_gap_env = \<lparr>gn_sha256 = (\<lambda>_. replicate 32 0), gn_repr = (\<lambda>_. ''?''), gn_int = (\<lambda>_. None)\<rparr>"

definition demo_gap :: "string \<Rightarrow> string list \<Rightarrow> WorkGap" where
  "demo_gap c deps = \<lparr>wg_requirement_id = ''r'', wg_acceptance_criterion_id = c, wg_state = ''UNMAPPED'', wg_owner_project = None, wg_owner_agent = None,
     wg_dependencies = deps, wg_expected_evidence = [''tests''], wg_delivery_target = Some ''main'', wg_executor_id = None, wg_verifier_id = None,
     wg_completion_auditor_id = None, wg_evidence = [], wg_revision = 0, wg_expected_revision = None, wg_installed_artifact = None, wg_source_requery = None\<rparr>"

definition demo_gaps :: WorkGapLedger where
  "demo_gaps = \<lparr>wl_gaps = [(''r:a'', demo_gap ''a'' []), (''r:b'', demo_gap ''b'' [''r:a''])], wl_events = []\<rparr>"

lemma demo_gaps_reached: "(gap_step E)\<^sup>*\<^sup>* empty_ledger demo_gaps"
proof -
  let ?L = "\<lparr>wl_gaps = [(''r:a'', demo_gap ''a'' [])], wl_events = []\<rparr>"
  have v: "WorkGap_post_init (demo_gap ''a'' []) = Inr (demo_gap ''a'' [])" "WorkGap_post_init (demo_gap ''b'' [''r:a'']) = Inr (demo_gap ''b'' [''r:a''])"
    "wg_state (demo_gap c ds) = ''UNMAPPED''" for c ds
    by (simp_all add: WorkGap_post_init_def demo_gap_def gap_key_def state_sets)
  have "gap_register (demo_gap ''a'' []) empty_ledger = Inr ?L" "gap_register (demo_gap ''b'' [''r:a'']) ?L = Inr demo_gaps"
    by (simp_all add: gap_register_def empty_ledger_def demo_gaps_def demo_gap_def gap_key_def in_dict_def)
  then have "gap_step E empty_ledger ?L" "gap_step E ?L demo_gaps" using v step_register by metis+
  then show ?thesis by (meson converse_rtranclp_into_rtranclp rtranclp.rtrancl_refl)
qed

definition demo_owned :: WorkGapLedger where
  "demo_owned = fst (assign_owner demo_gap_env ''r:a'' ''core'' ''agent'' ''lead'' demo_gaps)"

lemma demo_owned_state: "map_option wg_state (map_of (wl_gaps demo_owned) ''r:a'') = Some ''OWNED''"
  by (simp add: demo_owned_def assign_owner_def demo_gaps_def demo_gap_def find_gap_def subscript_def WorkGap_post_init_def gap_transition_def gap_key_def
      state_sets plain_args_def validate_transition_def next_progress_def updated_gap_def validate_authority_def validate_evidence_def REQUIRED_EVIDENCE_def
      owned_def present_def text_or_def object_or_def Let_def)


theorem regress_exact_witness:
  "\<exists>L' es g. gap_regress demo_gap_env ''r:a'' ''lead'' [] demo_gaps = (L', Inr es) \<and> map_of (wl_gaps L') ''r:b'' = Some g \<and> wg_state g = ''REGRESSED''"
proof -
  have a: "map_of (wl_gaps demo_gaps) ''r:a'' \<noteq> None" and b: "map_of (wl_gaps demo_gaps) ''r:b'' = Some (demo_gap ''b'' [''r:a''])" by (simp_all add: demo_gaps_def)
  have "(\<lambda>a b. \<exists>h. map_of (wl_gaps demo_gaps) a = Some h \<and> b \<in> set (wg_dependencies h))\<^sup>*\<^sup>* ''r:b'' ''r:a''"
    by (rule r_into_rtranclp) (simp add: b demo_gap_def)
  moreover have "''lead'' \<noteq> []" by simp
  ultimately show ?thesis using regress_exact [OF demo_gaps_reached a, of "''lead''" demo_gap_env "[]"] b by (metis (no_types, lifting))
qed

section \<open>Defects\<close>

text \<open>A later transition may replace the person in an earlier seat: the one who implemented a gap can verify it, by naming somebody else as its executor.\<close>

lemma self_verification_accepted:
  assumes "map_of (wl_gaps L) key = Some g" and "gap_valid g" and "wg_state g = ''IMPLEMENTED''" and "wg_executor_id g = Some alice" and "owned g"
    and "wg_expected_evidence g \<noteq> []" and "present (wg_delivery_target g)" and "gv_kind v = ''verification''" and "alice \<noteq> []" and "bob \<noteq> []" and "alice \<noteq> bob"
  shows "\<exists>L' e. gap_transition E key ((plain_args ''VERIFIED'' alice ''verifier'')\<lparr>ta_evidence := [v], ta_executor_id := Some bob, ta_verifier_id := Some alice\<rparr>) L = Inr (L', e)"
proof -
  let ?a = "(plain_args ''VERIFIED'' alice ''verifier'')\<lparr>ta_evidence := [v], ta_executor_id := Some bob, ta_verifier_id := Some alice\<rparr>"
  have "validate_transition g ''VERIFIED'' = Inr ()" by (simp add: validate_transition_def assms(3) state_sets next_progress_def)
  moreover have "validate_authority (updated_gap ?a g) ''VERIFIED'' alice ''verifier'' = Inr ()"
    using assms(9-11) by (simp add: validate_authority_def updated_gap_def plain_args_def text_or_def present_def)
  moreover have "validate_evidence E (updated_gap ?a g) ''VERIFIED'' = Inr ()"
    using assms(5-8) by (simp add: validate_evidence_def REQUIRED_EVIDENCE_def plain_args_def)
  moreover have "validate_dependencies L ds ''VERIFIED'' = Inr ()" for ds by (cases ds) auto
  moreover have "''VERIFIED'' \<in> set GAP_STATES" by (simp add: state_sets)
  ultimately show ?thesis unfolding transition_conv using assms(1,2) by (simp add: plain_args_def)
qed

text \<open>Approving a gap as not applicable is refused from UNMAPPED because it has no owner, but not from BLOCKED, which every unowned gap may enter.\<close>

lemma unowned_gap_approved:
  assumes "map_of (wl_gaps L) key = Some g" and "gap_valid g" and "wg_state g = ''BLOCKED''" and "actor \<noteq> []"
  shows "\<exists>L' e. gap_transition E key (plain_args ''N_A_APPROVED'' actor seat) L = Inr (L', e)"
    and "validate_transition (g\<lparr>wg_state := ''UNMAPPED''\<rparr>) ''BLOCKED'' = Inr ()"
proof -
  have "validate_transition g ''N_A_APPROVED'' = Inr ()" by (simp add: validate_transition_def assms(3) state_sets)
  moreover have "validate_authority h ''N_A_APPROVED'' actor seat = Inr ()" for h using assms(4) by (simp add: validate_authority_def)
  moreover have "validate_evidence E h ''N_A_APPROVED'' = Inr ()" for h by (simp add: validate_evidence_def REQUIRED_EVIDENCE_def PROGRESS_STATES_def)
  moreover have "validate_dependencies L ds ''N_A_APPROVED'' = Inr ()" for ds by (cases ds) auto
  moreover have "''N_A_APPROVED'' \<in> set GAP_STATES" by (simp add: state_sets)
  ultimately show "\<exists>L' e. gap_transition E key (plain_args ''N_A_APPROVED'' actor seat) L = Inr (L', e)"
    unfolding transition_conv using assms(1,2) by (simp add: plain_args_def)
  show "validate_transition (g\<lparr>wg_state := ''UNMAPPED''\<rparr>) ''BLOCKED'' = Inr ()" by (simp add: validate_transition_def state_sets)
qed

text \<open>An assignment that is refused for its empty actor has already stored the owner.\<close>

lemma refused_assignment_keeps_owner:
  assumes "map_of (wl_gaps L) key = Some g" and "gap_valid g" and "wg_state g = ''UNMAPPED''" and "p \<noteq> []" and "q \<noteq> []"
  shows "\<exists>L'. assign_owner E key p q [] L = (L', Inl (LedgerError ''actor_id is required''))
    \<and> map_of (wl_gaps L') key = Some (g\<lparr>wg_owner_project := Some p, wg_owner_agent := Some q\<rparr>)"
proof -
  let ?g = "g\<lparr>wg_owner_project := Some p, wg_owner_agent := Some q\<rparr>"
  have "gap_valid ?g" using assms(2) by (simp add: gap_valid_def gap_key_def)
  then have v: "WorkGap_post_init ?g = Inr ?g" "WorkGap_post_init (updated_gap a ?g) = Inr (updated_gap a ?g)" for a by (simp_all add: WorkGap_post_init_conv)
  have t: "validate_transition ?g ''OWNED'' = Inr ()" by (simp add: validate_transition_def assms(3) state_sets next_progress_def)
  have "gap_transition E key (plain_args ''OWNED'' [] ''coverage'') (L\<lparr>wl_gaps := dict_set (wl_gaps L) key ?g\<rparr>) = Inl (LedgerError ''actor_id is required'')"
    using v t by (simp add: gap_transition_def find_gap_def plain_args_def state_sets validate_authority_def)
  then show ?thesis using assms(1,3-5) v(1) by (simp add: assign_owner_def find_gap_def)
qed

text \<open>A regression keeps the evidence: the evidence checks of every later state pass again for a gap that had been delivered once, without anything new.\<close>

lemma stale_evidence_suffices:
  assumes "earned E g" and "wg_state g = ''DELIVERED''"
  shows "validate_evidence E (updated_gap (plain_args s actor seat) (g\<lparr>wg_state := ''REGRESSED''\<rparr>)) s = Inr ()"
proof -
  let ?h = "updated_gap (plain_args s actor seat) (g\<lparr>wg_state := ''REGRESSED''\<rparr>)"
  have "''DELIVERED'' \<in> set (drop n PROGRESS_STATES)" if "n \<in> {1, 2, 3, 4, 5}" for n using that by (auto simp: PROGRESS_STATES_def)
  then have e: "owned g" "wg_expected_evidence g \<noteq> []" "present (wg_delivery_target g)" "validate_installed_delivery E g = Inr ()"
    "{''implementation'', ''verification'', ''integration'', ''delivery''} \<subseteq> kinds_of g" using assms by (simp_all add: earned_def)
  have "validate_installed_delivery E ?h = Inr ()" using e(4)
    by (simp add: validate_installed_delivery_def updated_gap_def plain_args_def text_or_def object_or_def present_def)
  moreover have "required \<in> gv_kind ` set (wg_evidence g)" if "map_of REQUIRED_EVIDENCE s = Some required" for required
    using that e(5) by (auto simp: REQUIRED_EVIDENCE_def kinds_of_def split: if_splits)
  moreover have "wg_evidence ?h = wg_evidence g" by (simp add: plain_args_def)
  ultimately show ?thesis using e(1-3) unfolding validate_evidence_def
    by (cases "map_of REQUIRED_EVIDENCE s") (auto simp del: updated_gap_simps(4))
qed

text \<open>Registration accepts a gap in any state, a delivered one included, and such a gap is not unresolved.\<close>

lemma registered_delivered:
  assumes "gap_register g L = Inr L'" and "wg_state g = ''DELIVERED''"
  shows "map_of (wl_gaps L') (gap_key g) = Some g" and "g \<notin> set (unresolved L')"
  using assms by (auto simp: gap_register_def unresolved_def GAP_TERMINAL_STATES_def split: if_splits)

end
