(* ===== verification/Work_Gap_Snapshot.thy ===== *)
theory Work_Gap_Snapshot
  imports Work_Gap_Ledger
begin

text \<open>
  The validator of an exported work gap snapshot (\<open>validate_work_gap_snapshot\<close> of \<open>work_gap_ledger.py\<close>): the checks of each gap, the search for
  dependency cycles, and the replay of the event log with its authority checks.

  A snapshot is a JSON value. An exception that the validator does not catch is the left summand; it arises from values of an unexpected
  type. The errors are the source's texts, with \<open>gn_repr\<close> for \<open>repr\<close>.
\<close>

section \<open>Validation of a snapshot\<close>

definition iterate :: "json \<Rightarrow> gap_failure + json list" where
  \<comment> \<open>the items of \<open>for x in v or []\<close>\<close>
  "iterate v = (if \<not> truthy v then Inr [] else case v of
     JArr xs \<Rightarrow> Inr xs | JStr s \<Rightarrow> Inr (map (\<lambda>c. JStr [c]) s) | JObj d \<Rightarrow> Inr (map (\<lambda>p. JStr (fst p)) d) | _ \<Rightarrow> Inl GapTypeError)"

definition snap_text :: "gap_env \<Rightarrow> (string \<times> json) list \<Rightarrow> string \<Rightarrow> string" where
  \<comment> \<open>\<open>f"{gap.get(k, '')}"\<close>\<close>
  "snap_text E gap k = (case map_of gap k of None \<Rightarrow> [] | Some v \<Rightarrow> py_str (gn_repr E) v)"

definition snap_key :: "gap_env \<Rightarrow> (string \<times> json) list \<Rightarrow> string" where
  "snap_key E gap = snap_text E gap ''requirement_id'' @ '':'' @ snap_text E gap ''acceptance_criterion_id''"

definition gap_objects :: "json list \<Rightarrow> (string \<times> json) list list" where
  "gap_objects gaps = concat (map (\<lambda>v. case v of JObj d \<Rightarrow> [d] | _ \<Rightarrow> []) gaps)"

definition text_of :: "gap_env \<Rightarrow> (string \<times> json) list \<Rightarrow> string \<Rightarrow> string" where
  \<comment> \<open>\<open>str(d.get(k) or "")\<close>\<close>
  "text_of E d k = py_str (gn_repr E) (jor (jget d k) (JStr []))"

definition row_evidence :: "gap_env \<Rightarrow> (string \<times> json) list \<Rightarrow> gap_failure + Evidence" where
  "row_evidence E d = Evidence_post_init \<lparr>gv_kind = text_of E d ''kind'', gv_handle = text_of E d ''handle'', gv_digest = text_of E d ''digest'',
     gv_actor_id = text_of E d ''actor_id''\<rparr>"

definition int_raises :: "gap_env \<Rightarrow> json \<Rightarrow> gap_failure option" where
  \<comment> \<open>the exception of \<open>int(v or 0)\<close>\<close>
  "int_raises E v = (if \<not> truthy v then None else case v of
     JStr s \<Rightarrow> (if gn_int E s = None then Some GapValueError else None) | JArr _ \<Rightarrow> Some GapTypeError | JObj _ \<Rightarrow> Some GapTypeError | _ \<Rightarrow> None)"

definition gap_from_mapping :: "gap_env \<Rightarrow> (string \<times> json) list \<Rightarrow> gap_failure + json \<times> json \<times> json" where
  \<comment> \<open>\<open>_gap_from_mapping\<close>: what it raises, and the three fields that its caller reads\<close>
  "gap_from_mapping E gap =
    ebind (iterate (jget gap ''evidence'')) (\<lambda>rows. ebind (map_checked (row_evidence E) (gap_objects rows)) (\<lambda>_.
    ebind (iterate (jget gap ''dependencies'')) (\<lambda>deps. ebind (iterate (jget gap ''expected_evidence'')) (\<lambda>_.
    let req = text_of E gap ''requirement_id''; crit = text_of E gap ''acceptance_criterion_id'';
        state = py_str (gn_repr E) (jor (jget gap ''state'') (JStr ''UNMAPPED''))
    in case int_raises E (jget gap ''revision'') of
         Some e \<Rightarrow> Inl e
       | None \<Rightarrow>
           if req = [] \<or> crit = [] then Inl (LedgerError ''requirement and acceptance criterion IDs are required'')
           else if state \<notin> set GAP_STATES then Inl (LedgerError (''unknown work-gap state: '' @ state))
           else if \<exists>d \<in> set deps. \<not> hashable d then Inl GapTypeError
           else if \<not> distinct (map py_norm deps) then Inl (LedgerError ''duplicate dependencies are not allowed'')
           else if JStr (req @ '':'' @ crit) \<in> set deps then Inl (LedgerError ''a work gap cannot depend on itself'')
           else Inr (jget gap ''expected_revision'', jget gap ''installed_artifact'', jget gap ''source_requery'')))))"

fun dependency_errors :: "gap_env \<Rightarrow> json list \<Rightarrow> string list \<Rightarrow> string \<Rightarrow> json list \<Rightarrow> gap_failure + string list" where
  "dependency_errors E gaps delivered key [] = Inr []"
| "dependency_errors E gaps delivered key (d # ds) =
    (if \<not> hashable d then Inl GapTypeError
     else ebind (dependency_errors E gaps delivered key ds) (\<lambda>errs.
       Inr ((if d \<notin> JStr ` set delivered \<and> d \<notin> (\<lambda>g. JStr (snap_key E g)) ` set (gap_objects gaps)
             then [key @ '' references an unknown dependency '' @ gn_repr E d] else []) @ errs)))"

fun evidence_errors :: "gap_env \<Rightarrow> string \<Rightarrow> json list \<Rightarrow> gap_failure + string list \<times> json list" where
  \<comment> \<open>the errors and the kinds of the evidence rows\<close>
  "evidence_errors E key [] = Inr ([], [])"
| "evidence_errors E key (JObj row # rows) =
    (if \<not> hashable (jget row ''kind'') then Inl GapTypeError
     else ebind (evidence_errors E key rows) (\<lambda>(errs, kinds).
       Inr ((if lower_sha256 (text_of E row ''digest'') then [] else [key @ '' has invalid evidence digest'']) @ errs, jget row ''kind'' # kinds)))"
| "evidence_errors E key (_ # rows) =
    ebind (evidence_errors E key rows) (\<lambda>(errs, kinds). Inr ((key @ '' has malformed evidence'') # errs, kinds))"

definition delivered_errors :: "gap_env \<Rightarrow> string \<Rightarrow> (string \<times> json) list \<Rightarrow> json list \<Rightarrow> gap_failure + string list" where
  \<comment> \<open>the checks of a delivered gap after its evidence has been read\<close>
  "delivered_errors E key gap kinds =
    (let missing = map (\<lambda>k. key @ '' lacks '' @ k @ '' evidence'') (filter (\<lambda>k. JStr k \<notin> set kinds) [''implementation'', ''verification'', ''integration'', ''delivery''])
     in case ebind (gap_from_mapping E gap) (\<lambda>(expected, installed, source). check_delivery E expected installed source) of
          Inr _ \<Rightarrow> Inr missing
        | Inl (LedgerError e) \<Rightarrow> Inr (missing @ [key @ '': '' @ e])
        | Inl e \<Rightarrow> Inl e)"

definition seats :: "(string \<times> json) list \<Rightarrow> json list" where
  "seats gap = [jget gap ''executor_id'', jget gap ''verifier_id'', jget gap ''completion_auditor_id'']"

definition seat_errors :: "string \<Rightarrow> (string \<times> json) list \<Rightarrow> gap_failure + string list" where
  "seat_errors key gap =
    (if jget gap ''state'' \<noteq> JStr ''DELIVERED'' then Inr []
     else if \<exists>v \<in> set (seats gap). \<not> truthy v then Inr [key @ '' lacks three independent terminal seats'']
     else if \<exists>v \<in> set (seats gap). \<not> hashable v then Inl GapTypeError
     else if \<not> distinct (map py_norm (seats gap)) then Inr [key @ '' lacks three independent terminal seats''] else Inr [])"

definition head_errors :: "gap_env \<Rightarrow> bool \<Rightarrow> (string \<times> json) list \<Rightarrow> string list" where
  "head_errors E dup gap =
    (let key = snap_key E gap
     in (if dup then [''duplicate gap '' @ key] else [])
        @ (if jget gap ''state'' \<noteq> JStr ''DELIVERED'' then [key @ '' is '' @ gn_repr E (jget gap ''state'') @ '', not DELIVERED''] else [])
        @ (if \<not> truthy (jget gap ''owner_project'') \<or> \<not> truthy (jget gap ''owner_agent'') then [key @ '' has no owner''] else []))"

definition evidence_list :: "string \<Rightarrow> (string \<times> json) list \<Rightarrow> string list \<times> json list" where
  "evidence_list key gap = (case jget gap ''evidence'' of JArr rows \<Rightarrow> ([], rows) | _ \<Rightarrow> ([key @ '' evidence must be a list''], []))"

definition gap_errors :: "gap_env \<Rightarrow> json list \<Rightarrow> bool \<Rightarrow> string list \<Rightarrow> (string \<times> json) list \<Rightarrow> gap_failure + string list" where
  \<comment> \<open>the errors of one gap; \<open>dup\<close> says that an earlier gap has its key, \<open>delivered\<close> are the delivered keys so far, its own included\<close>
  "gap_errors E gaps dup delivered gap =
    ebind (seat_errors (snap_key E gap) gap) (\<lambda>seat_errs.
    ebind (iterate (jget gap ''dependencies'')) (\<lambda>deps.
    ebind (dependency_errors E gaps delivered (snap_key E gap) deps) (\<lambda>dep_errs.
    ebind (evidence_errors E (snap_key E gap) (snd (evidence_list (snap_key E gap) gap))) (\<lambda>(ev_errs, kinds).
    ebind (if jget gap ''state'' = JStr ''DELIVERED'' then delivered_errors E (snap_key E gap) gap kinds else Inr []) (\<lambda>last_errs.
      Inr (head_errors E dup gap @ seat_errs @ dep_errs @ fst (evidence_list (snap_key E gap) gap) @ ev_errs @ last_errs))))))"

fun gaps_loop :: "gap_env \<Rightarrow> json list \<Rightarrow> nat \<Rightarrow> string list \<Rightarrow> (string, (string \<times> json) list) dict \<Rightarrow> json list
    \<Rightarrow> gap_failure + string list \<times> (string, (string \<times> json) list) dict" where
  "gaps_loop E gaps n delivered G [] = Inr ([], G)"
| "gaps_loop E gaps n delivered G (JObj gap # rest) =
    (let key = snap_key E gap;
         delivered' = (if jget gap ''state'' = JStr ''DELIVERED'' then delivered @ [key] else delivered)
     in ebind (gap_errors E gaps (in_dict key G) delivered' gap) (\<lambda>errs.
        ebind (gaps_loop E gaps (Suc n) delivered' (dict_set G key gap) rest) (\<lambda>(errs', G'). Inr (errs @ errs', G'))))"
| "gaps_loop E gaps n delivered G (_ # rest) =
    ebind (gaps_loop E gaps (Suc n) delivered G rest) (\<lambda>(errs, G'). Inr ((''gap '' @ show_int (int n) @ '' is not an object'') # errs, G'))"

definition deps_of :: "(string \<times> json) list \<Rightarrow> json list" where
  \<comment> \<open>the dependencies of a gap; the loop over the gaps has already iterated over them without an exception\<close>
  "deps_of gap = (case iterate (jget gap ''dependencies'') of Inr deps \<Rightarrow> deps | Inl _ \<Rightarrow> [])"

definition dep_keys :: "(string, (string \<times> json) list) dict \<Rightarrow> string \<Rightarrow> string list" where
  \<comment> \<open>the dependencies of a key that are keys themselves\<close>
  "dep_keys G key = (case map_of G key of None \<Rightarrow> []
     | Some gap \<Rightarrow> concat (map (\<lambda>d. case d of JStr k \<Rightarrow> if in_dict k G then [k] else [] | _ \<Rightarrow> []) (deps_of gap)))"

fun arrows :: "string list \<Rightarrow> string" where
  "arrows [] = []" | "arrows [x] = x" | "arrows (x # y # xs) = x @ '' -> '' @ arrows (y # xs)"

lemma visit_decreases:
  assumes "k \<notin> set trail"
  shows "card (fst ` set G - insert k (set trail)) < card (fst ` set G - set trail)
    \<or> card (fst ` set G - insert k (set trail)) = card (fst ` set G - set trail) \<and> dep_keys G k = []"
proof (cases "k \<in> fst ` set G")
  case True
  then have "fst ` set G - insert k (set trail) \<subset> fst ` set G - set trail" using assms by auto
  then show ?thesis by (simp add: psubset_card_mono)
next
  case False
  then have "dep_keys G k = []" using map_of_eq_None_iff [of G k] by (simp add: dep_keys_def)
  moreover have "fst ` set G - insert k (set trail) = fst ` set G - set trail" using False by blast
  ultimately show ?thesis by simp
qed

function visit_keys :: "(string, (string \<times> json) list) dict \<Rightarrow> string list \<Rightarrow> string list \<Rightarrow> string list \<times> string list \<Rightarrow> string list \<times> string list" where
  \<comment> \<open>\<open>visit\<close> on each key of a list; the keys being visited are those of the trail\<close>
  "visit_keys G trail [] st = st"
| "visit_keys G trail (k # ks) st =
    (if k \<in> set trail then visit_keys G trail ks (fst st, snd st @ [''dependency cycle: '' @ arrows (trail @ [k])])
     else if k \<in> set (fst st) then visit_keys G trail ks st
     else visit_keys G trail ks ((\<lambda>s. (fst s @ [k], snd s)) (visit_keys G (trail @ [k]) (dep_keys G k) st)))"
  by pat_completeness auto
termination
  using visit_decreases
  by (relation "measures [\<lambda>(G, trail, ks, st). card (set (dict_keys G) - set trail), \<lambda>(G, trail, ks, st). length ks]") fastforce+

fun terminal_dep_errors :: "gap_env \<Rightarrow> (string, (string \<times> json) list) dict \<Rightarrow> string \<Rightarrow> (string \<times> json) list \<Rightarrow> json list \<Rightarrow> gap_failure + string list" where
  "terminal_dep_errors E G key gap [] = Inr []"
| "terminal_dep_errors E G key gap (d # ds) =
    (if \<not> hashable (jget gap ''state'') then Inl GapTypeError
     else case map_of G (py_str (gn_repr E) d) of
       Some dep \<Rightarrow>
         if jget gap ''state'' \<in> {JStr ''INTEGRATED'', JStr ''DELIVERED''} \<and> \<not> hashable (jget dep ''state'') then Inl GapTypeError
         else ebind (terminal_dep_errors E G key gap ds) (\<lambda>errs.
           Inr ((if jget gap ''state'' \<in> {JStr ''INTEGRATED'', JStr ''DELIVERED''} \<and> jget dep ''state'' \<notin> JStr ` set GAP_TERMINAL_STATES
                 then [key @ '' depends on non-terminal '' @ py_str (gn_repr E) d @ '': '' @ py_str (gn_repr E) (jget dep ''state'')] else []) @ errs))
     | None \<Rightarrow> terminal_dep_errors E G key gap ds)"

definition payload_of :: "(string \<times> json) list \<Rightarrow> json" where
  "payload_of event = JObj (map (\<lambda>k. (k, jget event k)) ([''actor_id'', ''evidence''] @ (if in_dict ''facts'' event then [''facts''] else [])
     @ [''from_state'', ''gap_key'', ''seat'', ''sequence'', ''to_state'']))"

definition expected_actor :: "(string \<times> json) list \<Rightarrow> json \<Rightarrow> (string \<times> json) option" where
  "expected_actor gap to_state = (if to_state = JStr ''IMPLEMENTED'' then Some (''executor'', jget gap ''executor_id'')
     else if to_state = JStr ''VERIFIED'' then Some (''verifier'', jget gap ''verifier_id'')
     else if to_state = JStr ''DELIVERED'' then Some (''completion'', jget gap ''completion_auditor_id'') else None)"

record replay =
  rp_previous :: string
  rp_states :: "(string, string) dict"
  rp_evidence :: "(string, (string \<times> json) list list) dict"

definition is_ascii :: "string \<Rightarrow> bool" where
  "is_ascii s \<longleftrightarrow> (\<forall>c \<in> set s. (of_char c :: nat) < 128)"

definition numbered :: "nat \<Rightarrow> string \<Rightarrow> string" where
  "numbered n text = ''event '' @ show_int (int n) @ text"

definition replay_event :: "gap_env \<Rightarrow> (string, (string \<times> json) list) dict \<Rightarrow> nat \<Rightarrow> replay \<Rightarrow> (string \<times> json) list \<Rightarrow> gap_failure + string list \<times> replay" where
  \<comment> \<open>the body of the loop over the events, for an event that is an object\<close>
  "replay_event E G n R event =
    (if \<not> is_ascii (rp_previous R) then Inl GapUnicodeError
     else
       let link_errs = (if \<not> json_is_int (jget event ''sequence'') (int n) \<or> jget event ''previous_hash'' \<noteq> JStr (rp_previous R)
             then [numbered n '' sequence/link mismatch''] else [])
             @ (if jget event ''hash'' \<noteq> JStr (event_hash E (rp_previous R) (payload_of event)) then [numbered n '' hash mismatch''] else []);
           R1 = R\<lparr>rp_previous := py_str (gn_repr E) (jor (jget event ''hash'') (JStr (rp_previous R)))\<rparr>;
           key = text_of E event ''gap_key''
       in case map_of G key of
            None \<Rightarrow> Inr (link_errs @ [numbered n ('' references unknown gap '' @ gn_repr E (JStr key))], R1)
          | Some gap \<Rightarrow>
              let current = dict_get_or (rp_states R1) key [];
                  target = text_of E event ''to_state'';
                  R2 = R1\<lparr>rp_states := dict_set (rp_states R1) key target,
                     rp_evidence := dict_set (rp_evidence R1) key (dict_get_or (rp_evidence R1) key []
                       @ (case jget event ''evidence'' of JArr rows \<Rightarrow> gap_objects rows | _ \<Rightarrow> []))\<rparr>
              in if \<not> hashable (jget event ''to_state'') then Inl GapTypeError
                 else Inr (link_errs
                   @ (if jget event ''from_state'' \<noteq> JStr current
                      then [numbered n ('' replay state mismatch: '' @ gn_repr E (jget event ''from_state'') @ '' != '' @ gn_repr E (JStr current))] else [])
                   @ (if \<not> legal_step current target then [numbered n ('' illegal transition '' @ current @ '' -> '' @ target)] else [])
                   @ (case expected_actor gap (jget event ''to_state'') of
                        Some (seat, actor) \<Rightarrow> if jget event ''seat'' \<noteq> JStr seat \<or> \<not> json_same (jget event ''actor_id'') actor
                          then [numbered n '' has invalid authority''] else []
                      | None \<Rightarrow> []), R2))"

fun events_loop :: "gap_env \<Rightarrow> (string, (string \<times> json) list) dict \<Rightarrow> nat \<Rightarrow> replay \<Rightarrow> json list \<Rightarrow> gap_failure + string list \<times> replay" where
  "events_loop E G n R [] = Inr ([], R)"
| "events_loop E G n R (JObj event # rest) =
    ebind (replay_event E G n R event) (\<lambda>(errs, R'). ebind (events_loop E G (Suc n) R' rest) (\<lambda>(errs', R''). Inr (errs @ errs', R'')))"
| "events_loop E G n R (_ # rest) = ebind (events_loop E G (Suc n) R rest) (\<lambda>(errs, R'). Inr (numbered n '' is not an object'' # errs, R'))"

definition final_errors :: "gap_env \<Rightarrow> replay \<Rightarrow> string \<Rightarrow> (string \<times> json) list \<Rightarrow> string list" where
  "final_errors E R key gap =
    (let reached = dict_get_or (rp_states R) key [];
         declared = jor (jget gap ''evidence'') (JArr [])
     in (if jget gap ''state'' \<noteq> JStr reached
         then [key @ '' replay ended at '' @ gn_repr E (JStr reached) @ '', snapshot claims '' @ gn_repr E (jget gap ''state'')] else [])
        @ (if \<not> json_same (JArr (map JObj (dict_get_or (rp_evidence R) key []))) declared then [key @ '' replay evidence differs from snapshot''] else []))"

record snapshot_report =
  sr_ok :: bool
  sr_reason_code :: string
  sr_errors :: "string list"
  sr_counts :: "(nat \<times> nat) option"
  sr_unresolved :: "string list"
  sr_digest :: "string option"

definition snapshot_result :: "string list \<Rightarrow> (nat \<times> nat) option \<Rightarrow> string list \<Rightarrow> string option \<Rightarrow> snapshot_report" where
  "snapshot_result errors counts unres digest = \<lparr>sr_ok = (errors = []),
     sr_reason_code = (if errors = [] then ''work_gap_ledger_ready'' else ''work_gap_ledger_invalid''),
     sr_errors = errors, sr_counts = counts, sr_unresolved = unres, sr_digest = digest\<rparr>"

definition list_or_error :: "string \<Rightarrow> bool \<Rightarrow> json \<Rightarrow> string list \<times> json list" where
  "list_or_error message nonempty v = (case v of
     JArr xs \<Rightarrow> if nonempty \<and> xs = [] then ([message], []) else ([], xs) | _ \<Rightarrow> ([message], []))"

definition validate_work_gap_snapshot :: "gap_env \<Rightarrow> json \<Rightarrow> gap_failure + snapshot_report" where
  "validate_work_gap_snapshot E snapshot = (case snapshot of
     JObj d \<Rightarrow>
       (let schema_errs = (if jget d ''schema'' \<noteq> JStr WORK_GAP_SCHEMA then [''schema mismatch''] else []);
            (gaps_errs, gaps) = list_or_error ''gaps must be a non-empty list'' True (jget d ''gaps'');
            (events_errs, events) = list_or_error ''events must be a list'' False (jget d ''events'')
        in ebind (gaps_loop E gaps 0 [] [] gaps) (\<lambda>(gap_errs, G).
           let cycle_errs = snd (visit_keys G [] (sort (dict_keys G)) ([], []))
           in ebind (map_checked (\<lambda>(key, gap). terminal_dep_errors E G key gap (deps_of gap)) G) (\<lambda>dep_errs.
              ebind (events_loop E G 1 \<lparr>rp_previous = GENESIS_HASH, rp_states = map (\<lambda>p. (fst p, ''UNMAPPED'')) G,
                  rp_evidence = map (\<lambda>p. (fst p, [])) G\<rparr> events) (\<lambda>(event_errs, R).
                Inr (snapshot_result (schema_errs @ gaps_errs @ events_errs @ gap_errs @ cycle_errs @ concat dep_errs @ event_errs
                       @ concat (map (\<lambda>(key, gap). final_errors E R key gap) G))
                     (Some (length gaps, length events))
                     (map (snap_key E) (filter (\<lambda>g. jget g ''state'' \<noteq> JStr ''DELIVERED'') (gap_objects gaps)))
                     (Some (hexdigest (gn_sha256 E (utf8_bytes (dumps snapshot))))))))))
   | _ \<Rightarrow> Inr (snapshot_result [''snapshot must be an object''] None [] None))"

section \<open>What an accepted snapshot shows\<close>

lemma gap_errors_Nil:
  assumes "gap_errors E gaps dup delivered gap = Inr []"
  shows "\<not> dup" and "jget gap ''state'' = JStr ''DELIVERED''" and "truthy (jget gap ''owner_project'')" and "truthy (jget gap ''owner_agent'')"
    and "seat_errors (snap_key E gap) gap = Inr []" and "\<exists>deps. iterate (jget gap ''dependencies'') = Inr deps \<and> dependency_errors E gaps delivered (snap_key E gap) deps = Inr []"
proof -
  from assms obtain deps where h: "head_errors E dup gap = []" and s: "seat_errors (snap_key E gap) gap = Inr []"
    and d: "iterate (jget gap ''dependencies'') = Inr deps" "dependency_errors E gaps delivered (snap_key E gap) deps = Inr []"
    by (auto simp: gap_errors_def ebind_Inr_conv)
  show "\<not> dup" "jget gap ''state'' = JStr ''DELIVERED''" "truthy (jget gap ''owner_project'')" "truthy (jget gap ''owner_agent'')"
    using h by (auto simp: head_errors_def Let_def split: if_splits)
  show "seat_errors (snap_key E gap) gap = Inr []"
    and "\<exists>deps. iterate (jget gap ''dependencies'') = Inr deps \<and> dependency_errors E gaps delivered (snap_key E gap) deps = Inr []" using s d by blast+
qed

lemma seat_errors_Nil:
  assumes "seat_errors key gap = Inr []" and "jget gap ''state'' = JStr ''DELIVERED''"
  shows "\<forall>v \<in> set (seats gap). truthy v" and "distinct (map py_norm (seats gap))"
  using assms by (auto simp: seat_errors_def split: if_splits)

lemma dependency_errors_Nil:
  "dependency_errors E gaps delivered key deps = Inr [] \<Longrightarrow> d \<in> set deps \<Longrightarrow> d \<in> JStr ` set delivered \<or> d \<in> (\<lambda>g. JStr (snap_key E g)) ` set (gap_objects gaps)"
  by (induction deps) (auto simp: ebind_Inr_conv split: if_splits)

lemma gap_objects_simps [simp]:
  "gap_objects [] = []" "gap_objects (JObj d # vs) = d # gap_objects vs"
  by (simp_all add: gap_objects_def)

definition snapshot_gap_ok :: "gap_env \<Rightarrow> (string \<times> json) list \<Rightarrow> bool" where
  "snapshot_gap_ok E g \<longleftrightarrow> jget g ''state'' = JStr ''DELIVERED'' \<and> truthy (jget g ''owner_project'') \<and> truthy (jget g ''owner_agent'')
     \<and> (\<forall>v \<in> set (seats g). truthy v) \<and> distinct (map py_norm (seats g))"

lemma gaps_loop_Nil:
  "gaps_loop E gaps n delivered G rest = Inr ([], G') \<Longrightarrow> (\<forall>v \<in> set rest. \<exists>d. v = JObj d) \<and> (\<forall>g \<in> set (gap_objects rest). snapshot_gap_ok E g)
     \<and> G' = G @ map (\<lambda>g. (snap_key E g, g)) (gap_objects rest)
     \<and> (distinct (dict_keys G) \<longrightarrow> distinct (dict_keys G'))"
proof (induction E gaps n delivered G rest rule: gaps_loop.induct)
  case (2 E gaps n delivered G gap rest)
  let ?d = "if jget gap ''state'' = JStr ''DELIVERED'' then delivered @ [snap_key E gap] else delivered"
  have e: "gap_errors E gaps (in_dict (snap_key E gap) G) ?d gap = Inr []"
    and r: "gaps_loop E gaps (Suc n) ?d (dict_set G (snap_key E gap) gap) rest = Inr ([], G')"
    using 2(2) by (auto simp: Let_def ebind_Inr_conv)
  have n: "\<not> in_dict (snap_key E gap) G" by (rule gap_errors_Nil(1) [OF e])
  then have set: "dict_set G (snap_key E gap) gap = G @ [(snap_key E gap, gap)]" by (intro dict_set_new) (simp add: in_dict_keys)
  have ok: "snapshot_gap_ok E gap"
    using gap_errors_Nil(2-5) [OF e] seat_errors_Nil [OF gap_errors_Nil(5) [OF e] gap_errors_Nil(2) [OF e]] unfolding snapshot_gap_ok_def by blast
  have d: "distinct (dict_keys G) \<longrightarrow> distinct (dict_keys (G @ [(snap_key E gap, gap)]))" using n by (simp add: in_dict_keys)
  note ih = 2(1) [OF refl refl r, unfolded set]
  have "distinct (dict_keys G) \<longrightarrow> distinct (dict_keys G')" using ih d by blast
  moreover have "G' = G @ (snap_key E gap, gap) # map (\<lambda>g. (snap_key E g, g)) (gap_objects rest)"
    "\<forall>v \<in> set rest. \<exists>d. v = JObj d" "\<forall>g \<in> set (gap_objects rest). snapshot_gap_ok E g" using ih by simp_all
  ultimately show ?case using ok by simp
qed (auto simp: ebind_Inr_conv)

subsection \<open>Cycles\<close>

lemma visit_errors_grow: "\<exists>xs. snd (visit_keys G trail ks st) = snd st @ xs"
proof (induction G trail ks st rule: visit_keys.induct)
  case (2 G trail k ks st)
  show ?case
  proof (cases "k \<in> set trail")
    case True
    then show ?thesis using 2(1) by auto
  next
    case out: False
    show ?thesis
    proof (cases "k \<in> set (fst st)")
      case True
      then show ?thesis using 2(2) out by auto
    next
      case False
      let ?s = "visit_keys G (trail @ [k]) (dep_keys G k) st"
      obtain xs where "snd ?s = snd st @ xs" using 2(3) [OF out False] by blast
      moreover obtain ys where "snd (visit_keys G trail ks (fst ?s @ [k], snd ?s)) = snd ?s @ ys" using 2(5) [OF out False] unfolding snd_conv by blast
      ultimately show ?thesis using out False by simp
    qed
  qed
qed simp

lemma visit_keys_acc:
  assumes "snd (visit_keys G trail ks st) = []" and "\<forall>k \<in> set (fst st). Wellfounded.accp (\<lambda>d k. d \<in> set (dep_keys G k)) k"
  shows "set (fst st) \<union> set ks \<subseteq> set (fst (visit_keys G trail ks st))
    \<and> (\<forall>k \<in> set (fst (visit_keys G trail ks st)). Wellfounded.accp (\<lambda>d k. d \<in> set (dep_keys G k)) k)"
  using assms
proof (induction G trail ks st rule: visit_keys.induct)
  case (2 G trail k ks st)
  show ?case
  proof (cases "k \<in> set trail")
    case True
    let ?st = "(fst st, snd st @ [''dependency cycle: '' @ arrows (trail @ [k])])"
    obtain xs where "snd (visit_keys G trail ks ?st) = snd ?st @ xs" using visit_errors_grow by blast
    then have "snd (visit_keys G trail (k # ks) st) \<noteq> []" using True by simp
    with 2(6) show ?thesis by contradiction
  next
    case out: False
    show ?thesis
    proof (cases "k \<in> set (fst st)")
      case True
      have eq: "visit_keys G trail (k # ks) st = visit_keys G trail ks st" using out True by simp
      then have "snd (visit_keys G trail ks st) = []" using 2(6) by simp
      from 2(2) [OF out True this 2(7)] show ?thesis unfolding eq using True by auto
    next
      case False
      let ?s = "visit_keys G (trail @ [k]) (dep_keys G k) st"
      have eq: "visit_keys G trail (k # ks) st = visit_keys G trail ks (fst ?s @ [k], snd ?s)" using out False by simp
      then have "snd (visit_keys G trail ks (fst ?s @ [k], snd ?s)) = []" using 2(6) by simp
      moreover from this have "snd ?s = []" using visit_errors_grow [of G trail ks "(fst ?s @ [k], snd ?s)"] by auto
      ultimately have s: "set (fst st) \<union> set (dep_keys G k) \<subseteq> set (fst ?s)" "\<forall>k \<in> set (fst ?s). Wellfounded.accp (\<lambda>d k. d \<in> set (dep_keys G k)) k"
        and rest: "snd (visit_keys G trail ks (fst ?s @ [k], snd ?s)) = []"
        using 2(3) [OF out False _ 2(7)] by auto
      have "Wellfounded.accp (\<lambda>d k. d \<in> set (dep_keys G k)) k" by (rule accpI) (use s in blast)
      then have "\<forall>k \<in> set (fst (fst ?s @ [k], snd ?s)). Wellfounded.accp (\<lambda>d k. d \<in> set (dep_keys G k)) k" using s(2) by auto
      from 2(5) [OF out False rest this] show ?thesis unfolding eq using s(1) by auto
    qed
  qed
qed simp

lemma visit_acyclic:
  assumes "snd (visit_keys G [] (sort (dict_keys G)) ([], [])) = []"
  shows "wfP (\<lambda>d k. d \<in> set (dep_keys G k))"
proof (rule accp_wfpI, rule allI)
  fix k
  show "Wellfounded.accp (\<lambda>d k. d \<in> set (dep_keys G k)) k"
  proof (cases "k \<in> set (dict_keys G)")
    case True
    have start: "\<forall>k \<in> set (fst ([], [])). Wellfounded.accp (\<lambda>d k. d \<in> set (dep_keys G k)) k" by simp
    have "k \<in> set (sort (dict_keys G))" using True by simp
    then show ?thesis using visit_keys_acc [OF assms start] by blast
  next
    case False
    then have "dep_keys G k = []" using map_of_eq_None_iff [of G k] by (simp add: dep_keys_def)
    then have none: "\<not> y \<in> set (dep_keys G k)" for y by simp
    show ?thesis by (rule accpI) (use none in blast)
  qed
qed

subsection \<open>The replay\<close>

definition progress_upto :: "string \<Rightarrow> string set" where
  \<comment> \<open>the progress states that a gap in the given state has been moved to\<close>
  "progress_upto s = (if s \<in> set (tl PROGRESS_STATES) then set (takeWhile (\<lambda>x. x \<noteq> s) (tl PROGRESS_STATES) @ [s]) else {})"

lemma progress_upto_values:
  "progress_upto ''OWNED'' = {''OWNED''}" "progress_upto ''PLANNED'' = {''OWNED'', ''PLANNED''}" "progress_upto ''IMPLEMENTED'' = {''OWNED'', ''PLANNED'', ''IMPLEMENTED''}"
  "progress_upto ''VERIFIED'' = {''OWNED'', ''PLANNED'', ''IMPLEMENTED'', ''VERIFIED''}"
  "progress_upto ''INTEGRATED'' = {''OWNED'', ''PLANNED'', ''IMPLEMENTED'', ''VERIFIED'', ''INTEGRATED''}"
  "progress_upto ''DELIVERED'' = {''OWNED'', ''PLANNED'', ''IMPLEMENTED'', ''VERIFIED'', ''INTEGRATED'', ''DELIVERED''}"
  by (simp_all add: progress_upto_def PROGRESS_STATES_def)

lemma progress_upto_step: "legal_step c t \<Longrightarrow> progress_upto t \<subseteq> insert t (progress_upto c)"
proof (cases "t \<in> set (tl PROGRESS_STATES)")
  case True
  assume "legal_step c t"
  moreover have "t \<notin> set EXCEPTION_STATES" "t \<noteq> ''UNMAPPED''" "t \<noteq> ''REGRESSED''" using True by (auto simp: state_sets)
  ultimately have "t = ''OWNED'' \<or> (c, t) \<in> set (zip PROGRESS_STATES (tl PROGRESS_STATES))"
    by (auto simp: legal_step_def next_progress_def dest: map_of_SomeD split: if_splits)
  then have "t = ''OWNED'' \<or> (c, t) \<in> {(''OWNED'', ''PLANNED''), (''PLANNED'', ''IMPLEMENTED''), (''IMPLEMENTED'', ''VERIFIED''), (''VERIFIED'', ''INTEGRATED''),
      (''INTEGRATED'', ''DELIVERED'')}" by (auto simp: PROGRESS_STATES_def)
  then show ?thesis by (elim disjE insertE emptyE Pair_inject) (simp_all only: progress_upto_values, simp_all)
qed (simp add: progress_upto_def)

definition moves :: "gap_env \<Rightarrow> (string, (string \<times> json) list) dict \<Rightarrow> string \<Rightarrow> string \<Rightarrow> (string \<times> json) list \<Rightarrow> bool" where
  \<comment> \<open>an event that moves a gap to a state, with the authority that the state asks for\<close>
  "moves E G k p e \<longleftrightarrow> text_of E e ''gap_key'' = k \<and> text_of E e ''to_state'' = p
     \<and> (\<forall>gap seat actor. map_of G k = Some gap \<longrightarrow> expected_actor gap (jget e ''to_state'') = Some (seat, actor) \<longrightarrow>
          jget e ''seat'' = JStr seat \<and> json_same (jget e ''actor_id'') actor)"

definition sealed_event :: "gap_env \<Rightarrow> (string \<times> json) list \<Rightarrow> bool" where
  "sealed_event E e \<longleftrightarrow> (\<exists>p. jget e ''previous_hash'' = JStr p \<and> jget e ''hash'' = JStr (event_hash E p (payload_of e)))"

definition replay_inv :: "gap_env \<Rightarrow> (string, (string \<times> json) list) dict \<Rightarrow> replay \<Rightarrow> (string \<times> json) list list \<Rightarrow> bool" where
  "replay_inv E G R es \<longleftrightarrow> (\<forall>k p. map_of G k \<noteq> None \<longrightarrow> p \<in> progress_upto (dict_get_or (rp_states R) k []) \<longrightarrow> (\<exists>e \<in> set es. moves E G k p e))
     \<and> (\<forall>e \<in> set es. sealed_event E e)"

lemma replay_event_Nil:
  assumes "replay_event E G n R e = Inr ([], R')"
  shows "sealed_event E e" and "\<exists>gap. map_of G (text_of E e ''gap_key'') = Some gap"
    and "legal_step (dict_get_or (rp_states R) (text_of E e ''gap_key'') []) (text_of E e ''to_state'')"
    and "rp_states R' = dict_set (rp_states R) (text_of E e ''gap_key'') (text_of E e ''to_state'')"
    and "moves E G (text_of E e ''gap_key'') (text_of E e ''to_state'') e"
proof -
  obtain gap where g: "map_of G (text_of E e ''gap_key'') = Some gap"
    using assms by (auto simp: replay_event_def Let_def split: if_splits option.splits)
  note r = assms [unfolded replay_event_def Let_def g option.case]
  show "\<exists>gap. map_of G (text_of E e ''gap_key'') = Some gap" using g by blast
  show "sealed_event E e" using r by (auto simp: sealed_event_def split: if_splits)
  show "legal_step (dict_get_or (rp_states R) (text_of E e ''gap_key'') []) (text_of E e ''to_state'')" using r by (auto split: if_splits)
  show "rp_states R' = dict_set (rp_states R) (text_of E e ''gap_key'') (text_of E e ''to_state'')" using r by (auto split: if_splits)
  show "moves E G (text_of E e ''gap_key'') (text_of E e ''to_state'') e"
    unfolding moves_def using r g by (auto split: if_splits option.splits)
qed

lemma replay_event_inv:
  assumes "replay_event E G n R e = Inr ([], R')" and "replay_inv E G R es"
  shows "replay_inv E G R' (es @ [e])"
proof -
  note s = replay_event_Nil [OF assms(1)]
  let ?k = "text_of E e ''gap_key''" and ?t = "text_of E e ''to_state''"
  have "\<exists>x \<in> set (es @ [e]). moves E G k p x" if k: "map_of G k \<noteq> None" "p \<in> progress_upto (dict_get_or (rp_states R') k [])" for k p
  proof (cases "k = ?k \<and> p = ?t")
    case True
    then show ?thesis using s(5) by auto
  next
    case False
    have "p \<in> progress_upto (dict_get_or (rp_states R) k [])"
      using k(2) progress_upto_step [OF s(3)] False by (cases "k = ?k") (auto simp: s(4))
    then show ?thesis using assms(2) k(1) by (auto simp: replay_inv_def)
  qed
  then show ?thesis using assms(2) s(1) by (auto simp: replay_inv_def)
qed

lemma events_loop_Nil:
  "events_loop E G n R rest = Inr ([], R') \<Longrightarrow> replay_inv E G R es \<Longrightarrow> replay_inv E G R' (es @ gap_objects rest) \<and> (\<forall>v \<in> set rest. \<exists>d. v = JObj d)"
proof (induction E G n R rest arbitrary: es rule: events_loop.induct)
  case (2 E G n R e rest)
  obtain R1 where r: "replay_event E G n R e = Inr ([], R1)" "events_loop E G (Suc n) R1 rest = Inr ([], R')"
    using 2(2) by (auto simp: ebind_Inr_conv)
  from 2(1) [OF r(2) replay_event_inv [OF r(1) 2(3)]] show ?case by simp
qed (auto simp: ebind_Inr_conv)

section \<open>Accepted snapshots\<close>

lemma validate_ok:
  assumes "validate_work_gap_snapshot E (JObj d) = Inr r" and "sr_ok r"
  shows "\<exists>gaps events G R. jget d ''gaps'' = JArr gaps \<and> gaps \<noteq> [] \<and> jget d ''events'' = JArr events \<and> gaps_loop E gaps 0 [] [] gaps = Inr ([], G)
    \<and> snd (visit_keys G [] (sort (dict_keys G)) ([], [])) = []
    \<and> events_loop E G 1 \<lparr>rp_previous = GENESIS_HASH, rp_states = map (\<lambda>p. (fst p, ''UNMAPPED'')) G, rp_evidence = map (\<lambda>p. (fst p, [])) G\<rparr> events = Inr ([], R)
    \<and> (\<forall>(k, gap) \<in> set G. final_errors E R k gap = [])"
proof -
  obtain ge gaps where g: "list_or_error ''gaps must be a non-empty list'' True (jget d ''gaps'') = (ge, gaps)" by fastforce
  obtain ee events where v: "list_or_error ''events must be a list'' False (jget d ''events'') = (ee, events)" by fastforce
  obtain ge2 G ev R where l: "gaps_loop E gaps 0 [] [] gaps = Inr (ge2, G)"
    "events_loop E G 1 \<lparr>rp_previous = GENESIS_HASH, rp_states = map (\<lambda>p. (fst p, ''UNMAPPED'')) G, rp_evidence = map (\<lambda>p. (fst p, [])) G\<rparr> events = Inr (ev, R)"
    and e: "ge = []" "ee = []" "ge2 = []" "snd (visit_keys G [] (sort (dict_keys G)) ([], [])) = []" "ev = []"
      "concat (map (\<lambda>(key, gap). final_errors E R key gap) G) = []"
    using assms by (auto simp: validate_work_gap_snapshot_def g v ebind_Inr_conv snapshot_result_def Let_def simp del: concat_eq_Nil_conv)
  have "jget d ''gaps'' = JArr gaps \<and> gaps \<noteq> []" using g e(1) by (cases "jget d ''gaps''") (auto simp: list_or_error_def split: if_splits)
  moreover have "jget d ''events'' = JArr events" using v e(2) by (cases "jget d ''events''") (auto simp: list_or_error_def)
  moreover have "\<forall>(k, gap) \<in> set G. final_errors E R k gap = []" using e(6) by auto
  ultimately show ?thesis using l e by blast
qed

definition event_by :: "gap_env \<Rightarrow> (string \<times> json) list list \<Rightarrow> string \<Rightarrow> string \<Rightarrow> string \<Rightarrow> json \<Rightarrow> bool" where
  \<comment> \<open>the log has an event that moved the gap to the state, from the given seat and by the given actor\<close>
  "event_by E events key state seat actor \<longleftrightarrow> (\<exists>e \<in> set events. text_of E e ''gap_key'' = key \<and> jget e ''to_state'' = JStr state
     \<and> jget e ''seat'' = JStr seat \<and> json_same (jget e ''actor_id'') actor)"

definition plain_repr :: "gap_env \<Rightarrow> bool" where
  \<comment> \<open>the text of a value that is not a string is not the name of a state\<close>
  "plain_repr E \<longleftrightarrow> (\<forall>v. (\<forall>s. v \<noteq> JStr s) \<longrightarrow> gn_repr E v \<notin> {''IMPLEMENTED'', ''VERIFIED'', ''DELIVERED''})"

lemma replay_start:
  "replay_inv E G \<lparr>rp_previous = h, rp_states = map (\<lambda>p. (fst p, ''UNMAPPED'')) G, rp_evidence = e\<rparr> []"
proof -
  have "map_of (map (\<lambda>p. (fst p, ''UNMAPPED'')) G) k = map_option (\<lambda>_. ''UNMAPPED'') (map_of G k)" for k by (induction G) auto
  then have "dict_get_or (map (\<lambda>p. (fst p, ''UNMAPPED'')) G) k [] = ''UNMAPPED''" if "map_of G k \<noteq> None" for k using that by (auto simp: dict_get_or_def)
  moreover have "progress_upto ''UNMAPPED'' = {}" by (simp add: progress_upto_def PROGRESS_STATES_def)
  ultimately show ?thesis by (simp add: replay_inv_def)
qed

lemma all_objects: "\<forall>v \<in> set vs. \<exists>d. v = JObj d \<Longrightarrow> vs = map JObj (gap_objects vs)"
  by (induction vs) auto

lemma replayed_event:
  assumes "replay_inv E G R es" and "map_of G k = Some x" and "final_errors E R k x = []" and "snapshot_gap_ok E x" and "plain_repr E"
    and p: "p \<in> {''IMPLEMENTED'', ''VERIFIED'', ''DELIVERED''}" and a: "expected_actor x (JStr p) = Some (seat, actor)"
  shows "event_by E es k p seat actor"
proof -
  have "JStr (dict_get_or (rp_states R) k []) = JStr ''DELIVERED''"
    using assms(3,4) by (auto simp: final_errors_def snapshot_gap_ok_def Let_def split: if_splits)
  then have "p \<in> progress_upto (dict_get_or (rp_states R) k [])" using p progress_upto_values(6) by auto
  then obtain e where e: "e \<in> set es" "moves E G k p e" using assms(1,2) unfolding replay_inv_def by fastforce
  then have "text_of E e ''to_state'' = p" by (simp add: moves_def)
  then have "jget e ''to_state'' = JStr p" using p assms(5)
    by (cases "jget e ''to_state''") (auto simp: text_of_def jor_def plain_repr_def split: if_splits)
  then show ?thesis using e a assms(2) unfolding moves_def event_by_def by metis
qed

lemma dependencies_wf:
  assumes "snd (visit_keys G [] (sort (dict_keys G)) ([], [])) = []" and "\<And>x. x \<in> set gs \<Longrightarrow> map_of G (snap_key E x) = Some x"
  shows "wfP (\<lambda>y x. \<exists>g \<in> set gs. \<exists>h \<in> set gs. snap_key E g = x \<and> snap_key E h = y \<and> JStr y \<in> set (deps_of g))"
proof (rule wfp_subset [OF visit_acyclic [OF assms(1)]], intro le_funI le_boolI)
  fix y x assume "\<exists>g \<in> set gs. \<exists>h \<in> set gs. snap_key E g = x \<and> snap_key E h = y \<and> JStr y \<in> set (deps_of g)"
  then obtain g h where h: "g \<in> set gs" "h \<in> set gs" "snap_key E g = x" "snap_key E h = y" "JStr y \<in> set (deps_of g)" by blast
  then show "y \<in> set (dep_keys G x)" using assms(2) [OF h(1)] assms(2) [OF h(2)] by (force simp: dep_keys_def in_dict_def)
qed

text \<open>C40: an accepted snapshot was completed by three different people for every gap. When the validator answers ready, there is at least one gap, the gaps have different
  keys, each is DELIVERED with an owner, the dependencies among them have no cycle, every event carries the hash of its link and content, and for
  each gap the log holds an event that implemented it from the executor seat, one that verified it from the verifier seat and one that delivered it from the completion seat, by three
  different actors. Assumed of \<open>repr\<close>: the text of a value that is not a string is not the name of one of these three states.\<close>
theorem snapshot_ready_sound:
  assumes "validate_work_gap_snapshot E (JObj d) = Inr r" and "sr_ok r" and "plain_repr E"
  shows "\<exists>gaps events. jget d ''gaps'' = JArr (map JObj gaps) \<and> jget d ''events'' = JArr (map JObj events) \<and> gaps \<noteq> []
    \<and> distinct (map (snap_key E) gaps) \<and> (\<forall>e \<in> set events. sealed_event E e)
    \<and> wfP (\<lambda>y x. \<exists>g \<in> set gaps. \<exists>h \<in> set gaps. snap_key E g = x \<and> snap_key E h = y \<and> JStr y \<in> set (deps_of g))
    \<and> (\<forall>g \<in> set gaps. jget g ''state'' = JStr ''DELIVERED'' \<and> truthy (jget g ''owner_project'') \<and> truthy (jget g ''owner_agent'')
         \<and> (\<exists>a b c. event_by E events (snap_key E g) ''IMPLEMENTED'' ''executor'' a \<and> event_by E events (snap_key E g) ''VERIFIED'' ''verifier'' b
              \<and> event_by E events (snap_key E g) ''DELIVERED'' ''completion'' c \<and> \<not> json_same a b \<and> \<not> json_same b c \<and> \<not> json_same a c))"
proof -
  obtain gaps events G R where v: "jget d ''gaps'' = JArr gaps" "gaps \<noteq> []" "jget d ''events'' = JArr events"
    and gl: "gaps_loop E gaps 0 [] [] gaps = Inr ([], G)" and cyc: "snd (visit_keys G [] (sort (dict_keys G)) ([], [])) = []"
    and el: "events_loop E G 1 \<lparr>rp_previous = GENESIS_HASH, rp_states = map (\<lambda>p. (fst p, ''UNMAPPED'')) G, rp_evidence = map (\<lambda>p. (fst p, [])) G\<rparr> events = Inr ([], R)"
    and fin: "\<forall>(k, gap) \<in> set G. final_errors E R k gap = []"
    using validate_ok [OF assms(1,2)] by blast
  let ?gs = "gap_objects gaps" and ?es = "gap_objects events"
  note g = gaps_loop_Nil [OF gl, simplified]
  have G: "G = map (\<lambda>g. (snap_key E g, g)) ?gs" and dist: "distinct (dict_keys G)" and ok: "\<And>x. x \<in> set ?gs \<Longrightarrow> snapshot_gap_ok E x" using g by auto
  have gaps: "gaps = map JObj ?gs" by (rule all_objects) (use g in blast)
  have inv: "replay_inv E G R ?es" and events: "events = map JObj ?es" using events_loop_Nil [OF el replay_start] all_objects by auto
  have keys: "map (snap_key E) ?gs = dict_keys G" by (simp add: G comp_def)
  have get: "map_of G (snap_key E x) = Some x" if "x \<in> set ?gs" for x using that dist by (auto simp: G)
  have people: "\<exists>a b c. event_by E ?es (snap_key E x) ''IMPLEMENTED'' ''executor'' a \<and> event_by E ?es (snap_key E x) ''VERIFIED'' ''verifier'' b
      \<and> event_by E ?es (snap_key E x) ''DELIVERED'' ''completion'' c \<and> \<not> json_same a b \<and> \<not> json_same b c \<and> \<not> json_same a c" if x: "x \<in> set ?gs" for x
  proof -
    have "final_errors E R (snap_key E x) x = []" using fin x by (auto simp: G)
    note e = replayed_event [OF inv get [OF x] this ok [OF x] assms(3)]
    have "distinct (map py_norm (seats x))" using ok [OF x] by (simp add: snapshot_gap_ok_def)
    then show ?thesis using e [of "''IMPLEMENTED''"] e [of "''VERIFIED''"] e [of "''DELIVERED''"]
      by (intro exI [of _ "jget x ''executor_id''"] exI [of _ "jget x ''verifier_id''"] exI [of _ "jget x ''completion_auditor_id''"])
        (simp add: expected_actor_def seats_def json_same_def)
  qed
  have "?gs \<noteq> []" using v(2) gaps by auto
  moreover have "\<forall>e \<in> set ?es. sealed_event E e" using inv by (simp add: replay_inv_def)
  moreover have "\<forall>x \<in> set ?gs. jget x ''state'' = JStr ''DELIVERED'' \<and> truthy (jget x ''owner_project'') \<and> truthy (jget x ''owner_agent'')"
    using ok by (simp add: snapshot_gap_ok_def)
  ultimately show ?thesis using v(1,3) gaps events dist keys dependencies_wf [OF cyc get] people by (intro exI [of _ ?gs] exI [of _ ?es]) simp
qed

section \<open>Examples\<close>

definition demo_evidence_row :: "string \<Rightarrow> string \<Rightarrow> (string \<times> json) list" where
  "demo_evidence_row kind actor = [(''actor_id'', JStr actor), (''digest'', JStr GENESIS_HASH), (''handle'', JStr ''h''), (''kind'', JStr kind)]"

definition demo_rows :: "(string \<times> json) list list" where
  "demo_rows = [demo_evidence_row ''implementation'' ''ann'', demo_evidence_row ''verification'' ''bob'', demo_evidence_row ''integration'' ''cy'', demo_evidence_row ''delivery'' ''dee'']"

definition demo_object :: "(string \<times> json) list" where
  "demo_object = [(''acceptance_criterion_id'', JStr ''a''), (''completion_auditor_id'', JStr ''dee''), (''dependencies'', JArr []), (''evidence'', JArr (map JObj demo_rows)),
     (''executor_id'', JStr ''ann''), (''expected_revision'', JStr ''c1''),
     (''installed_artifact'', JObj [(''expected_commit'', JStr ''c1''), (''installed_commit'', JStr ''c1''), (''match'', JBool True), (''sha256'', JStr GENESIS_HASH)]),
     (''owner_agent'', JStr ''lead''), (''owner_project'', JStr ''core''), (''requirement_id'', JStr ''r''),
     (''source_requery'', JObj [(''commit'', JStr ''c1''), (''state'', JStr ''merged'')]), (''state'', JStr ''DELIVERED''), (''verifier_id'', JStr ''bob'')]"

definition demo_move :: "nat \<Rightarrow> string \<Rightarrow> string \<Rightarrow> string \<Rightarrow> string \<Rightarrow> (string \<times> json) list list \<Rightarrow> json" where
  "demo_move n c t actor seat rows = JObj [(''actor_id'', JStr actor), (''evidence'', JArr (map JObj rows)), (''from_state'', JStr c), (''gap_key'', JStr ''r:a''),
     (''hash'', JStr GENESIS_HASH), (''previous_hash'', JStr GENESIS_HASH), (''seat'', JStr seat), (''sequence'', JNum (of_nat n)), (''to_state'', JStr t)]"

definition demo_moves :: "json list" where
  "demo_moves = [demo_move 1 ''UNMAPPED'' ''OWNED'' ''lead'' ''coverage'' [], demo_move 2 ''OWNED'' ''PLANNED'' ''lead'' ''plan'' [],
     demo_move 3 ''PLANNED'' ''IMPLEMENTED'' ''ann'' ''executor'' [demo_evidence_row ''implementation'' ''ann''],
     demo_move 4 ''IMPLEMENTED'' ''VERIFIED'' ''bob'' ''verifier'' [demo_evidence_row ''verification'' ''bob''],
     demo_move 5 ''VERIFIED'' ''INTEGRATED'' ''cy'' ''merge'' [demo_evidence_row ''integration'' ''cy''],
     demo_move 6 ''INTEGRATED'' ''DELIVERED'' ''dee'' ''completion'' [demo_evidence_row ''delivery'' ''dee'']]"

definition demo_snapshot :: "(string \<times> json) list" where
  "demo_snapshot = [(''events'', JArr demo_moves), (''gaps'', JArr [JObj demo_object]), (''schema'', JStr WORK_GAP_SCHEMA)]"

definition demo_replay :: "string \<Rightarrow> (string \<times> json) list list \<Rightarrow> replay" where
  "demo_replay s rows = \<lparr>rp_previous = GENESIS_HASH, rp_states = [(''r:a'', s)], rp_evidence = [(''r:a'', rows)]\<rparr>"

lemma genesis_digest: "hexdigest (replicate 32 0) = GENESIS_HASH" "is_ascii GENESIS_HASH" "lower_sha256 GENESIS_HASH" "GENESIS_HASH \<noteq> []"
  by code_simp+

lemma demo_event_hash: "event_hash demo_gap_env p v = GENESIS_HASH"
  by (simp add: event_hash_def demo_gap_env_def genesis_digest)

lemma demo_replay_step:
  assumes "legal_step c t"
    and "expected_actor demo_object (JStr t) \<in> {None, Some (seat, JStr actor)}" and "t \<noteq> []"
  shows "events_loop demo_gap_env [(''r:a'', demo_object)] n (demo_replay c rows) (demo_move n c t actor seat rows' # rest) =
    events_loop demo_gap_env [(''r:a'', demo_object)] (Suc n) (demo_replay t (rows @ rows')) rest"
proof -
  have objs: "gap_objects (map JObj xs) = xs" for xs by (induction xs) auto
  have id: "ebind r Inr = r" for r :: "gap_failure + string list \<times> replay" by (cases r) auto
  note defs = demo_move_def replay_event_def demo_replay_def demo_event_hash genesis_digest jget_def text_of_def jor_def hashable_def dict_get_or_def objs Let_def id
  show ?thesis
  proof (cases "expected_actor demo_object (JStr t)")
    case None
    then show ?thesis using assms(1,3) by (simp add: defs)
  next
    case (Some q)
    then have "expected_actor demo_object (JStr t) = Some (seat, JStr actor)" using assms(2) by auto
    then show ?thesis using assms(1,3) by (simp add: defs json_same_def)
  qed
qed

lemma demo_moves_replay:
  "events_loop demo_gap_env [(''r:a'', demo_object)] 1 (demo_replay ''UNMAPPED'' []) demo_moves = Inr ([], demo_replay ''DELIVERED'' demo_rows)"
proof -
  have "legal_step ''UNMAPPED'' ''OWNED''" "legal_step ''OWNED'' ''PLANNED''" "legal_step ''PLANNED'' ''IMPLEMENTED''" "legal_step ''IMPLEMENTED'' ''VERIFIED''"
    "legal_step ''VERIFIED'' ''INTEGRATED''" "legal_step ''INTEGRATED'' ''DELIVERED''" by code_simp+
  note l = this [THEN demo_replay_step]
  have a: "expected_actor demo_object (JStr ''IMPLEMENTED'') = Some (''executor'', JStr ''ann'')" "expected_actor demo_object (JStr ''VERIFIED'') = Some (''verifier'', JStr ''bob'')"
    "expected_actor demo_object (JStr ''DELIVERED'') = Some (''completion'', JStr ''dee'')" "expected_actor demo_object (JStr ''OWNED'') = None"
    "expected_actor demo_object (JStr ''PLANNED'') = None" "expected_actor demo_object (JStr ''INTEGRATED'') = None"
    by (simp_all add: expected_actor_def demo_object_def jget_def)
  have n: "Suc 1 = 2" "Suc 2 = 3" "Suc 3 = 4" "Suc 4 = 5" "Suc 5 = 6" by simp_all
  show ?thesis unfolding demo_moves_def demo_rows_def
    by (simp only: l a n insert_iff simp_thms list.distinct not_False_eq_True append.simps events_loop.simps(1))
qed

lemma demo_gap_accepted: "gaps_loop demo_gap_env [JObj demo_object] 0 [] [] [JObj demo_object] = Inr ([], [(''r:a'', demo_object)])"
  by code_simp

lemma validate_accepts:
  assumes "list_or_error ''gaps must be a non-empty list'' True (jget d ''gaps'') = ([], gaps)" and "list_or_error ''events must be a list'' False (jget d ''events'') = ([], events)"
    and "jget d ''schema'' = JStr WORK_GAP_SCHEMA" and "gaps_loop E gaps 0 [] [] gaps = Inr ([], G)"
    and "snd (visit_keys G [] (sort (dict_keys G)) ([], [])) = []"
    and "map_checked (\<lambda>(key, gap). terminal_dep_errors E G key gap (deps_of gap)) G = Inr de"
    and "events_loop E G 1 \<lparr>rp_previous = GENESIS_HASH, rp_states = st, rp_evidence = ev\<rparr> events = Inr ([], R)"
    and "st = map (\<lambda>p. (fst p, ''UNMAPPED'')) G" and "ev = map (\<lambda>p. (fst p, [])) G" and "concat de = []" and "\<forall>(k, gap) \<in> set G. final_errors E R k gap = []"
  shows "\<exists>r. validate_work_gap_snapshot E (JObj d) = Inr r \<and> sr_ok r"
proof -
  have "concat (map (\<lambda>(key, gap). final_errors E R key gap) G) = []" using assms(11) by auto
  then show ?thesis using assms(1-7,10) unfolding validate_work_gap_snapshot_def assms(8,9) by (simp add: snapshot_result_def)
qed

lemma demo_accepted: "\<exists>r. validate_work_gap_snapshot demo_gap_env (JObj demo_snapshot) = Inr r \<and> sr_ok r"
proof -
  have g: "list_or_error ''gaps must be a non-empty list'' True (jget demo_snapshot ''gaps'') = ([], [JObj demo_object])"
    and e: "list_or_error ''events must be a list'' False (jget demo_snapshot ''events'') = ([], demo_moves)" and s: "jget demo_snapshot ''schema'' = JStr WORK_GAP_SCHEMA"
    by (simp_all add: list_or_error_def demo_snapshot_def jget_def)
  have c: "snd (visit_keys [(''r:a'', demo_object)] [] (sort (dict_keys [(''r:a'', demo_object)])) ([], [])) = []" by code_simp
  have f: "final_errors demo_gap_env (demo_replay ''DELIVERED'' demo_rows) ''r:a'' demo_object = []" by code_simp
  have t: "map_checked (\<lambda>(key, gap). terminal_dep_errors demo_gap_env [(''r:a'', demo_object)] key gap (deps_of gap)) [(''r:a'', demo_object)] = Inr [[]]" by code_simp
  show ?thesis by (rule validate_accepts [OF g e s demo_gap_accepted c t demo_moves_replay [unfolded demo_replay_def [of _ "[]"]]]) (use f in simp_all)
qed

theorem snapshot_ready_sound_witness:
  "\<exists>gaps events a b. jget demo_snapshot ''gaps'' = JArr (map JObj gaps) \<and> gaps \<noteq> []
     \<and> event_by demo_gap_env events (snap_key demo_gap_env (hd gaps)) ''IMPLEMENTED'' ''executor'' a
     \<and> event_by demo_gap_env events (snap_key demo_gap_env (hd gaps)) ''VERIFIED'' ''verifier'' b \<and> \<not> json_same a b"
proof -
  obtain r where r: "validate_work_gap_snapshot demo_gap_env (JObj demo_snapshot) = Inr r" "sr_ok r" using demo_accepted by blast
  have p: "plain_repr demo_gap_env" by (simp add: plain_repr_def demo_gap_env_def)
  obtain gaps events where g: "jget demo_snapshot ''gaps'' = JArr (map JObj gaps)" "gaps \<noteq> []"
    and a: "\<forall>g \<in> set gaps. \<exists>a b c. event_by demo_gap_env events (snap_key demo_gap_env g) ''IMPLEMENTED'' ''executor'' a
      \<and> event_by demo_gap_env events (snap_key demo_gap_env g) ''VERIFIED'' ''verifier'' b \<and> \<not> json_same a b"
    using snapshot_ready_sound [OF r p] by blast
  from g(2) a show ?thesis using g(1) by (meson hd_in_set)
qed

section \<open>Defects\<close>

text \<open>The validator accepts a log that leaves a terminal state for any exception, which the ledger itself refuses unless it is a regression.\<close>

lemma validator_leaves_terminal:
  "legal_step ''DELIVERED'' ''BLOCKED''" "wg_state g = ''DELIVERED'' \<Longrightarrow> validate_transition g ''BLOCKED'' \<noteq> Inr ()"
  by (simp_all add: legal_step_def validate_transition_def state_sets)

text \<open>A gap that was approved as not applicable is terminal for the ledger, but no snapshot that holds it is accepted.\<close>

lemma approved_gap_blocks_snapshot:
  assumes "validate_work_gap_snapshot E (JObj d) = Inr r" and "jget d ''gaps'' = JArr gaps" and "g \<in> set (gap_objects gaps)"
    and "jget g ''state'' = JStr ''N_A_APPROVED''"
  shows "\<not> sr_ok r"
proof
  assume "sr_ok r"
  then obtain G where "gaps_loop E gaps 0 [] [] gaps = Inr ([], G)" using validate_ok [OF assms(1)] assms(2) by auto
  then have "snapshot_gap_ok E g" using gaps_loop_Nil assms(3) by blast
  then show False using assms(4) by (simp add: snapshot_gap_ok_def)
qed

end
