(* ===== verification/Async_Queue.thy ===== *)
theory Async_Queue
  imports Loop_Prelude
begin

text \<open>
  The bounded asynchronous queue (\<open>async_bounded_queue.py\<close>). Every coroutine holds the condition's
  lock between two awaits, so its code between them is one atomic step: a \<open>put\<close> enters, may suspend,
  and is later resumed by a notification or by its timeout; \<open>get\<close> and \<open>join\<close> likewise. A world is the
  queue with the suspended producers and a log of the values accepted and delivered; its steps
  interleave freely. \<open>now\<close> and \<open>started\<close> are readings of the monotonic clock.
\<close>

section \<open>Queue\<close>

record 'v QueueItem =
  qi_value :: 'v
  qi_size :: int
  qi_key :: "string option"
  qi_enqueued_at :: rat

datatype aq_error =
    LimitsInvalid | OverloadInvalid | ItemSizeInvalid | QueueClosed | Backpressure string int nat int int
    \<comment> \<open>reason, requested bytes, queued items, queued bytes, milliseconds waited\<close>
  | TaskDoneTooOften | WorkPending

record 'v AsyncBoundedQueue =
  aq_max_items :: int
  aq_max_bytes :: int
  aq_overload :: string
  aq_coalesce :: bool
  aq_items :: "'v QueueItem list"
  aq_bytes :: int
  aq_unfinished :: int
  aq_closed :: bool
  aq_accepted :: int
  aq_coalesced :: int
  aq_rejected :: int
  aq_wait_count :: int

definition AsyncBoundedQueue_init :: "int \<Rightarrow> int \<Rightarrow> string \<Rightarrow> bool \<Rightarrow> aq_error + 'v AsyncBoundedQueue" where
  "AsyncBoundedQueue_init max_items max_bytes overload coalesce =
    (if max_items < 1 \<or> max_bytes < 0 then Inl LimitsInvalid
     else if overload \<notin> {''wait'', ''reject''} then Inl OverloadInvalid
     else Inr \<lparr>aq_max_items = max_items, aq_max_bytes = max_bytes, aq_overload = overload, aq_coalesce = coalesce,
            aq_items = [], aq_bytes = 0, aq_unfinished = 0, aq_closed = False, aq_accepted = 0, aq_coalesced = 0,
            aq_rejected = 0, aq_wait_count = 0\<rparr>)"

definition size_invalid :: "'v AsyncBoundedQueue \<Rightarrow> int \<Rightarrow> bool" where
  "size_invalid q sz \<longleftrightarrow> sz < 0 \<or> (aq_max_bytes q \<noteq> 0 \<and> aq_max_bytes q < sz)"

definition queue_full :: "'v AsyncBoundedQueue \<Rightarrow> int \<Rightarrow> bool" where
  "queue_full q sz \<longleftrightarrow> aq_max_items q \<le> int (length (aq_items q))
     \<or> (aq_max_bytes q \<noteq> 0 \<and> aq_max_bytes q < aq_bytes q + sz)"

definition backpressure :: "'v AsyncBoundedQueue \<Rightarrow> string \<Rightarrow> int \<Rightarrow> int \<Rightarrow> aq_error" where
  "backpressure q reason sz wait_ms = Backpressure reason sz (length (aq_items q)) (aq_bytes q) wait_ms"

fun find_key :: "string \<Rightarrow> 'v QueueItem list \<Rightarrow> nat option" where
  "find_key key [] = None"
| "find_key key (item # items) = (if qi_key item = Some key then Some 0 else map_option Suc (find_key key items))"

record 'v put_request =
  pu_value :: 'v
  pu_size :: int
  pu_key :: "string option"
  pu_timeout :: "rat option"
  pu_started :: rat

record put_receipt =
  pt_coalesced :: bool
  pt_wait_ms :: int

datatype put_outcome = PutDone put_receipt | PutRaised aq_error | PutWaits

definition elapsed_ms :: "rat \<Rightarrow> rat \<Rightarrow> int" where
  "elapsed_ms started now = (if now < started then - \<lfloor>(started - now) * 1000\<rfloor> else \<lfloor>(now - started) * 1000\<rfloor>)"

definition put_timed_out :: "rat \<Rightarrow> 'v put_request \<Rightarrow> 'v AsyncBoundedQueue \<Rightarrow> 'v AsyncBoundedQueue \<times> put_outcome" where
  "put_timed_out now p q =
    (let q' = q\<lparr>aq_rejected := aq_rejected q + 1\<rparr>
     in (q', PutRaised (backpressure q' ''timeout'' (pu_size p) (elapsed_ms (pu_started p) now))))"

definition put_append :: "rat \<Rightarrow> 'v put_request \<Rightarrow> 'v AsyncBoundedQueue \<Rightarrow> 'v AsyncBoundedQueue \<times> put_outcome" where
  "put_append now p q =
    (q\<lparr>aq_items := aq_items q @ [\<lparr>qi_value = pu_value p, qi_size = pu_size p, qi_key = pu_key p, qi_enqueued_at = now\<rparr>],
       aq_bytes := aq_bytes q + pu_size p, aq_unfinished := aq_unfinished q + 1, aq_accepted := aq_accepted q + 1\<rparr>,
     PutDone \<lparr>pt_coalesced = False, pt_wait_ms = elapsed_ms (pu_started p) now\<rparr>)"

definition put_loop :: "rat \<Rightarrow> 'v put_request \<Rightarrow> 'v AsyncBoundedQueue \<Rightarrow> 'v AsyncBoundedQueue \<times> put_outcome" where
  \<comment> \<open>the test of the waiting loop and what follows it, up to the next await\<close>
  "put_loop now p q =
    (if queue_full q (pu_size p) then
       if aq_closed q then (q, PutRaised QueueClosed)
       else if aq_overload q = ''reject''
       then (let q' = q\<lparr>aq_rejected := aq_rejected q + 1\<rparr> in (q', PutRaised (backpressure q' ''full'' (pu_size p) 0)))
       else
         let q' = q\<lparr>aq_wait_count := aq_wait_count q + 1\<rparr>
         in (case pu_timeout p of
               None \<Rightarrow> (q', PutWaits)
             | Some timeout \<Rightarrow>
                 if timeout - (now - pu_started p) \<le> 0 then put_timed_out now p q' else (q', PutWaits))
     else put_append now p q)"

definition put_enter :: "rat \<Rightarrow> 'v put_request \<Rightarrow> 'v AsyncBoundedQueue \<Rightarrow> 'v AsyncBoundedQueue \<times> put_outcome" where
  \<comment> \<open>the call up to its first await\<close>
  "put_enter now p q =
    (if size_invalid q (pu_size p) then (q, PutRaised ItemSizeInvalid)
     else if aq_closed q then (q, PutRaised QueueClosed)
     else case (if aq_coalesce q then (case pu_key p of None \<Rightarrow> None | Some key \<Rightarrow> find_key key (aq_items q)) else None) of
       Some i \<Rightarrow>
         let prior = aq_items q ! i
         in (q\<lparr>aq_items := (aq_items q)[i := \<lparr>qi_value = pu_value p, qi_size = pu_size p, qi_key = pu_key p,
                qi_enqueued_at = qi_enqueued_at prior\<rparr>],
               aq_bytes := aq_bytes q + pu_size p - qi_size prior, aq_coalesced := aq_coalesced q + 1\<rparr>,
             PutDone \<lparr>pt_coalesced = True, pt_wait_ms = 0\<rparr>)
     | None \<Rightarrow> put_loop now p q)"

datatype 'v get_outcome = Got 'v int "string option" | GetRaised aq_error | GetWaits

definition get_step :: "'v AsyncBoundedQueue \<Rightarrow> 'v AsyncBoundedQueue \<times> 'v get_outcome" where
  \<comment> \<open>the body of \<open>get\<close> on entry or after a notification\<close>
  "get_step q = (case aq_items q of
     [] \<Rightarrow> (q, if aq_closed q then GetRaised QueueClosed else GetWaits)
   | item # items \<Rightarrow> (q\<lparr>aq_items := items, aq_bytes := aq_bytes q - qi_size item\<rparr>,
       Got (qi_value item) (qi_size item) (qi_key item)))"

definition task_done :: "'v AsyncBoundedQueue \<Rightarrow> 'v AsyncBoundedQueue \<times> (aq_error + bool)" where
  \<comment> \<open>the value says whether the waiters are notified\<close>
  "task_done q = (if aq_unfinished q < 1 then (q, Inl TaskDoneTooOften)
     else let q' = q\<lparr>aq_unfinished := aq_unfinished q - 1\<rparr> in (q', Inr (aq_unfinished q' = 0)))"

definition join_waits :: "'v AsyncBoundedQueue \<Rightarrow> bool" where
  "join_waits q \<longleftrightarrow> aq_unfinished q \<noteq> 0"

definition close_queue :: "'v AsyncBoundedQueue \<Rightarrow> 'v AsyncBoundedQueue" where
  "close_queue q = q\<lparr>aq_closed := True\<rparr>"

definition reopen_queue :: "'v AsyncBoundedQueue \<Rightarrow> 'v AsyncBoundedQueue \<times> (aq_error + unit)" where
  "reopen_queue q = (if aq_items q \<noteq> [] \<or> aq_unfinished q \<noteq> 0 then (q, Inl WorkPending)
     else (q\<lparr>aq_closed := False\<rparr>, Inr ()))"

record queue_status =
  qs_closed :: bool
  qs_items :: nat
  qs_bytes :: int
  qs_unfinished :: int
  qs_accepted :: int
  qs_coalesced :: int
  qs_rejected :: int
  qs_wait_count :: int
  qs_max_items :: int
  qs_max_bytes :: int
  qs_overload :: string

definition aq_status :: "'v AsyncBoundedQueue \<Rightarrow> queue_status" where
  "aq_status q = \<lparr>qs_closed = aq_closed q, qs_items = length (aq_items q), qs_bytes = aq_bytes q,
     qs_unfinished = aq_unfinished q, qs_accepted = aq_accepted q, qs_coalesced = aq_coalesced q,
     qs_rejected = aq_rejected q, qs_wait_count = aq_wait_count q,
     qs_max_items = aq_max_items q, qs_max_bytes = aq_max_bytes q, qs_overload = aq_overload q\<rparr>"

section \<open>Interleavings\<close>

record 'v aq_world =
  wo_queue :: "'v AsyncBoundedQueue"
  wo_waiting :: "'v put_request list"
  wo_put_log :: "'v list"
  wo_get_log :: "'v list"

definition after_put :: "'v put_request \<Rightarrow> 'v put_request list \<Rightarrow> 'v AsyncBoundedQueue \<times> put_outcome \<Rightarrow> 'v aq_world \<Rightarrow> 'v aq_world" where
  \<comment> \<open>the world after a step of a producer, where the other producers \<open>rest\<close> are suspended\<close>
  "after_put p rest r w = w\<lparr>wo_queue := fst r,
     wo_waiting := (if snd r = PutWaits then p # rest else rest),
     wo_put_log := (case snd r of PutDone rc \<Rightarrow> if pt_coalesced rc then wo_put_log w else wo_put_log w @ [pu_value p] | _ \<Rightarrow> wo_put_log w)\<rparr>"

inductive aq_step :: "'v aq_world \<Rightarrow> 'v aq_world \<Rightarrow> bool" where
  step_put: "aq_step w (after_put p (wo_waiting w) (put_enter now p (wo_queue w)) w)"
| step_resume: "wo_waiting w = before @ p # behind \<Longrightarrow>
    aq_step w (after_put p (before @ behind) (put_loop now p (wo_queue w)) w)"
| step_timeout: "wo_waiting w = before @ p # behind \<Longrightarrow> pu_timeout p \<noteq> None \<Longrightarrow>
    aq_step w (after_put p (before @ behind) (put_timed_out now p (wo_queue w)) w)"
| step_cancel: "wo_waiting w = before @ p # behind \<Longrightarrow> aq_step w (w\<lparr>wo_waiting := before @ behind\<rparr>)"
| step_get: "get_step (wo_queue w) = (q, Got v n k) \<Longrightarrow>
    aq_step w (w\<lparr>wo_queue := q, wo_get_log := wo_get_log w @ [v]\<rparr>)"
| step_task_done: "aq_step w (w\<lparr>wo_queue := fst (task_done (wo_queue w))\<rparr>)"
| step_close: "aq_step w (w\<lparr>wo_queue := close_queue (wo_queue w)\<rparr>)"
| step_reopen: "aq_step w (w\<lparr>wo_queue := fst (reopen_queue (wo_queue w))\<rparr>)"

definition aq_start :: "'v AsyncBoundedQueue \<Rightarrow> 'v aq_world" where
  "aq_start q = \<lparr>wo_queue = q, wo_waiting = [], wo_put_log = [], wo_get_log = []\<rparr>"

section \<open>Invariant\<close>

definition total_size :: "'v QueueItem list \<Rightarrow> int" where
  "total_size items = sum_list (map qi_size items)"

lemma total_size_simps [simp]:
  "total_size [] = 0" "total_size (i # is) = qi_size i + total_size is" "total_size (is @ js) = total_size is + total_size js"
  by (simp_all add: total_size_def)

definition queue_inv :: "'v AsyncBoundedQueue \<Rightarrow> bool" where
  "queue_inv q \<longleftrightarrow> 1 \<le> aq_max_items q \<and> 0 \<le> aq_max_bytes q
     \<and> int (length (aq_items q)) \<le> aq_max_items q \<and> aq_bytes q = total_size (aq_items q)
     \<and> (\<forall>i \<in> set (aq_items q). 0 \<le> qi_size i) \<and> 0 \<le> aq_unfinished q
     \<and> (\<not> aq_coalesce q \<and> aq_max_bytes q \<noteq> 0 \<longrightarrow> aq_bytes q \<le> aq_max_bytes q)"

definition world_inv :: "'v aq_world \<Rightarrow> bool" where
  "world_inv w \<longleftrightarrow> queue_inv (wo_queue w) \<and> (\<forall>p \<in> set (wo_waiting w). \<not> size_invalid (wo_queue w) (pu_size p))
     \<and> aq_accepted (wo_queue w) = int (length (wo_put_log w))
     \<and> int (length (wo_put_log w)) = int (length (wo_get_log w)) + int (length (aq_items (wo_queue w)))
     \<and> (\<not> aq_coalesce (wo_queue w) \<longrightarrow> wo_put_log w = wo_get_log w @ map qi_value (aq_items (wo_queue w)))"

lemma find_key_Some: "find_key key items = Some i \<Longrightarrow> i < length items \<and> qi_key (items ! i) = Some key"
  by (induction items arbitrary: i) (auto split: if_splits)

lemma total_size_update: "i < length items \<Longrightarrow> total_size (items[i := x]) = total_size items + qi_size x - qi_size (items ! i)"
proof (induction items arbitrary: i)
  case (Cons y ys)
  then show ?case by (cases i) auto
qed simp

definition same_limits :: "'v AsyncBoundedQueue \<Rightarrow> 'v AsyncBoundedQueue \<Rightarrow> bool" where
  "same_limits q q' \<longleftrightarrow> aq_max_items q' = aq_max_items q \<and> aq_max_bytes q' = aq_max_bytes q
     \<and> aq_overload q' = aq_overload q \<and> aq_coalesce q' = aq_coalesce q"

lemma put_loop_world:
  assumes w: "world_inv w" and rest: "set rest \<subseteq> set (wo_waiting w)" and p: "\<not> size_invalid (wo_queue w) (pu_size p)"
  shows "world_inv (after_put p rest (put_loop now p (wo_queue w)) w)"
proof (cases "queue_full (wo_queue w) (pu_size p)")
  case True
  then show ?thesis using assms
    by (auto simp: put_loop_def put_timed_out_def after_put_def world_inv_def queue_inv_def size_invalid_def Let_def
        split: option.splits)
next
  case False
  then show ?thesis using assms
    by (auto simp: put_loop_def put_append_def after_put_def world_inv_def queue_inv_def queue_full_def size_invalid_def)
qed

lemma put_enter_world:
  assumes w: "world_inv w"
  shows "world_inv (after_put p (wo_waiting w) (put_enter now p (wo_queue w)) w)"
proof (cases "size_invalid (wo_queue w) (pu_size p) \<or> aq_closed (wo_queue w)")
  case True
  then show ?thesis using w by (auto simp: put_enter_def after_put_def)
next
  case False
  let ?q = "wo_queue w"
  let ?found = "if aq_coalesce ?q then (case pu_key p of None \<Rightarrow> None | Some key \<Rightarrow> find_key key (aq_items ?q)) else None"
  show ?thesis
  proof (cases ?found)
    case None
    then have "put_enter now p ?q = put_loop now p ?q" using False by (simp add: put_enter_def)
    then show ?thesis using put_loop_world [OF w subset_refl] False by simp
  next
    case (Some i)
    then have i: "i < length (aq_items ?q)" "aq_coalesce ?q"
      using find_key_Some by (auto split: if_splits option.splits)
    define new where "new = \<lparr>qi_value = pu_value p, qi_size = pu_size p, qi_key = pu_key p,
      qi_enqueued_at = qi_enqueued_at (aq_items ?q ! i)\<rparr>"
    have sz: "qi_size new = pu_size p" by (simp add: new_def)
    then have "0 \<le> qi_size new" using False by (simp add: size_invalid_def)
    then have nonneg: "\<forall>x \<in> set ((aq_items ?q)[i := new]). 0 \<le> qi_size x"
      using w set_update_subset_insert [of "aq_items ?q" i new] by (auto simp: world_inv_def queue_inv_def)
    have step: "put_enter now p ?q = (?q\<lparr>aq_items := (aq_items ?q)[i := new],
        aq_bytes := aq_bytes ?q + pu_size p - qi_size (aq_items ?q ! i), aq_coalesced := aq_coalesced ?q + 1\<rparr>,
      PutDone \<lparr>pt_coalesced = True, pt_wait_ms = 0\<rparr>)"
      using False Some by (simp add: put_enter_def Let_def new_def)
    show ?thesis unfolding step using w nonneg i total_size_update [OF i(1), of new] sz
      by (simp add: after_put_def world_inv_def queue_inv_def size_invalid_def)
  qed
qed

lemma get_step_world:
  assumes "get_step (wo_queue w) = (q, Got v n k)" and "world_inv w"
  shows "world_inv (w\<lparr>wo_queue := q, wo_get_log := wo_get_log w @ [v]\<rparr>)"
proof -
  obtain item items where "aq_items (wo_queue w) = item # items" "v = qi_value item"
    "q = (wo_queue w)\<lparr>aq_items := items, aq_bytes := aq_bytes (wo_queue w) - qi_size item\<rparr>"
    using assms(1) by (auto simp: get_step_def split: list.splits if_splits)
  then show ?thesis using assms(2)
    by (auto simp: world_inv_def queue_inv_def size_invalid_def)
qed

lemma aq_step_inv: "aq_step w w' \<Longrightarrow> world_inv w \<Longrightarrow> world_inv w'"
proof (induction rule: aq_step.induct)
  case (step_put w p now)
  then show ?case by (rule put_enter_world)
next
  case (step_resume w before p behind now)
  then show ?case by (intro put_loop_world) (auto simp: world_inv_def)
next
  case (step_timeout w before p behind now)
  then show ?case
    by (auto simp: put_timed_out_def after_put_def world_inv_def queue_inv_def size_invalid_def Let_def)
next
  case (step_cancel w before p behind)
  then show ?case by (auto simp: world_inv_def)
next
  case (step_get w q v n k)
  then show ?case by (rule get_step_world)
next
  case (step_task_done w)
  then show ?case by (auto simp: task_done_def world_inv_def queue_inv_def size_invalid_def Let_def)
next
  case (step_close w)
  then show ?case by (auto simp: close_queue_def world_inv_def queue_inv_def size_invalid_def)
next
  case (step_reopen w)
  then show ?case by (auto simp: reopen_queue_def world_inv_def queue_inv_def size_invalid_def)
qed

lemma aq_step_limits: "aq_step w w' \<Longrightarrow> same_limits (wo_queue w) (wo_queue w')"
  by (induction rule: aq_step.induct)
    (auto simp: same_limits_def after_put_def put_enter_def put_loop_def put_timed_out_def put_append_def get_step_def
      task_done_def close_queue_def reopen_queue_def Let_def split: option.splits list.splits if_splits)

definition aq_initial :: "'v aq_world \<Rightarrow> bool" where
  "aq_initial w \<longleftrightarrow> (\<exists>mi mb ov co q. AsyncBoundedQueue_init mi mb ov co = Inr q \<and> w = aq_start q)"

interpretation queue: state_machine aq_initial aq_step world_inv
proof unfold_locales
  show "world_inv w" if "aq_initial w" for w :: "'a aq_world"
    using that by (auto simp: aq_initial_def AsyncBoundedQueue_init_def aq_start_def world_inv_def queue_inv_def split: if_splits)
qed (rule aq_step_inv)

lemma aq_reach_inv:
  assumes "AsyncBoundedQueue_init mi mb ov co = Inr q" and "aq_step\<^sup>*\<^sup>* (aq_start q) w"
  shows "world_inv w \<and> aq_max_items (wo_queue w) = mi \<and> aq_max_bytes (wo_queue w) = mb \<and> aq_coalesce (wo_queue w) = co"
proof -
  have start: "aq_initial (aq_start q)" using assms(1) unfolding aq_initial_def by blast
  have "same_limits (wo_queue (aq_start q)) (wo_queue w)"
    by (rule queue.reach_relates [OF start assms(2), where R = "\<lambda>u v. same_limits (wo_queue u) (wo_queue v)"])
      (auto simp: same_limits_def dest: aq_step_limits)
  with queue.reach_invariant [OF start assms(2)] assms(1) show ?thesis
    by (auto simp: same_limits_def aq_start_def AsyncBoundedQueue_init_def split: if_splits)
qed

section \<open>Property\<close>

text \<open>C22: under every interleaving of producers, consumers, timeouts, cancellations, closing and reopening,
  the queue never holds more items than its limit, its byte count is the sum of the sizes it holds,
  every accepted item is either delivered or still queued, and, unless coalescing is on, the byte limit
  holds and the values are delivered in exactly the order in which they were accepted.\<close>

theorem queue_bounded_fifo:
  assumes "AsyncBoundedQueue_init max_items max_bytes overload coalesce = Inr q" and "aq_step\<^sup>*\<^sup>* (aq_start q) w"
  shows "int (length (aq_items (wo_queue w))) \<le> max_items
    \<and> aq_bytes (wo_queue w) = sum_list (map qi_size (aq_items (wo_queue w)))
    \<and> aq_accepted (wo_queue w) = int (length (wo_get_log w)) + int (length (aq_items (wo_queue w)))
    \<and> (\<not> coalesce \<longrightarrow> (max_bytes = 0 \<or> aq_bytes (wo_queue w) \<le> max_bytes)
        \<and> wo_put_log w = wo_get_log w @ map qi_value (aq_items (wo_queue w)))"
  using aq_reach_inv [OF assms] by (auto simp: world_inv_def queue_inv_def total_size_def)

definition demo_put :: "string \<Rightarrow> int \<Rightarrow> string put_request" where
  "demo_put v n = \<lparr>pu_value = v, pu_size = n, pu_key = Some ''k'', pu_timeout = None, pu_started = 0\<rparr>"

definition demo_queue :: "bool \<Rightarrow> string AsyncBoundedQueue" where
  "demo_queue co = projr (AsyncBoundedQueue_init 1 10 ''wait'' co)"

definition demo_world :: "string aq_world" where
  \<comment> \<open>one producer is served, a second one waits, a consumer takes the item, and the queue is closed\<close>
  "demo_world =
    (let w1 = after_put (demo_put ''x'' 4) [] (put_enter 0 (demo_put ''x'' 4) (demo_queue False)) (aq_start (demo_queue False));
         w2 = after_put (demo_put ''y'' 4) (wo_waiting w1) (put_enter 0 (demo_put ''y'' 4) (wo_queue w1)) w1;
         w3 = w2\<lparr>wo_queue := fst (get_step (wo_queue w2)), wo_get_log := wo_get_log w2 @ [''x'']\<rparr>
     in w3\<lparr>wo_queue := close_queue (wo_queue w3)\<rparr>)"

lemma demo_init: "AsyncBoundedQueue_init 1 10 ''wait'' co = Inr (demo_queue co)"
  by (simp add: demo_queue_def AsyncBoundedQueue_init_def)

lemma demo_world_reachable: "aq_step\<^sup>*\<^sup>* (aq_start (demo_queue False)) demo_world"
proof -
  let ?w0 = "aq_start (demo_queue False)"
  define w1 where "w1 = after_put (demo_put ''x'' 4) (wo_waiting ?w0) (put_enter 0 (demo_put ''x'' 4) (wo_queue ?w0)) ?w0"
  define w2 where "w2 = after_put (demo_put ''y'' 4) (wo_waiting w1) (put_enter 0 (demo_put ''y'' 4) (wo_queue w1)) w1"
  define w3 where "w3 = w2\<lparr>wo_queue := fst (get_step (wo_queue w2)), wo_get_log := wo_get_log w2 @ [''x'']\<rparr>"
  have "aq_step ?w0 w1" "aq_step w1 w2" unfolding w1_def w2_def by (rule step_put)+
  moreover have "get_step (wo_queue w2) = (fst (get_step (wo_queue w2)), Got ''x'' 4 (Some ''k''))"
    unfolding w2_def w1_def by code_simp
  then have "aq_step w2 w3" unfolding w3_def by (rule step_get)
  moreover have "aq_step w3 (w3\<lparr>wo_queue := close_queue (wo_queue w3)\<rparr>)" by (rule step_close)
  moreover have "w3\<lparr>wo_queue := close_queue (wo_queue w3)\<rparr> = demo_world"
    unfolding w3_def w2_def w1_def demo_world_def Let_def by (simp add: aq_start_def)
  ultimately show ?thesis by (metis (no_types) rtranclp.rtrancl_refl rtranclp.rtrancl_into_rtrancl)
qed

theorem queue_bounded_fifo_witness:
  "wo_put_log demo_world = [''x''] \<and> wo_get_log demo_world = [''x''] \<and> length (wo_waiting demo_world) = 1
   \<and> wo_put_log demo_world = wo_get_log demo_world @ map qi_value (aq_items (wo_queue demo_world))"
proof -
  have "wo_put_log demo_world = [''x'']" "wo_get_log demo_world = [''x'']" "length (wo_waiting demo_world) = 1"
    by code_simp+
  with queue_bounded_fifo [OF demo_init demo_world_reachable] show ?thesis by simp
qed

text \<open>A producer that was waiting when the queue was closed is still served if a consumer made room
  first, so a closed queue can accept an item.\<close>

lemma closed_queue_accepts_waiter:
  "aq_closed (wo_queue demo_world)
   \<and> aq_accepted (fst (put_loop 1 (hd (wo_waiting demo_world)) (wo_queue demo_world))) = aq_accepted (wo_queue demo_world) + 1"
  by code_simp

text \<open>A coalesced item replaces its predecessor without a look at the byte limit.\<close>

lemma coalescing_exceeds_bytes:
  "aq_bytes (fst (put_enter 0 (demo_put ''z'' 9)
     ((demo_queue True)\<lparr>aq_max_items := 2, aq_items := [\<lparr>qi_value = ''x'', qi_size = 1, qi_key = Some ''k'', qi_enqueued_at = 0\<rparr>,
        \<lparr>qi_value = ''y'', qi_size = 9, qi_key = None, qi_enqueued_at = 0\<rparr>], aq_bytes := 10\<rparr>))) = 18"
  by code_simp

end
