(* ===== verification/Spec2Isabelle.thy ===== *)
theory Spec2Isabelle
  imports Hub_Scheduler Hub_Governor Hub_Service Inference_Admission Convergence Typed_Recovery
    Control_Policy Flow_Semantics Slot_Lease Plan_Dag Prism_Reducer Prism_Scheduler Prism_Recovery Prism_Budgets
    Work_Gap_Snapshot Async_Queue
begin

text \<open>
  \<^bold>\<open>The program.\<close> \<open>simplicio_loop\<close> runs coding agents in a loop: a hub admits and schedules their jobs, a run is driven until its
  evidence says that it is done, work is split into executions, slots and tasks that are leased, scheduled and reduced to receipts, and what happened is kept in
  hash-chained journals. This development models the coordination core under \<open>src/simplicio_loop/\<close>: the code that decides what may run, when a run is over, what a
  journal proves, and how state is recovered. Each theory names its source file; a definition bears the name of the function or class it translates, with the class
  as a prefix or a suffix \<open>_post_init\<close>, \<open>_init\<close> where Python has methods.

  \<^bold>\<open>Shared theories.\<close>
  \<^item> \<open>Loop_Prelude\<close>: dictionaries in insertion order, errors as left summands, ordering and text functions, JSON values, and two interfaces:
    \<open>normalizer\<close> (a constructor that accepts its own results unchanged) and \<open>state_machine\<close> (an invariant of every reachable state).
  \<^item> \<open>Usage_Ledger\<close>: the interface \<open>usage_ledger\<close> of running totals beside a dictionary of live entries.
  \<^item> \<open>Hash_Chain\<close>: the interface \<open>hash_chain\<close> of journals whose rows carry the digest of the row before.

  \<^bold>\<open>The hub.\<close>
  \<^item> \<open>Hub_Scheduler\<close> (\<open>hub_scheduler.py\<close>): deficit round robin over clients with quotas and a policy. Its totals never drift, its limits hold, no client starves.
  \<^item> \<open>Hub_Governor\<close> (\<open>hub_governor.py\<close>): leases over seven resources, circuit breaker, drain. Reported usage is what the leases hold, budgets hold.
  \<^item> \<open>Hub_Service\<close> (\<open>hub_service.py\<close>): the composition with the durable queue, which is a parameter. A claim strands no work between the three parts.
  \<^item> \<open>Inference_Admission\<close> (\<open>inference_admission.py\<close>): capacity caps, bounded overtaking, single flight, bounded retry.
  \<^item> \<open>Async_Queue\<close> (\<open>async_bounded_queue.py\<close>): all interleavings of producers and consumers at their awaits; bounded, nothing lost, first in first out.

  \<^bold>\<open>Deciding when a run is over.\<close>
  \<^item> \<open>Convergence\<close> (\<open>semantic_convergence.py\<close>): the controller reaches a terminal state, and VERIFIED only with evidence.
  \<^item> \<open>Control_Policy\<close> (\<open>control_policy.py\<close>, \<open>recovery_policy.py\<close>) and \<open>Technical_Debt\<close> (\<open>technical_debt.py\<close>): precedence of loop decisions; the debt
    index refines its ledger.
  \<^item> \<open>Flow_Semantics\<close> (\<open>flow_semantics.py\<close>): exactly when a drain is verified.
  \<^item> \<open>Hbp_Ledger\<close> (\<open>hbp_ledger.py\<close>): canonical JSON, chained receipts, the append-only file and the completion oracle. The oracle says COMPLETE exactly for a sound
    chain with passing evidence for every criterion; what appends wrote verifies; chains are tamper evident.
  \<^item> \<open>Work_Gap_Ledger\<close> and \<open>Work_Gap_Snapshot\<close> (\<open>work_gap_ledger.py\<close>): a delivered gap has earned its state, a regression reaches exactly the dependents, and an accepted
    snapshot was implemented, verified and delivered by three different people for each gap.

  \<^bold>\<open>Plans, slots and tasks.\<close>
  \<^item> \<open>Plan_Dag\<close> (\<open>plan_dag.py\<close>): topological order exactly for acyclic plans, sound waves, drift.
  \<^item> \<open>Slot_Lease\<close> (\<open>slot_lease.py\<close>): leases over a compare-and-swap journal with interference from other processes; fencing.
  \<^item> \<open>Prism_Contracts\<close> (\<open>prism_contracts.py\<close>): validated contracts, hierarchies and the frame codec.
  \<^item> \<open>Prism_Scheduler\<close> (\<open>prism_scheduler.py\<close>): admission controller and scheduler; exclusion, conflicts and dependencies hold in every reachable state, batches stay within
    the limits, execution settles every task.
  \<^item> \<open>Prism_Reducer\<close> (\<open>prism_reducer.py\<close>): the result does not depend on the order of submissions; checkpoints restore.
  \<^item> \<open>Prism_Budgets\<close> (\<open>prism_budgets.py\<close>): pressure at once, relief after stable samples; device leases never overcommit and are fenced when a device is lost.

  \<^bold>\<open>Recovery.\<close>
  \<^item> \<open>Typed_Recovery\<close> (\<open>typed_recovery.py\<close>): typed retry with a chained journal; an effect is applied at most once.
  \<^item> \<open>Prism_Recovery\<close> (\<open>prism_recovery.py\<close>): the framed journal with writes cut short by the operating system; replay, recovered state, reconciliation.

  \<^bold>\<open>How state and effects are written.\<close> An object is a record and each method a function from the state to the new state and its result. An exception is a left summand; a
  method that changes its object before it may raise returns the changed object beside the error. Coroutines are split at their awaits into the steps of an inductive relation, so
  that a theorem about the reachable states covers every interleaving. Files are their bytes or parsed rows. Python integers are \<open>int\<close>, floats \<open>rat\<close>, bytes 8-bit words,
  dictionaries association lists in insertion order; where the code sorts keys before it hashes, objects keep their keys sorted.

  \<^bold>\<open>Parameters.\<close> Clocks, SHA-256, Unicode normalisation, JSON parsing, \<open>repr\<close> of values, host probes, workers and operations, the durable queue and the
  compare-and-swap store are arguments or fields of an environment record. What a theorem needs of them is one of its hypotheses: that a digest does not collide on the values
  involved, that it has 32 bytes, that the parser reads back what was written. Its witness instantiates them with concrete functions.

  \<^bold>\<open>Termination and bounds.\<close> Loops are structural recursion or \<open>function\<close> with a measure: frames and lines by the bytes left, topological orders and closures by the
  elements not yet reached, the search for dependency cycles by the keys not on the trail. A loop of the source that has no bound of its own (the sweeps of \<open>Slot_Lease\<close>) is a
  \<open>partial_function\<close> into \<open>option\<close>, and a theorem states when it returns. No fuel is used.

  \<^bold>\<open>Interfaces and their instances.\<close> \<open>usage_ledger\<close>: scheduler and governor. \<open>normalizer\<close>: ownerships, expectations, results, scheduled tasks, devices.
  \<open>state_machine\<close>: the queue, the prism scheduler, the evidence ledger, the budget governor, the device ledger, the work gap ledger. \<open>hash_chain\<close>: the recovery journal, the
  evidence ledger, the prism journal, the work gap log.

  \<^bold>\<open>Defects.\<close> Where the model shows that the code does not do what it means to, a lemma of a section called Defects, or one beside the component it concerns, states
  the behaviour: for example that relief never comes with a moving clock (\<open>Prism_Budgets\<close>), that a torn last line spoils the evidence ledger (\<open>Hbp_Ledger\<close>), that reconciliation
  may write a regressed fence (\<open>Prism_Recovery\<close>), or that whoever implemented a gap may verify it (\<open>Work_Gap_Ledger\<close>).

  \<^bold>\<open>Not modelled.\<close> The runner and the command line (\<open>runner.py\<close>, \<open>cli_impl.py\<close>), the hub daemon and its agents, the facades over the external mapper store and over
  SQLite, the stage and delivery agents, intake and planning gates, the evidence gates over files (\<open>oracle.py\<close>, \<open>quality_matrix.py\<close>, \<open>completion_auditor.py\<close>), hooks and scripts: they drive
  processes, files, git, GitHub and model providers, and delegate their decisions to the modelled components. Reports that only project a state to JSON, the locks of
  threads, and the hashes that a report carries over itself are left out of the modelled components.
\<close>

end
